(* ===== verification/Prelude.thy ===== *)
theory Prelude
  imports Complex_Main "HOL-Library.AList"
begin

text \<open>
  Shared ground of the development: the JavaScript values that cross an interface (numbers with
  their infinities and NaN, errors), \<open>Map\<close>s with insertion order, extended time stamps, decimal
  spelling of integers, and the simplification collections the component theories use.
\<close>

named_theorems jsmap_simps "lookup, size and key facts of insertion-ordered maps"
named_theorems jsnum_simps "evaluation of comparisons on JavaScript numbers"

subsection \<open>Errors\<close>

text \<open>The built-in error classes the sources throw; the message is carried along.\<close>

datatype js_error = TypeErr string | RangeErr string | PlainErr string

text \<open>The outcome of an operation that mutates its object and then may throw.\<close>

type_synonym ('s, 'r) outcome = "'s \<times> (js_error + 'r)"

text \<open>Sequencing: the first error ends the computation.\<close>

definition andThen :: "'e + 'a \<Rightarrow> ('a \<Rightarrow> 'e + 'b) \<Rightarrow> 'e + 'b" where
  "andThen r f = (case r of Inl e \<Rightarrow> Inl e | Inr x \<Rightarrow> f x)"

lemma andThen_simps [simp]: "andThen (Inl e) f = Inl e" "andThen (Inr x) f = f x"
  by (simp_all add: andThen_def)

lemma andThen_Inr: "andThen r f = Inr y \<longleftrightarrow> (\<exists>x. r = Inr x \<and> f x = Inr y)"
  by (cases r) auto

lemma andThen_assoc: "andThen (andThen r f) g = andThen r (\<lambda>x. andThen (f x) g)"
  by (cases r) simp_all

fun mapE :: "('a \<Rightarrow> 'e + 'b) \<Rightarrow> 'a list \<Rightarrow> 'e + 'b list" where
  "mapE f [] = Inr []"
| "mapE f (x # xs) = andThen (f x) (\<lambda>y. andThen (mapE f xs) (\<lambda>ys. Inr (y # ys)))"

lemma mapE_Inr: "(\<And>x. x \<in> set xs \<Longrightarrow> f x = Inr (g x)) \<Longrightarrow> mapE f xs = Inr (map g xs)"
  by (induction xs) auto

text \<open>A default for an absent value: \<open>v ?? d\<close>.\<close>

definition orElse :: "'a option \<Rightarrow> 'a \<Rightarrow> 'a" where
  "orElse v d = (case v of None \<Rightarrow> d | Some x \<Rightarrow> x)"

lemma orElse_simps [simp]: "orElse None d = d" "orElse (Some x) d = x"
  by (simp_all add: orElse_def)

subsection \<open>Numbers\<close>

text \<open>
  A JavaScript number before validation: a finite value (as the exact rational it denotes), one of
  the two infinities, or NaN. Every comparison with NaN is false. After validation the components
  hold integers (\<open>int\<close>), inside the safe range where double arithmetic is exact.
\<close>

datatype jsnum = Fin rat | PosInf | NegInf | NaN

fun js_less :: "jsnum \<Rightarrow> jsnum \<Rightarrow> bool" where
  "js_less (Fin a) (Fin b) = (a < b)"
| "js_less (Fin a) PosInf = True"
| "js_less NegInf (Fin b) = True"
| "js_less NegInf PosInf = True"
| "js_less _ _ = False"

fun js_le :: "jsnum \<Rightarrow> jsnum \<Rightarrow> bool" where
  "js_le NaN _ = False"
| "js_le _ NaN = False"
| "js_le a b = (a = b \<or> js_less a b)"

fun js_isFinite :: "jsnum \<Rightarrow> bool" where
  "js_isFinite (Fin _) = True"
| "js_isFinite _ = False"

fun js_isInteger :: "jsnum \<Rightarrow> bool" where
  "js_isInteger (Fin q) = (of_int \<lfloor>q\<rfloor> = q)"
| "js_isInteger _ = False"

text \<open>\<open>Number.isSafeInteger\<close>.\<close>

definition MAX_SAFE_INTEGER :: int where "MAX_SAFE_INTEGER = 9007199254740991"

definition js_isSafeInteger :: "jsnum \<Rightarrow> bool" where
  "js_isSafeInteger v \<longleftrightarrow> js_isInteger v \<and> (case v of Fin q \<Rightarrow> \<bar>\<lfloor>q\<rfloor>\<bar> \<le> MAX_SAFE_INTEGER | _ \<Rightarrow> False)"

fun js_floor :: "jsnum \<Rightarrow> int" where
  "js_floor (Fin q) = \<lfloor>q\<rfloor>"
| "js_floor _ = 0"

abbreviation js_int :: "int \<Rightarrow> jsnum" where
  "js_int n \<equiv> Fin (of_int n)"

lemma js_isInteger_int [simp, jsnum_simps]: "js_isInteger (js_int n)"
  by simp

lemma js_floor_int [simp, jsnum_simps]: "js_floor (js_int n) = n"
  by simp

lemma js_isInteger_E:
  assumes "js_isInteger v"
  obtains n where "v = js_int n"
  using assms by (cases v) (auto dest: sym)

lemma js_less_int [simp, jsnum_simps]: "js_less (js_int a) (js_int b) \<longleftrightarrow> a < b"
  by simp

lemma js_le_int [simp, jsnum_simps]: "js_le (js_int a) (js_int b) \<longleftrightarrow> a \<le> b"
  by auto

subsection \<open>Extended time stamps\<close>

text \<open>
  A time in epoch milliseconds, or one of the two infinities the sources use as "never" and
  "already": \<open>Number.POSITIVE_INFINITY\<close> and \<open>Number.NEGATIVE_INFINITY\<close>.
\<close>

datatype 't xtime = Already | At 't | Never

instantiation xtime :: (linorder) linorder
begin

fun less_eq_xtime :: "'a xtime \<Rightarrow> 'a xtime \<Rightarrow> bool" where
  "less_eq_xtime Already _ = True"
| "less_eq_xtime _ Never = True"
| "less_eq_xtime (At a) (At b) = (a \<le> b)"
| "less_eq_xtime (At a) Already = False"
| "less_eq_xtime Never (At b) = False"
| "less_eq_xtime Never Already = False"

definition less_xtime :: "'a xtime \<Rightarrow> 'a xtime \<Rightarrow> bool" where
  "less_xtime a b \<longleftrightarrow> a \<le> b \<and> \<not> b \<le> a"

instance
proof
  fix x y z :: "'a xtime"
  show "x < y \<longleftrightarrow> x \<le> y \<and> \<not> y \<le> x" by (rule less_xtime_def)
  show "x \<le> x" by (cases x) auto
  show "x \<le> y \<Longrightarrow> y \<le> z \<Longrightarrow> x \<le> z" by (cases x; cases y; cases z) auto
  show "x \<le> y \<Longrightarrow> y \<le> x \<Longrightarrow> x = y" by (cases x; cases y) auto
  show "x \<le> y \<or> y \<le> x" by (cases x; cases y) auto
qed

end

lemma xtime_less [simp]:
  "At a < At b \<longleftrightarrow> a < b" "Already < At b" "At a < Never" "Already < (Never :: 't::linorder xtime)"
  "\<not> At a < Already" "\<not> Never < t" "\<not> t < Already" for a b :: "'t::linorder"
  by (auto simp: less_xtime_def) (cases t; simp)+

lemma xtime_le_Already [simp]: "t \<le> Already \<longleftrightarrow> t = Already"
  by (cases t) auto

lemma Never_le_xtime [simp]: "Never \<le> t \<longleftrightarrow> t = Never"
  by (cases t) auto

lemma xtime_le_Never [simp]: "t \<le> Never"
  by (cases t) auto

text \<open>A nullable time as a bound: \<open>t ?? Number.NEGATIVE_INFINITY\<close>.\<close>

fun orAlready :: "'t option \<Rightarrow> 't xtime" where
  "orAlready None = Already"
| "orAlready (Some t) = At t"

lemma orAlready_le_At [simp]:
  "orAlready v \<le> At b \<longleftrightarrow> (case v of None \<Rightarrow> True | Some a \<Rightarrow> a \<le> b)"
  by (cases v) auto

subsection \<open>Insertion-ordered maps\<close>

text \<open>
  A JavaScript \<open>Map\<close>: an association list with distinct keys, oldest key first. Setting a key that
  is present keeps its place; a new key goes last; iteration follows the list.
\<close>

type_synonym ('k, 'v) jsmap = "('k \<times> 'v) list"

abbreviation jm_ok :: "('k, 'v) jsmap \<Rightarrow> bool" where
  "jm_ok m \<equiv> distinct (map fst m)"

definition jm_get :: "('k, 'v) jsmap \<Rightarrow> 'k \<Rightarrow> 'v option" where
  "jm_get = map_of"

definition jm_has :: "('k, 'v) jsmap \<Rightarrow> 'k \<Rightarrow> bool" where
  "jm_has m k \<longleftrightarrow> k \<in> set (map fst m)"

definition jm_set :: "'k \<Rightarrow> 'v \<Rightarrow> ('k, 'v) jsmap \<Rightarrow> ('k, 'v) jsmap" where
  "jm_set = AList.update"

definition jm_delete :: "'k \<Rightarrow> ('k, 'v) jsmap \<Rightarrow> ('k, 'v) jsmap" where
  "jm_delete k m = filter (\<lambda>p. fst p \<noteq> k) m"

text \<open>Deleting the entries that satisfy a test while iterating.\<close>

definition jm_drop :: "('v \<Rightarrow> bool) \<Rightarrow> ('k, 'v) jsmap \<Rightarrow> ('k, 'v) jsmap" where
  "jm_drop P m = filter (\<lambda>p. \<not> P (snd p)) m"

lemma jm_get_Nil [simp, jsmap_simps]: "jm_get [] k = None"
  by (simp add: jm_get_def)

lemma jm_get_Cons [simp, jsmap_simps]:
  "jm_get ((a, b) # m) k = (if k = a then Some b else jm_get m k)"
  by (simp add: jm_get_def)

lemma jm_has_get [jsmap_simps]: "jm_has m k \<longleftrightarrow> jm_get m k \<noteq> None"
  by (simp add: jm_has_def jm_get_def map_of_eq_None_iff)

lemma jm_get_set [simp, jsmap_simps]: "jm_get (jm_set k v m) = (jm_get m)(k \<mapsto> v)"
  by (simp add: jm_set_def jm_get_def AList.update_conv')

lemma jm_get_delete [simp, jsmap_simps]:
  "jm_get (jm_delete k m) k' = (if k' = k then None else jm_get m k')"
  unfolding jm_delete_def jm_get_def by (induction m) auto

lemma jm_get_in: "jm_ok m \<Longrightarrow> jm_get m k = Some v \<longleftrightarrow> (k, v) \<in> set m"
  by (simp add: jm_get_def)

lemma jm_get_drop [jsmap_simps]:
  "jm_ok m \<Longrightarrow> jm_get (jm_drop P m) k =
     (case jm_get m k of None \<Rightarrow> None | Some v \<Rightarrow> if P v then None else Some v)"
  unfolding jm_drop_def jm_get_def
  by (induction m) (auto split: option.splits simp: map_of_eq_None_iff dest: map_of_SomeD)

lemma jm_ok_set [simp, jsmap_simps]: "jm_ok m \<Longrightarrow> jm_ok (jm_set k v m)"
  by (simp add: jm_set_def AList.distinct_update)

lemma jm_ok_delete [simp, jsmap_simps]: "jm_ok m \<Longrightarrow> jm_ok (jm_delete k m)"
  by (simp add: jm_delete_def distinct_map_filter)

lemma jm_ok_drop [simp, jsmap_simps]: "jm_ok m \<Longrightarrow> jm_ok (jm_drop P m)"
  by (simp add: jm_drop_def distinct_map_filter)

lemma length_jm_set [jsmap_simps]:
  "length (jm_set k v m) = (if jm_has m k then length m else Suc (length m))"
  unfolding jm_set_def jm_has_def
  by (metis AList.update_keys length_append_singleton length_map)

lemma length_jm_drop [simp, jsmap_simps]: "length (jm_drop P m) \<le> length m"
  by (simp add: jm_drop_def)

lemma length_jm_delete [simp, jsmap_simps]: "length (jm_delete k m) \<le> length m"
  by (simp add: jm_delete_def)

subsection \<open>Dates and sorting\<close>

text \<open>A \<open>Date\<close> is its time in milliseconds; \<open>None\<close> is the invalid date.\<close>

type_synonym jsdate = "int option"

definition newDate :: "int \<Rightarrow> jsdate" where
  "newDate t = (if \<bar>t\<bar> \<le> 8640000000000000 then Some t else None)"

text \<open>\<open>sort\<close> with a comparator is stable: an equal later element stays later.\<close>

fun jsInsert :: "('a \<Rightarrow> 'a \<Rightarrow> int) \<Rightarrow> 'a \<Rightarrow> 'a list \<Rightarrow> 'a list" where
  "jsInsert cmp x [] = [x]"
| "jsInsert cmp x (y # ys) = (if cmp x y \<le> 0 then x # y # ys else y # jsInsert cmp x ys)"

definition jsSort :: "('a \<Rightarrow> 'a \<Rightarrow> int) \<Rightarrow> 'a list \<Rightarrow> 'a list" where
  "jsSort cmp xs = foldr (jsInsert cmp) xs []"

lemma set_jsInsert [simp]: "set (jsInsert cmp x xs) = insert x (set xs)"
  by (induction xs) auto

lemma set_jsSort [simp]: "set (jsSort cmp xs) = set xs"
  by (induction xs) (simp_all add: jsSort_def)

lemma length_jsSort [simp]: "length (jsSort cmp xs) = length xs"
proof -
  have "length (jsInsert cmp x ys) = Suc (length ys)" for x ys by (induction ys) auto
  then show ?thesis by (induction xs) (simp_all add: jsSort_def)
qed

lemma jsInsert_insort: "jsInsert (\<lambda>a b. f a - f b) x xs = insort_key f x xs"
  by (induction xs) auto

lemma jsSort_key: "jsSort (\<lambda>a b. f a - f b) xs = sort_key f xs"
  by (induction xs) (simp_all add: jsSort_def jsInsert_insort)

subsection \<open>Decimal spelling\<close>

text \<open>\<open>String(n)\<close> for an integer in the safe range.\<close>

definition digit_char :: "nat \<Rightarrow> char" where
  "digit_char d = char_of (48 + d)"

fun show_nat :: "nat \<Rightarrow> string" where
  "show_nat n = (if n < 10 then [digit_char n] else show_nat (n div 10) @ [digit_char (n mod 10)])"

declare show_nat.simps [simp del]

definition show_int :: "int \<Rightarrow> string" where
  "show_int i = (if i < 0 then CHR ''-'' # show_nat (nat (- i)) else show_nat (nat i))"

end
