(* ===== verification/LockoutStore.thy ===== *)
theory LockoutStore
  imports Lockout
begin

text \<open>
  The lockout flow over a store (\<open>createLockout\<close>), the contract of \<open>LockoutStore.update\<close> as a
  locale with the flow's lemmas proved in it, and \<open>MemoryLockoutStore\<close>: the sweep, the cap, and the
  interpretation of the contract on it.
\<close>

section \<open>The flow\<close>

datatype LockoutSubject = SubjString string | SubjNumber jsnum

text \<open>\<open>checkSubject\<close>: a string of 1 to 255 characters or an integer in the safe range.\<close>

fun subjectValid :: "LockoutSubject \<Rightarrow> bool" where
  "subjectValid (SubjString s) = (0 < length s \<and> length s \<le> 255)"
| "subjectValid (SubjNumber n) =
     (js_isInteger n \<and> js_le (js_int (-9007199254740991)) n \<and> js_le n (js_int 9007199254740991))"

text \<open>\<open>String(subject)\<close>, the key of the memory store.\<close>

fun subjectKey :: "LockoutSubject \<Rightarrow> string" where
  "subjectKey (SubjString s) = s"
| "subjectKey (SubjNumber n) = show_int (js_floor n)"

text \<open>
  \<open>LockoutStore.update\<close> takes the clock readings of the call (\<open>'t\<close>), the subject and the \<open>change\<close>
  callback. The callback returns what to write and the number the flow's closure captures.
\<close>

type_synonym change = "LockoutState option \<Rightarrow> LockoutState option \<times> int"
type_synonym ('t, 's) updater = "'t \<Rightarrow> LockoutSubject \<Rightarrow> change \<Rightarrow> 's \<Rightarrow> ('s, int) outcome"

definition checked :: "LockoutSubject \<Rightarrow> ('s \<Rightarrow> ('s, int) outcome) \<Rightarrow> 's \<Rightarrow> ('s, int) outcome" where
  "checked k run s =
     (if subjectValid k then run s else (s, Inl (TypeErr ''invalid lockout subject'')))"

definition beginChange :: "int LockoutPolicy \<Rightarrow> int \<Rightarrow> change" where
  "beginChange policy now current =
     (case current of None \<Rightarrow> (None, 0) | Some st \<Rightarrow> beginCheck st now policy)"

definition refundChange :: change where
  "refundChange current =
     (case current of None \<Rightarrow> (None, 0) | Some st \<Rightarrow> (Some (refundState st), 0))"

definition failChange :: "int \<Rightarrow> change" where
  "failChange now current =
     (case current of None \<Rightarrow> (None, 0) | Some st \<Rightarrow> (Some (failState now st), 0))"

definition lockoutBegin ::
  "('t, 's) updater \<Rightarrow> int LockoutPolicy \<Rightarrow> int \<Rightarrow> 't \<Rightarrow> LockoutSubject \<Rightarrow> 's \<Rightarrow> ('s, int) outcome" where
  "lockoutBegin upd policy now t k = checked k (upd t k (beginChange policy now))"

definition lockoutRefund ::
  "('t, 's) updater \<Rightarrow> 't \<Rightarrow> LockoutSubject \<Rightarrow> 's \<Rightarrow> ('s, int) outcome" where
  "lockoutRefund upd t k = checked k (upd t k refundChange)"

definition lockoutFail ::
  "('t, 's) updater \<Rightarrow> int \<Rightarrow> 't \<Rightarrow> LockoutSubject \<Rightarrow> 's \<Rightarrow> ('s, int) outcome" where
  "lockoutFail upd now t k = checked k (upd t k (failChange now))"

text \<open>A call of the flow with its clock readings, and a sequence of calls.\<close>

datatype 't flowCall =
    CallBegin int 't LockoutSubject
  | CallRefund 't LockoutSubject
  | CallFail int 't LockoutSubject

fun flowStep ::
  "('t, 's) updater \<Rightarrow> int LockoutPolicy \<Rightarrow> 't flowCall \<Rightarrow> 's \<Rightarrow> ('s, int) outcome" where
  "flowStep upd p (CallBegin now t k) s = lockoutBegin upd p now t k s"
| "flowStep upd p (CallRefund t k) s = lockoutRefund upd t k s"
| "flowStep upd p (CallFail now t k) s = lockoutFail upd now t k s"

fun flowRun ::
  "('t, 's) updater \<Rightarrow> int LockoutPolicy \<Rightarrow> 't flowCall list \<Rightarrow> 's \<Rightarrow> 's \<times> (js_error + int) list" where
  "flowRun upd p [] s = (s, [])"
| "flowRun upd p (c # cs) s =
     (let (s1, r) = flowStep upd p c s; (s2, rs) = flowRun upd p cs s1 in (s2, r # rs))"

text \<open>
  The calls a spell before \<open>u\<close> may hold without touching the lock of \<open>key\<close>: any call on any
  subject, except a refund of that subject (the flow refunds only after a check it let through).
\<close>

fun sparesLock :: "('t \<Rightarrow> int) \<Rightarrow> int \<Rightarrow> string \<Rightarrow> 't flowCall \<Rightarrow> bool" where
  "sparesLock time u key (CallBegin now t k) = (time t \<le> now \<and> now < u)"
| "sparesLock time u key (CallRefund t k) = (time t < u \<and> subjectKey k \<noteq> key)"
| "sparesLock time u key (CallFail now t k) = (time t < u)"

text \<open>A check of the subject \<open>key\<close> that was let through.\<close>

fun letThrough :: "string \<Rightarrow> 't flowCall \<Rightarrow> js_error + int \<Rightarrow> bool" where
  "letThrough key (CallBegin now t k) r = (subjectKey k = key \<and> r = Inr 0)"
| "letThrough _ _ _ = False"

subsection \<open>Counters that decide nothing\<close>

text \<open>
  A counter that a check at \<open>now\<close> or later starts again from zero: no lock runs, and the last
  failure is a whole quiet period old (or there is neither a failure time nor a count).
\<close>

definition decidesNothing :: "int LockoutPolicy \<Rightarrow> int \<Rightarrow> LockoutState \<Rightarrow> bool" where
  "decidesNothing p now st \<longleftrightarrow>
     (case lockedUntil st of None \<Rightarrow> True | Some u \<Rightarrow> u \<le> now) \<and>
     (case lastFailureAt st of None \<Rightarrow> failures st = 0 | Some t \<Rightarrow> t + quietResetMs p \<le> now)"

lemma beginCheck_decidesNothing:
  "decidesNothing p now st \<Longrightarrow> now \<le> now' \<Longrightarrow> beginCheck st now' p = beginCheck zeroState now' p"
  by (auto simp: decidesNothing_def beginCheck_def lockRuns_def isQuiet_def zeroState_def Let_def
      split: option.splits)

lemma decidesNothing_not_locked: "decidesNothing p now st \<Longrightarrow> now \<le> now' \<Longrightarrow> \<not> lockRuns st now'"
  by (auto simp: decidesNothing_def lockRuns_def split: option.splits)

section \<open>The store's contract\<close>

text \<open>
  What the flow relies on: one update reads the subject's counter, writes what \<open>change\<close> returned and
  touches no other subject, except that a counter which decides nothing may be forgotten, and that a
  subject without a deciding counter may be refused. \<open>callTime\<close> is the clock when the call starts.
\<close>

locale lockout_store =
  fixes upd :: "('t, 's) updater"
    and lookup :: "'s \<Rightarrow> string \<Rightarrow> LockoutState option"
    and good :: "'s \<Rightarrow> bool"
    and callTime :: "'t \<Rightarrow> int"
    and policy :: "int LockoutPolicy"
  assumes good_upd: "good s \<Longrightarrow> good (fst (upd t k f s))"
    and upd_read: "good s \<Longrightarrow> upd t k f s = (s', Inr r) \<Longrightarrow>
      \<exists>c. r = snd (f c) \<and>
        (c = lookup s (subjectKey k) \<or>
         c = Some zeroState \<and> (\<forall>st. lookup s (subjectKey k) = Some st \<longrightarrow> decidesNothing policy (callTime t) st)) \<and>
        lookup s' (subjectKey k) =
          (case c of None \<Rightarrow> None | Some st \<Rightarrow> (case fst (f c) of None \<Rightarrow> c | Some n \<Rightarrow> Some n))"
    and upd_refused: "good s \<Longrightarrow> upd t k f s = (s', Inl e) \<Longrightarrow> lookup s (subjectKey k) = Some st \<Longrightarrow>
      decidesNothing policy (callTime t) st"
    and upd_other: "good s \<Longrightarrow> j \<noteq> subjectKey k \<Longrightarrow> lookup s j = Some st \<Longrightarrow>
      \<not> decidesNothing policy (callTime t) st \<Longrightarrow> lookup (fst (upd t k f s)) j = Some st"
begin

lemma keeps_deciding_counter:
  assumes "good s" "lookup s (subjectKey k) = Some st" "\<not> decidesNothing policy (callTime t) st"
  shows "\<exists>s'. upd t k f s = (s', Inr (snd (f (Some st)))) \<and>
    lookup s' (subjectKey k) = (case fst (f (Some st)) of None \<Rightarrow> Some st | Some n \<Rightarrow> Some n)"
proof -
  obtain s' r where run: "upd t k f s = (s', r)" by force
  show ?thesis
  proof (cases r)
    case (Inl e)
    with upd_refused [OF assms(1)] run assms(2,3) show ?thesis by blast
  next
    case (Inr w)
    with upd_read [OF assms(1), of t k f s' w] run assms(2,3) show ?thesis by auto
  qed
qed

text \<open>While a lock runs, every check is refused and the counter stays as it is.\<close>

lemma begin_while_locked:
  assumes "good s" "subjectValid k" "callTime t \<le> now"
    and "lookup s (subjectKey k) = Some st" "lockedUntil st = Some u" "now < u"
  shows "\<exists>s'. lockoutBegin upd policy now t k s = (s', Inr (u - now)) \<and>
    lookup s' (subjectKey k) = Some st"
proof -
  have locked: "lockRuns st now" using assms(5,6) by (simp add: lockRuns_def)
  then have "\<not> decidesNothing policy (callTime t) st"
    using assms(3) decidesNothing_not_locked by blast
  from keeps_deciding_counter [OF assms(1,4) this, of "beginChange policy now"] locked assms(2,5)
  show ?thesis by (simp add: lockoutBegin_def checked_def beginChange_def beginCheck_def)
qed

text \<open>The wait a check gets is the one of a store that forgets nothing.\<close>

lemma begin_wait:
  assumes "good s" "callTime t \<le> now"
    and "lockoutBegin upd policy now t k s = (s', Inr w)"
    and "lookup s (subjectKey k) = Some st"
  shows "w = snd (beginCheck st now policy)"
proof -
  have run: "upd t k (beginChange policy now) s = (s', Inr w)"
    using assms(3) by (auto simp: lockoutBegin_def checked_def split: if_splits)
  from upd_read [OF assms(1) run] assms(4) beginCheck_decidesNothing [OF _ assms(2)]
  show ?thesis by (auto simp: beginChange_def)
qed

text \<open>A check that is let through counts: the store then holds the counted state.\<close>

lemma begin_counts:
  assumes "good s" "callTime t \<le> now"
    and "lockoutBegin upd policy now t k s = (s', Inr 0)"
    and "lookup s (subjectKey k) = Some st" "\<not> lockRuns st now"
  shows "lookup s' (subjectKey k) = fst (beginCheck st now policy)"
proof -
  have run: "upd t k (beginChange policy now) s = (s', Inr 0)"
    using assms(3) by (auto simp: lockoutBegin_def checked_def split: if_splits)
  obtain st' where st': "beginCheck st now policy = (Some st', 0)"
    using assms(5) by (auto simp: beginCheck_def Let_def)
  obtain c where c: "c = Some st \<or> c = Some zeroState \<and> decidesNothing policy (callTime t) st"
    and new: "lookup s' (subjectKey k) = (case c of None \<Rightarrow> None
       | Some st \<Rightarrow> (case fst (beginChange policy now c) of None \<Rightarrow> c | Some n \<Rightarrow> Some n))"
    using upd_read [OF assms(1) run] assms(4) by auto
  have "beginChange policy now c = (Some st', 0)"
    using c st' beginCheck_decidesNothing [OF _ assms(2)] by (auto simp: beginChange_def)
  with new c st' show ?thesis by auto
qed

text \<open>No call for one subject changes another subject's running lock.\<close>

lemma other_lock_kept:
  assumes "good s" "j \<noteq> subjectKey k" "lookup s j = Some st" "lockRuns st (callTime t)"
  shows "lookup (fst (lockoutBegin upd policy now t k s)) j = Some st"
    and "lookup (fst (lockoutRefund upd t k s)) j = Some st"
    and "lookup (fst (lockoutFail upd now t k s)) j = Some st"
proof -
  have "\<not> decidesNothing policy (callTime t) st"
    using assms(4) decidesNothing_not_locked by blast
  from upd_other [OF assms(1-3) this] assms(3)
  show "lookup (fst (lockoutBegin upd policy now t k s)) j = Some st"
    and "lookup (fst (lockoutRefund upd t k s)) j = Some st"
    and "lookup (fst (lockoutFail upd now t k s)) j = Some st"
    by (simp_all add: lockoutBegin_def lockoutRefund_def lockoutFail_def checked_def)
qed

lemma good_flowStep: "good s \<Longrightarrow> good (fst (flowStep upd policy c s))"
  by (cases c) (auto simp: lockoutBegin_def lockoutRefund_def lockoutFail_def checked_def good_upd)

lemma lock_survives_step:
  assumes s: "good s" "lookup s key = Some st" "lockedUntil st = Some u"
    and c: "sparesLock callTime u key c"
  shows "(\<exists>st'. lookup (fst (flowStep upd policy c s)) key = Some st' \<and> lockedUntil st' = Some u) \<and>
    \<not> letThrough key c (snd (flowStep upd policy c s))"
proof (cases c)
  case (CallBegin now t k)
  have time: "callTime t \<le> now" "now < u" using c CallBegin by auto
  then have runs: "lockRuns st (callTime t)" using s(3) by (simp add: lockRuns_def)
  show ?thesis
  proof (cases "subjectKey k = key \<and> subjectValid k")
    case True
    with begin_while_locked [OF s(1) _ time(1), of k st u] s time CallBegin show ?thesis by force
  next
    case False
    with other_lock_kept(1) [OF s(1) _ s(2) runs, of k now] s CallBegin show ?thesis
      by (auto simp: lockoutBegin_def checked_def)
  qed
next
  case (CallRefund t k)
  with other_lock_kept(2) [OF s(1) _ s(2), of k t] c s(3) show ?thesis by (auto simp: lockRuns_def)
next
  case (CallFail now t k)
  have runs: "lockRuns st (callTime t)" using c s(3) CallFail by (simp add: lockRuns_def)
  show ?thesis
  proof (cases "subjectKey k = key \<and> subjectValid k")
    case True
    have "\<not> decidesNothing policy (callTime t) st"
      using runs decidesNothing_not_locked by blast
    with keeps_deciding_counter [OF s(1), of k st t "failChange now"] True s CallFail show ?thesis
      by (auto simp: lockoutFail_def checked_def failChange_def failState_def)
  next
    case False
    with other_lock_kept(3) [OF s(1) _ s(2) runs, of k now] s CallFail show ?thesis
      by (auto simp: lockoutFail_def checked_def)
  qed
qed

text \<open>No interleaving of calls lets a check of a locked subject through before the lock ends.\<close>

lemma lock_survives_run:
  "good s \<Longrightarrow> lookup s key = Some st \<Longrightarrow> lockedUntil st = Some u \<Longrightarrow>
    list_all (sparesLock callTime u key) cs \<Longrightarrow> flowRun upd policy cs s = (s', rs) \<Longrightarrow>
    (\<exists>st'. lookup s' key = Some st' \<and> lockedUntil st' = Some u) \<and>
    \<not> list_ex (\<lambda>(c, r). letThrough key c r) (zip cs rs)"
proof (induction cs arbitrary: s st rs)
  case Nil
  then show ?case by simp
next
  case (Cons c cs)
  obtain s1 r where s1: "flowStep upd policy c s = (s1, r)" by force
  obtain rs' where rest: "flowRun upd policy cs s1 = (s', rs')" and rs: "rs = r # rs'"
    using Cons.prems(5) s1 by (auto split: prod.splits)
  have g: "good s1" using good_flowStep [OF Cons.prems(1), of c] s1 by simp
  obtain st1 where "lookup s1 key = Some st1" "lockedUntil st1 = Some u" and no: "\<not> letThrough key c r"
    using lock_survives_step [OF Cons.prems(1-3), of c] Cons.prems(4) s1 by auto
  from Cons.IH [OF g this(1,2) _ rest] Cons.prems(4) no rs show ?case by simp
qed

end

section \<open>The in-memory store\<close>

record lockRow =
  rowState :: LockoutState
  touchedAt :: int

text \<open>
  The private fields of \<open>MemoryLockoutStore\<close>. An absent \<open>maxEntries\<close> is infinity; an absent
  \<open>sweepQuietMs\<close> turns the sweep off.
\<close>

record memLockStore =
  rows :: "(string, lockRow) jsmap"
  createMissing :: bool
  sweepQuietMs :: "int option"
  maxEntries :: "int option"
  fullUntil :: "int xtime"
  lastSweepAt :: int
  updatesSinceSweep :: nat

definition SWEEP_EVERY_UPDATES :: nat where "SWEEP_EVERY_UPDATES = 512"

definition memLockNew ::
  "bool option \<Rightarrow> jsnum option \<Rightarrow> jsnum option \<Rightarrow> int \<Rightarrow> js_error + memLockStore" where
  "memLockNew create quiet cap now =
     (let creates = orElse create True in
      if (case quiet of None \<Rightarrow> False | Some q \<Rightarrow> \<not> (js_isInteger q \<and> js_less (js_int 0) q))
      then Inl (TypeErr ''quietResetMs must be an integer > 0'')
      else if (case cap of None \<Rightarrow> False | Some m \<Rightarrow> \<not> (js_isInteger m \<and> js_le (js_int 1) m))
      then Inl (TypeErr ''maxEntries must be an integer >= 1'')
      else if cap \<noteq> None \<and> quiet = None
      then Inl (TypeErr ''maxEntries needs quietResetMs'')
      else if quiet \<noteq> None \<and> \<not> creates
      then Inl (TypeErr ''quietResetMs is not allowed with createMissing: false'')
      else Inr \<lparr>rows = [], createMissing = creates,
                sweepQuietMs = map_option js_floor quiet, maxEntries = map_option js_floor cap,
                fullUntil = Already, lastSweepAt = (if quiet = None then 0 else now),
                updatesSinceSweep = 0\<rparr>)"

definition droppableAt :: "int option \<Rightarrow> lockRow \<Rightarrow> int xtime" where
  "droppableAt quiet row =
     (case quiet of None \<Rightarrow> Never
      | Some q \<Rightarrow>
          let st = rowState row in
          if lastFailureAt st = None \<and> failures st \<noteq> 0 then Never
          else max (orAlready (lockedUntil st))
                 (max (At (touchedAt row + q))
                      (orAlready (map_option (\<lambda>t. t + q) (lastFailureAt st)))))"

definition droppable :: "int option \<Rightarrow> int \<Rightarrow> lockRow \<Rightarrow> bool" where
  "droppable quiet now row \<longleftrightarrow> droppableAt quiet row \<le> At now"

definition memSweep :: "int \<Rightarrow> memLockStore \<Rightarrow> memLockStore \<times> nat" where
  "memSweep now s =
     (let kept = jm_drop (droppable (sweepQuietMs s) now) (rows s)
      in (s\<lparr>rows := kept, lastSweepAt := now, updatesSinceSweep := 0\<rparr>,
          length (rows s) - length kept))"

definition memMaybeSweep :: "int \<Rightarrow> memLockStore \<Rightarrow> memLockStore" where
  "memMaybeSweep now s =
     (case sweepQuietMs s of None \<Rightarrow> s
      | Some q \<Rightarrow>
          let s1 = s\<lparr>updatesSinceSweep := updatesSinceSweep s + 1\<rparr>;
              due = now - lastSweepAt s \<ge> q
          in if due \<or> updatesSinceSweep s1 \<ge> SWEEP_EVERY_UPDATES then fst (memSweep now s1) else s1)"

definition atCap :: "memLockStore \<Rightarrow> bool" where
  "atCap s \<longleftrightarrow> (case maxEntries s of None \<Rightarrow> False | Some m \<Rightarrow> int (length (rows s)) \<ge> m)"

definition memMakeRoom :: "int \<Rightarrow> memLockStore \<Rightarrow> (memLockStore, unit) outcome" where
  "memMakeRoom now s =
     (if fullUntil s \<le> At now then
        let kept = jm_drop (droppable (sweepQuietMs s) now) (rows s);
            freeAt = fold (\<lambda>p a. min a (droppableAt (sweepQuietMs s) (snd p))) kept Never;
            s1 = s\<lparr>rows := kept\<rparr>
        in if \<not> atCap s1 then (s1\<lparr>fullUntil := Already\<rparr>, Inr ())
           else (s1\<lparr>fullUntil := freeAt\<rparr>, Inl (PlainErr ''lockout store is full''))
      else (s, Inl (PlainErr ''lockout store is full'')))"

definition memTrack :: "int \<Rightarrow> LockoutSubject \<Rightarrow> memLockStore \<Rightarrow> (memLockStore, unit) outcome" where
  "memTrack now k s =
     (let clock = (if sweepQuietMs s = None then 0 else now);
          s1 = memMaybeSweep clock s
      in if jm_has (rows s1) (subjectKey k) then (s1, Inr ())
         else case (if atCap s1 then memMakeRoom clock s1 else (s1, Inr ())) of
                (s2, Inl e) \<Rightarrow> (s2, Inl e)
              | (s2, Inr _) \<Rightarrow>
                  (s2\<lparr>rows := jm_set (subjectKey k) \<lparr>rowState = zeroState, touchedAt = clock\<rparr> (rows s2)\<rparr>,
                   Inr ()))"

definition memGet :: "memLockStore \<Rightarrow> string \<Rightarrow> LockoutState option" where
  "memGet s key = map_option rowState (jm_get (rows s) key)"

text \<open>
  \<open>update\<close> reads the clock when it tracks the subject and again when it stamps the row, so a call
  carries both readings.
\<close>

definition memUpdate :: "(int \<times> int, memLockStore) updater" where
  "memUpdate t k change s =
     (case (if createMissing s then memTrack (fst t) k s else (s, Inr ())) of
        (s1, Inl e) \<Rightarrow> (s1, Inl e)
      | (s1, Inr _) \<Rightarrow>
          let (nxt, r) = change (memGet s1 (subjectKey k))
          in (case (nxt, jm_get (rows s1) (subjectKey k)) of
                (Some st, Some row) \<Rightarrow>
                  (s1\<lparr>rows := jm_set (subjectKey k)
                       (\<lparr>rowState = st,
                         touchedAt = (if sweepQuietMs s1 = None then touchedAt row else snd t)\<rparr>)
                       (rows s1)\<rparr>, Inr r)
              | _ \<Rightarrow> (s1, Inr r)))"

subsection \<open>Invariant and forgetting\<close>

definition memInv :: "int LockoutPolicy \<Rightarrow> memLockStore \<Rightarrow> bool" where
  "memInv p s \<longleftrightarrow> jm_ok (rows s) \<and>
     (\<forall>m. maxEntries s = Some m \<longrightarrow> 1 \<le> m \<and> int (length (rows s)) \<le> m) \<and>
     (\<forall>q. sweepQuietMs s = Some q \<longrightarrow> quietResetMs p \<le> q)"

text \<open>\<open>s'\<close> is \<open>s\<close> with some counters gone that decide nothing at \<open>now\<close>.\<close>

definition forgets :: "int LockoutPolicy \<Rightarrow> int \<Rightarrow> memLockStore \<Rightarrow> memLockStore \<Rightarrow> bool" where
  "forgets p now s s' \<longleftrightarrow>
     (\<forall>k. jm_get (rows s') k = jm_get (rows s) k \<or>
          jm_get (rows s') k = None \<and>
          (\<forall>r. jm_get (rows s) k = Some r \<longrightarrow> decidesNothing p now (rowState r)))"

lemma forgets_refl [simp]: "forgets p now s s"
  by (simp add: forgets_def)

lemma forgets_trans: "forgets p now s s1 \<Longrightarrow> forgets p now s1 s2 \<Longrightarrow> forgets p now s s2"
  unfolding forgets_def by metis

lemma forgets_None: "forgets p now s s' \<Longrightarrow> jm_get (rows s) k = None \<Longrightarrow> jm_get (rows s') k = None"
  unfolding forgets_def by metis

lemma droppable_decidesNothing:
  assumes "droppable quiet now r" "\<forall>q. quiet = Some q \<longrightarrow> quietResetMs p \<le> q"
  shows "decidesNothing p now (rowState r)"
proof -
  obtain q where q: "quiet = Some q" "quietResetMs p \<le> q"
    using assms by (cases quiet) (auto simp: droppable_def droppableAt_def)
  with assms(1) show ?thesis
    by (auto simp: droppable_def droppableAt_def decidesNothing_def Let_def
        split: option.splits if_splits)
qed

lemma memInv_drop:
  assumes "memInv p s" "rows s' = jm_drop (droppable (sweepQuietMs s) now) (rows s)"
    and "maxEntries s' = maxEntries s" "sweepQuietMs s' = sweepQuietMs s"
    and "sweepQuietMs s = None \<or> t = now"
  shows "memInv p s' \<and> forgets p t s s'"
proof -
  note shorter = length_jm_drop [of "droppable (sweepQuietMs s) now" "rows s"]
  have "forgets p t s s'"
    using assms(1,2,5) droppable_decidesNothing [of "sweepQuietMs s" now _ p]
    by (auto simp: forgets_def memInv_def jm_get_drop droppable_def droppableAt_def
        split: option.splits)
  then show ?thesis using assms shorter by (auto simp: memInv_def simp del: length_jm_drop)
qed

lemma memMaybeSweep_spec:
  assumes "memInv p s" "sweepQuietMs s = None \<or> t = now"
  shows "memInv p (memMaybeSweep now s) \<and> forgets p t s (memMaybeSweep now s) \<and>
    maxEntries (memMaybeSweep now s) = maxEntries s \<and> sweepQuietMs (memMaybeSweep now s) = sweepQuietMs s \<and>
    createMissing (memMaybeSweep now s) = createMissing s"
proof (cases "sweepQuietMs s")
  case None
  with assms show ?thesis by (simp add: memMaybeSweep_def)
next
  case (Some q)
  let ?s1 = "s\<lparr>updatesSinceSweep := updatesSinceSweep s + 1\<rparr>"
  have "memInv p ?s1" "forgets p t s ?s1" using assms by (auto simp: memInv_def forgets_def)
  moreover have "memInv p (fst (memSweep now ?s1)) \<and> forgets p t s (fst (memSweep now ?s1))"
    using memInv_drop [OF assms(1), of "fst (memSweep now ?s1)" now t] assms(2)
    by (simp add: memSweep_def Let_def)
  ultimately show ?thesis
    using Some by (simp add: memMaybeSweep_def Let_def memSweep_def)
qed

lemma memMakeRoom_spec:
  assumes "memInv p s" "memMakeRoom now s = (s', r)" "sweepQuietMs s = None \<or> t = now"
  shows "memInv p s' \<and> forgets p t s s' \<and> maxEntries s' = maxEntries s \<and>
    sweepQuietMs s' = sweepQuietMs s \<and> createMissing s' = createMissing s \<and>
    (r = Inr () \<longrightarrow> \<not> atCap s')"
proof (cases "fullUntil s \<le> At now")
  case True
  let ?kept = "s\<lparr>rows := jm_drop (droppable (sweepQuietMs s) now) (rows s)\<rparr>"
  have "memInv p (?kept\<lparr>fullUntil := v\<rparr>) \<and> forgets p t s (?kept\<lparr>fullUntil := v\<rparr>)" for v
    using memInv_drop [OF assms(1), of "?kept\<lparr>fullUntil := v\<rparr>" now t] assms(3) by simp
  with True assms(2) show ?thesis
    by (auto simp: memMakeRoom_def Let_def atCap_def split: if_splits option.splits)
next
  case False
  with assms show ?thesis by (auto simp: memMakeRoom_def)
qed

lemma memInv_insert:
  assumes "memInv p s" "jm_has (rows s) k \<or> \<not> atCap s"
  shows "memInv p (s\<lparr>rows := jm_set k r (rows s)\<rparr>)"
  using assms by (auto simp: memInv_def atCap_def length_jm_set split: option.splits if_splits)

lemma memTrack_refused:
  assumes inv: "memInv p s" and run: "memTrack now k s = (s', Inl e)"
  shows "memInv p s' \<and> forgets p now s s' \<and> jm_get (rows s') (subjectKey k) = None"
proof -
  define clock where "clock = (if sweepQuietMs s = None then 0 else now)"
  then have sync: "sweepQuietMs s = None \<or> now = clock" by simp
  let ?s1 = "memMaybeSweep clock s"
  note sw = memMaybeSweep_spec [OF inv sync]
  from run have "\<not> jm_has (rows ?s1) (subjectKey k)" and room: "memMakeRoom clock ?s1 = (s', Inl e)"
    by (auto simp: memTrack_def clock_def Let_def split: if_splits prod.splits sum.splits)
  with memMakeRoom_spec [OF _ room, of p now] sw sync show ?thesis
    by (auto intro: forgets_trans dest: forgets_None simp: jm_has_get)
qed

lemma memTrack_done:
  assumes inv: "memInv p s" and run: "memTrack now k s = (s', Inr u)"
  shows "memInv p s' \<and> sweepQuietMs s' = sweepQuietMs s \<and>
    (\<exists>s1 stamp. forgets p now s s1 \<and>
      (s' = s1 \<and> jm_has (rows s1) (subjectKey k) \<or>
       \<not> jm_has (rows s1) (subjectKey k) \<and>
       s' = s1\<lparr>rows := jm_set (subjectKey k) \<lparr>rowState = zeroState, touchedAt = stamp\<rparr> (rows s1)\<rparr>))"
proof -
  define clock where "clock = (if sweepQuietMs s = None then 0 else now)"
  then have sync: "sweepQuietMs s = None \<or> now = clock" by simp
  let ?s1 = "memMaybeSweep clock s"
  note sw = memMaybeSweep_spec [OF inv sync]
  show ?thesis
  proof (cases "jm_has (rows ?s1) (subjectKey k)")
    case True
    with run sw show ?thesis by (auto simp: memTrack_def clock_def Let_def)
  next
    case False
    obtain s2 where s2: "(if atCap ?s1 then memMakeRoom clock ?s1 else (?s1, Inr ())) = (s2, Inr ())"
      and s': "s' = s2\<lparr>rows := jm_set (subjectKey k) \<lparr>rowState = zeroState, touchedAt = clock\<rparr> (rows s2)\<rparr>"
      using run False unfolding memTrack_def clock_def [symmetric] Let_def
      by (auto split: prod.splits sum.splits)
    have "memInv p s2 \<and> forgets p now ?s1 s2 \<and> sweepQuietMs s2 = sweepQuietMs s \<and> \<not> atCap s2"
      using s2 sw sync memMakeRoom_spec [of p ?s1 clock s2 "Inr ()" now] by (auto split: if_splits)
    moreover have "forgets p now s s2 \<and> \<not> jm_has (rows s2) (subjectKey k)"
      using calculation sw False by (auto intro: forgets_trans dest: forgets_None simp: jm_has_get)
    ultimately show ?thesis
      using s' memInv_insert [of p s2] by auto
  qed
qed

subsection \<open>The contract holds\<close>

lemma memUpdate_cases:
  assumes run: "memUpdate t k f s = (s', r)"
  obtains (refused) e where "createMissing s" "memTrack (fst t) k s = (s', Inl e)" "r = Inl e"
    | (changed) s1 where
      "createMissing s \<and> memTrack (fst t) k s = (s1, Inr ()) \<or> \<not> createMissing s \<and> s1 = s"
      "r = Inr (snd (f (memGet s1 (subjectKey k))))"
      "s' = s1 \<and> (fst (f (memGet s1 (subjectKey k))) = None \<or> jm_get (rows s1) (subjectKey k) = None) \<or>
       (\<exists>st stamp. fst (f (memGet s1 (subjectKey k))) = Some st \<and> jm_has (rows s1) (subjectKey k) \<and>
         s' = s1\<lparr>rows := jm_set (subjectKey k) \<lparr>rowState = st, touchedAt = stamp\<rparr> (rows s1)\<rparr>)"
proof -
  obtain s1 v where tr: "(if createMissing s then memTrack (fst t) k s else (s, Inr ())) = (s1, v)" by force
  show thesis
  proof (cases v)
    case (Inl e)
    with tr run show thesis by (intro refused [of e]) (auto simp: memUpdate_def split: if_splits)
  next
    case (Inr u)
    obtain nxt w where f: "f (memGet s1 (subjectKey k)) = (nxt, w)" by force
    from Inr tr run f have r: "r = Inr w"
      and s': "s' = (case (nxt, jm_get (rows s1) (subjectKey k)) of
                (Some st, Some row) \<Rightarrow>
                  s1\<lparr>rows := jm_set (subjectKey k)
                       (\<lparr>rowState = st,
                         touchedAt = (if sweepQuietMs s1 = None then touchedAt row else snd t)\<rparr>)
                       (rows s1)\<rparr>
              | _ \<Rightarrow> s1)"
      by (auto simp: memUpdate_def split: option.splits)
    show thesis
    proof (rule changed [of s1])
      show "createMissing s \<and> memTrack (fst t) k s = (s1, Inr ()) \<or> \<not> createMissing s \<and> s1 = s"
        using tr Inr by (auto split: if_splits)
      show "r = Inr (snd (f (memGet s1 (subjectKey k))))" using r f by simp
      show "s' = s1 \<and> (fst (f (memGet s1 (subjectKey k))) = None \<or> jm_get (rows s1) (subjectKey k) = None) \<or>
       (\<exists>st stamp. fst (f (memGet s1 (subjectKey k))) = Some st \<and> jm_has (rows s1) (subjectKey k) \<and>
         s' = s1\<lparr>rows := jm_set (subjectKey k) \<lparr>rowState = st, touchedAt = stamp\<rparr> (rows s1)\<rparr>)"
        using s' f by (auto simp: jm_has_get split: option.splits)
    qed
  qed
qed

lemma maxEntries_kept:
  "maxEntries (memMaybeSweep now s) = maxEntries s"
  "maxEntries (fst (memMakeRoom now s)) = maxEntries s"
  by (simp_all add: memMaybeSweep_def memSweep_def memMakeRoom_def Let_def split: option.split)

lemma memTrack_maxEntries: "maxEntries (fst (memTrack now k s)) = maxEntries s"
proof -
  let ?s1 = "memMaybeSweep (if sweepQuietMs s = None then 0 else now) s"
  obtain s2 r where "memMakeRoom (if sweepQuietMs s = None then 0 else now) ?s1 = (s2, r)" by force
  with maxEntries_kept(2) [of "if sweepQuietMs s = None then 0 else now" ?s1] show ?thesis
    by (simp add: memTrack_def Let_def maxEntries_kept(1) split: sum.split)
qed

lemma memUpdate_maxEntries: "maxEntries (fst (memUpdate t k f s)) = maxEntries s"
proof -
  obtain s' r where run: "memUpdate t k f s = (s', r)" by force
  from run show ?thesis
    using memTrack_maxEntries [of "fst t" k s] run by (cases rule: memUpdate_cases) auto
qed

definition memSameOrGone :: "int LockoutPolicy \<Rightarrow> int \<Rightarrow> memLockStore \<Rightarrow> memLockStore \<Rightarrow> string \<Rightarrow> bool" where
  "memSameOrGone p now s s' j \<longleftrightarrow>
     memGet s' j = memGet s j \<or> (\<forall>st. memGet s j = Some st \<longrightarrow> decidesNothing p now st)"

lemma forgets_sameOrGone: "forgets p now s s' \<Longrightarrow> memSameOrGone p now s s' j"
  by (auto simp: forgets_def memSameOrGone_def memGet_def dest: spec [of _ j])

lemma memUpdate_tracked:
  assumes inv: "memInv p s"
    and s1: "createMissing s \<and> memTrack (fst t) k s = (s1, Inr ()) \<or> \<not> createMissing s \<and> s1 = s"
  shows "memInv p s1 \<and> (\<forall>j. j \<noteq> subjectKey k \<longrightarrow> memSameOrGone p (fst t) s s1 j) \<and>
    (memGet s1 (subjectKey k) = memGet s (subjectKey k) \<or>
     memGet s1 (subjectKey k) = Some zeroState \<and>
       (\<forall>st. memGet s (subjectKey k) = Some st \<longrightarrow> decidesNothing p (fst t) st))"
  using s1
proof
  assume "createMissing s \<and> memTrack (fst t) k s = (s1, Inr ())"
  from memTrack_done [OF inv conjunct2 [OF this]]
  obtain s0 stamp where "memInv p s1" and f: "forgets p (fst t) s s0"
    and alt: "s1 = s0 \<and> jm_has (rows s0) (subjectKey k) \<or>
       \<not> jm_has (rows s0) (subjectKey k) \<and>
       s1 = s0\<lparr>rows := jm_set (subjectKey k) \<lparr>rowState = zeroState, touchedAt = stamp\<rparr> (rows s0)\<rparr>"
    by blast
  have others: "j \<noteq> subjectKey k \<Longrightarrow> memGet s1 j = memGet s0 j" for j
    using alt by (auto simp: memGet_def)
  from f have key: "jm_get (rows s0) (subjectKey k) = jm_get (rows s) (subjectKey k) \<or>
      jm_get (rows s0) (subjectKey k) = None \<and>
      (\<forall>r. jm_get (rows s) (subjectKey k) = Some r \<longrightarrow> decidesNothing p (fst t) (rowState r))"
    by (auto simp: forgets_def)
  have "memSameOrGone p (fst t) s s1 j" if "j \<noteq> subjectKey k" for j
    using forgets_sameOrGone [OF f, of j] others [OF that] by (simp add: memSameOrGone_def)
  moreover have "memGet s1 (subjectKey k) = memGet s (subjectKey k) \<or>
     memGet s1 (subjectKey k) = Some zeroState \<and>
       (\<forall>st. memGet s (subjectKey k) = Some st \<longrightarrow> decidesNothing p (fst t) st)"
    using alt
  proof
    assume "s1 = s0 \<and> jm_has (rows s0) (subjectKey k)"
    with key show ?thesis by (auto simp: memGet_def jm_has_get)
  next
    assume new: "\<not> jm_has (rows s0) (subjectKey k) \<and>
       s1 = s0\<lparr>rows := jm_set (subjectKey k) \<lparr>rowState = zeroState, touchedAt = stamp\<rparr> (rows s0)\<rparr>"
    then have "memGet s1 (subjectKey k) = Some zeroState" by (simp add: memGet_def)
    moreover have "memGet s (subjectKey k) = Some st \<Longrightarrow> decidesNothing p (fst t) st" for st
      using key new by (auto simp: memGet_def jm_has_get)
    ultimately show ?thesis by simp
  qed
  ultimately show ?thesis using \<open>memInv p s1\<close> by blast
qed (use inv in \<open>simp add: memSameOrGone_def\<close>)

lemma memInv_memUpdate:
  assumes inv: "memInv p s"
  shows "memInv p (fst (memUpdate t k f s))"
proof -
  obtain s' r where run: "memUpdate t k f s = (s', r)" by force
  from run show ?thesis
  proof (cases rule: memUpdate_cases)
    case (refused e)
    with memTrack_refused [OF inv refused(2)] run show ?thesis by simp
  next
    case (changed s1)
    with memUpdate_tracked [OF inv changed(1)] memInv_insert [of p s1] run show ?thesis by auto
  qed
qed

interpretation memStore: lockout_store memUpdate memGet "memInv p" fst p for p
proof unfold_locales
  fix s t k f
  assume "memInv p s"
  then show "memInv p (fst (memUpdate t k f s))" by (rule memInv_memUpdate)
next
  fix s :: memLockStore and t :: "int \<times> int" and k f s' r
  assume inv: "memInv p s" and run: "memUpdate t k f s = (s', Inr r)"
  from run show "\<exists>c. r = snd (f c) \<and>
        (c = memGet s (subjectKey k) \<or>
         c = Some zeroState \<and> (\<forall>st. memGet s (subjectKey k) = Some st \<longrightarrow> decidesNothing p (fst t) st)) \<and>
        memGet s' (subjectKey k) =
          (case c of None \<Rightarrow> None | Some st \<Rightarrow> (case fst (f c) of None \<Rightarrow> c | Some n \<Rightarrow> Some n))"
  proof (cases rule: memUpdate_cases)
    case (changed s1)
    let ?c = "memGet s1 (subjectKey k)"
    have "memGet s' (subjectKey k) =
          (case ?c of None \<Rightarrow> None | Some st \<Rightarrow> (case fst (f ?c) of None \<Rightarrow> ?c | Some n \<Rightarrow> Some n))"
      using changed(3) by (auto simp: memGet_def jm_has_get split: option.splits)
    with changed(2) memUpdate_tracked [OF inv changed(1)] show ?thesis
      by (intro exI [of _ ?c]) auto
  qed simp
next
  fix s :: memLockStore and t :: "int \<times> int" and k f s' e st
  assume inv: "memInv p s" and run: "memUpdate t k f s = (s', Inl e)"
    and st: "memGet s (subjectKey k) = Some st"
  from run show "decidesNothing p (fst t) st"
  proof (cases rule: memUpdate_cases)
    case (refused e')
    have "memSameOrGone p (fst t) s s' (subjectKey k)" "memGet s' (subjectKey k) = None"
      using memTrack_refused [OF inv refused(2)] forgets_sameOrGone by (auto simp: memGet_def)
    with st show ?thesis by (simp add: memSameOrGone_def)
  qed simp
next
  fix s :: memLockStore and t :: "int \<times> int" and j k f st
  assume inv: "memInv p s" and j: "j \<noteq> subjectKey k" "memGet s j = Some st"
    "\<not> decidesNothing p (fst t) st"
  obtain s' r where run: "memUpdate t k f s = (s', r)" by force
  have "memGet s' j = Some st"
    using run
  proof (cases rule: memUpdate_cases)
    case (refused e)
    have "memSameOrGone p (fst t) s s' j"
      using memTrack_refused [OF inv refused(2)] forgets_sameOrGone by blast
    with j show ?thesis by (simp add: memSameOrGone_def)
  next
    case (changed s1)
    have "memSameOrGone p (fst t) s s1 j" using memUpdate_tracked [OF inv changed(1)] j(1) by blast
    with j changed(3) show ?thesis by (auto simp: memSameOrGone_def memGet_def)
  qed
  with run show "memGet (fst (memUpdate t k f s)) j = Some st" by simp
qed

section \<open>Properties of the flow over the in-memory store\<close>

lemma memInv_flowRun: "memInv p s \<Longrightarrow> flowRun memUpdate p cs s = (s', rs) \<Longrightarrow> memInv p s'"
proof (induction cs arbitrary: s rs)
  case Nil
  then show ?case by simp
next
  case (Cons c cs)
  with memStore.good_flowStep [OF Cons.prems(1), of c] show ?case by (auto split: prod.splits)
qed

lemma flowRun_maxEntries: "flowRun memUpdate p cs s = (s', rs) \<Longrightarrow> maxEntries s' = maxEntries s"
proof (induction cs arbitrary: s rs)
  case Nil
  then show ?case by simp
next
  case (Cons c cs)
  have "maxEntries (fst (flowStep memUpdate p c s)) = maxEntries s"
    by (cases c) (auto simp: lockoutBegin_def lockoutRefund_def lockoutFail_def checked_def
        memUpdate_maxEntries)
  with Cons show ?case by (auto split: prod.splits)
qed

lemma memLockNew_inv:
  assumes "memLockNew create quiet cap now = Inr s"
    and "case quiet of None \<Rightarrow> True | Some q \<Rightarrow> quietResetMs p \<le> js_floor q"
  shows "memInv p s \<and> maxEntries s = map_option js_floor cap"
  using assms by (auto simp: memLockNew_def memInv_def Let_def split: if_splits option.splits
      elim!: js_isInteger_E)

text \<open>
  C1: While a subject is locked, no sequence of \<open>begin\<close>, \<open>refund\<close> and \<open>fail\<close> calls for any subjects
  lets a check of that subject through before the lock ends, and the lock itself stays in the store;
  sweeps, the cap and a full store's refusals change nothing about it. Only a refund of the locked
  subject is left out.
\<close>

theorem memory_lock_survives:
  assumes "memInv p s" and "memGet s key = Some st" and "lockedUntil st = Some u"
    and "list_all (sparesLock fst u key) cs" and "flowRun memUpdate p cs s = (s', rs)"
  shows "(\<exists>st'. memGet s' key = Some st' \<and> lockedUntil st' = Some u) \<and>
    \<not> list_ex (\<lambda>(c, r). letThrough key c r) (zip cs rs)"
  using assms by (rule memStore.lock_survives_run)

definition exPolicy :: "int LockoutPolicy" where
  "exPolicy = \<lparr>freeFailures = 0, firstLockMs = 10000, maxLockMs = 10000, quietResetMs = 1000\<rparr>"

definition exStore :: memLockStore where
  "exStore = \<lparr>rows = [(''a'', \<lparr>rowState = \<lparr>failures = 1, lockedUntil = Some 10000, lastFailureAt = Some 0\<rparr>,
                               touchedAt = 0\<rparr>)],
      createMissing = True, sweepQuietMs = Some 1000, maxEntries = Some 1, fullUntil = Already,
      lastSweepAt = 0, updatesSinceSweep = 1\<rparr>"

definition exCalls :: "(int \<times> int) flowCall list" where
  "exCalls = [CallBegin 5 (5, 5) (SubjString ''b''), CallBegin 2000 (2000, 2000) (SubjString ''a''),
     CallFail 3000 (3000, 3000) (SubjString ''a'')]"

theorem memory_lock_survives_witness:
  "\<not> list_ex (\<lambda>(c, r). letThrough ''a'' c r) (zip exCalls (snd (flowRun memUpdate exPolicy exCalls exStore)))"
proof -
  have "memInv exPolicy exStore" by (simp add: memInv_def exStore_def exPolicy_def)
  moreover have "list_all (sparesLock fst 10000 ''a'') exCalls" by (simp add: exCalls_def)
  moreover have "memGet exStore ''a'' = Some \<lparr>failures = 1, lockedUntil = Some 10000, lastFailureAt = Some 0\<rparr>"
    by (simp add: memGet_def exStore_def)
  ultimately show ?thesis
    using memory_lock_survives [of exPolicy exStore "''a''" _ 10000 exCalls] by (metis LockoutState.select_convs(2) prod.collapse)
qed

text \<open>
  C3: A store built with \<open>maxEntries\<close> never holds more counters than that, whatever calls arrive.
\<close>

theorem memory_store_bounded:
  assumes "memLockNew create (Some q) (Some cap) t0 = Inr s0" and "quietResetMs p \<le> js_floor q"
    and "flowRun memUpdate p cs s0 = (s, rs)"
  shows "int (length (rows s)) \<le> js_floor cap"
proof -
  from memLockNew_inv [OF assms(1), of p] assms(2)
  have "memInv p s0" and cap: "maxEntries s0 = Some (js_floor cap)" by simp_all
  then have "memInv p s" using assms(3) memInv_flowRun by blast
  moreover have "maxEntries s = maxEntries s0" using assms(3) by (rule flowRun_maxEntries)
  ultimately show ?thesis using cap by (simp add: memInv_def)
qed

theorem memory_store_bounded_witness:
  "length (rows (fst (flowRun memUpdate exPolicy
     [CallBegin 0 (0, 0) (SubjString ''a''), CallBegin 0 (0, 0) (SubjString ''b''),
      CallBegin 1 (1, 1) (SubjString ''c'')]
     (projr (memLockNew None (Some (Fin 1000)) (Some (Fin 2)) 0))))) \<le> 2"
proof -
  let ?s0 = "projr (memLockNew None (Some (Fin 1000)) (Some (Fin 2)) 0)"
  have new: "memLockNew None (Some (Fin 1000)) (Some (Fin 2)) 0 = Inr ?s0"
    by (simp add: memLockNew_def)
  have quiet: "quietResetMs exPolicy \<le> js_floor (Fin 1000)" by (simp add: exPolicy_def)
  show ?thesis
    using memory_store_bounded [OF new quiet prod.collapse [symmetric]]
    by (simp del: flowRun.simps)
qed

text \<open>
  C4: Forgetting is invisible to a check: the wait that \<open>begin\<close> returns for a held subject is the one
  its stored counter gives, even when a sweep drops that counter in the same call.
\<close>

theorem memory_begin_wait:
  assumes "memInv p s" and "fst t \<le> now"
    and "lockoutBegin memUpdate p now t k s = (s', Inr w)"
    and "memGet s (subjectKey k) = Some st"
  shows "w = snd (beginCheck st now p)"
  using assms by (rule memStore.begin_wait)

theorem memory_begin_wait_witness:
  "snd (lockoutBegin memUpdate exPolicy 400 (400, 400) (SubjString ''a'') exStore) = Inr 9600 \<and>
   9600 = snd (beginCheck \<lparr>failures = 1, lockedUntil = Some 10000, lastFailureAt = Some 0\<rparr> 400 exPolicy)"
proof -
  have inv: "memInv exPolicy exStore" by (simp add: memInv_def exStore_def exPolicy_def)
  have st: "memGet exStore (subjectKey (SubjString ''a'')) =
      Some \<lparr>failures = 1, lockedUntil = Some 10000, lastFailureAt = Some 0\<rparr>"
    by (simp add: memGet_def exStore_def)
  have r: "snd (lockoutBegin memUpdate exPolicy 400 (400, 400) (SubjString ''a'') exStore) = Inr 9600"
    by code_simp
  then have run: "lockoutBegin memUpdate exPolicy 400 (400, 400) (SubjString ''a'') exStore =
      (fst (lockoutBegin memUpdate exPolicy 400 (400, 400) (SubjString ''a'') exStore), Inr 9600)"
    by (metis prod.collapse)
  have "fst (400::int, 400::int) \<le> 400" by simp
  from memory_begin_wait [OF inv this run st] r show ?thesis by simp
qed

text \<open>
  The cap's \<open>fullUntil\<close> bound is not kept by a refund: with one slot, a refund clears the lock of
  the held subject, its counter then decides nothing from 1001 on, and yet a new subject is still
  refused at 1500.
\<close>

theorem memory_full_after_refund:
  "let run = flowRun memUpdate exPolicy
       [CallBegin 0 (0, 0) (SubjString ''a''), CallBegin 0 (0, 0) (SubjString ''b''),
        CallRefund (1, 1) (SubjString ''a''), CallBegin 1000 (1000, 1000) (SubjString ''b''),
        CallBegin 1500 (1500, 1500) (SubjString ''b'')]
       \<lparr>rows = [], createMissing = True, sweepQuietMs = Some 1000, maxEntries = Some 1,
         fullUntil = Already, lastSweepAt = 0, updatesSinceSweep = 0\<rparr>
   in snd run ! 4 = Inl (PlainErr ''lockout store is full'') \<and>
      map (\<lambda>p. droppableAt (Some 1000) (snd p)) (rows (fst run)) = [At 1001]"
  by code_simp

end
