(* ===== verification/RateLimit.thy ===== *)
theory RateLimit
  imports Prelude
begin

text \<open>
  \<open>platform/rate-limit/memory.ts\<close>: the in-process sliding-window limiter. One bucket per key holds
  the times of its accepted requests; \<open>check\<close> prunes, counts and records, \<open>sweep\<close> retires idle
  buckets, \<open>makeRoom\<close> enforces the cap. Times are exact rationals in milliseconds. The main results:
  no window of \<open>windowMs\<close> ever holds more than \<open>limit\<close> granted requests of a key, whatever the other
  keys do; a refusal's \<open>retryAfterMs\<close> is exact; buckets and their events stay within their bounds.
\<close>

section \<open>The limiter\<close>

record RateLimitDecision =
  allowed :: bool
  remaining :: int
  retryAfterMs :: rat
  resetAfterMs :: rat
  dLimit :: int
  dAt :: "rat option"

record EventBucket =
  events :: "rat list"
  seenAt :: rat

text \<open>The private fields of \<open>MemoryRateLimiter\<close>; an absent \<open>maxBuckets\<close> is infinity.\<close>

record MemoryRateLimiter =
  buckets :: "(string, EventBucket) jsmap"
  windowMs :: rat
  limitN :: int
  idleMs :: rat
  maxBuckets :: "int option"
  fullTill :: "rat xtime"
  sweptAt :: rat
  checksSinceSweep :: nat

definition DEFAULT_IDLE_MS :: rat where "DEFAULT_IDLE_MS = 10 * 60000"

definition SWEEP_EVERY_CHECKS :: nat where "SWEEP_EVERY_CHECKS = 512"

text \<open>
  The constructor: \<open>windowMs\<close> and \<open>limit\<close> are finite numbers, the two optional numbers any. \<open>now\<close> is
  the reading that seeds the sweep.
\<close>

definition rateLimiterNew ::
  "rat \<Rightarrow> rat \<Rightarrow> jsnum option \<Rightarrow> jsnum option \<Rightarrow> rat \<Rightarrow> js_error + MemoryRateLimiter" where
  "rateLimiterNew window limit idle cap now =
     (if \<not> window > 0 then Inl (PlainErr ''windowMs must be > 0'')
      else if \<not> limit \<ge> 1 then Inl (PlainErr ''limit must be >= 1'')
      else case orElse idle (Fin DEFAULT_IDLE_MS) of
        Fin i \<Rightarrow>
          if i < 0 then Inl (PlainErr ''idleMs must be a finite number >= 0'')
          else (let maxB = orElse cap PosInf in
            if \<not> (maxB = PosInf \<or> js_isInteger maxB \<and> js_le (js_int 1) maxB)
            then Inl (PlainErr ''maxBuckets must be an integer >= 1'')
            else Inr \<lparr>buckets = [], windowMs = window, limitN = \<lfloor>limit\<rfloor>, idleMs = i,
                      maxBuckets = (if maxB = PosInf then None else Some (js_floor maxB)),
                      fullTill = Already, sweptAt = now, checksSinceSweep = 0\<rparr>)
      | _ \<Rightarrow> Inl (PlainErr ''idleMs must be a finite number >= 0''))"

text \<open>\<open>firstLiveIndex\<close>: the binary search, with its loop variables.\<close>

function liveSearch :: "rat list \<Rightarrow> rat \<Rightarrow> nat \<Rightarrow> nat \<Rightarrow> nat" where
  "liveSearch es cutoff low high =
     (if low < high then
        let mid = (low + high) div 2 in
        if es ! mid \<le> cutoff then liveSearch es cutoff (mid + 1) high else liveSearch es cutoff low mid
      else low)"
  by pat_completeness auto
termination
  by (relation "measure (\<lambda>(es, cutoff, low, high). high - low)") auto

declare liveSearch.simps [simp del]

definition firstLiveIndex :: "rat list \<Rightarrow> rat \<Rightarrow> nat" where
  "firstLiveIndex es cutoff = liveSearch es cutoff 0 (length es)"

definition newest :: "rat list \<Rightarrow> rat option" where
  "newest es = (if es = [] then None else Some (last es))"

definition idleBucket :: "MemoryRateLimiter \<Rightarrow> rat \<Rightarrow> EventBucket \<Rightarrow> bool" where
  "idleBucket s now b \<longleftrightarrow> seenAt b \<le> now - idleMs s \<and>
     (case newest (events b) of None \<Rightarrow> True | Some n \<Rightarrow> n \<le> now - windowMs s - idleMs s)"

definition rateSweep :: "rat \<Rightarrow> MemoryRateLimiter \<Rightarrow> MemoryRateLimiter \<times> nat" where
  "rateSweep now s =
     (let kept = jm_drop (idleBucket s now) (buckets s)
      in (s\<lparr>buckets := kept, sweptAt := now, checksSinceSweep := 0\<rparr>,
          length (buckets s) - length kept))"

definition rateMaybeSweep :: "rat \<Rightarrow> MemoryRateLimiter \<Rightarrow> MemoryRateLimiter" where
  "rateMaybeSweep now s =
     (let s1 = s\<lparr>checksSinceSweep := checksSinceSweep s + 1\<rparr>;
          due = now - sweptAt s \<ge> windowMs s
      in if \<not> due \<and> checksSinceSweep s1 < SWEEP_EVERY_CHECKS then s1 else fst (rateSweep now s1))"

definition emptyWindow :: "MemoryRateLimiter \<Rightarrow> rat \<Rightarrow> EventBucket \<Rightarrow> bool" where
  "emptyWindow s now b \<longleftrightarrow>
     (case newest (events b) of None \<Rightarrow> True | Some n \<Rightarrow> n \<le> now - windowMs s)"

definition limiterFull :: "MemoryRateLimiter \<Rightarrow> bool" where
  "limiterFull s \<longleftrightarrow> (case maxBuckets s of None \<Rightarrow> False | Some m \<Rightarrow> int (length (buckets s)) \<ge> m)"

text \<open>
  \<open>makeRoom\<close>: \<open>None\<close> when a slot was freed, otherwise the refusal. A wait that is not finite falls
  back to the window.
\<close>

definition rateMakeRoom :: "rat \<Rightarrow> MemoryRateLimiter \<Rightarrow> MemoryRateLimiter \<times> RateLimitDecision option" where
  "rateMakeRoom now s =
     (let refuse = (\<lambda>s1. let wait = (case fullTill s1 of At t \<Rightarrow> max 0 (t - now) | _ \<Rightarrow> windowMs s1)
                        in \<lparr>allowed = False, remaining = 0, retryAfterMs = wait, resetAfterMs = wait,
                            dLimit = limitN s1, dAt = None\<rparr>)
      in if fullTill s \<le> At now then
           let kept = jm_drop (emptyWindow s now) (buckets s);
               freeAt = fold (\<lambda>p a. case newest (events (snd p)) of None \<Rightarrow> a
                                    | Some n \<Rightarrow> min a (At (n + windowMs s))) kept Never;
               s1 = s\<lparr>buckets := kept\<rparr>
           in if \<not> limiterFull s1 then (s1\<lparr>fullTill := Already\<rparr>, None)
              else let s2 = s1\<lparr>fullTill := freeAt\<rparr> in (s2, Some (refuse s2))
         else (s, Some (refuse s)))"

text \<open>The part of \<open>check\<close> after the cap: prune the bucket, count, and record when there is room.\<close>

definition checkBucket :: "string \<Rightarrow> rat \<Rightarrow> MemoryRateLimiter \<Rightarrow> MemoryRateLimiter \<times> RateLimitDecision" where
  "checkBucket key now s =
     (let b = orElse (jm_get (buckets s) key) \<lparr>events = [], seenAt = now\<rparr>;
          live = drop (firstLiveIndex (events b) (now - windowMs s)) (events b)
      in if int (length live) \<ge> limitN s then
           let wait = max 0 (hd live + windowMs s - now)
           in (s\<lparr>buckets := jm_set key \<lparr>events = live, seenAt = now\<rparr> (buckets s)\<rparr>,
               \<lparr>allowed = False, remaining = 0, retryAfterMs = wait, resetAfterMs = wait,
                dLimit = limitN s, dAt = None\<rparr>)
         else
           let es = live @ [now]
           in (s\<lparr>buckets := jm_set key \<lparr>events = es, seenAt = now\<rparr> (buckets s)\<rparr>,
               \<lparr>allowed = True, remaining = max 0 (limitN s - int (length es)), retryAfterMs = 0,
                resetAfterMs = max 0 (hd es + windowMs s - now), dLimit = limitN s, dAt = Some now\<rparr>))"

definition rateCheck :: "string \<Rightarrow> rat \<Rightarrow> MemoryRateLimiter \<Rightarrow> MemoryRateLimiter \<times> RateLimitDecision" where
  "rateCheck key now s =
     (let s1 = rateMaybeSweep now s
      in if \<not> jm_has (buckets s1) key \<and> limiterFull s1 then
           (case rateMakeRoom now s1 of
              (s2, Some refusal) \<Rightarrow> (s2, refusal)
            | (s2, None) \<Rightarrow> checkBucket key now s2)
         else checkBucket key now s1)"

definition removeLast :: "'a \<Rightarrow> 'a list \<Rightarrow> 'a list" where
  "removeLast x xs = rev (remove1 x (rev xs))"

text \<open>\<open>refund\<close>: the event at \<open>at\<close> (its last occurrence), or the newest; a no-op when none is held.\<close>

definition rateRefund :: "string \<Rightarrow> rat option \<Rightarrow> MemoryRateLimiter \<Rightarrow> MemoryRateLimiter" where
  "rateRefund key atMs s =
     (case jm_get (buckets s) key of
        None \<Rightarrow> s
      | Some b \<Rightarrow>
          s\<lparr>buckets := jm_set key
             (b\<lparr>events := (case atMs of None \<Rightarrow> butlast (events b) | Some t \<Rightarrow> removeLast t (events b))\<rparr>)
             (buckets s)\<rparr>)"

definition rateReset :: "string \<Rightarrow> MemoryRateLimiter \<Rightarrow> MemoryRateLimiter" where
  "rateReset key s = s\<lparr>buckets := jm_delete key (buckets s)\<rparr>"

definition rateClear :: "rat \<Rightarrow> MemoryRateLimiter \<Rightarrow> MemoryRateLimiter" where
  "rateClear now s = s\<lparr>buckets := [], fullTill := Already, checksSinceSweep := 0, sweptAt := now\<rparr>"

text \<open>\<open>rateLimitKey\<close>.\<close>

datatype RateLimitKind = Ip | User

definition rateLimitKey :: "RateLimitKind \<Rightarrow> string \<Rightarrow> string \<Rightarrow> string" where
  "rateLimitKey kind i prefix =
     prefix @ (if kind = User then ''user'' else ''ip'') @ '':'' @ i"

section \<open>The pruned window\<close>

lemma liveSearch_spec:
  assumes "sorted es" "low \<le> high" "high \<le> length es"
    and "\<And>i. i < low \<Longrightarrow> es ! i \<le> c" "\<And>i. high \<le> i \<Longrightarrow> i < length es \<Longrightarrow> c < es ! i"
  shows "liveSearch es c low high \<le> length es \<and>
    (\<forall>i < liveSearch es c low high. es ! i \<le> c) \<and>
    (\<forall>i. liveSearch es c low high \<le> i \<longrightarrow> i < length es \<longrightarrow> c < es ! i)"
  using assms
proof (induction es c low high rule: liveSearch.induct)
  case (1 es c low high)
  define mid where "mid = (low + high) div 2"
  show ?case
  proof (cases "low < high")
    case False
    then have "liveSearch es c low high = low" by (simp add: liveSearch.simps [of es c low high])
    with False "1.prems"(2-5) show ?thesis by auto
  next
    case True
    then have mid: "low \<le> mid" "mid < high" "mid < length es"
      using "1.prems"(3) by (auto simp: mid_def)
    show ?thesis
    proof (cases "es ! mid \<le> c")
      case le: True
      have "es ! i \<le> c" if "i < mid + 1" for i
        using sorted_nth_mono [OF "1.prems"(1), of i mid] that mid le by simp
      from "1.IH"(1) [OF True mid_def _ "1.prems"(1) _ "1.prems"(3) this "1.prems"(5)] le mid True
      show ?thesis by (simp add: liveSearch.simps [of es c low high] mid_def [symmetric] Let_def)
    next
      case False
      have "c < es ! i" if "mid \<le> i" "i < length es" for i
        using sorted_nth_mono [OF "1.prems"(1), of mid i] that False by simp
      from "1.IH"(2) [OF True mid_def _ "1.prems"(1) mid(1) _ "1.prems"(4) this] False mid True
      show ?thesis by (simp add: liveSearch.simps [of es c low high] mid_def [symmetric] Let_def)
    qed
  qed
qed

lemma drop_firstLiveIndex:
  assumes "sorted es"
  shows "drop (firstLiveIndex es c) es = filter (\<lambda>e. e > c) es"
proof -
  define r where "r = firstLiveIndex es c"
  from liveSearch_spec [OF assms, of 0 "length es" c]
  have r: "r \<le> length es" "\<forall>i < r. es ! i \<le> c" "\<forall>i. r \<le> i \<longrightarrow> i < length es \<longrightarrow> c < es ! i"
    by (auto simp: r_def firstLiveIndex_def)
  have "filter (\<lambda>e. e > c) (take r es) = []"
    using r(1,2) by (auto simp: filter_empty_conv in_set_conv_nth not_less)
  moreover have "filter (\<lambda>e. e > c) (drop r es) = drop r es"
    using r(1,3) by (auto simp: filter_id_conv in_set_conv_nth)
  ultimately have "filter (\<lambda>e. e > c) (take r es @ drop r es) = drop r es"
    by (simp only: filter_append) simp
  then show ?thesis by (simp add: r_def)
qed

section \<open>Invariant\<close>

definition bucketOk :: "int \<Rightarrow> rat \<Rightarrow> EventBucket \<Rightarrow> bool" where
  "bucketOk limit now b \<longleftrightarrow>
     sorted (events b) \<and> (\<forall>e \<in> set (events b). e \<le> now) \<and> int (length (events b)) \<le> limit"

definition bucketsOk :: "rat \<Rightarrow> MemoryRateLimiter \<Rightarrow> bool" where
  "bucketsOk now s \<longleftrightarrow> jm_ok (buckets s) \<and>
     (\<forall>k b. jm_get (buckets s) k = Some b \<longrightarrow> bucketOk (limitN s) now b)"

definition configOk :: "MemoryRateLimiter \<Rightarrow> bool" where
  "configOk s \<longleftrightarrow> 0 < windowMs s \<and> 1 \<le> limitN s \<and> 0 \<le> idleMs s"

text \<open>The recorded events of a key, oldest first.\<close>

definition recorded :: "MemoryRateLimiter \<Rightarrow> string \<Rightarrow> rat list" where
  "recorded s k = (case jm_get (buckets s) k of None \<Rightarrow> [] | Some b \<Rightarrow> events b)"

definition sameConfig :: "MemoryRateLimiter \<Rightarrow> MemoryRateLimiter \<Rightarrow> bool" where
  "sameConfig s s' \<longleftrightarrow> windowMs s' = windowMs s \<and> limitN s' = limitN s \<and> idleMs s' = idleMs s \<and>
     maxBuckets s' = maxBuckets s"

lemma bucketsOk_mono: "bucketsOk now s \<Longrightarrow> now \<le> now' \<Longrightarrow> bucketsOk now' s"
  unfolding bucketsOk_def bucketOk_def by (meson order_trans)

lemma bucketsOk_recorded:
  assumes "bucketsOk now s" "configOk s"
  shows "sorted (recorded s k)" "\<forall>e \<in> set (recorded s k). e \<le> now"
    "int (length (recorded s k)) \<le> limitN s"
proof -
  have "bucketOk (limitN s) now b" if "jm_get (buckets s) k = Some b" for b
    using assms(1) that by (auto simp: bucketsOk_def)
  then show "sorted (recorded s k)" "\<forall>e \<in> set (recorded s k). e \<le> now"
    "int (length (recorded s k)) \<le> limitN s"
    using assms(2) by (cases "jm_get (buckets s) k"; simp add: recorded_def bucketOk_def configOk_def)+
qed

text \<open>Dropping buckets that hold no event inside the window.\<close>

lemma drop_keeps_window:
  assumes ok: "bucketsOk t s" "t \<le> now"
    and P: "\<And>b. P b \<Longrightarrow> emptyWindow s now b"
    and s': "buckets s' = jm_drop P (buckets s)" "sameConfig s s'"
  shows "bucketsOk t s' \<and>
    filter (\<lambda>e. e > now - windowMs s) (recorded s' k) = filter (\<lambda>e. e > now - windowMs s) (recorded s k)"
proof -
  have jm: "jm_ok (buckets s)" using ok(1) by (simp add: bucketsOk_def)
  have "filter (\<lambda>e. e > now - windowMs s) (events b) = []" if "P b" "jm_get (buckets s) k = Some b" for b
  proof -
    have "sorted (events b)" using that(2) ok(1) by (simp add: bucketsOk_def bucketOk_def)
    then have "\<forall>e \<in> set (events b). e \<le> last (events b)"
      by (cases "events b" rule: rev_cases) (auto simp: sorted_append)
    with P [OF that(1)] show ?thesis
      by (fastforce simp: emptyWindow_def newest_def filter_empty_conv split: if_splits)
  qed
  then have "filter (\<lambda>e. e > now - windowMs s) (recorded s' k) = filter (\<lambda>e. e > now - windowMs s) (recorded s k)"
    using s' jm by (auto simp: recorded_def jm_get_drop split: option.split)
  moreover have "bucketsOk t s'"
    using ok(1) s' jm by (auto simp: bucketsOk_def jm_get_drop sameConfig_def split: option.splits if_splits)
  ultimately show ?thesis by blast
qed

lemma idle_emptyWindow: "configOk s \<Longrightarrow> idleBucket s now b \<Longrightarrow> emptyWindow s now b"
  by (auto simp: idleBucket_def emptyWindow_def configOk_def split: option.splits)

text \<open>What one step does to a limiter: the configuration and every key's live events stay.\<close>

definition quietStep :: "rat \<Rightarrow> rat \<Rightarrow> MemoryRateLimiter \<Rightarrow> MemoryRateLimiter \<Rightarrow> bool" where
  "quietStep t now s s' \<longleftrightarrow> sameConfig s s' \<and> bucketsOk t s' \<and>
     length (buckets s') \<le> length (buckets s) \<and>
     (\<forall>k. filter (\<lambda>e. e > now - windowMs s) (recorded s' k) =
          filter (\<lambda>e. e > now - windowMs s) (recorded s k))"

lemma quietStep_refl: "bucketsOk t s \<Longrightarrow> quietStep t now s s"
  by (simp add: quietStep_def sameConfig_def)

lemma quietStep_trans: "quietStep t now s s1 \<Longrightarrow> quietStep t now s1 s2 \<Longrightarrow> quietStep t now s s2"
  by (auto simp: quietStep_def sameConfig_def)

lemma quietStep_sweep:
  assumes "bucketsOk t s" "t \<le> now" "configOk s"
  shows "quietStep t now s (fst (rateSweep now s))"
proof -
  have "sameConfig s (fst (rateSweep now s))" by (simp add: rateSweep_def sameConfig_def Let_def)
  then show ?thesis
    using drop_keeps_window [OF assms(1,2), of "idleBucket s now" "fst (rateSweep now s)"]
      idle_emptyWindow [OF assms(3), of now]
    by (simp add: quietStep_def rateSweep_def Let_def)
qed

lemma quietStep_maybeSweep:
  assumes "bucketsOk t s" "t \<le> now" "configOk s"
  shows "quietStep t now s (rateMaybeSweep now s)"
proof -
  let ?s1 = "s\<lparr>checksSinceSweep := checksSinceSweep s + 1\<rparr>"
  have "quietStep t now s ?s1" using assms(1)
    by (simp add: quietStep_def sameConfig_def bucketsOk_def recorded_def)
  moreover have "quietStep t now ?s1 (fst (rateSweep now ?s1))"
    using assms by (intro quietStep_sweep) (simp_all add: bucketsOk_def configOk_def)
  ultimately show ?thesis using quietStep_trans by (auto simp: rateMaybeSweep_def Let_def)
qed

lemma quietStep_makeRoom:
  assumes "bucketsOk t s" "t \<le> now" "rateMakeRoom now s = (s', r)"
  shows "quietStep t now s s' \<and> (r = None \<longrightarrow> \<not> limiterFull s') \<and>
    (\<forall>d. r = Some d \<longrightarrow> \<not> allowed d)"
proof (cases "fullTill s \<le> At now")
  case True
  let ?kept = "s\<lparr>buckets := jm_drop (emptyWindow s now) (buckets s)\<rparr>"
  have "sameConfig s (?kept\<lparr>fullTill := v\<rparr>)" for v by (simp add: sameConfig_def)
  then have "quietStep t now s (?kept\<lparr>fullTill := v\<rparr>)" for v
    using drop_keeps_window [OF assms(1,2), of "emptyWindow s now" "?kept\<lparr>fullTill := v\<rparr>"]
    by (simp add: quietStep_def)
  with True assms(3) show ?thesis
    by (auto simp: rateMakeRoom_def Let_def limiterFull_def split: if_splits option.splits)
next
  case False
  with assms quietStep_refl show ?thesis by (auto simp: rateMakeRoom_def Let_def)
qed

section \<open>One check\<close>

lemma jm_get_recorded:
  "recorded (s\<lparr>buckets := jm_set k b m\<rparr>) j =
     (if j = k then events b else (case jm_get m j of None \<Rightarrow> [] | Some b' \<Rightarrow> events b'))"
  by (simp add: recorded_def)

lemma checkBucket_spec:
  assumes ok: "bucketsOk t s" "t \<le> now" "configOk s" and run: "checkBucket k now s = (s', d)"
    and live: "live = filter (\<lambda>e. e > now - windowMs s) (recorded s k)"
  shows "sameConfig s s'" "bucketsOk now s'" "allowed d \<longleftrightarrow> int (length live) < limitN s"
    "recorded s' k = live @ (if allowed d then [now] else [])" "\<And>j. j \<noteq> k \<Longrightarrow> recorded s' j = recorded s j"
    "\<not> allowed d \<Longrightarrow> retryAfterMs d = max 0 (hd live + windowMs s - now)"
    "allowed d \<Longrightarrow> dAt d = Some now \<and> retryAfterMs d = 0"
    "buckets s' = jm_set k \<lparr>events = recorded s' k, seenAt = now\<rparr> (buckets s)"
proof -
  note rec = bucketsOk_recorded [OF ok(1,3), of k]
  let ?b = "orElse (jm_get (buckets s) k) \<lparr>events = [], seenAt = now\<rparr>"
  have "events ?b = recorded s k"
    by (simp add: recorded_def orElse_def split: option.split)
  then have lv: "drop (firstLiveIndex (events ?b) (now - windowMs s)) (events ?b) = live"
    using drop_firstLiveIndex [OF rec(1)] by (simp add: live)
  have run': "(if int (length live) \<ge> limitN s then
           (s\<lparr>buckets := jm_set k \<lparr>events = live, seenAt = now\<rparr> (buckets s)\<rparr>,
               \<lparr>allowed = False, remaining = 0, retryAfterMs = max 0 (hd live + windowMs s - now),
                resetAfterMs = max 0 (hd live + windowMs s - now), dLimit = limitN s, dAt = None\<rparr>)
         else
           (s\<lparr>buckets := jm_set k \<lparr>events = live @ [now], seenAt = now\<rparr> (buckets s)\<rparr>,
               \<lparr>allowed = True, remaining = max 0 (limitN s - int (length (live @ [now]))), retryAfterMs = 0,
                resetAfterMs = max 0 (hd (live @ [now]) + windowMs s - now), dLimit = limitN s,
                dAt = Some now\<rparr>)) = (s', d)"
    using run unfolding checkBucket_def Let_def lv .
  from run' show "sameConfig s s'" "allowed d \<longleftrightarrow> int (length live) < limitN s"
    "recorded s' k = live @ (if allowed d then [now] else [])" "\<And>j. j \<noteq> k \<Longrightarrow> recorded s' j = recorded s j"
    "\<not> allowed d \<Longrightarrow> retryAfterMs d = max 0 (hd live + windowMs s - now)"
    "allowed d \<Longrightarrow> dAt d = Some now \<and> retryAfterMs d = 0"
    "buckets s' = jm_set k \<lparr>events = recorded s' k, seenAt = now\<rparr> (buckets s)"
    by (auto simp: sameConfig_def recorded_def split: if_splits)
  have "bucketsOk now s" using ok(1,2) by (rule bucketsOk_mono)
  moreover have "sorted live" "int (length live) \<le> limitN s" "\<forall>e \<in> set live. e \<le> now"
    using rec ok(2) length_filter_le [of "\<lambda>e. e > now - windowMs s" "recorded s k"]
    by (auto simp: live sorted_filter [of "\<lambda>x. x", simplified]
        simp del: length_filter_le)
  ultimately show "bucketsOk now s'"
    using run' by (auto simp: bucketsOk_def bucketOk_def sorted_append split: if_splits)
qed

lemma rateCheck_spec:
  assumes ok: "bucketsOk t s" "t \<le> now" "configOk s" and run: "rateCheck k now s = (s', d)"
  shows "sameConfig s s'" "bucketsOk now s'"
    "\<And>j. filter (\<lambda>e. e > now - windowMs s) (recorded s' j) =
      filter (\<lambda>e. e > now - windowMs s) (recorded s j) @ (if j = k \<and> allowed d then [now] else [])"
    "allowed d \<Longrightarrow> int (length (filter (\<lambda>e. e > now - windowMs s) (recorded s k))) < limitN s"
proof -
  let ?s1 = "rateMaybeSweep now s"
  note q1 = quietStep_maybeSweep [OF ok]
  obtain s2 r where room: "rateMakeRoom now ?s1 = (s2, r)" by force
  have q2: "quietStep t now s s2 \<and> (\<forall>d. r = Some d \<longrightarrow> \<not> allowed d)"
    using q1 quietStep_makeRoom [OF _ ok(2) room] by (auto simp: quietStep_def sameConfig_def)
  have "(\<exists>s0. quietStep t now s s0 \<and> checkBucket k now s0 = (s', d)) \<or> quietStep t now s s' \<and> \<not> allowed d"
    using run room q1 q2 by (auto simp: rateCheck_def Let_def split: if_splits option.splits)
  then have all: "sameConfig s s' \<and> bucketsOk now s' \<and>
    (\<forall>j. filter (\<lambda>e. e > now - windowMs s) (recorded s' j) =
      filter (\<lambda>e. e > now - windowMs s) (recorded s j) @ (if j = k \<and> allowed d then [now] else [])) \<and>
    (allowed d \<longrightarrow> int (length (filter (\<lambda>e. e > now - windowMs s) (recorded s k))) < limitN s)"
  proof
    assume "quietStep t now s s' \<and> \<not> allowed d"
    then show ?thesis using bucketsOk_mono ok(2) by (auto simp: quietStep_def)
  next
    assume "\<exists>s0. quietStep t now s s0 \<and> checkBucket k now s0 = (s', d)"
    then obtain s0 where s0: "quietStep t now s s0" "checkBucket k now s0 = (s', d)" by blast
    then have c0: "configOk s0" "bucketsOk t s0" "windowMs s0 = windowMs s" "limitN s0 = limitN s"
      using ok(3) by (auto simp: quietStep_def sameConfig_def configOk_def)
    have eq: "filter (\<lambda>e. e > now - windowMs s) (recorded s0 j) =
        filter (\<lambda>e. e > now - windowMs s) (recorded s j)" for j
      using s0(1) by (simp add: quietStep_def)
    note cb = checkBucket_spec [OF c0(2) ok(2) c0(1) s0(2) refl, unfolded c0(3,4) eq]
    have "now - windowMs s < now" using ok(3) by (simp add: configOk_def)
    then have "filter (\<lambda>e. e > now - windowMs s) (recorded s' j) =
      filter (\<lambda>e. e > now - windowMs s) (recorded s j) @ (if j = k \<and> allowed d then [now] else [])" for j
      using cb(4) cb(5) [of j] eq [of j] by (cases "j = k") auto
    moreover have "sameConfig s s'" using cb(1) s0(1) by (auto simp: quietStep_def sameConfig_def)
    ultimately show ?thesis using cb(2,3) by auto
  qed
  from all show "sameConfig s s'" "bucketsOk now s'"
    "\<And>j. filter (\<lambda>e. e > now - windowMs s) (recorded s' j) =
      filter (\<lambda>e. e > now - windowMs s) (recorded s j) @ (if j = k \<and> allowed d then [now] else [])"
    "allowed d \<Longrightarrow> int (length (filter (\<lambda>e. e > now - windowMs s) (recorded s k))) < limitN s"
    by blast+
qed

section \<open>The window's bound\<close>

text \<open>
  A history of the limiter and, beside it, the log of one key: the times of its granted checks, less
  the ones refunded. Checks of other keys and sweeps leave the log alone.
\<close>

datatype rateOp = Check string rat | RefundOf string rat | SweepAt rat

fun opMs :: "rateOp \<Rightarrow> rat option" where
  "opMs (Check _ now) = Some now"
| "opMs (RefundOf _ _) = None"
| "opMs (SweepAt now) = Some now"

fun logStep :: "string \<Rightarrow> rateOp \<Rightarrow> MemoryRateLimiter \<times> rat list \<Rightarrow> MemoryRateLimiter \<times> rat list" where
  "logStep key (Check k now) (s, L) =
     (let (s', d) = rateCheck k now s in (s', if k = key \<and> allowed d then L @ [now] else L))"
| "logStep key (RefundOf k t) (s, L) =
     (rateRefund k (Some t) s, if k = key then removeLast t L else L)"
| "logStep key (SweepAt now) (s, L) = (fst (rateSweep now s), L)"

fun logRun :: "string \<Rightarrow> rateOp list \<Rightarrow> MemoryRateLimiter \<times> rat list \<Rightarrow> MemoryRateLimiter \<times> rat list" where
  "logRun key [] sl = sl"
| "logRun key (x # xs) sl = logRun key xs (logStep key x sl)"

fun chronological :: "rat \<Rightarrow> rateOp list \<Rightarrow> bool" where
  "chronological t [] = True"
| "chronological t (x # xs) =
     (case opMs x of None \<Rightarrow> chronological t xs | Some now \<Rightarrow> t \<le> now \<and> chronological now xs)"

text \<open>The log's events in the window of length \<open>w\<close> that ends at \<open>x\<close>.\<close>

definition inWindow :: "rat \<Rightarrow> rat \<Rightarrow> rat list \<Rightarrow> nat" where
  "inWindow w x L = length (filter (\<lambda>e. x - w < e \<and> e \<le> x) L)"

definition logInv :: "string \<Rightarrow> rat \<Rightarrow> int \<Rightarrow> rat \<Rightarrow> MemoryRateLimiter \<times> rat list \<Rightarrow> bool" where
  "logInv key w n t sl \<longleftrightarrow> (case sl of (s, L) \<Rightarrow> configOk s \<and> bucketsOk t s \<and>
     windowMs s = w \<and> limitN s = n \<and>
     (\<forall>e \<in> set L. e \<le> t) \<and>
     filter (\<lambda>e. e > t - windowMs s) L = filter (\<lambda>e. e > t - windowMs s) (recorded s key) \<and>
     (\<forall>x. int (inWindow (windowMs s) x L) \<le> limitN s))"

lemma filter_later:
  fixes a b :: rat
  assumes "filter (\<lambda>e. e > a) xs = filter (\<lambda>e. e > a) ys" "a \<le> b"
  shows "filter (\<lambda>e. e > b) xs = filter (\<lambda>e. e > b) ys"
proof -
  have "filter (\<lambda>e. e > b) zs = filter (\<lambda>e. e > b) (filter (\<lambda>e. e > a) zs)" for zs
    using assms(2) by (auto intro!: filter_cong)
  then show ?thesis using assms(1) by metis
qed

lemma removeLast_filter:
  "filter P (removeLast x xs) = (if P x then removeLast x (filter P xs) else filter P xs)"
  by (simp add: removeLast_def rev_filter [symmetric] filter_remove1 remove1_idem)

lemma inWindow_removeLast: "inWindow w x (removeLast t L) \<le> inWindow w x L"
proof -
  have "length (removeLast t ys) \<le> length ys" for ys :: "rat list"
    by (simp add: removeLast_def length_remove1)
  then show ?thesis by (simp add: inWindow_def removeLast_filter)
qed

lemma set_removeLast: "set (removeLast x xs) \<subseteq> set xs"
  unfolding removeLast_def using set_remove1_subset by fastforce

lemma logInv_later: "logInv key w n t (s, L) \<Longrightarrow> t \<le> now \<Longrightarrow> logInv key w n now (s, L)"
  using filter_later [of "t - windowMs s" L "recorded s key" "now - windowMs s"] bucketsOk_mono [of t s now]
  by (fastforce simp: logInv_def)

lemma inWindow_snoc:
  assumes "\<forall>e \<in> set L. e \<le> now" "\<forall>x. int (inWindow w x L) \<le> n"
    and "int (length (filter (\<lambda>e. e > now - w) L)) < n"
  shows "int (inWindow w x (L @ [now])) \<le> n"
proof (cases "x - w < now \<and> now \<le> x")
  case True
  have "inWindow w x L \<le> length (filter (\<lambda>e. e > now - w) L)"
  proof -
    have "filter (\<lambda>e. x - w < e \<and> e \<le> x) L = filter (\<lambda>e. x - w < e \<and> e \<le> x) (filter (\<lambda>e. e > now - w) L)"
      using True by (auto intro!: filter_cong)
    then show ?thesis unfolding inWindow_def by (metis length_filter_le)
  qed
  with assms(3) True show ?thesis by (simp add: inWindow_def)
next
  case False
  then have "inWindow w x (L @ [now]) = inWindow w x L" by (auto simp: inWindow_def)
  then show ?thesis using assms(2) by simp
qed

lemma logInv_check:
  assumes inv: "logInv key w n t (s, L)" and le: "t \<le> now"
  shows "logInv key w n now (logStep key (Check k now) (s, L))"
proof -
  obtain s' d where run: "rateCheck k now s = (s', d)" by force
  from logInv_later [OF inv le]
  have now: "configOk s" "bucketsOk now s" "\<forall>e \<in> set L. e \<le> now"
    "filter (\<lambda>e. e > now - windowMs s) L = filter (\<lambda>e. e > now - windowMs s) (recorded s key)"
    "\<forall>x. int (inWindow (windowMs s) x L) \<le> limitN s"
    by (auto simp: logInv_def)
  note rc = rateCheck_spec [OF now(2) order_refl now(1) run]
  have cfg: "windowMs s' = windowMs s" "limitN s' = limitN s" "configOk s'" "windowMs s = w" "limitN s = n"
    using rc(1) now(1) inv by (auto simp: sameConfig_def configOk_def logInv_def)
  have pos: "0 < windowMs s" using now(1) by (simp add: configOk_def)
  show ?thesis
  proof (cases "k = key \<and> allowed d")
    case True
    have "\<forall>x. int (inWindow (windowMs s) x (L @ [now])) \<le> limitN s"
      using inWindow_snoc [OF now(3,5)] rc(4) True now(4) by simp
    with True run now rc(2) rc(3) [of key] cfg pos show ?thesis by (auto simp: logInv_def)
  next
    case False
    with run now rc(2) rc(3) [of key] cfg show ?thesis by (auto simp: logInv_def)
  qed
qed

lemma recorded_refund:
  "recorded (rateRefund k (Some t) s) j = (if j = k then removeLast t (recorded s j) else recorded s j)"
  by (auto simp: recorded_def rateRefund_def removeLast_def split: option.split)

lemma sorted_wrt_remove1: "sorted_wrt P xs \<Longrightarrow> sorted_wrt P (remove1 x xs)"
  using set_remove1_subset by (induction xs) fastforce+

lemma sorted_removeLast: "sorted (xs :: rat list) \<Longrightarrow> sorted (removeLast t xs)"
  using sorted_wrt_remove1 [of "\<lambda>x y. y \<le> x" "rev xs" t]
  by (simp add: removeLast_def sorted_wrt_rev)

lemma length_removeLast: "length (removeLast x xs) \<le> length xs"
  by (simp add: removeLast_def length_remove1)

lemma bucketsOk_refund:
  assumes "bucketsOk now s" shows "bucketsOk now (rateRefund k (Some t) s)"
proof -
  have "bucketOk n now (b\<lparr>events := removeLast t (events b)\<rparr>)" if "bucketOk n now b" for n b
    using that set_removeLast [of t "events b"] length_removeLast [of t "events b"]
      sorted_removeLast [of "events b" t]
    by (auto simp: bucketOk_def)
  then show ?thesis using assms by (auto simp: rateRefund_def bucketsOk_def split: option.split)
qed

lemma logInv_refund:
  assumes "logInv key w n t (s, L)" shows "logInv key w n t (logStep key (RefundOf k u) (s, L))"
proof -
  let ?s' = "rateRefund k (Some u) s"
  have cfg: "windowMs ?s' = windowMs s" "limitN ?s' = limitN s" "idleMs ?s' = idleMs s"
    by (simp_all add: rateRefund_def split: option.split)
  have L: "inWindow w x (if k = key then removeLast u L else L) \<le> inWindow w x L" for w x
    by (simp add: inWindow_removeLast)
  have "bucketsOk t ?s'" using assms bucketsOk_refund by (auto simp: logInv_def)
  moreover have "\<forall>x. int (inWindow (windowMs s) x (if k = key then removeLast u L else L)) \<le> limitN s"
  proof
    fix x
    have "int (inWindow (windowMs s) x L) \<le> limitN s" using assms by (auto simp: logInv_def)
    with L [of "windowMs s" x] show "int (inWindow (windowMs s) x (if k = key then removeLast u L else L)) \<le> limitN s"
      by linarith
  qed
  moreover have "\<forall>e \<in> set (if k = key then removeLast u L else L). e \<le> t"
    using assms set_removeLast [of u L] by (auto simp: logInv_def)
  ultimately show ?thesis using assms cfg
    by (auto simp: logInv_def configOk_def recorded_refund removeLast_filter)
qed

lemma logInv_sweep:
  assumes "logInv key w n t (s, L)" "t \<le> now" shows "logInv key w n now (logStep key (SweepAt now) (s, L))"
proof -
  have now: "logInv key w n now (s, L)" using assms by (rule logInv_later)
  then have "quietStep now now s (fst (rateSweep now s))"
    by (intro quietStep_sweep) (auto simp: logInv_def)
  with now show ?thesis by (auto simp: logInv_def quietStep_def sameConfig_def configOk_def)
qed

lemma logInv_step:
  assumes "logInv key w n t sl" "chronological t (x # xs)"
  shows "\<exists>t'. logInv key w n t' (logStep key x sl) \<and> chronological t' xs"
proof -
  obtain s L where sl: "sl = (s, L)" by force
  note inv = assms(1) [unfolded sl] and chr = assms(2)
  show ?thesis
  proof (cases x)
    case (Check k now)
    with logInv_check [OF inv, of now k] chr show ?thesis by (auto simp: sl simp del: logStep.simps)
  next
    case (RefundOf k u)
    with logInv_refund [OF inv, of k u] chr show ?thesis by (auto simp: sl simp del: logStep.simps)
  next
    case (SweepAt now)
    with logInv_sweep [OF inv, of now] chr show ?thesis by (auto simp: sl simp del: logStep.simps)
  qed
qed

lemma logInv_run:
  "logInv key w n t sl \<Longrightarrow> chronological t xs \<Longrightarrow> \<exists>t'. logInv key w n t' (logRun key xs sl)"
proof (induction xs arbitrary: t sl)
  case (Cons x xs)
  from logInv_step [OF Cons.prems] Cons.IH show ?case unfolding logRun.simps by blast
qed auto

lemma rateLimiterNew_fresh:
  assumes "rateLimiterNew w l i c start = Inr s0"
  shows "configOk s0 \<and> buckets s0 = [] \<and> windowMs s0 = w \<and> limitN s0 = \<lfloor>l\<rfloor>"
  using assms by (auto simp: rateLimiterNew_def configOk_def Let_def split: if_splits jsnum.splits)

text \<open>
  C5: The sliding window holds: take a limiter fresh from the constructor and any history of checks
  of any keys, refunds and sweeps whose clock does not run backwards. Every window of \<open>windowMs\<close>
  milliseconds, wherever it ends, holds at most \<open>limit\<close> granted (and not refunded) checks of a key,
  through the binary search, the idle sweep and the cap.
\<close>
theorem rate_window_bound:
  assumes "rateLimiterNew w l i c start = Inr s0" and "chronological t xs"
  shows "int (inWindow w x (snd (logRun key xs (s0, [])))) \<le> \<lfloor>l\<rfloor>"
proof -
  note new = rateLimiterNew_fresh [OF assms(1)]
  then have "logInv key w \<lfloor>l\<rfloor> t (s0, [])"
    by (auto simp: logInv_def bucketsOk_def recorded_def inWindow_def configOk_def)
  from logInv_run [OF this assms(2)] show ?thesis by (auto simp: logInv_def)
qed

theorem rate_window_bound_witness:
  "int (inWindow 1000 900 (snd (logRun ''a'' [Check ''a'' 0, Check ''b'' 100, Check ''a'' 500, Check ''a'' 900]
     (\<lparr>buckets = [], windowMs = 1000, limitN = 2, idleMs = 600000, maxBuckets = Some 1,
       fullTill = Already, sweptAt = 0, checksSinceSweep = 0\<rparr>, [])))) \<le> \<lfloor>2 :: rat\<rfloor>"
  by (rule rate_window_bound [of 1000 2 None "Some (Fin 1)" 0 _ 0])
    (simp_all add: rateLimiterNew_def DEFAULT_IDLE_MS_def)

section \<open>The wait a refusal reports\<close>

lemma filter_lt_length:
  assumes "sorted es" "es \<noteq> []" "hd es \<le> (c :: rat)"
  shows "length (filter (\<lambda>e. e > c) es) < length es"
  using assms by (cases es) (auto simp: less_Suc_eq_le)

definition capOk :: "MemoryRateLimiter \<Rightarrow> bool" where
  "capOk s \<longleftrightarrow> (case maxBuckets s of None \<Rightarrow> True | Some m \<Rightarrow> int (length (buckets s)) \<le> m)"

lemma capOk_shrink: "capOk s \<Longrightarrow> sameConfig s s' \<Longrightarrow> length (buckets s') \<le> length (buckets s) \<Longrightarrow> capOk s'"
  by (auto simp: capOk_def sameConfig_def split: option.splits)

lemma capOk_set:
  assumes "capOk s" "sameConfig s s'" "buckets s' = jm_set k b (buckets s)"
    and "jm_has (buckets s) k \<or> \<not> limiterFull s"
  shows "capOk s'"
  using assms by (auto simp: capOk_def sameConfig_def limiterFull_def length_jm_set split: option.splits)

text \<open>What a check did: it went through the bucket of its key, or the full limiter refused it.\<close>

lemma rateCheck_cases:
  assumes ok: "bucketsOk t s" "t \<le> now" "configOk s" and run: "rateCheck k now s = (s', d)"
  obtains (bucket) s0 where "quietStep t now s s0" "checkBucket k now s0 = (s', d)"
      "jm_has (buckets s0) k \<or> \<not> limiterFull s0"
      "jm_has (buckets (rateMaybeSweep now s)) k \<Longrightarrow> s0 = rateMaybeSweep now s"
  | (full) "quietStep t now s s'" "\<not> allowed d" "\<not> jm_has (buckets s') k"
      "\<not> jm_has (buckets (rateMaybeSweep now s)) k" "limiterFull (rateMaybeSweep now s)"
proof -
  let ?s1 = "rateMaybeSweep now s"
  note q1 = quietStep_maybeSweep [OF ok]
  obtain s2 r where room: "rateMakeRoom now ?s1 = (s2, r)" by force
  have q2: "quietStep t now ?s1 s2 \<and> (r = None \<longrightarrow> \<not> limiterFull s2) \<and> (\<forall>d. r = Some d \<longrightarrow> \<not> allowed d)"
    using q1 quietStep_makeRoom [OF _ ok(2) room] by (auto simp: quietStep_def)
  have ok1: "jm_ok (buckets ?s1)" using q1 by (simp add: quietStep_def bucketsOk_def)
  have "buckets s2 = buckets ?s1 \<or> buckets s2 = jm_drop (emptyWindow ?s1 now) (buckets ?s1)"
    using room by (auto simp: rateMakeRoom_def Let_def split: if_splits)
  then have gone: "\<not> jm_has (buckets ?s1) k \<Longrightarrow> \<not> jm_has (buckets s2) k"
    using ok1 by (auto simp: jm_has_get jm_get_drop split: option.splits)
  consider "jm_has (buckets ?s1) k \<or> \<not> limiterFull ?s1" "checkBucket k now ?s1 = (s', d)"
    | "\<not> jm_has (buckets ?s1) k" "r = None" "checkBucket k now s2 = (s', d)"
    | "\<not> jm_has (buckets ?s1) k" "limiterFull ?s1" "r = Some d" "s2 = s'"
    using run room by (auto simp: rateCheck_def Let_def split: if_splits option.splits)
  then show thesis
  proof cases
    case 1 with q1 show ?thesis by (intro bucket) auto
  next
    case 2 with q1 q2 quietStep_trans show ?thesis by (intro bucket [of s2]) auto
  next
    case 3 with q1 q2 quietStep_trans gone show ?thesis by (intro full) auto
  qed
qed

lemma capOk_check:
  assumes ok: "bucketsOk t s" "t \<le> now" "configOk s" "capOk s" and run: "rateCheck k now s = (s', d)"
  shows "capOk s'"
  using ok(1-3) run
proof (cases rule: rateCheck_cases)
  case (bucket s0)
  then have c0: "bucketsOk t s0" "configOk s0" "capOk s0"
    using ok capOk_shrink by (auto simp: quietStep_def sameConfig_def configOk_def)
  note cb = checkBucket_spec [OF c0(1) ok(2) c0(2) bucket(2) refl]
  show ?thesis by (rule capOk_set [OF c0(3) cb(1) cb(8) bucket(3)])
next
  case full
  then show ?thesis using ok(4) capOk_shrink by (auto simp: quietStep_def)
qed

text \<open>A bucket that still holds a live event survives the sweep.\<close>

lemma maybeSweep_keeps:
  assumes "configOk s" "jm_ok (buckets s)" "jm_get (buckets s) k = Some b"
    and "newest (events b) = Some n" "u - windowMs s < n"
  shows "jm_get (buckets (rateMaybeSweep u s)) k = Some b"
proof -
  have "\<not> idleBucket s u b" using assms(1,4,5) by (auto simp: idleBucket_def configOk_def)
  moreover have "idleBucket (s\<lparr>checksSinceSweep := m\<rparr>) u b = idleBucket s u b" for m
    by (simp add: idleBucket_def split: option.split)
  ultimately show ?thesis using assms(2,3)
    by (auto simp: rateMaybeSweep_def rateSweep_def Let_def jm_get_drop)
qed

text \<open>
  A sweep that takes a key's bucket away leaves a free slot behind it.
\<close>

lemma maybeSweep_room:
  assumes "capOk s" "jm_has (buckets s) k" "\<not> jm_has (buckets (rateMaybeSweep u s)) k"
  shows "\<not> limiterFull (rateMaybeSweep u s)"
proof -
  let ?P = "\<lambda>m. idleBucket (s\<lparr>checksSinceSweep := m\<rparr>) u"
  have "\<exists>m. rateMaybeSweep u s = s\<lparr>buckets := jm_drop (?P m) (buckets s), sweptAt := u, checksSinceSweep := 0\<rparr>"
    using assms(2,3) by (auto simp: rateMaybeSweep_def rateSweep_def Let_def)
  then obtain m where m: "rateMaybeSweep u s = s\<lparr>buckets := jm_drop (?P m) (buckets s), sweptAt := u, checksSinceSweep := 0\<rparr>"
    by blast
  have "length (jm_drop (?P m) (buckets s)) < length (buckets s)"
  proof -
    obtain b where "(k, b) \<in> set (buckets s)" using assms(2) by (auto simp: jm_has_def)
    moreover have "(k, b) \<notin> set (jm_drop (?P m) (buckets s))"
      using assms(3) by (auto simp: m jm_has_def image_iff)
    ultimately show ?thesis
      by (auto simp: jm_drop_def intro!: length_filter_less)
  qed
  with assms(1) show ?thesis by (auto simp: m capOk_def limiterFull_def split: option.splits)
qed

lemma rateCheck_refused_live:
  assumes ok: "bucketsOk t s" "t \<le> now" "configOk s" "capOk s"
    and run: "rateCheck k now s = (s', d)" and refused: "\<not> allowed d" "jm_has (buckets s') k"
  shows "int (length (recorded s' k)) = limitN s" "recorded s' k \<noteq> []"
    "retryAfterMs d = hd (recorded s' k) + windowMs s - now" "0 < retryAfterMs d"
proof -
  let ?goal = "int (length (recorded s' k)) = limitN s \<and> recorded s' k \<noteq> [] \<and>
    retryAfterMs d = hd (recorded s' k) + windowMs s - now \<and> 0 < retryAfterMs d"
  have ?goal
    using ok(1-3) run
  proof (cases rule: rateCheck_cases)
    case (bucket s0)
    then have c0: "bucketsOk t s0" "configOk s0" "limitN s0 = limitN s" "windowMs s0 = windowMs s"
      using ok by (auto simp: quietStep_def sameConfig_def configOk_def)
    note cb = checkBucket_spec [OF c0(1) ok(2) c0(2) bucket(2) refl]
    let ?live = "filter (\<lambda>e. e > now - windowMs s0) (recorded s0 k)"
    have eq: "recorded s' k = ?live" using cb(4) refused by simp
    have "configOk s'" "limitN s' = limitN s" using cb(1) c0 by (auto simp: sameConfig_def configOk_def)
    then have "int (length (recorded s' k)) \<le> limitN s" using bucketsOk_recorded(3) [OF cb(2)] by metis
    then have len: "int (length (recorded s' k)) = limitN s" using cb(3) refused c0(3) eq by simp
    then have ne: "recorded s' k \<noteq> []" using ok(3) by (auto simp: configOk_def)
    then have "hd ?live \<in> set ?live" using eq by (metis hd_in_set)
    then have "now - windowMs s0 < hd ?live" by simp
    then show ?thesis using cb(6) refused len ne c0(4) by (simp add: eq)
  next
    case full
    with refused show ?thesis by simp
  qed
  then show "int (length (recorded s' k)) = limitN s" "recorded s' k \<noteq> []"
    "retryAfterMs d = hd (recorded s' k) + windowMs s - now" "0 < retryAfterMs d" by blast+
qed

text \<open>
  A refusal's \<open>retryAfterMs\<close> is exact. When a check is refused by the window of its own key, a
  later check of that key (nothing else in between) is granted if and only if it comes at or after
  \<open>now + retryAfterMs\<close>; no cap and no sweep can turn that answer.
\<close>
theorem rate_retry_exact:
  assumes ok: "bucketsOk t s" "t \<le> now" "configOk s" "capOk s"
    and run: "rateCheck k now s = (s', d)" and refused: "\<not> allowed d" "jm_has (buckets s') k"
    and later: "now \<le> u"
  shows "allowed (snd (rateCheck k u s')) \<longleftrightarrow> now + retryAfterMs d \<le> u"
proof -
  note live = rateCheck_refused_live [OF ok run refused]
  note rc = rateCheck_spec [OF ok(1-3) run]
  obtain s'' d' where run': "rateCheck k u s' = (s'', d')" by force
  have cfg: "windowMs s' = windowMs s" "limitN s' = limitN s" "configOk s'" and cap: "capOk s'"
    using rc(1) ok(3) capOk_check [OF ok run] by (auto simp: sameConfig_def configOk_def)
  have sorted: "sorted (recorded s' k)" using bucketsOk_recorded [OF rc(2) cfg(3)] by simp
  let ?live = "filter (\<lambda>e. e > u - windowMs s) (recorded s' k)"
  have count: "int (length ?live) < limitN s \<longleftrightarrow> hd (recorded s' k) \<le> u - windowMs s"
  proof
    assume "hd (recorded s' k) \<le> u - windowMs s"
    then show "int (length ?live) < limitN s"
      using filter_lt_length [OF sorted live(2), of "u - windowMs s"] live(1) by linarith
  next
    assume less: "int (length ?live) < limitN s"
    show "hd (recorded s' k) \<le> u - windowMs s"
    proof (rule ccontr)
      assume "\<not> hd (recorded s' k) \<le> u - windowMs s"
      then have "?live = recorded s' k"
        using sorted live(2) by (cases "recorded s' k") (auto simp: filter_id_conv)
      with less live(1) show False by simp
    qed
  qed
  have "allowed d' \<longleftrightarrow> int (length ?live) < limitN s"
    using rc(2) later cfg(3) run'
  proof (cases rule: rateCheck_cases)
    case (bucket s0)
    then have c0: "bucketsOk now s0" "configOk s0" "limitN s0 = limitN s" "windowMs s0 = windowMs s"
      "filter (\<lambda>e. e > u - windowMs s) (recorded s0 k) = ?live"
      using cfg by (auto simp: quietStep_def sameConfig_def configOk_def)
    show ?thesis using checkBucket_spec(3) [OF c0(1) later c0(2) bucket(2) refl] c0(3-5) by simp
  next
    case full
    then show ?thesis using maybeSweep_room [OF cap refused(2), of u] by blast
  qed
  then show ?thesis using run' count live(3) by auto
qed

theorem rate_retry_exact_witness:
  "allowed (snd (rateCheck ''a'' 1000
     \<lparr>buckets = [(''a'', \<lparr>events = [0], seenAt = 10\<rparr>)], windowMs = 1000, limitN = 1, idleMs = 600000,
      maxBuckets = Some 1, fullTill = Already, sweptAt = 0, checksSinceSweep = 2\<rparr>))"
proof -
  let ?s = "\<lparr>buckets = [(''a'', \<lparr>events = [0], seenAt = 0\<rparr>)], windowMs = 1000, limitN = 1, idleMs = 600000,
      maxBuckets = Some 1, fullTill = Already, sweptAt = 0, checksSinceSweep = 1\<rparr>"
  let ?s' = "\<lparr>buckets = [(''a'', \<lparr>events = [0], seenAt = 10\<rparr>)], windowMs = 1000, limitN = 1, idleMs = 600000,
      maxBuckets = Some 1, fullTill = Already, sweptAt = 0, checksSinceSweep = 2\<rparr>"
  let ?d = "\<lparr>allowed = False, remaining = 0, retryAfterMs = 990, resetAfterMs = 990, dLimit = 1, dAt = None\<rparr>"
  have run: "rateCheck ''a'' 10 ?s = (?s', ?d)"
    by (simp add: rateCheck_def rateMaybeSweep_def SWEEP_EVERY_CHECKS_def jm_has_def checkBucket_def
        firstLiveIndex_def liveSearch.simps jm_set_def jm_get_def)
  have "allowed (snd (rateCheck ''a'' 1000 ?s')) \<longleftrightarrow> 10 + retryAfterMs ?d \<le> 1000"
    by (rule rate_retry_exact [OF _ _ _ _ run, of 0])
      (auto simp: bucketsOk_def bucketOk_def configOk_def capOk_def jm_has_def jm_get_def split: if_splits)
  then show ?thesis by simp
qed

section \<open>The memory a limiter can take\<close>

lemma capOk_step: 
  assumes "bucketsOk t s" "configOk s" "capOk s" "chronological t (x # xs)" "logStep key x (s, L) = (s', L')"
  shows "capOk s' \<and> sameConfig s s'"
proof (cases x)
  case (Check k now)
  obtain s1 d where run: "rateCheck k now s = (s1, d)" by force
  with assms Check have "s' = s1" "t \<le> now" by (auto split: prod.splits)
  then show ?thesis using capOk_check [OF assms(1) _ assms(2,3) run] rateCheck_spec(1) [OF assms(1) _ assms(2) run] by simp
next
  case (RefundOf k u)
  with assms have s': "s' = rateRefund k (Some u) s" by simp
  then have "sameConfig s s'" "length (buckets s') = length (buckets s)"
    by (auto simp: sameConfig_def rateRefund_def length_jm_set jm_has_get split: option.splits)
  then show ?thesis using assms(3) capOk_shrink by fastforce
next
  case (SweepAt now)
  with assms have "s' = fst (rateSweep now s)" by simp
  then show ?thesis using assms(3)
    by (auto simp: capOk_def sameConfig_def rateSweep_def Let_def order_trans [OF _] split: option.splits
        intro: order_trans [of _ "int (length (buckets s))"])
qed

lemma capOk_run:
  "logInv key w n t (s, L) \<Longrightarrow> capOk s \<Longrightarrow> chronological t xs \<Longrightarrow> logRun key xs (s, L) = (s', L') \<Longrightarrow>
   capOk s' \<and> sameConfig s s'"
proof (induction xs arbitrary: t s L)
  case (Cons x xs)
  obtain s1 L1 where st: "logStep key x (s, L) = (s1, L1)" by force
  obtain t' where t': "logInv key w n t' (s1, L1)" "chronological t' xs"
    using logInv_step [OF Cons.prems(1,3)] st by auto
  have s1: "capOk s1 \<and> sameConfig s s1"
    using capOk_step [OF _ _ Cons.prems(2,3) st] Cons.prems(1) by (auto simp: logInv_def)
  then show ?case using Cons.IH [OF t'(1) _ t'(2)] Cons.prems(4) st by (auto simp: sameConfig_def)
qed (simp add: sameConfig_def)

text \<open>
  The memory bound. Whatever the history of checks, refunds and sweeps from a fresh limiter with
  \<open>maxBuckets = m\<close>, it holds at most \<open>m\<close> buckets, and no bucket more than \<open>limit\<close> events: distinct
  keys cannot grow the map without bound.
\<close>
theorem rate_memory_bounded:
  assumes "rateLimiterNew w l i (Some (js_int m)) start = Inr s0" and "chronological t xs"
    and "logRun key xs (s0, []) = (s, L)"
  shows "int (length (buckets s)) \<le> m \<and> int (length (recorded s key)) \<le> \<lfloor>l\<rfloor>"
proof -
  note new = rateLimiterNew_fresh [OF assms(1)]
  have m: "maxBuckets s0 = Some m" "1 \<le> m"
    using assms(1) by (auto simp: rateLimiterNew_def Let_def split: if_splits jsnum.splits)
  have inv: "logInv key w \<lfloor>l\<rfloor> t (s0, [])"
    using new by (auto simp: logInv_def bucketsOk_def recorded_def inWindow_def configOk_def)
  obtain t' where "logInv key w \<lfloor>l\<rfloor> t' (s, L)" using logInv_run [OF inv assms(2)] assms(3) by auto
  then have "bucketsOk t' s \<and> configOk s \<and> limitN s = \<lfloor>l\<rfloor>" by (simp add: logInv_def)
  then have "int (length (recorded s key)) \<le> \<lfloor>l\<rfloor>" using bucketsOk_recorded(3) by metis
  with capOk_run [OF inv _ assms(2,3)] new m show ?thesis by (auto simp: capOk_def sameConfig_def)
qed

theorem rate_memory_bounded_witness:
  "let (s, L) = logRun ''a'' [Check ''a'' 0, Check ''b'' 1]
     (\<lparr>buckets = [], windowMs = 1000, limitN = 2, idleMs = 600000, maxBuckets = Some 1,
       fullTill = Already, sweptAt = 0, checksSinceSweep = 0\<rparr>, [])
   in int (length (buckets s)) \<le> 1 \<and> int (length (recorded s ''a'')) \<le> \<lfloor>2 :: rat\<rfloor>"
  unfolding Let_def split_beta
  by (rule rate_memory_bounded [of 1000 2 None 1 0 _ 0, OF _ _ prod.collapse [symmetric]])
    (simp_all add: rateLimiterNew_def DEFAULT_IDLE_MS_def)

end
