(* ===== verification/RateLimitStore.thy ===== *)
theory RateLimitStore
  imports RateLimit
begin

text \<open>
  The shared-store limiter: \<open>StoreRateLimiter\<close> of \<open>platform/rate-limit/memory.ts\<close> over the
  \<open>RateLimitStore\<close> port, \<open>RateLimitStoreOverKv\<close> and \<open>denoKvBackend\<close> of \<open>platform/rate-limit/kv.ts\<close>, and
  \<open>failOpenLimiter\<close>. The port and the key/value port are locales; a per-key log of granted requests is
  the specification both limiters refine, so moving from one to the other changes no decision.
\<close>

section \<open>The limiter over a store\<close>

definition storeTtlMs :: "rat list \<Rightarrow> rat \<Rightarrow> rat \<Rightarrow> rat" where
  "storeTtlMs es windowLen now = max 1 ((if es = [] then now else last es) + windowLen - now)"

text \<open>\<open>events.slice(-limit)\<close>.\<close>

definition lastN :: "int \<Rightarrow> rat list \<Rightarrow> rat list" where
  "lastN n es = drop (length es - nat n) es"

definition decisionOf :: "rat \<Rightarrow> int \<Rightarrow> bool \<Rightarrow> rat list \<Rightarrow> rat \<Rightarrow> RateLimitDecision" where
  "decisionOf w n ok es now =
     (let oldest = (if es = [] then now else hd es);
          untilOldestLeaves = max 0 (oldest + w - now)
      in if \<not> ok then
           \<lparr>allowed = False, remaining = 0, retryAfterMs = untilOldestLeaves,
            resetAfterMs = untilOldestLeaves, dLimit = n, dAt = None\<rparr>
         else
           \<lparr>allowed = True, remaining = max 0 (n - int (length es)), retryAfterMs = 0,
            resetAfterMs = untilOldestLeaves, dLimit = n, dAt = Some now\<rparr>)"

text \<open>
  The store is its state and the port's operations; \<open>consume\<close> and \<open>release\<close> are optional, as in the
  port.
\<close>

record 's rateStore =
  readOp :: "string \<Rightarrow> rat \<Rightarrow> 's \<Rightarrow> 's \<times> rat list option"
  writeOp :: "string \<Rightarrow> rat list \<Rightarrow> rat \<Rightarrow> rat \<Rightarrow> 's \<Rightarrow> 's"
  deleteOp :: "string \<Rightarrow> 's \<Rightarrow> 's"
  consumeOp :: "(string \<Rightarrow> rat \<Rightarrow> rat \<Rightarrow> int \<Rightarrow> 's \<Rightarrow> 's \<times> bool \<times> rat list) option"
  releaseOp :: "(string \<Rightarrow> rat option \<Rightarrow> 's \<Rightarrow> 's) option"

definition storeLimiterNew :: "rat \<Rightarrow> rat \<Rightarrow> js_error + (rat \<times> int)" where
  "storeLimiterNew window limit =
     (if \<not> window > 0 then Inl (PlainErr ''windowMs must be > 0'')
      else if \<not> limit \<ge> 1 then Inl (PlainErr ''limit must be >= 1'')
      else Inr (window, \<lfloor>limit\<rfloor>))"

definition storeCheck ::
  "'s rateStore \<Rightarrow> rat \<Rightarrow> int \<Rightarrow> string \<Rightarrow> rat \<Rightarrow> 's \<Rightarrow> 's \<times> RateLimitDecision" where
  "storeCheck st w n key now s =
     (case consumeOp st of
        Some consume \<Rightarrow>
          (case consume key now w n s of
             (s1, ok, es) \<Rightarrow> (s1, decisionOf w n ok (lastN n es) now))
      | None \<Rightarrow>
          (let cutoff = now - w;
               (s1, recordedEs) = readOp st key now s;
               es = lastN n (filter (\<lambda>e. e > cutoff) (orElse recordedEs []))
           in if int (length es) \<ge> n then (s1, decisionOf w n False es now)
              else let es' = es @ [now] in
                (writeOp st key es' now (storeTtlMs es' w now) s1, decisionOf w n True es' now)))"

definition storeRefund ::
  "'s rateStore \<Rightarrow> rat \<Rightarrow> string \<Rightarrow> rat option \<Rightarrow> rat \<Rightarrow> 's \<Rightarrow> 's" where
  "storeRefund st w key atMs now s =
     (case releaseOp st of
        Some release \<Rightarrow> release key atMs s
      | None \<Rightarrow>
          (let (s1, recordedEs) = readOp st key now s;
               es = filter (\<lambda>e. e > now - w) (orElse recordedEs [])
           in if (case atMs of None \<Rightarrow> es = [] | Some t \<Rightarrow> t \<notin> set es) then s1
              else let es' = (case atMs of None \<Rightarrow> butlast es | Some t \<Rightarrow> removeLast t es) in
                if es' = [] then deleteOp st key s1
                else writeOp st key es' now (storeTtlMs es' w now) s1))"

definition storeReset :: "'s rateStore \<Rightarrow> string \<Rightarrow> 's \<Rightarrow> 's" where
  "storeReset st key s = deleteOp st key s"

section \<open>The store over a key/value backend\<close>

text \<open>A value read back is a well-formed entry (\<open>isEntry\<close>) or something else.\<close>

datatype kvValue = KvEntry (kvEvents: "rat list") (expiresAt: rat) | NotEntry string

definition isEntry :: "kvValue \<Rightarrow> bool" where
  "isEntry v = (case v of KvEntry _ _ \<Rightarrow> True | NotEntry _ \<Rightarrow> False)"

text \<open>
  The backend: a read and a write at a moment, the write with the requested \<open>expireIn\<close>, and a
  delete.
\<close>

record 'b kvBackend =
  kvGet :: "'b \<Rightarrow> string \<Rightarrow> rat \<Rightarrow> kvValue option"
  kvSet :: "string \<Rightarrow> kvValue \<Rightarrow> rat \<Rightarrow> rat \<Rightarrow> 'b \<Rightarrow> 'b"
  kvDelete :: "string \<Rightarrow> 'b \<Rightarrow> 'b"

definition keyFor :: "string \<Rightarrow> string \<Rightarrow> string" where
  "keyFor keyPrefix key = keyPrefix @ '':'' @ key"

definition kvRead :: "'b kvBackend \<Rightarrow> string \<Rightarrow> string \<Rightarrow> rat \<Rightarrow> 'b \<Rightarrow> 'b \<times> rat list option" where
  "kvRead kv keyPrefix key now b =
     (let stored = kvGet kv b (keyFor keyPrefix key) now
      in if (case stored of None \<Rightarrow> True | Some v \<Rightarrow> \<not> isEntry v \<or> expiresAt v \<le> now)
         then ((if stored \<noteq> None then kvDelete kv (keyFor keyPrefix key) b else b), None)
         else (b, Some (kvEvents (the stored))))"

definition kvWrite :: "'b kvBackend \<Rightarrow> string \<Rightarrow> string \<Rightarrow> rat list \<Rightarrow> rat \<Rightarrow> rat \<Rightarrow> 'b \<Rightarrow> 'b" where
  "kvWrite kv keyPrefix key es now ttlMs b =
     (let ttl = (if ttlMs > 0 then ttlMs else 1)
      in kvSet kv (keyFor keyPrefix key) (KvEntry es (now + ttl)) ttl now b)"

definition kvStoreDelete :: "'b kvBackend \<Rightarrow> string \<Rightarrow> string \<Rightarrow> 'b \<Rightarrow> 'b" where
  "kvStoreDelete kv keyPrefix key b = kvDelete kv (keyFor keyPrefix key) b"

text \<open>\<open>createKvStore\<close>: the store has no atomic operations.\<close>

definition createKvStore :: "'b kvBackend \<Rightarrow> string \<Rightarrow> 'b rateStore" where
  "createKvStore kv keyPrefix =
     \<lparr>readOp = kvRead kv keyPrefix, writeOp = kvWrite kv keyPrefix, deleteOp = kvStoreDelete kv keyPrefix,
      consumeOp = None, releaseOp = None\<rparr>"

text \<open>
  \<open>denoKvBackend\<close>: the adapter over a handle with list keys. The handle's operations are parameters.
\<close>

record 'b denoKv =
  dkGet :: "'b \<Rightarrow> string list \<Rightarrow> rat \<Rightarrow> kvValue option"
  dkSet :: "string list \<Rightarrow> kvValue \<Rightarrow> rat option \<Rightarrow> rat \<Rightarrow> 'b \<Rightarrow> 'b"
  dkDelete :: "string list \<Rightarrow> 'b \<Rightarrow> 'b"

definition denoKvBackend :: "'b denoKv \<Rightarrow> string \<Rightarrow> 'b kvBackend" where
  "denoKvBackend kv namespace =
     \<lparr>kvGet = (\<lambda>b i now. dkGet kv b [namespace, i] now),
      kvSet = (\<lambda>i v expireIn now. dkSet kv [namespace, i] v (Some expireIn) now),
      kvDelete = (\<lambda>i. dkDelete kv [namespace, i])\<rparr>"

section \<open>Failing open\<close>

text \<open>
  A wrapped call returns or throws; the errors handed to \<open>onError\<close> are listed with their keys.
\<close>

definition failOpenCheck :: "int \<Rightarrow> string \<Rightarrow> 'e + RateLimitDecision \<Rightarrow> RateLimitDecision \<times> ('e \<times> string) list" where
  "failOpenCheck limit key result =
     (case result of
        Inr d \<Rightarrow> (d, [])
      | Inl e \<Rightarrow> (\<lparr>allowed = True, remaining = limit, retryAfterMs = 0, resetAfterMs = 0,
                    dLimit = limit, dAt = None\<rparr>, [(e, key)]))"

definition failOpenRefund ::
  "(string \<Rightarrow> rat \<Rightarrow> 's \<Rightarrow> 's \<times> 'e option) \<Rightarrow> string \<Rightarrow> rat option \<Rightarrow> 's \<Rightarrow> 's \<times> ('e \<times> string) list" where
  "failOpenRefund refund key atMs s =
     (case atMs of
        None \<Rightarrow> (s, [])
      | Some t \<Rightarrow> (case refund key t s of
            (s1, None) \<Rightarrow> (s1, [])
          | (s1, Some e) \<Rightarrow> (s1, [(e, key)])))"

section \<open>The specification: a log of granted requests per key\<close>

type_synonym grantLog = "string \<Rightarrow> rat list"

definition liveAt :: "rat \<Rightarrow> rat \<Rightarrow> rat list \<Rightarrow> rat list" where
  "liveAt w now es = filter (\<lambda>e. e > now - w) es"

definition specCheck :: "rat \<Rightarrow> int \<Rightarrow> string \<Rightarrow> rat \<Rightarrow> grantLog \<Rightarrow> grantLog \<times> RateLimitDecision" where
  "specCheck w n key now f =
     (let live = liveAt w now (f key) in
      if int (length live) \<ge> n then (f, decisionOf w n False live now)
      else (f(key := live @ [now]), decisionOf w n True (live @ [now]) now))"

definition specRefund :: "string \<Rightarrow> rat option \<Rightarrow> grantLog \<Rightarrow> grantLog" where
  "specRefund key atMs f =
     f(key := (case atMs of None \<Rightarrow> butlast (f key) | Some t \<Rightarrow> removeLast t (f key)))"

text \<open>A history as one limiter sees it: its checks answer with decisions.\<close>

datatype limiterOp = LCheck string rat | LRefund string "rat option" rat

fun lopMs :: "limiterOp \<Rightarrow> rat" where
  "lopMs (LCheck _ now) = now"
| "lopMs (LRefund _ _ now) = now"

fun specRun :: "rat \<Rightarrow> int \<Rightarrow> limiterOp list \<Rightarrow> grantLog \<Rightarrow> RateLimitDecision list" where
  "specRun w n [] f = []"
| "specRun w n (LCheck k now # xs) f =
     (let (f', d) = specCheck w n k now f in d # specRun w n xs f')"
| "specRun w n (LRefund k a now # xs) f = specRun w n xs (specRefund k a f)"

fun memoryRun :: "limiterOp list \<Rightarrow> MemoryRateLimiter \<Rightarrow> RateLimitDecision list" where
  "memoryRun [] s = []"
| "memoryRun (LCheck k now # xs) s = (let (s', d) = rateCheck k now s in d # memoryRun xs s')"
| "memoryRun (LRefund k a now # xs) s = memoryRun xs (rateRefund k a s)"

fun storeRun :: "'s rateStore \<Rightarrow> rat \<Rightarrow> int \<Rightarrow> limiterOp list \<Rightarrow> 's \<Rightarrow> RateLimitDecision list" where
  "storeRun st w n [] s = []"
| "storeRun st w n (LCheck k now # xs) s =
     (let (s', d) = storeCheck st w n k now s in d # storeRun st w n xs s')"
| "storeRun st w n (LRefund k a now # xs) s = storeRun st w n xs (storeRefund st w k a now s)"

fun inOrder :: "rat \<Rightarrow> limiterOp list \<Rightarrow> bool" where
  "inOrder t [] = True"
| "inOrder t (x # xs) = (t \<le> lopMs x \<and> inOrder (lopMs x) xs)"

text \<open>What a history's log looks like: sorted, no event from the future, never over the limit.\<close>

definition logOk :: "rat \<Rightarrow> int \<Rightarrow> rat \<Rightarrow> grantLog \<Rightarrow> bool" where
  "logOk w n t f \<longleftrightarrow> 0 < w \<and> 1 \<le> n \<and>
     (\<forall>k. sorted (f k) \<and> (\<forall>e \<in> set (f k). e \<le> t) \<and> int (length (f k)) \<le> n)"

lemma logOkD:
  assumes "logOk w n t f"
  shows "0 < w" "1 \<le> n" "sorted (f k)" "e \<in> set (f k) \<Longrightarrow> e \<le> t" "int (length (f k)) \<le> n"
  using assms by (auto simp: logOk_def)

lemma length_liveAt [simp]: "length (liveAt w now es) \<le> length es"
  by (simp add: liveAt_def)

lemma liveAt_later: "t \<le> now \<Longrightarrow> liveAt w now (liveAt w t es) = liveAt w now es"
  by (auto simp: liveAt_def intro!: filter_cong)

lemma liveAt_same_later: "liveAt w t xs = liveAt w t ys \<Longrightarrow> t \<le> now \<Longrightarrow> liveAt w now xs = liveAt w now ys"
  by (metis liveAt_later)

lemma liveAt_append [simp]: "liveAt w now (xs @ ys) = liveAt w now xs @ liveAt w now ys"
  by (simp add: liveAt_def)

lemma liveAt_removeLast: "liveAt w now (removeLast t xs) = (if now - w < t then removeLast t (liveAt w now xs) else liveAt w now xs)"
  by (simp add: liveAt_def removeLast_filter)

lemma liveAt_butlast: "sorted xs \<Longrightarrow> liveAt w now (butlast xs) = butlast (liveAt w now xs)"
proof (cases xs rule: rev_cases)
  case (snoc ys y)
  moreover assume "sorted xs"
  ultimately have "\<not> now - w < y \<Longrightarrow> liveAt w now ys = []"
    by (auto simp: liveAt_def filter_empty_conv sorted_append)
  with snoc show ?thesis by (auto simp: liveAt_def)
qed (simp add: liveAt_def)

lemma sorted_butlast': "sorted (xs :: rat list) \<Longrightarrow> sorted (butlast xs)"
  by (cases xs rule: rev_cases) (auto simp: sorted_append)

lemma set_butlast: "set (butlast xs) \<subseteq> set xs"
  by (auto dest: in_set_butlastD)

lemma logOk_check:
  assumes "logOk w n t f" "t \<le> now"
  shows "logOk w n now (fst (specCheck w n k now f))"
proof -
  have "sorted (liveAt w now (f k))" "\<forall>e \<in> set (liveAt w now (f k)). e \<le> now"
    using assms by (auto simp: logOk_def liveAt_def sorted_filter [of "\<lambda>x. x", simplified] intro: order_trans)
  then show ?thesis using assms
    by (auto simp: logOk_def specCheck_def Let_def sorted_append intro: order_trans)
qed

lemma logOk_refund:
  assumes "logOk w n t f" "t \<le> now" shows "logOk w n now (specRefund k a f)"
proof -
  have ok: "sorted xs \<Longrightarrow> sorted (case a of None \<Rightarrow> butlast xs | Some t \<Rightarrow> removeLast t xs)"
    "set (case a of None \<Rightarrow> butlast xs | Some t \<Rightarrow> removeLast t xs) \<subseteq> set xs"
    "length (case a of None \<Rightarrow> butlast xs | Some t \<Rightarrow> removeLast t xs) \<le> length xs" for xs :: "rat list"
    using sorted_removeLast sorted_butlast' set_removeLast [of _ xs] set_butlast [of xs] length_removeLast
    by (auto split: option.splits)
  have "sorted (specRefund k a f j) \<and> (\<forall>e \<in> set (specRefund k a f j). e \<le> now) \<and>
      int (length (specRefund k a f j)) \<le> n" for j
  proof -
    have "set (specRefund k a f j) \<subseteq> set (f j)" "length (specRefund k a f j) \<le> length (f j)"
      "sorted (specRefund k a f j)"
      using ok logOkD(3) [OF assms(1)] by (auto simp: specRefund_def)
    then show ?thesis using logOkD(4) [OF assms(1), of _ j] logOkD(5) [OF assms(1), of j] assms(2) by fastforce
  qed
  then show ?thesis using logOkD(1,2) [OF assms(1)] by (simp add: logOk_def)
qed

section \<open>The in-process limiter refines the log\<close>

text \<open>Both sides hold the same events inside the window that ends now.\<close>

definition memoryRefines :: "rat \<Rightarrow> MemoryRateLimiter \<Rightarrow> grantLog \<Rightarrow> bool" where
  "memoryRefines t s f \<longleftrightarrow> bucketsOk t s \<and> configOk s \<and> maxBuckets s = None \<and>
     logOk (windowMs s) (limitN s) t f \<and>
     (\<forall>k. liveAt (windowMs s) t (recorded s k) = liveAt (windowMs s) t (f k))"

lemma checkBucket_decision:
  assumes "bucketsOk t s" "t \<le> now" "configOk s" "checkBucket k now s = (s', d)"
    and "live = liveAt (windowMs s) now (recorded s k)"
  shows "d = (if int (length live) \<ge> limitN s then decisionOf (windowMs s) (limitN s) False live now
              else decisionOf (windowMs s) (limitN s) True (live @ [now]) now)"
proof -
  let ?b = "orElse (jm_get (buckets s) k) \<lparr>events = [], seenAt = now\<rparr>"
  have "events ?b = recorded s k" by (simp add: recorded_def orElse_def split: option.split)
  moreover have "sorted (recorded s k)" using bucketsOk_recorded [OF assms(1,3)] by simp
  ultimately have lv: "drop (firstLiveIndex (events ?b) (now - windowMs s)) (events ?b) = live"
    using drop_firstLiveIndex by (simp add: assms(5) liveAt_def)
  have "1 \<le> limitN s" using assms(3) by (simp add: configOk_def)
  then show ?thesis using assms(4) unfolding checkBucket_def Let_def lv
    by (auto simp: decisionOf_def Let_def split: if_splits)
qed

lemma memory_check_refines:
  assumes ref: "memoryRefines t s f" and le: "t \<le> now" and run: "rateCheck k now s = (s', d)"
  shows "d = snd (specCheck (windowMs s) (limitN s) k now f) \<and>
    memoryRefines now s' (fst (specCheck (windowMs s) (limitN s) k now f)) \<and>
    windowMs s' = windowMs s \<and> limitN s' = limitN s"
proof -
  let ?w = "windowMs s" and ?n = "limitN s"
  have ok: "bucketsOk t s" "configOk s" "maxBuckets s = None" "logOk ?w ?n t f"
    and same: "\<And>k. liveAt ?w t (recorded s k) = liveAt ?w t (f k)"
    using ref by (auto simp: memoryRefines_def)
  note now_eq = liveAt_same_later [OF same le]
  note rc = rateCheck_spec [OF ok(1) le ok(2) run]
  have d: "d = snd (specCheck ?w ?n k now f) \<and> (allowed d \<longleftrightarrow> int (length (liveAt ?w now (f k))) < ?n)"
    using ok(1) le ok(2) run
  proof (cases rule: rateCheck_cases)
    case (bucket s0)
    then have c0: "bucketsOk t s0" "configOk s0" "limitN s0 = ?n" "windowMs s0 = ?w"
      "liveAt ?w now (recorded s0 k) = liveAt ?w now (f k)"
      using ok now_eq by (auto simp: quietStep_def sameConfig_def configOk_def liveAt_def)
    show ?thesis
      using checkBucket_decision [OF c0(1) le c0(2) bucket(2) refl]
      by (auto simp: c0 specCheck_def decisionOf_def Let_def)
  next
    case full
    have "maxBuckets (rateMaybeSweep now s) = None"
      using quietStep_maybeSweep [OF ok(1) le ok(2)] ok(3) by (simp add: quietStep_def sameConfig_def)
    then show ?thesis using full(5) by (simp add: limiterFull_def)
  qed
  have "now - ?w < now" using ok(2) by (simp add: configOk_def)
  then have "liveAt ?w now (recorded s' j) = liveAt ?w now (fst (specCheck ?w ?n k now f) j)" for j
    using rc(3) [of j] now_eq [of j] d liveAt_later [of now now ?w]
    by (auto simp: specCheck_def Let_def liveAt_def not_le)
  moreover have "sameConfig s s'" "bucketsOk now s'" using rc by auto
  ultimately show ?thesis using d ok(2,3) logOk_check [OF ok(4) le]
    by (auto simp: memoryRefines_def sameConfig_def configOk_def)
qed

definition dropOne :: "rat option \<Rightarrow> rat list \<Rightarrow> rat list" where
  "dropOne a xs = (case a of None \<Rightarrow> butlast xs | Some t \<Rightarrow> removeLast t xs)"

lemma dropOne_ok:
  "sorted (xs :: rat list) \<Longrightarrow> sorted (dropOne a xs)" "set (dropOne a xs) \<subseteq> set xs"
  "length (dropOne a xs) \<le> length xs"
  using sorted_removeLast sorted_butlast' set_removeLast [of _ xs] set_butlast [of xs] length_removeLast
  by (auto simp: dropOne_def split: option.splits)

lemma liveAt_dropOne:
  "sorted xs \<Longrightarrow> liveAt w now (dropOne a xs) =
     (if \<exists>t. a = Some t \<and> t \<le> now - w then liveAt w now xs else dropOne a (liveAt w now xs))"
  by (cases a) (auto simp: dropOne_def liveAt_butlast liveAt_removeLast)

lemma rateRefund_dropOne:
  "rateRefund key a s = (case jm_get (buckets s) key of None \<Rightarrow> s
     | Some b \<Rightarrow> s\<lparr>buckets := jm_set key (b\<lparr>events := dropOne a (events b)\<rparr>) (buckets s)\<rparr>)"
  unfolding rateRefund_def dropOne_def ..

lemma specRefund_dropOne: "specRefund key a f = f(key := dropOne a (f key))"
  unfolding specRefund_def dropOne_def ..

lemma recorded_rateRefund:
  "recorded (rateRefund k a s) j = (if j = k then dropOne a (recorded s j) else recorded s j)"
  by (auto simp: recorded_def rateRefund_dropOne dropOne_def removeLast_def split: option.split)

lemma memory_refund_refines:
  assumes ref: "memoryRefines t s f" and le: "t \<le> now"
  shows "memoryRefines now (rateRefund k a s) (specRefund k a f) \<and>
    windowMs (rateRefund k a s) = windowMs s \<and> limitN (rateRefund k a s) = limitN s"
proof -
  let ?s = "rateRefund k a s" and ?w = "windowMs s"
  have cfg: "windowMs ?s = ?w" "limitN ?s = limitN s" "configOk ?s" "maxBuckets ?s = None"
    using ref by (simp_all add: rateRefund_def memoryRefines_def configOk_def split: option.split)
  have "bucketOk n now (b\<lparr>events := dropOne a (events b)\<rparr>)" if "bucketOk n now b" for n b
  proof -
    have "sorted (events b)" "\<forall>e \<in> set (events b). e \<le> now" "int (length (events b)) \<le> n"
      using that by (simp_all add: bucketOk_def)
    then have "sorted (dropOne a (events b))" "\<forall>e \<in> set (dropOne a (events b)). e \<le> now"
      "int (length (dropOne a (events b))) \<le> n"
      using dropOne_ok(1) dropOne_ok(2) [of a "events b"] dropOne_ok(3) [of a "events b"]
      by (blast, blast, linarith)
    then show ?thesis by (simp add: bucketOk_def)
  qed
  moreover have "bucketsOk now s"
    using ref le bucketsOk_mono [of t s now] unfolding memoryRefines_def by blast
  ultimately have "bucketsOk now ?s"
    by (auto simp: rateRefund_dropOne bucketsOk_def split: option.split)
  moreover have "liveAt ?w now (recorded ?s j) = liveAt ?w now (specRefund k a f j)" for j
  proof -
    have "liveAt ?w now (recorded s j) = liveAt ?w now (f j)"
      using ref le liveAt_same_later [of ?w t "recorded s j" "f j" now] unfolding memoryRefines_def by blast
    moreover have "sorted (recorded s j)" "sorted (f j)"
      using ref bucketsOk_recorded(1) [of t s j] unfolding memoryRefines_def logOk_def by blast+
    ultimately show ?thesis
      by (cases "j = k"; cases a) (simp_all add: recorded_rateRefund specRefund_dropOne liveAt_dropOne)
  qed
  moreover have "logOk ?w (limitN s) now (specRefund k a f)"
    using ref le logOk_refund unfolding memoryRefines_def by blast
  ultimately show ?thesis using cfg by (simp add: memoryRefines_def)
qed

lemma memoryRun_spec:
  "memoryRefines t s f \<Longrightarrow> inOrder t xs \<Longrightarrow> memoryRun xs s = specRun (windowMs s) (limitN s) xs f"
proof (induction xs arbitrary: t s f)
  case (Cons x xs)
  show ?case
  proof (cases x)
    case (LCheck k now)
    obtain s' d where run: "rateCheck k now s = (s', d)" by force
    have le: "t \<le> now" "inOrder now xs" using Cons.prems(2) LCheck by simp_all
    note step = memory_check_refines [OF Cons.prems(1) le(1) run]
    from Cons.IH [of now s'] step le(2) show ?thesis by (simp add: LCheck run split_beta)
  next
    case (LRefund k a now)
    have le: "t \<le> now" "inOrder now xs" using Cons.prems(2) LRefund by simp_all
    note step = memory_refund_refines [OF Cons.prems(1) le(1), of k a]
    from Cons.IH [of now "rateRefund k a s"] step le(2) show ?thesis by (simp add: LRefund)
  qed
qed simp

section \<open>The port's contract\<close>

text \<open>
  What the limiter relies on: a read returns what the store holds, and does not change what later
  reads return; a written window is returned until its time to live ends, and after that it is
  returned or absent; other keys are not touched.
\<close>

locale rate_store =
  fixes readE :: "string \<Rightarrow> rat \<Rightarrow> 's \<Rightarrow> 's \<times> rat list option"
    and writeE :: "string \<Rightarrow> rat list \<Rightarrow> rat \<Rightarrow> rat \<Rightarrow> 's \<Rightarrow> 's"
    and deleteE :: "string \<Rightarrow> 's \<Rightarrow> 's"
    and holds :: "'s \<Rightarrow> string \<Rightarrow> rat \<Rightarrow> rat list option"
  assumes read_result: "snd (readE k now s) = holds s k now"
    and read_keeps: "now \<le> u \<Longrightarrow> holds (fst (readE k now s)) j u = holds s j u"
    and write_other: "j \<noteq> k \<Longrightarrow> holds (writeE k es now ttl s) j u = holds s j u"
    and write_live: "0 < ttl \<Longrightarrow> now \<le> u \<Longrightarrow> u < now + ttl \<Longrightarrow> holds (writeE k es now ttl s) k u = Some es"
    and write_late: "0 < ttl \<Longrightarrow> now + ttl \<le> u \<Longrightarrow>
      holds (writeE k es now ttl s) k u = None \<or> holds (writeE k es now ttl s) k u = Some es"
    and delete_holds: "holds (deleteE k s) j u = (if j = k then None else holds s j u)"
begin

definition storeOps :: "'s rateStore" where
  "storeOps = \<lparr>readOp = readE, writeOp = writeE, deleteOp = deleteE, consumeOp = None, releaseOp = None\<rparr>"

definition storeRefines :: "rat \<Rightarrow> int \<Rightarrow> rat \<Rightarrow> 's \<Rightarrow> grantLog \<Rightarrow> bool" where
  "storeRefines w n t s f \<longleftrightarrow> logOk w n t f \<and>
     (\<forall>k u. t \<le> u \<longrightarrow> liveAt w u (orElse (holds s k u) []) = liveAt w u (f k))"

lemma write_live_events:
  assumes "es \<noteq> []" "sorted es" "now \<le> u" "ttl = storeTtlMs es w now"
  shows "liveAt w u (orElse (holds (writeE k es now ttl s) k u) []) = liveAt w u es"
proof (cases "u < now + ttl")
  case True
  have "0 < ttl" by (simp add: assms(4) storeTtlMs_def)
  then show ?thesis using write_live [OF _ assms(3) True] by simp
next
  case False
  then have "last es + w \<le> u" using assms(1,4) by (simp add: storeTtlMs_def)
  then have "liveAt w u es = []"
    using assms(1,2) by (cases es rule: rev_cases) (fastforce simp: liveAt_def filter_empty_conv sorted_append)+
  moreover have "0 < ttl" by (simp add: assms(4) storeTtlMs_def)
  ultimately show ?thesis using write_late [of ttl now u k es s] False
    by (auto simp: liveAt_def)
qed

lemma store_check_refines:
  assumes ref: "storeRefines w n t s f" and le: "t \<le> now" and run: "storeCheck storeOps w n k now s = (s', d)"
  shows "d = snd (specCheck w n k now f) \<and> storeRefines w n now s' (fst (specCheck w n k now f))"
proof -
  have log: "logOk w n t f" and same: "\<And>k u. t \<le> u \<Longrightarrow> liveAt w u (orElse (holds s k u) []) = liveAt w u (f k)"
    using ref by (auto simp: storeRefines_def)
  let ?live = "liveAt w now (f k)" and ?s1 = "fst (readE k now s)"
  have lv: "filter (\<lambda>e. e > now - w) (orElse (holds s k now) []) = ?live"
    using same [OF le, of k] by (simp add: liveAt_def)
  have "length ?live \<le> nat n"
    using logOkD(5) [OF log, of k] order_trans [OF length_liveAt [of w now "f k"], of "nat n"] by linarith
  then have lst: "lastN n ?live = ?live" by (simp add: lastN_def)
  have run': "(if int (length ?live) \<ge> n then (?s1, decisionOf w n False ?live now)
       else (writeE k (?live @ [now]) now (storeTtlMs (?live @ [now]) w now) ?s1,
             decisionOf w n True (?live @ [now]) now)) = (s', d)"
    using run unfolding storeCheck_def storeOps_def Let_def split_beta rateStore.select_convs option.case
      read_result lv lst .
  have log': "logOk w n now (fst (specCheck w n k now f))" using logOk_check [OF log le] .
  have keeps: "liveAt w u (orElse (holds ?s1 j u) []) = liveAt w u (f j)" if "now \<le> u" for j u
    using read_keeps [OF that] same [of u j] le that by simp
  have "liveAt w u (orElse (holds s' j u) []) = liveAt w u (fst (specCheck w n k now f) j)" if u: "now \<le> u" for j u
  proof (cases "int (length ?live) \<ge> n")
    case True
    with run' keeps [OF u] show ?thesis by (simp add: specCheck_def Let_def)
  next
    case False
    have "sorted (?live @ [now])" using log' False by (auto simp: logOk_def specCheck_def Let_def split: if_splits)
    from write_live_events [OF _ this u refl] False run' keeps [OF u] write_other show ?thesis
      by (auto simp: specCheck_def Let_def)
  qed
  then show ?thesis using log' run' by (auto simp: storeRefines_def specCheck_def Let_def split: if_splits)
qed

lemma store_refund_refines:
  assumes ref: "storeRefines w n t s f" and le: "t \<le> now"
  shows "storeRefines w n now (storeRefund storeOps w k a now s) (specRefund k a f)"
proof -
  have log: "logOk w n t f" and same: "\<And>k u. t \<le> u \<Longrightarrow> liveAt w u (orElse (holds s k u) []) = liveAt w u (f k)"
    using ref by (auto simp: storeRefines_def)
  let ?live = "liveAt w now (f k)" and ?s1 = "fst (readE k now s)"
  have lv: "filter (\<lambda>e. e > now - w) (orElse (holds s k now) []) = ?live"
    using same [OF le, of k] by (simp add: liveAt_def)
  have run: "storeRefund storeOps w k a now s =
     (if (case a of None \<Rightarrow> ?live = [] | Some t \<Rightarrow> t \<notin> set ?live) then ?s1
      else if dropOne a ?live = [] then deleteE k ?s1
      else writeE k (dropOne a ?live) now (storeTtlMs (dropOne a ?live) w now) ?s1)"
    unfolding storeRefund_def storeOps_def Let_def split_beta rateStore.select_convs option.case
      read_result lv dropOne_def [symmetric] ..
  have keeps: "liveAt w u (orElse (holds ?s1 j u) []) = liveAt w u (f j)" if "now \<le> u" for j u
    using read_keeps [OF that] same [of u j] le that by simp
  have srt: "sorted (f k)" "sorted ?live" 
    using logOkD(3) [OF log] by (auto simp: liveAt_def sorted_filter [of "\<lambda>x. x", simplified])
  have none: "dropOne a ?live = ?live" if "case a of None \<Rightarrow> ?live = [] | Some t \<Rightarrow> t \<notin> set ?live"
    using that by (auto simp: dropOne_def removeLast_def remove1_idem split: option.splits)
  have drop: "liveAt w u (dropOne a (f k)) = liveAt w u (dropOne a ?live)" if "now \<le> u" for u
    using that srt by (auto simp: liveAt_dropOne liveAt_later)
  have "liveAt w u (orElse (holds (storeRefund storeOps w k a now s) j u) []) = liveAt w u (specRefund k a f j)"
    if u: "now \<le> u" for j u
  proof (cases "j = k")
    case False
    then show ?thesis using keeps [OF u] write_other delete_holds by (simp add: run specRefund_dropOne)
  next
    case True
    then show ?thesis
      using keeps [OF u, of k] drop [OF u] none delete_holds liveAt_later [OF u, of w "f k"]
        write_live_events [OF _ dropOne_ok(1) [OF srt(2)] u refl, of a]
      by (auto simp: run specRefund_dropOne split: if_splits)
  qed
  then show ?thesis using logOk_refund [OF log le] by (simp add: storeRefines_def)
qed

lemma storeRun_spec:
  "storeRefines w n t s f \<Longrightarrow> inOrder t xs \<Longrightarrow> storeRun storeOps w n xs s = specRun w n xs f"
proof (induction xs arbitrary: t s f)
  case (Cons x xs)
  show ?case
  proof (cases x)
    case (LCheck k now)
    obtain s' d where run: "storeCheck storeOps w n k now s = (s', d)" by force
    have le: "t \<le> now" "inOrder now xs" using Cons.prems(2) LCheck by simp_all
    note step = store_check_refines [OF Cons.prems(1) le(1) run]
    from Cons.IH [of now s'] step le(2) show ?thesis by (simp add: LCheck run split_beta)
  next
    case (LRefund k a now)
    have le: "t \<le> now" "inOrder now xs" using Cons.prems(2) LRefund by simp_all
    note step = store_refund_refines [OF Cons.prems(1) le(1), of k a]
    from Cons.IH [OF step le(2)] show ?thesis by (simp add: LRefund)
  qed
qed simp

end

section \<open>A key/value backend gives a store\<close>

text \<open>
  The key/value port: a set is read back until \<open>expireIn\<close> has passed, after that it is read back or
  gone; an entry never changes by itself; keys are independent.
\<close>

locale rate_kv =
  fixes get :: "'b \<Rightarrow> string \<Rightarrow> rat \<Rightarrow> kvValue option"
    and put :: "string \<Rightarrow> kvValue \<Rightarrow> rat \<Rightarrow> rat \<Rightarrow> 'b \<Rightarrow> 'b"
    and del :: "string \<Rightarrow> 'b \<Rightarrow> 'b"
    and keyPrefix :: string
  assumes put_live: "now \<le> u \<Longrightarrow> u < now + e \<Longrightarrow> get (put k v e now b) k u = Some v"
    and put_late: "now + e \<le> u \<Longrightarrow> get (put k v e now b) k u = None \<or> get (put k v e now b) k u = Some v"
    and put_other: "j \<noteq> k \<Longrightarrow> get (put k v e now b) j u = get b j u"
    and del_get: "get (del k b) j u = (if j = k then None else get b j u)"
    and get_stable: "now \<le> u \<Longrightarrow> get b k u = None \<or> get b k u = get b k now"
begin

definition kvOps :: "'b kvBackend" where
  "kvOps = \<lparr>kvGet = get, kvSet = put, kvDelete = del\<rparr>"

definition kvHolds :: "'b \<Rightarrow> string \<Rightarrow> rat \<Rightarrow> rat list option" where
  "kvHolds b k u = snd (kvRead kvOps keyPrefix k u b)"

lemma kvHolds_get:
  "kvHolds b k u = (case get b (keyFor keyPrefix k) u of
     Some (KvEntry es till) \<Rightarrow> if till \<le> u then None else Some es | _ \<Rightarrow> None)"
  by (auto simp: kvHolds_def kvRead_def kvOps_def Let_def isEntry_def split: option.splits kvValue.splits)

lemma keyFor_inj [simp]: "keyFor keyPrefix j = keyFor keyPrefix k \<longleftrightarrow> j = k"
  by (simp add: keyFor_def)

lemma kvRead_keeps:
  assumes "now \<le> u" shows "kvHolds (fst (kvRead kvOps keyPrefix k now b)) j u = kvHolds b j u"
proof (cases "j = k")
  case True
  have "get b (keyFor keyPrefix k) u = None \<or> get b (keyFor keyPrefix k) u = get b (keyFor keyPrefix k) now"
    using get_stable [OF assms] .
  then show ?thesis using assms True
    by (auto simp: kvHolds_get kvRead_def kvOps_def del_get Let_def isEntry_def
        split: option.splits kvValue.splits)
next
  case False
  then show ?thesis by (simp add: kvHolds_get kvRead_def kvOps_def del_get Let_def)
qed

lemma kvWrite_get:
  "0 < ttl \<Longrightarrow> kvWrite kvOps keyPrefix k es now ttl b =
     put (keyFor keyPrefix k) (KvEntry es (now + ttl)) ttl now b"
  by (simp add: kvWrite_def kvOps_def)

end

sublocale rate_kv \<subseteq> store: rate_store "kvRead kvOps keyPrefix" "kvWrite kvOps keyPrefix"
  "kvStoreDelete kvOps keyPrefix" kvHolds
proof
  fix k j :: string and now u ttl :: rat and es and b :: 'b
  show "snd (kvRead kvOps keyPrefix k now b) = kvHolds b k now" by (simp add: kvHolds_def)
  show "now \<le> u \<Longrightarrow> kvHolds (fst (kvRead kvOps keyPrefix k now b)) j u = kvHolds b j u"
    by (rule kvRead_keeps)
  show "j \<noteq> k \<Longrightarrow> kvHolds (kvWrite kvOps keyPrefix k es now ttl b) j u = kvHolds b j u"
    by (simp add: kvHolds_get kvWrite_def kvOps_def put_other Let_def)
  show "0 < ttl \<Longrightarrow> now \<le> u \<Longrightarrow> u < now + ttl \<Longrightarrow>
      kvHolds (kvWrite kvOps keyPrefix k es now ttl b) k u = Some es"
    by (simp add: kvHolds_get kvWrite_get put_live)
  show "0 < ttl \<Longrightarrow> now + ttl \<le> u \<Longrightarrow>
      kvHolds (kvWrite kvOps keyPrefix k es now ttl b) k u = None \<or>
      kvHolds (kvWrite kvOps keyPrefix k es now ttl b) k u = Some es"
    using put_late [of now ttl u "keyFor keyPrefix k" "KvEntry es (now + ttl)" b]
    by (auto simp: kvHolds_get kvWrite_get)
  show "kvHolds (kvStoreDelete kvOps keyPrefix k b) j u = (if j = k then None else kvHolds b j u)"
    by (simp add: kvHolds_get kvStoreDelete_def kvOps_def del_get)
qed

context rate_kv
begin

lemma kvRun_spec:
  assumes "logOk w n t (\<lambda>_. [])" "\<forall>k u. get b k u = None" "inOrder t xs"
  shows "storeRun (createKvStore kvOps keyPrefix) w n xs b = specRun w n xs (\<lambda>_. [])"
proof -
  have "createKvStore kvOps keyPrefix = store.storeOps" by (simp add: createKvStore_def store.storeOps_def)
  moreover have "store.storeRefines w n t b (\<lambda>_. [])"
    using assms(1,2) by (simp add: store.storeRefines_def kvHolds_get)
  ultimately show ?thesis using store.storeRun_spec [OF _ assms(3)] by simp
qed

end

text \<open>
  A handle as \<open>Deno.Kv\<close> documents it: a map from key paths to values, an \<open>expireIn\<close> after which a
  value is gone. The adapter over it satisfies the port.
\<close>

type_synonym handle = "string list \<Rightarrow> (kvValue \<times> rat option) option"

definition handleOps :: "handle denoKv" where
  "handleOps = \<lparr>dkGet = (\<lambda>h p now. case h p of None \<Rightarrow> None
                  | Some (v, till) \<Rightarrow> if (case till of None \<Rightarrow> False | Some x \<Rightarrow> x \<le> now) then None else Some v),
     dkSet = (\<lambda>p v e now h. h(p \<mapsto> (v, map_option (\<lambda>x. now + x) e))),
     dkDelete = (\<lambda>p h. h(p := None))\<rparr>"

abbreviation adapter :: "handle kvBackend" where
  "adapter \<equiv> denoKvBackend handleOps ''rate-limit''"

interpretation denoKv: rate_kv "kvGet adapter" "kvSet adapter" "kvDelete adapter" p for p
  by unfold_locales
    (auto simp: denoKvBackend_def handleOps_def split: option.splits)

section \<open>The two limiters are interchangeable\<close>

lemma fresh_refines:
  assumes "rateLimiterNew w l i None start = Inr s0"
  shows "memoryRefines t s0 (\<lambda>_. []) \<and> windowMs s0 = w \<and> limitN s0 = \<lfloor>l\<rfloor>"
  using assms
  by (auto simp: rateLimiterNew_def memoryRefines_def bucketsOk_def configOk_def logOk_def recorded_def
      Let_def split: if_splits jsnum.splits)

text \<open>
  C6: Moving from the in-process limiter to the store-backed one changes no decision. Over any
  key/value backend that keeps a value until its \<open>expireIn\<close> (and may or may not drop it after), the
  store limiter and an uncapped memory limiter give, to every history of checks and refunds in time
  order, the same decisions: \<open>allowed\<close>, \<open>remaining\<close>, \<open>retryAfterMs\<close>, \<open>resetAfterMs\<close> and all.
\<close>
theorem store_limiter_equals_memory:
  fixes kv :: "'b kvBackend"
  assumes kv: "rate_kv (kvGet kv) (kvSet kv) (kvDelete kv)" and empty: "\<forall>k u. kvGet kv b k u = None"
    and new: "rateLimiterNew w l i None start = Inr s0" and order: "inOrder t xs"
  shows "storeRun (createKvStore kv keyPrefix) w \<lfloor>l\<rfloor> xs b = memoryRun xs s0"
proof -
  have "rate_kv.kvOps (kvGet kv) (kvSet kv) (kvDelete kv) = kv" by (simp add: rate_kv.kvOps_def [OF kv])
  moreover have "logOk w \<lfloor>l\<rfloor> t (\<lambda>_. [])" using fresh_refines [OF new, of t] by (auto simp: memoryRefines_def)
  ultimately have "storeRun (createKvStore kv keyPrefix) w \<lfloor>l\<rfloor> xs b = specRun w \<lfloor>l\<rfloor> xs (\<lambda>_. [])"
    using rate_kv.kvRun_spec [OF kv _ empty order, of w "\<lfloor>l\<rfloor>" keyPrefix] by simp
  then show ?thesis using memoryRun_spec [OF _ order] fresh_refines [OF new, of t] by metis
qed

theorem store_limiter_equals_memory_witness:
  "storeRun (createKvStore adapter ''ratelimit'') 1000 1 [LCheck ''a'' 0, LCheck ''a'' 5, LRefund ''a'' (Some 0) 6, LCheck ''a'' 7]
     Map.empty =
   memoryRun [LCheck ''a'' 0, LCheck ''a'' 5, LRefund ''a'' (Some 0) 6, LCheck ''a'' 7]
     \<lparr>buckets = [], windowMs = 1000, limitN = 1, idleMs = 600000, maxBuckets = None,
       fullTill = Already, sweptAt = 0, checksSinceSweep = 0\<rparr>"
  using store_limiter_equals_memory [OF denoKv.rate_kv_axioms, of Map.empty 1000 1 None 0 _ 0
      "[LCheck ''a'' 0, LCheck ''a'' 5, LRefund ''a'' (Some 0) 6, LCheck ''a'' 7]" "''ratelimit''"]
  by (simp add: rateLimiterNew_def DEFAULT_IDLE_MS_def denoKvBackend_def handleOps_def
      del: storeRun.simps memoryRun.simps)

end
