(* ===== verification/Strings.thy ===== *)
theory Strings
  imports Prelude "HOL-Library.Sublist"
begin

text \<open>
  String operations of JavaScript that the components share, over lists of characters: splitting on
  a separator and joining, the first and last index of a substring, decimal and hexadecimal
  spelling and reading of natural numbers, case folding of ASCII letters. Lemmas give the round
  trips.
\<close>

named_theorems js_string_simps "splitting, joining and searching of strings"

section \<open>Characters\<close>

definition code :: "char \<Rightarrow> nat" where
  "code c = of_char c"

definition isDigit :: "char \<Rightarrow> bool" where
  "isDigit c \<longleftrightarrow> 48 \<le> code c \<and> code c \<le> 57"

definition digitVal :: "char \<Rightarrow> nat" where
  "digitVal c = code c - 48"

definition isLower :: "char \<Rightarrow> bool" where
  "isLower c \<longleftrightarrow> 97 \<le> code c \<and> code c \<le> 122"

definition isUpper :: "char \<Rightarrow> bool" where
  "isUpper c \<longleftrightarrow> 65 \<le> code c \<and> code c \<le> 90"

definition isHexDigit :: "char \<Rightarrow> bool" where
  "isHexDigit c \<longleftrightarrow> isDigit c \<or> (97 \<le> code c \<and> code c \<le> 102) \<or> (65 \<le> code c \<and> code c \<le> 70)"

definition hexVal :: "char \<Rightarrow> nat" where
  "hexVal c = (if isDigit c then code c - 48 else if 97 \<le> code c then code c - 87 else code c - 55)"

definition lowerChar :: "char \<Rightarrow> char" where
  "lowerChar c = (if isUpper c then char_of (code c + 32) else c)"

definition upperChar :: "char \<Rightarrow> char" where
  "upperChar c = (if isLower c then char_of (code c - 32) else c)"

lemma code_char_of [simp]: "n < 256 \<Longrightarrow> code (char_of n) = n"
  by (simp add: code_def)

lemma code_digit_char [simp]: "d < 10 \<Longrightarrow> code (digit_char d) = 48 + d"
  by (simp add: digit_char_def)

lemma digit_char_digit [simp]: "d < 10 \<Longrightarrow> isDigit (digit_char d)" "d < 10 \<Longrightarrow> digitVal (digit_char d) = d"
  by (simp_all add: isDigit_def digitVal_def)

lemma code_inj: "code c = code d \<longleftrightarrow> c = d"
  by (simp add: code_def)

lemma isDigit_not [simp]:
  "\<not> isDigit (CHR ''.'')" "\<not> isDigit (CHR '':'')" "\<not> isDigit (CHR ''-'')" "\<not> isDigit (CHR ''%'')"
  "\<not> isDigit (CHR ''/'')" "\<not> isDigit (CHR ''+'')" "\<not> isDigit (CHR '','')"
  by (simp_all add: isDigit_def code_def)

lemma isHexDigit_not [simp]:
  "\<not> isHexDigit (CHR '':'')" "\<not> isHexDigit (CHR ''.'')" "\<not> isHexDigit (CHR ''%'')"
  by (simp_all add: isHexDigit_def isDigit_def code_def)

section \<open>Decimal numbers\<close>

definition readNat :: "string \<Rightarrow> nat" where
  "readNat s = foldl (\<lambda>n c. 10 * n + digitVal c) 0 s"

definition allDigits :: "string \<Rightarrow> bool" where
  "allDigits s \<longleftrightarrow> s \<noteq> [] \<and> (\<forall>c \<in> set s. isDigit c)"

lemma show_nat_allDigits: "allDigits (show_nat n)"
proof (induction n rule: show_nat.induct)
  case (1 n)
  then show ?case by (cases "n < 10") (auto simp: show_nat.simps [of n] allDigits_def)
qed

lemma show_nat_ne [simp]: "show_nat n \<noteq> []"
  using show_nat_allDigits by (auto simp: allDigits_def)

lemma show_nat_digits: "c \<in> set (show_nat n) \<Longrightarrow> isDigit c"
  using show_nat_allDigits by (auto simp: allDigits_def)

lemma readNat_snoc: "readNat (s @ [c]) = 10 * readNat s + digitVal c"
  by (simp add: readNat_def)

lemma readNat_show_nat [simp]: "readNat (show_nat n) = n"
proof (induction n rule: show_nat.induct)
  case (1 n)
  then show ?case
  proof (cases "n < 10")
    case True
    then show ?thesis by (simp add: show_nat.simps [of n] readNat_def)
  next
    case False
    with 1 show ?thesis by (simp add: show_nat.simps [of n] readNat_snoc)
  qed
qed

lemma show_nat_hd: "n \<noteq> 0 \<Longrightarrow> hd (show_nat n) \<noteq> CHR ''0''"
proof (induction n rule: show_nat.induct)
  case (1 n)
  show ?case
  proof (cases "n < 10")
    case True
    then have "code (digit_char n) = 48 + n" "code (CHR ''0'') = 48" by (simp, simp add: code_def)
    then have "digit_char n \<noteq> CHR ''0''" using 1 by auto
    with True show ?thesis by (auto simp: show_nat.simps [of n])
  next
    case False
    then have "n div 10 \<noteq> 0" by simp
    with 1 False show ?thesis by (simp add: show_nat.simps [of n] hd_append)
  qed
qed

lemma length_show_nat:
  "n < 10 ^ Suc k \<Longrightarrow> length (show_nat n) \<le> Suc k"
proof (induction k arbitrary: n)
  case (Suc k)
  then show ?case by (cases "n < 10") (simp_all add: show_nat.simps [of n] div_less_iff_less_mult)
qed (simp add: show_nat.simps)

section \<open>Hexadecimal numbers\<close>

definition hex_char :: "nat \<Rightarrow> char" where
  "hex_char d = (if d < 10 then char_of (48 + d) else char_of (87 + d))"

fun show_hex :: "nat \<Rightarrow> string" where
  "show_hex n = (if n < 16 then [hex_char n] else show_hex (n div 16) @ [hex_char (n mod 16)])"

declare show_hex.simps [simp del]

definition readHex :: "string \<Rightarrow> nat" where
  "readHex s = foldl (\<lambda>n c. 16 * n + hexVal c) 0 s"

lemma hex_char_ok [simp]: "d < 16 \<Longrightarrow> isHexDigit (hex_char d)" "d < 16 \<Longrightarrow> hexVal (hex_char d) = d"
  by (simp_all add: hex_char_def isHexDigit_def hexVal_def isDigit_def)

lemma show_hex_digits: "c \<in> set (show_hex n) \<Longrightarrow> isHexDigit c"
proof (induction n rule: show_hex.induct)
  case (1 n)
  then show ?case by (cases "n < 16") (auto simp: show_hex.simps [of n])
qed

lemma show_hex_ne [simp]: "show_hex n \<noteq> []"
  by (simp add: show_hex.simps [of n])

lemma readHex_show_hex [simp]: "readHex (show_hex n) = n"
proof (induction n rule: show_hex.induct)
  case (1 n)
  then show ?case
    by (cases "n < 16") (simp_all add: show_hex.simps [of n] readHex_def)
qed

lemma length_show_hex: "n < 16 ^ Suc k \<Longrightarrow> length (show_hex n) \<le> Suc k"
proof (induction k arbitrary: n)
  case (Suc k)
  then show ?case by (cases "n < 16") (simp_all add: show_hex.simps [of n] div_less_iff_less_mult)
qed (simp add: show_hex.simps)

section \<open>Split and join\<close>

text \<open>\<open>s.split(c)\<close> for a one-character separator; \<open>xs.join(sep)\<close>.\<close>

fun splitOn :: "char \<Rightarrow> string \<Rightarrow> string list" where
  "splitOn c [] = [[]]"
| "splitOn c (x # xs) =
     (if x = c then [] # splitOn c xs
      else (case splitOn c xs of [] \<Rightarrow> [[x]] | y # ys \<Rightarrow> (x # y) # ys))"

fun joinWith :: "string \<Rightarrow> string list \<Rightarrow> string" where
  "joinWith sep [] = []"
| "joinWith sep [x] = x"
| "joinWith sep (x # y # ys) = x @ sep @ joinWith sep (y # ys)"

lemma splitOn_ne [simp]: "splitOn c s \<noteq> []"
  by (induction s) (auto split: list.split)

lemma splitOn_none [js_string_simps]: "c \<notin> set s \<Longrightarrow> splitOn c s = [s]"
  by (induction s) auto

lemma splitOn_append [js_string_simps]:
  "c \<notin> set x \<Longrightarrow> splitOn c (x @ c # r) = x # splitOn c r"
  by (induction x) auto

lemma splitOn_join [js_string_simps]:
  "xs \<noteq> [] \<Longrightarrow> \<forall>x \<in> set xs. c \<notin> set x \<Longrightarrow> splitOn c (joinWith [c] xs) = xs"
  by (induction xs rule: induct_list012) (simp_all add: splitOn_none splitOn_append)

lemma joinWith_split [js_string_simps]: "joinWith [c] (splitOn c s) = s"
proof (induction s)
  case (Cons x s)
  obtain y ys where y: "splitOn c s = y # ys" by (cases "splitOn c s") auto
  with Cons show ?case by (cases ys) auto
qed simp

lemma set_joinWith: "set (joinWith sep xs) \<subseteq> set sep \<union> \<Union> (set ` set xs)"
  by (induction sep xs rule: joinWith.induct) auto

lemma splitOn_parts: "x \<in> set (splitOn c s) \<Longrightarrow> c \<notin> set x"
proof (induction s arbitrary: x)
  case (Cons a s)
  then show ?case by (cases "splitOn c s") (auto split: if_splits)
qed simp

lemma splitOn_part_subset: "x \<in> set (splitOn c s) \<Longrightarrow> set x \<subseteq> set s"
proof (induction s arbitrary: x)
  case (Cons a s)
  then show ?case by (cases "splitOn c s") (fastforce split: if_splits)+
qed simp

section \<open>Searching\<close>

text \<open>\<open>s.indexOf(p)\<close>: the first index, \<open>None\<close> for -1.\<close>

fun indexOf :: "string \<Rightarrow> string \<Rightarrow> nat option" where
  "indexOf p [] = (if p = [] then Some 0 else None)"
| "indexOf p (x # xs) = (if prefix p (x # xs) then Some 0 else map_option Suc (indexOf p xs))"

text \<open>\<open>s.lastIndexOf(c)\<close> for one character.\<close>

definition afterLast :: "char \<Rightarrow> string \<Rightarrow> string option" where
  "afterLast c s = (if c \<in> set s then Some (rev (takeWhile (\<lambda>x. x \<noteq> c) (rev s))) else None)"

definition uptoLast :: "char \<Rightarrow> string \<Rightarrow> string" where
  "uptoLast c s = rev (dropWhile (\<lambda>x. x \<noteq> c) (rev s))"

lemma uptoLast_afterLast: "afterLast c s = Some r \<Longrightarrow> uptoLast c s @ r = s"
  by (auto simp: afterLast_def uptoLast_def simp flip: rev_append split: if_splits)

lemma indexOf_bound: "indexOf p s = Some i \<Longrightarrow> i \<le> length s"
  by (induction s arbitrary: i) (auto split: if_splits)

lemma indexOf_take_drop: "indexOf p s = Some i \<Longrightarrow> s = take i s @ p @ drop (i + length p) s"
  by (induction s arbitrary: i) (auto split: if_splits elim: prefixE)

lemma indexOf_None: "indexOf p s = None \<longleftrightarrow> \<not> sublist p s"
  by (induction s) (auto simp: sublist_Cons_right)

text \<open>\<open><\<close> on strings compares code units.\<close>

fun strLess :: "string \<Rightarrow> string \<Rightarrow> bool" where
  "strLess [] t = (t \<noteq> [])"
| "strLess (x # xs) [] = False"
| "strLess (x # xs) (y # ys) = (code x < code y \<or> code x = code y \<and> strLess xs ys)"

lemma strLess_irrefl [simp]: "\<not> strLess s s"
  by (induction s) auto

lemma strLess_append:
  "length a = length b \<Longrightarrow> strLess (a @ s) (b @ t) \<longleftrightarrow> strLess a b \<or> a = b \<and> strLess s t"
  by (induction a b rule: list_induct2) (auto simp: code_inj)

lemma strLess_same [simp]: "strLess (a @ s) (a @ t) \<longleftrightarrow> strLess s t"
  by (simp add: strLess_append)

definition startsWith :: "string \<Rightarrow> string \<Rightarrow> bool" where
  "startsWith p s \<longleftrightarrow> prefix p s"

definition endsWith :: "string \<Rightarrow> string \<Rightarrow> bool" where
  "endsWith p s \<longleftrightarrow> suffix p s"

section \<open>Padding and trimming\<close>

definition padStart :: "nat \<Rightarrow> char \<Rightarrow> string \<Rightarrow> string" where
  "padStart n c s = replicate (n - length s) c @ s"

definition isSpaceChar :: "char \<Rightarrow> bool" where
  "isSpaceChar c \<longleftrightarrow> (9 \<le> code c \<and> code c \<le> 13) \<or> code c = 32 \<or> code c = 160"

definition trimText :: "string \<Rightarrow> string" where
  "trimText s = rev (dropWhile isSpaceChar (rev (dropWhile isSpaceChar s)))"

lemma length_padStart: "length s \<le> n \<Longrightarrow> length (padStart n c s) = n"
  by (simp add: padStart_def)

lemma set_padStart: "x \<in> set (padStart n c s) \<Longrightarrow> x = c \<or> x \<in> set s"
  by (auto simp: padStart_def split: if_splits)

lemma readNat_padStart [simp]: "readNat (padStart n (CHR ''0'') s) = readNat s"
proof -
  have zero: "digitVal (CHR ''0'') = 0" by (simp add: digitVal_def code_def)
  have "foldl (\<lambda>n c. 10 * n + digitVal c) 0 (replicate k (CHR ''0'')) = 0" for k
    by (induction k) (simp_all add: zero)
  then show ?thesis by (simp add: padStart_def readNat_def)
qed

lemma readNat_bound: "\<forall>c \<in> set s. isDigit c \<Longrightarrow> readNat s < 10 ^ length s"
proof (induction s rule: rev_induct)
  case (snoc c s)
  then have "readNat s < 10 ^ length s" "digitVal c < 10" by (auto simp: isDigit_def digitVal_def)
  then show ?case by (simp add: readNat_snoc)
qed (simp add: readNat_def)

lemma isDigit_zero [simp]: "isDigit (CHR ''0'')"
  by (simp add: isDigit_def code_def)

text \<open>\<open>String(n).padStart(k, "0")\<close> for a number that fits.\<close>

definition padNat :: "nat \<Rightarrow> nat \<Rightarrow> string" where
  "padNat k n = padStart k (CHR ''0'') (show_nat n)"

lemma padNat_props:
  assumes "n < 10 ^ Suc k"
  shows "length (padNat (Suc k) n) = Suc k" "readNat (padNat (Suc k) n) = n"
    "c \<in> set (padNat (Suc k) n) \<Longrightarrow> isDigit c"
  using length_show_nat [OF assms] show_nat_digits set_padStart
  by (auto simp: padNat_def length_padStart) (metis isDigit_zero set_padStart show_nat_digits)

section \<open>Numbers compared as texts\<close>

lemma readNat_Cons: "readNat (c # s) = digitVal c * 10 ^ length s + readNat s"
proof (induction s rule: rev_induct)
  case (snoc x xs)
  then show ?case by (simp only: append_Cons [symmetric] readNat_snoc length_append) (simp add: readNat_snoc)
qed (simp add: readNat_def)

lemma strLess_digits:
  assumes "length a = length b" "\<forall>c \<in> set a. isDigit c" "\<forall>c \<in> set b. isDigit c"
  shows "strLess a b \<longleftrightarrow> readNat a < readNat b"
  using assms
proof (induction a b rule: list_induct2)
  case (Cons x xs y ys)
  have bound: "readNat xs < 10 ^ length xs" "readNat ys < 10 ^ length xs"
    using Cons.prems Cons.hyps readNat_bound [of xs] readNat_bound [of ys] by auto
  have ordered: "c * p + r < d * p + q" if "(c :: nat) < d" "r < p" for c d p r q :: nat
  proof -
    have "c * p + r < c * p + p" using that by simp
    also have "\<dots> = (c + 1) * p" by simp
    also have "\<dots> \<le> d * p" using that by (intro mult_right_mono) auto
    finally show ?thesis by simp
  qed
  have digits: "code x < code y \<longleftrightarrow> digitVal x < digitVal y" "code x = code y \<longleftrightarrow> digitVal x = digitVal y"
    using Cons.prems by (auto simp: isDigit_def digitVal_def)
  show ?case
  proof (cases "digitVal x" "digitVal y" rule: linorder_cases)
    case less
    then show ?thesis using ordered [OF less bound(1), of "readNat ys"] digits Cons.hyps by (simp add: readNat_Cons)
  next
    case equal
    then show ?thesis using Cons.IH Cons.prems digits Cons.hyps by (simp add: readNat_Cons)
  next
    case greater
    then show ?thesis using ordered [OF greater bound(2), of "readNat xs"] digits Cons.hyps by (simp add: readNat_Cons)
  qed
qed simp

lemma readNat_inj:
  assumes "length a = length b" "\<forall>c \<in> set a. isDigit c" "\<forall>c \<in> set b. isDigit c" "readNat a = readNat b"
  shows "a = b"
proof -
  have "\<not> strLess a b" "\<not> strLess b a" using strLess_digits assms by auto
  with \<open>length a = length b\<close> show ?thesis by (induction a b rule: list_induct2) (auto simp: code_inj linorder_neq_iff)
qed

end
