(* ===== verification/IpAddress.thy ===== *)
theory IpAddress
  imports Strings "HOL-Library.Word"
begin

unbundle bit_operations_syntax

text \<open>
  \<open>net/ip.ts\<close> and \<open>net/_ipv6.ts\<close>: parsing of IPv4 and IPv6 addresses, their canonical spelling
  (RFC 5952), CIDR ranges. Bytes are 8-bit words, IPv6 groups natural numbers below \<open>2^16\<close>; strings
  hold 8-bit characters (any other character is refused by the same tests). The results: the
  canonical spelling parses back to the same address, \<open>matchesPrefix\<close> compares exactly the leading
  bits, and \<open>ipInRanges\<close> checks every range for validity before it answers.
\<close>

section \<open>IPv4\<close>

type_synonym bytes = "8 word list"

record ParsedIp =
  version :: nat
  address :: string
  ipBytes :: bytes

definition MAX_ADDRESS_LENGTH :: nat where "MAX_ADDRESS_LENGTH = 45"

text \<open>One octet of \<open>DOTTED_QUAD\<close>: \<open>0|[1-9]\d{0,2}\<close>. Also the whole of \<open>PREFIX_LENGTH\<close>.\<close>

definition octetText :: "string \<Rightarrow> bool" where
  "octetText s \<longleftrightarrow> s = ''0'' \<or>
     (allDigits s \<and> hd s \<noteq> CHR ''0'' \<and> length s \<le> 3)"

definition parseIpv4 :: "string \<Rightarrow> bytes option" where
  "parseIpv4 text =
     (let parts = splitOn (CHR ''.'') text in
      if length parts = 4 \<and> list_all octetText parts then
        (let octets = map readNat parts in
         if list_ex (\<lambda>octet. octet > 255) octets then None else Some (map of_nat octets))
      else None)"

definition byteText :: "8 word \<Rightarrow> string" where
  "byteText b = show_nat (unat b)"

definition fromIpv4 :: "bytes \<Rightarrow> ParsedIp" where
  "fromIpv4 bs = \<lparr>version = 4, address = joinWith ''.'' (map byteText bs), ipBytes = bs\<rparr>"

section \<open>IPv6\<close>

definition parseHexGroup :: "string \<Rightarrow> nat option" where
  "parseHexGroup g =
     (if length g = 0 \<or> length g > 4 then None
      else if \<not> list_all isHexDigit g then None
      else Some (readHex g))"

fun parseGroups :: "string list \<Rightarrow> nat list option" where
  "parseGroups [] = Some []"
| "parseGroups (g # gs) =
     (case parseHexGroup g of None \<Rightarrow> None
      | Some n \<Rightarrow> map_option (Cons n) (parseGroups gs))"

text \<open>The embedded dotted quad of \<open>parseIpv6Groups\<close>, promoted to two hex groups.\<close>

definition promoteQuad :: "string \<Rightarrow> string option" where
  "promoteQuad clean =
     (if CHR ''.'' \<in> set clean then
        (case afterLast (CHR '':'') clean of
           None \<Rightarrow> None
         | Some ipv4 \<Rightarrow>
             (let octets = splitOn (CHR ''.'') ipv4 in
              if length octets \<noteq> 4 then None
              else if \<not> list_all (\<lambda>oct. allDigits oct \<and> readNat oct \<le> 255) octets then None
              else (let nums = map readNat octets;
                        hi = (nums ! 0) * 256 + nums ! 1;
                        lo = (nums ! 2) * 256 + nums ! 3
                    in Some (uptoLast (CHR '':'') clean @ show_hex hi @ '':'' @ show_hex lo))))
      else Some clean)"

definition groupsOf :: "string \<Rightarrow> string list" where
  "groupsOf s = (if s = [] then [] else splitOn (CHR '':'') s)"

definition parseIpv6Groups :: "string \<Rightarrow> nat list option" where
  "parseIpv6Groups addr =
     (if addr = [] then None
      else let clean = takeWhile (\<lambda>c. c \<noteq> CHR ''%'') addr in
        if clean = [] then None
        else case promoteQuad clean of
          None \<Rightarrow> None
        | Some normalised \<Rightarrow>
            (case indexOf ''::'' normalised of
               Some dc \<Rightarrow>
                 (if indexOf ''::'' (drop (dc + 1) normalised) \<noteq> None then None
                  else let leftGroups = groupsOf (take dc normalised);
                           rightGroups = groupsOf (drop (dc + 2) normalised)
                       in if length leftGroups + length rightGroups > 7 then None
                          else (case (parseGroups leftGroups, parseGroups rightGroups) of
                              (Some l, Some r) \<Rightarrow>
                                Some (l @ replicate (8 - length leftGroups - length rightGroups) 0 @ r)
                            | _ \<Rightarrow> None))
             | None \<Rightarrow>
                 (let parts = splitOn (CHR '':'') normalised in
                  if length parts \<noteq> 8 then None else parseGroups parts)))"

text \<open>
  \<open>formatIpv6\<close>: the loop that finds the first longest run of two or more zero groups, with the index
  and the best run so far, then the spelling.
\<close>

definition zeroRunEnd :: "nat list \<Rightarrow> nat \<Rightarrow> nat" where
  "zeroRunEnd groups i = i + length (takeWhile (\<lambda>g. g = 0) (drop i (take 8 groups)))"

function bestRun :: "nat list \<Rightarrow> nat \<Rightarrow> (nat option \<times> nat) \<Rightarrow> (nat option \<times> nat)" where
  "bestRun groups i best =
     (if i < 8 \<and> i < length groups then
        if groups ! i \<noteq> 0 then bestRun groups (i + 1) best
        else let e = zeroRunEnd groups i in
          bestRun groups e (if e - i > snd best then (Some i, e - i) else best)
      else best)"
  by pat_completeness auto
termination
proof (relation "measure (\<lambda>(groups, i, best). 8 - i)")
  fix groups :: "nat list" and i e and best :: "nat option \<times> nat"
  assume i: "i < 8 \<and> i < length groups" "\<not> groups ! i \<noteq> 0" "e = zeroRunEnd groups i"
  then have "drop i (take 8 groups) = groups ! i # drop (Suc i) (take 8 groups)"
    by (simp add: Cons_nth_drop_Suc [symmetric])
  with i show "((groups, e, if e - i > snd best then (Some i, e - i) else best), groups, i, best)
      \<in> measure (\<lambda>(groups, i, best). 8 - i)"
    by (simp add: zeroRunEnd_def) arith
qed auto

declare bestRun.simps [simp del]

definition formatIpv6 :: "nat list \<Rightarrow> string" where
  "formatIpv6 groups =
     (let hex = map show_hex groups in
      case bestRun groups 0 (None, 1) of
        (None, _) \<Rightarrow> joinWith '':'' hex
      | (Some bestStart, bestLength) \<Rightarrow>
          joinWith '':'' (take bestStart hex) @ ''::'' @ joinWith '':'' (drop (bestStart + bestLength) hex))"

section \<open>Addresses\<close>

definition groupBytes :: "nat list \<Rightarrow> bytes" where
  "groupBytes groups = concat (map (\<lambda>g. [of_nat (g div 256), of_nat (g mod 256)]) groups)"

definition v6Char :: "char \<Rightarrow> bool" where
  "v6Char c \<longleftrightarrow> isHexDigit c \<or> c = CHR '':'' \<or> c = CHR ''.''"

definition mappedBytes :: "bytes \<Rightarrow> bool" where
  "mappedBytes bs \<longleftrightarrow> list_all (\<lambda>b. b = 0) (take 10 bs) \<and> bs ! 10 = 0xff \<and> bs ! 11 = 0xff"

definition parseIp :: "string \<Rightarrow> ParsedIp option" where
  "parseIp inp =
     (if length inp = 0 \<or> length inp > MAX_ADDRESS_LENGTH then None
      else case parseIpv4 inp of
        Some v4 \<Rightarrow> Some (fromIpv4 v4)
      | None \<Rightarrow>
          if CHR '':'' \<notin> set inp \<or> \<not> list_all v6Char inp then None
          else if CHR ''.'' \<in> set inp \<and> parseIpv4 (orElse (afterLast (CHR '':'') inp) inp) = None then None
          else case parseIpv6Groups inp of
            None \<Rightarrow> None
          | Some groups \<Rightarrow>
              (let bs = groupBytes groups in
               if mappedBytes bs then Some (fromIpv4 (drop 12 bs))
               else Some \<lparr>version = 6, address = formatIpv6 groups, ipBytes = bs\<rparr>))"

definition normalizeIp :: "string \<Rightarrow> string option" where
  "normalizeIp inp = map_option address (parseIp inp)"

definition isLoopbackHost :: "string \<Rightarrow> bool" where
  "isLoopbackHost host =
     (let low = map lowerChar host;
          name = (if low \<noteq> [] \<and> last low = CHR ''.'' then butlast low else low)
      in if name = ''localhost'' \<or> endsWith ''.localhost'' name then True
         else let bracketed = startsWith ''['' name \<and> endsWith '']'' name in
           case parseIp (if bracketed then butlast (tl name) else name) of
             None \<Rightarrow> False
           | Some parsed \<Rightarrow>
               if version parsed = 4 then \<not> bracketed \<and> CHR '':'' \<notin> set name \<and> ipBytes parsed ! 0 = 127
               else address parsed = ''::1'')"

definition ipHint :: "string option \<Rightarrow> string option" where
  "ipHint addr =
     (case addr of None \<Rightarrow> None
      | Some a \<Rightarrow> (case (if a = [] then None else parseIp a) of None \<Rightarrow> None
          | Some parsed \<Rightarrow>
              let bs = ipBytes parsed in
              if version parsed = 4 then
                Some (byteText (bs ! 0) @ ''.'' @ byteText (bs ! 1) @ ''.'' @ byteText (bs ! 2) @ ''.*'')
              else Some (joinWith '':'' (map (\<lambda>i. show_hex (unat (bs ! i) * 256 + unat (bs ! (i + 1)))) [0, 2])
                         @ '':*'')))"

section \<open>Ranges\<close>

record Cidr =
  rangeBytes :: bytes
  rangePrefix :: nat

text \<open>An IPv6 range base as written: a mapped address keeps its 16 bytes.\<close>

definition parseIpv6Bytes :: "string \<Rightarrow> bytes option" where
  "parseIpv6Bytes base =
     (case parseIp base of None \<Rightarrow> None
      | Some parsed \<Rightarrow>
          if version parsed = 6 then Some (ipBytes parsed)
          else if CHR '':'' \<notin> set base then None
          else Some (replicate 10 0 @ [0xff, 0xff] @ ipBytes parsed))"

text \<open>The message quotes the entry; the model carries the entry itself.\<close>

definition notARange :: "string \<Rightarrow> js_error" where
  "notARange cidr = RangeErr (''not an IP range: '' @ cidr)"

definition parseCidr :: "string \<Rightarrow> js_error + Cidr" where
  "parseCidr cidr =
     (let slash = indexOf ''/'' cidr;
          base = (case slash of None \<Rightarrow> cidr | Some i \<Rightarrow> take i cidr)
      in case (case parseIpv4 base of Some b \<Rightarrow> Some b | None \<Rightarrow> parseIpv6Bytes base) of
           None \<Rightarrow> Inl (notARange cidr)
         | Some bs \<Rightarrow>
             (let bits = length bs * 8 in
              case slash of
                None \<Rightarrow> Inr \<lparr>rangeBytes = bs, rangePrefix = bits\<rparr>
              | Some i \<Rightarrow>
                  (let prefixText = drop (i + 1) cidr in
                   if \<not> octetText prefixText \<or> readNat prefixText > bits then Inl (notARange cidr)
                   else Inr \<lparr>rangeBytes = bs, rangePrefix = readNat prefixText\<rparr>)))"

definition matchesPrefix :: "bytes \<Rightarrow> bytes \<Rightarrow> nat \<Rightarrow> bool" where
  "matchesPrefix addr base pre =
     (let whole = drop_bit 3 pre in
      if list_ex (\<lambda>i. addr ! i \<noteq> base ! i) [0..<whole] then False
      else let rest = pre AND 7 in
        if rest = 0 then True
        else let mask = (push_bit (8 - rest) 0xff :: 8 word)
             in (addr ! whole) AND mask = (base ! whole) AND mask)"

fun rangeLoop :: "ParsedIp option \<Rightarrow> string list \<Rightarrow> bool \<Rightarrow> js_error + bool" where
  "rangeLoop parsed [] found = Inr found"
| "rangeLoop parsed (cidr # cidrs) found =
     (case parseCidr cidr of
        Inl e \<Rightarrow> Inl e
      | Inr rng \<Rightarrow>
          rangeLoop parsed cidrs
            (case parsed of
               Some p \<Rightarrow> if \<not> found \<and> length (rangeBytes rng) = length (ipBytes p)
                         then matchesPrefix (ipBytes p) (rangeBytes rng) (rangePrefix rng)
                         else found
             | None \<Rightarrow> found))"

definition ipInRanges :: "string \<Rightarrow> string list \<Rightarrow> js_error + bool" where
  "ipInRanges ip cidrs = rangeLoop (parseIp ip) cidrs False"

definition CLOUDFLARE_IP_RANGES :: "string list" where
  "CLOUDFLARE_IP_RANGES =
    [''173.245.48.0/20'', ''103.21.244.0/22'', ''103.22.200.0/22'', ''103.31.4.0/22'',
     ''141.101.64.0/18'', ''108.162.192.0/18'', ''190.93.240.0/20'', ''188.114.96.0/20'',
     ''197.234.240.0/22'', ''198.41.128.0/17'', ''162.158.0.0/15'', ''104.16.0.0/13'',
     ''104.24.0.0/14'', ''172.64.0.0/13'', ''131.0.72.0/22'', ''2400:cb00::/32'', ''2606:4700::/32'',
     ''2803:f800::/32'', ''2405:b500::/32'', ''2405:8100::/32'', ''2a06:98c0::/29'', ''2c0f:f248::/32'']"

section \<open>IPv4 spelling\<close>

lemma octetText_digits: "octetText s \<Longrightarrow> allDigits s"
  by (auto simp: octetText_def allDigits_def isDigit_def code_def)

lemma octetText_show_nat: "n < 1000 \<Longrightarrow> octetText (show_nat n)"
  using show_nat_allDigits [of n] show_nat_hd [of n] length_show_nat [of n 2]
  by (cases "n = 0") (auto simp: octetText_def show_nat.simps [of 0] digit_char_def)

lemma unat_byte: "unat (b :: 8 word) < 256"
  using unsigned_less [of b, where 'a = nat] by simp

lemma byteText_chars: "c \<in> set (byteText b) \<Longrightarrow> isDigit c"
  by (simp add: byteText_def show_nat_digits)

lemma byteText_octet: "octetText (byteText b) \<and> readNat (byteText b) = unat b"
  using unat_byte [of b] by (simp add: byteText_def octetText_show_nat)

lemma splitOn_quad: "bs \<noteq> [] \<Longrightarrow> splitOn (CHR ''.'') (joinWith ''.'' (map byteText bs)) = map byteText bs"
  using byteText_chars isDigit_not(1) by (intro splitOn_join) fastforce+

lemma parseIpv4_format: "length bs = 4 \<Longrightarrow> parseIpv4 (joinWith ''.'' (map byteText bs)) = Some bs"
proof -
  assume len: "length bs = 4"
  then have "splitOn (CHR ''.'') (joinWith ''.'' (map byteText bs)) = map byteText bs"
    by (intro splitOn_quad) auto
  moreover have "map (of_nat \<circ> readNat \<circ> byteText) bs = bs"
    using byteText_octet by (intro map_idI) simp
  moreover have "readNat (byteText b) \<le> 255" for b
    using byteText_octet [of b] unat_byte [of b] by linarith
  ultimately show ?thesis using byteText_octet len
    by (simp add: parseIpv4_def Let_def list_all_iff list_ex_iff comp_def not_less)
qed

lemma parseIpv4_length: "parseIpv4 s = Some bs \<Longrightarrow> length bs = 4"
  by (auto simp: parseIpv4_def Let_def split: if_splits)

lemma parseIpv4_no_colon: "parseIpv4 s = Some bs \<Longrightarrow> CHR '':'' \<notin> set s"
proof -
  assume "parseIpv4 s = Some bs"
  then have all: "\<forall>x \<in> set (splitOn (CHR ''.'') s). octetText x"
    by (auto simp: parseIpv4_def Let_def list_all_iff split: if_splits)
  have "CHR '':'' \<notin> set x" if "x \<in> set (splitOn (CHR ''.'') s)" for x
    using octetText_digits [of x] all that isDigit_not(2) by (auto simp: allDigits_def)
  then have "CHR '':'' \<notin> set (joinWith ''.'' (splitOn (CHR ''.'') s))"
    using set_joinWith [of "''.''" "splitOn (CHR ''.'') s"] by fastforce
  then show ?thesis by (simp add: joinWith_split)
qed

lemma length_joinWith:
  "\<forall>x \<in> set xs. length x \<le> k \<Longrightarrow> length (joinWith [c] xs) \<le> (k + 1) * length xs"
  by (induction xs rule: induct_list012) auto

lemma length_byteText: "length (byteText b) \<le> 3"
  using length_show_nat [of "unat b" 2] unat_byte [of b] by (simp add: byteText_def)

lemma parseIp_quad:
  assumes "length bs = 4" shows "parseIp (address (fromIpv4 bs)) = Some (fromIpv4 bs)"
proof -
  have "length (joinWith ''.'' (map byteText bs)) \<le> 16"
    using length_joinWith [of "map byteText bs" 3] assms length_byteText by auto
  moreover have "joinWith ''.'' (map byteText bs) \<noteq> []"
    using parseIpv4_format [OF assms] by (auto simp: parseIpv4_def)
  ultimately show ?thesis
    using parseIpv4_format [OF assms] by (simp add: parseIp_def fromIpv4_def MAX_ADDRESS_LENGTH_def)
qed

section \<open>IPv6 spelling\<close>

lemma hexVal_bound: "isHexDigit c \<Longrightarrow> hexVal c < 16"
  by (auto simp: isHexDigit_def hexVal_def isDigit_def)

lemma readHex_bound: "\<forall>c \<in> set s. isHexDigit c \<Longrightarrow> readHex s < 16 ^ length s"
proof (induction s rule: rev_induct)
  case (snoc c s)
  then have "readHex s < 16 ^ length s" "hexVal c < 16" by (simp_all add: hexVal_bound)
  then show ?case by (simp add: readHex_def)
qed (simp add: readHex_def)

lemma parseHexGroup_bound: "parseHexGroup g = Some n \<Longrightarrow> n < 65536"
proof -
  assume g: "parseHexGroup g = Some n"
  then have "n = readHex g" "length g \<le> 4" "\<forall>c \<in> set g. isHexDigit c"
    by (auto simp: parseHexGroup_def list_all_iff split: if_splits)
  moreover have "(16 :: nat) ^ length g \<le> 16 ^ 4" using \<open>length g \<le> 4\<close> by (intro power_increasing) auto
  ultimately show ?thesis using readHex_bound [of g] by simp
qed

lemma parseGroups_bound:
  "parseGroups gs = Some ns \<Longrightarrow> length ns = length gs \<and> (\<forall>n \<in> set ns. n < 65536)"
  by (induction gs arbitrary: ns) (auto split: option.splits dest: parseHexGroup_bound)

lemma parseGroups_append:
  "parseGroups (xs @ ys) = (case parseGroups xs of None \<Rightarrow> None
     | Some l \<Rightarrow> map_option (\<lambda>r. l @ r) (parseGroups ys))"
  by (cases "parseGroups ys"; induction xs) (auto split: option.splits)

lemma parseIpv6Groups_ok:
  assumes "parseIpv6Groups s = Some ns" shows "length ns = 8 \<and> (\<forall>n \<in> set ns. n < 65536)"
  using assms by (auto simp: parseIpv6Groups_def Let_def split: if_splits option.splits dest!: parseGroups_bound)

lemma parseHexGroup_show: "n < 65536 \<Longrightarrow> parseHexGroup (show_hex n) = Some n"
  using length_show_hex [of n 3] show_hex_digits [of _ n]
  by (auto simp: parseHexGroup_def list_all_iff)

lemma parseGroups_show: "\<forall>n \<in> set ns. n < 65536 \<Longrightarrow> parseGroups (map show_hex ns) = Some ns"
  by (induction ns) (auto simp: parseHexGroup_show)

definition hexText :: "string \<Rightarrow> bool" where
  "hexText s \<longleftrightarrow> s \<noteq> [] \<and> (\<forall>c \<in> set s. isHexDigit c)"

lemma hexText_show [simp]: "hexText (show_hex n)"
  using show_hex_digits by (auto simp: hexText_def)

lemma hexText_free: "hexText s \<Longrightarrow> CHR '':'' \<notin> set s"
  using isHexDigit_not(1) by (auto simp: hexText_def)

lemma groupsOf_join: "\<forall>x \<in> set xs. hexText x \<Longrightarrow> groupsOf (joinWith '':'' xs) = xs"
proof (cases xs)
  case (Cons x xs')
  assume "\<forall>x \<in> set xs. hexText x"
  moreover from this have "joinWith '':'' xs \<noteq> []" using Cons by (cases xs') (auto simp: hexText_def)
  ultimately show ?thesis using Cons hexText_free by (auto simp: groupsOf_def intro!: splitOn_join)
qed (simp add: groupsOf_def)

lemma indexOf_skip:
  "CHR '':'' \<notin> set s \<Longrightarrow> indexOf ''::'' (s @ t) = map_option (\<lambda>i. length s + i) (indexOf ''::'' t)"
  by (cases "indexOf ''::'' t"; induction s) auto

lemma indexOf_colon:
  "t = [] \<or> hd t \<noteq> CHR '':'' \<Longrightarrow> indexOf ''::'' (CHR '':'' # t) = map_option Suc (indexOf ''::'' t)"
  by (cases t) auto

lemma hd_join: "xs \<noteq> [] \<Longrightarrow> \<forall>x \<in> set xs. hexText x \<Longrightarrow> joinWith '':'' xs @ r \<noteq> [] \<and> hd (joinWith '':'' xs @ r) \<noteq> CHR '':''"
proof (induction xs rule: induct_list012)
  case (2 x)
  then show ?case using hexText_free [of x] by (cases x) (auto simp: hexText_def)
next
  case (3 x y zs)
  then show ?case using hexText_free [of x] by (cases x) (auto simp: hexText_def)
qed simp

lemma indexOf_join_append:
  "\<forall>x \<in> set xs. hexText x \<Longrightarrow>
   indexOf ''::'' (joinWith '':'' xs @ r) =
     (if xs = [] then indexOf ''::'' r
      else map_option (\<lambda>i. length (joinWith '':'' xs) + i) (indexOf ''::'' r))"
proof (induction xs rule: induct_list012)
  case (2 x)
  then show ?case using hexText_free by (simp add: indexOf_skip)
next
  case (3 x y zs)
  let ?T = "joinWith '':'' (y # zs) @ r"
  have ne: "?T = [] \<or> hd ?T \<noteq> CHR '':''" using hd_join [of "y # zs" r] 3 by simp
  have "indexOf ''::'' (x @ CHR '':'' # ?T) = map_option (\<lambda>i. length x + Suc i) (indexOf ''::'' ?T)"
    using 3 hexText_free indexOf_colon [OF ne] by (simp add: indexOf_skip option.map_comp comp_def del: indexOf.simps)
  with 3 show ?case by (cases "indexOf ''::'' r") simp_all
qed simp

lemma indexOf_join_None: "\<forall>x \<in> set xs. hexText x \<Longrightarrow> indexOf ''::'' (joinWith '':'' xs) = None"
  using indexOf_join_append [of xs "[]"] by (auto split: if_splits)

text \<open>The zero runs of the groups, and what the search has established at an index.\<close>

definition zeroRun :: "nat list \<Rightarrow> nat \<Rightarrow> nat \<Rightarrow> bool" where
  "zeroRun groups a m \<longleftrightarrow> a + m \<le> length groups \<and> (\<forall>j. a \<le> j \<and> j < a + m \<longrightarrow> groups ! j = 0)"

definition bestSoFar :: "nat list \<Rightarrow> nat \<Rightarrow> nat option \<times> nat \<Rightarrow> bool" where
  "bestSoFar groups i best \<longleftrightarrow>
     (\<forall>a m. zeroRun groups a m \<and> a < i \<longrightarrow> a + m \<le> i) \<and>
     (case best of
        (None, l) \<Rightarrow> l = 1 \<and> (\<forall>a m. zeroRun groups a m \<and> a < i \<longrightarrow> m \<le> 1)
      | (Some s, l) \<Rightarrow> 2 \<le> l \<and> s < i \<and> zeroRun groups s l \<and>
          (\<forall>a m. zeroRun groups a m \<and> a < i \<longrightarrow> m \<le> l \<and> (m = l \<longrightarrow> s \<le> a)))"

lemma zeroRunEnd_props:
  assumes "length groups = 8" "i < 8" "groups ! i = 0"
  shows "i < zeroRunEnd groups i" "zeroRunEnd groups i \<le> 8"
    "zeroRun groups i (zeroRunEnd groups i - i)"
    "zeroRunEnd groups i < 8 \<Longrightarrow> groups ! zeroRunEnd groups i \<noteq> 0"
proof -
  let ?ws = "takeWhile (\<lambda>g. g = 0) (drop i groups)"
  have e: "zeroRunEnd groups i = i + length ?ws" using assms(1) by (simp add: zeroRunEnd_def)
  have le: "length ?ws \<le> 8 - i" using length_takeWhile_le [of "\<lambda>g. g = 0" "drop i groups"] assms(1) by simp
  have "drop i groups = 0 # drop (Suc i) groups" using assms by (simp add: Cons_nth_drop_Suc [symmetric])
  then show "i < zeroRunEnd groups i" by (simp add: e)
  show "zeroRunEnd groups i \<le> 8" using le assms(2) by (simp add: e)
  have "groups ! j = 0" if "i \<le> j" "j < i + length ?ws" for j
  proof -
    have "?ws ! (j - i) = drop i groups ! (j - i)" using that by (intro takeWhile_nth) auto
    moreover have "?ws ! (j - i) = 0" using that nth_mem [of "j - i" ?ws] set_takeWhileD by fastforce
    ultimately show ?thesis using that assms(1,2) by simp
  qed
  then show "zeroRun groups i (zeroRunEnd groups i - i)" using le assms by (simp add: zeroRun_def e)
  show "zeroRunEnd groups i < 8 \<Longrightarrow> groups ! zeroRunEnd groups i \<noteq> 0"
    using nth_length_takeWhile [of "\<lambda>g. g = 0" "drop i groups"] assms(1) by (simp add: e)
qed

lemma zeroRun_stops:
  assumes "zeroRun groups a m" "e < length groups \<Longrightarrow> groups ! e \<noteq> 0" "a < e"
  shows "a + m \<le> e"
proof (rule ccontr)
  assume "\<not> a + m \<le> e"
  then have "a \<le> e \<and> e < a + m" "e < length groups" using assms by (auto simp: zeroRun_def)
  then show False using assms(1,2) by (auto simp: zeroRun_def)
qed

lemma zeroRun_nonzero: "zeroRun groups i m \<Longrightarrow> groups ! i \<noteq> 0 \<Longrightarrow> m = 0"
  by (cases m) (auto simp: zeroRun_def)

lemma bestRun_spec:
  assumes "length groups = 8" "i \<le> 8" "bestSoFar groups i best"
  shows "bestSoFar groups 8 (bestRun groups i best)"
  using assms
proof (induction groups i best rule: bestRun.induct)
  case (1 groups i best)
  note prem = "1.prems"
  show ?case
  proof (cases "i < 8")
    case False
    with prem show ?thesis using bestRun.simps [of groups 8 best] by simp
  next
    case i: True
    then have cond: "i < 8 \<and> i < length groups" using prem by simp
    show ?thesis
    proof (cases "groups ! i = 0")
      case False
      have "a + m \<le> i + 1" "a = i \<Longrightarrow> m = 0" if "zeroRun groups a m" "a < i + 1" for a m
        using that prem(3) zeroRun_nonzero [of groups i m] False
        by (auto simp: bestSoFar_def less_Suc_eq split: prod.splits option.splits) fastforce+
      then have "bestSoFar groups (i + 1) best"
        using prem(3) by (auto simp: bestSoFar_def less_Suc_eq split: prod.splits option.splits)
      with "1.IH"(1) [OF cond] False prem i show ?thesis
        by (simp add: bestRun.simps [of groups i best])
    next
      case True
      define e where "e = zeroRunEnd groups i"
      note ends = zeroRunEnd_props [OF prem(1) i True, folded e_def]
      have stop: "a + m \<le> e" if "zeroRun groups a m" "a < e" for a m
        using zeroRun_stops [OF that(1) _ that(2)] ends(4) prem(1) by simp
      have old: "m \<le> snd best" "m = snd best \<Longrightarrow> 2 \<le> m \<Longrightarrow> fst best = Some s \<Longrightarrow> s \<le> a"
        if "zeroRun groups a m" "a < i" for a m s
        using prem(3) that by (fastforce simp: bestSoFar_def split: prod.splits option.splits)+
      have "bestSoFar groups e (if e - i > snd best then (Some i, e - i) else best)"
      proof (cases "e - i > snd best")
        case longer: True
        have "1 \<le> snd best" using prem(3) by (auto simp: bestSoFar_def split: prod.splits option.splits)
        moreover have "m \<le> e - i \<and> (m = e - i \<longrightarrow> i \<le> a)" if "zeroRun groups a m" "a < e" for a m
          using that stop [OF that] old(1) [OF that(1)] longer by (cases "a < i") fastforce+
        ultimately show ?thesis using longer ends stop by (auto simp: bestSoFar_def)
      next
        case False
        have "m \<le> snd best \<and> (a < i \<or> m < snd best \<or> (m = snd best \<and> i = a \<and> e - i = snd best))"
          if "zeroRun groups a m" "a < e" for a m
          using that stop [OF that] old(1) [OF that(1)] False by (cases "a < i") fastforce+
        then have new: "m \<le> snd best" "a < i \<or> m < snd best \<or> i \<le> a" if "zeroRun groups a m" "a < e" for a m
          using that by fastforce+
        show ?thesis
        proof (cases "fst best")
          case None
          with prem(3) new stop False show ?thesis by (cases best) (auto simp: bestSoFar_def)
        next
          case (Some s)
          then have "s < i" "2 \<le> snd best" "zeroRun groups s (snd best)"
            using prem(3) by (auto simp: bestSoFar_def split: prod.splits)
          moreover have "s \<le> a" if "zeroRun groups a m" "a < e" "m = snd best" for a m
            using old(2) [OF that(1) _ that(3) _ Some] \<open>2 \<le> snd best\<close> that(3) \<open>s < i\<close> by (cases "a < i") auto
          ultimately show ?thesis using Some new(1) stop False ends(1) by (cases best) (auto simp: bestSoFar_def)
        qed
      qed
      with "1.IH"(2) [OF cond _ e_def] True prem ends i show ?thesis
        by (simp add: bestRun.simps [of groups i best] e_def [symmetric] Let_def)
    qed
  qed
qed

lemma bestRun_start: "length groups = 8 \<Longrightarrow> bestSoFar groups 8 (bestRun groups 0 (None, 1))"
  by (rule bestRun_spec) (simp_all add: bestSoFar_def)

lemma formatIpv6_cases:
  assumes "length groups = 8"
  obtains (plain) "formatIpv6 groups = joinWith '':'' (map show_hex groups)"
  | (short) s l where "2 \<le> l" "s + l \<le> 8" "zeroRun groups s l"
      "formatIpv6 groups = joinWith '':'' (map show_hex (take s groups)) @ ''::'' @
         joinWith '':'' (map show_hex (drop (s + l) groups))"
  using bestRun_start [OF assms] assms
  by (auto simp: formatIpv6_def bestSoFar_def Let_def zeroRun_def take_map drop_map
      split: prod.splits option.splits)

lemma formatIpv6_chars:
  assumes "length groups = 8"
  shows "c \<in> set (formatIpv6 groups) \<Longrightarrow> isHexDigit c \<or> c = CHR '':''" "CHR '':'' \<in> set (formatIpv6 groups)"
proof -
  have join: "c \<in> set (joinWith '':'' (map show_hex xs)) \<Longrightarrow> isHexDigit c \<or> c = CHR '':''" for xs c
    using set_joinWith [of "'':''" "map show_hex xs"] show_hex_digits by fastforce
  show "c \<in> set (formatIpv6 groups) \<Longrightarrow> isHexDigit c \<or> c = CHR '':''"
    using assms by (cases rule: formatIpv6_cases) (auto dest: join)
  obtain x y zs where "groups = x # y # zs" using assms by (cases groups; cases "tl groups") auto
  show "CHR '':'' \<in> set (formatIpv6 groups)"
    using assms by (cases rule: formatIpv6_cases) (auto simp: \<open>groups = x # y # zs\<close>)
qed

lemma formatIpv6_length:
  assumes "length groups = 8" "\<forall>g \<in> set groups. g < 65536" shows "length (formatIpv6 groups) \<le> 45"
proof -
  have join: "length (joinWith '':'' (map show_hex xs)) \<le> 5 * length xs" if "set xs \<subseteq> set groups" for xs
    using length_joinWith [of "map show_hex xs" 4 "CHR '':''"] length_show_hex [of _ 3] that assms(2) by auto
  show ?thesis using assms(1)
  proof (cases rule: formatIpv6_cases)
    case plain
    then show ?thesis using join [of groups] assms(1) by simp
  next
    case (short s l)
    then show ?thesis
      using join [of "take s groups"] join [of "drop (s + l) groups"] assms(1)
        set_take_subset [of s groups] set_drop_subset [of "s + l" groups] by simp
  qed
qed

lemma parse_format_groups:
  assumes len: "length groups = 8" and small: "\<forall>g \<in> set groups. g < 65536"
  shows "parseIpv6Groups (formatIpv6 groups) = Some groups"
proof -
  let ?s = "formatIpv6 groups"
  have chars: "CHR ''%'' \<notin> set ?s" "CHR ''.'' \<notin> set ?s" "?s \<noteq> []"
    using formatIpv6_chars [OF len] isHexDigit_not by fastforce+
  have clean: "takeWhile (\<lambda>c. c \<noteq> CHR ''%'') ?s = ?s" using chars(1) by (auto simp: takeWhile_eq_all_conv)
  have small': "\<forall>g \<in> set xs. g < 65536" if "set xs \<subseteq> set groups" for xs using that small by auto
  show ?thesis using len
  proof (cases rule: formatIpv6_cases)
    case plain
    have "indexOf ''::'' ?s = None" using indexOf_join_None [of "map show_hex groups"] plain by simp
    moreover have "splitOn (CHR '':'') ?s = map show_hex groups"
      using plain len hexText_free [OF hexText_show] by (auto intro!: splitOn_join)
    ultimately show ?thesis using chars len parseGroups_show [OF small]
      by (simp add: parseIpv6Groups_def promoteQuad_def Let_def clean)
  next
    case (short s l)
    let ?L = "map show_hex (take s groups)" and ?R = "map show_hex (drop (s + l) groups)"
    have dc: "indexOf ''::'' ?s = Some (length (joinWith '':'' ?L))"
      using indexOf_join_append [of ?L] by (auto simp: short)
    have "indexOf ''::'' (CHR '':'' # joinWith '':'' ?R) = None"
    proof (subst indexOf_colon)
      show "joinWith '':'' ?R = [] \<or> hd (joinWith '':'' ?R) \<noteq> CHR '':''"
        using hd_join [of ?R "[]"] by (cases "?R = []") auto
    qed (simp add: indexOf_join_None)
    then have once: "indexOf ''::'' (drop (length (joinWith '':'' ?L) + 1) ?s) = None" by (simp add: short)
    have parts: "groupsOf (take (length (joinWith '':'' ?L)) ?s) = ?L"
      "groupsOf (drop (length (joinWith '':'' ?L) + 2) ?s) = ?R"
      using groupsOf_join [of ?L] groupsOf_join [of ?R] by (simp_all add: short)
    have "groups = take s groups @ replicate l 0 @ drop (s + l) groups"
    proof -
      have "take l (drop s groups) = replicate l 0"
        using short(1-3) len by (intro nth_equalityI) (auto simp: zeroRun_def)
      then show ?thesis by (metis append_take_drop_id drop_drop add.commute)
    qed
    moreover have "8 - length ?L - length ?R = l" "length ?L + length ?R \<le> 7" using short len by auto
    moreover have "parseGroups ?L = Some (take s groups)" "parseGroups ?R = Some (drop (s + l) groups)"
      using parseGroups_show small' set_take_subset set_drop_subset by metis+
    ultimately show ?thesis using chars dc once parts
      by (simp add: parseIpv6Groups_def promoteQuad_def Let_def clean)
  qed
qed

section \<open>The canonical spelling\<close>

lemma length_groupBytes: "length (groupBytes gs) = 2 * length gs"
  by (induction gs) (simp_all add: groupBytes_def)

lemma parseIp_shape:
  assumes "parseIp inp = Some p"
  obtains (v4) bs where "length bs = 4" "p = fromIpv4 bs"
  | (v6) gs where "length gs = 8" "\<forall>g \<in> set gs. g < 65536" "\<not> mappedBytes (groupBytes gs)"
      "p = \<lparr>version = 6, address = formatIpv6 gs, ipBytes = groupBytes gs\<rparr>"
proof (cases "parseIpv4 inp")
  case (Some bs)
  with assms have "p = fromIpv4 bs" by (auto simp: parseIp_def split: if_splits)
  with v4 parseIpv4_length [OF Some] show thesis by blast
next
  case None
  then obtain gs where gs: "parseIpv6Groups inp = Some gs"
      "p = (if mappedBytes (groupBytes gs) then fromIpv4 (drop 12 (groupBytes gs))
            else \<lparr>version = 6, address = formatIpv6 gs, ipBytes = groupBytes gs\<rparr>)"
    using assms by (auto simp: parseIp_def Let_def split: if_splits option.splits)
  note ok = parseIpv6Groups_ok [OF gs(1)]
  then have "length (drop 12 (groupBytes gs)) = 4" by (simp add: length_groupBytes)
  with v4 [of "drop 12 (groupBytes gs)"] v6 [of gs] ok gs(2) show thesis by (simp split: if_splits)
qed

text \<open>
  C7: The address of a parsed IP is its canonical spelling: parsing it again gives the same address,
  version and bytes. So two spellings of one IP (letter case, leading zeros, \<open>::\<close> placement, an
  embedded or mapped dotted quad) normalise to the same string, and normalising is idempotent.
\<close>
theorem parseIp_canonical:
  assumes "parseIp inp = Some p"
  shows "parseIp (address p) = Some p"
  using assms
proof (cases rule: parseIp_shape)
  case (v4 bs)
  then show ?thesis using parseIp_quad by simp
next
  case (v6 gs)
  note chars = formatIpv6_chars [OF v6(1)]
  have "parseIpv4 (formatIpv6 gs) = None"
    using parseIpv4_no_colon chars(2) by (cases "parseIpv4 (formatIpv6 gs)") auto
  moreover have "CHR ''.'' \<notin> set (formatIpv6 gs)" using chars(1) isHexDigit_not(2) by fastforce
  moreover have "list_all v6Char (formatIpv6 gs)" using chars(1) by (auto simp: list_all_iff v6Char_def)
  moreover have "formatIpv6 gs \<noteq> []" using chars(2) by auto
  ultimately show ?thesis
    using formatIpv6_length [OF v6(1,2)] parse_format_groups [OF v6(1,2)] chars(2) v6
    by (simp add: parseIp_def MAX_ADDRESS_LENGTH_def Let_def)
qed

theorem parseIp_canonical_witness:
  "parseIp (address \<lparr>version = 4, address = ''192.0.2.1'', ipBytes = [192, 0, 2, 1]\<rparr>) =
   Some \<lparr>version = 4, address = ''192.0.2.1'', ipBytes = [192, 0, 2, 1]\<rparr>"
proof (rule parseIp_canonical)
  show "parseIp ''192.0.2.1'' = Some \<lparr>version = 4, address = ''192.0.2.1'', ipBytes = [192, 0, 2, 1]\<rparr>"
    by code_simp
qed

section \<open>Ranges\<close>

text \<open>The big-endian number of a byte list.\<close>

definition bytesVal :: "bytes \<Rightarrow> nat" where
  "bytesVal bs = foldl (\<lambda>n b. 256 * n + unat b) 0 bs"

lemma bytesVal_append: "bytesVal (xs @ ys) = bytesVal xs * 256 ^ length ys + bytesVal ys"
proof (induction ys rule: rev_induct)
  case (snoc y ys)
  have "bytesVal ((xs @ ys) @ [y]) = 256 * bytesVal (xs @ ys) + unat y" by (simp add: bytesVal_def)
  also have "\<dots> = 256 * (bytesVal xs * 256 ^ length ys + bytesVal ys) + unat y" using snoc by simp
  finally show ?case by (simp add: bytesVal_def algebra_simps)
qed (simp add: bytesVal_def)

lemma bytesVal_bound: "bytesVal bs < 256 ^ length bs"
proof (induction bs rule: rev_induct)
  case (snoc b bs)
  have "bytesVal (bs @ [b]) = bytesVal bs * 256 + unat b" by (simp add: bytesVal_append bytesVal_def)
  then show ?case using snoc unat_byte [of b] by simp
qed (simp add: bytesVal_def)

lemma digits_eq:
  fixes x y :: nat
  assumes "x < m" "y < m" shows "a * m + x = b * m + y \<longleftrightarrow> a = b \<and> x = y"
proof
  assume "a * m + x = b * m + y"
  then have "(a * m + x) div m = (b * m + y) div m" "(a * m + x) mod m = (b * m + y) mod m" by simp_all
  with assms show "a = b \<and> x = y" by simp
qed simp

lemma bytesVal_inj: "length xs = length ys \<Longrightarrow> bytesVal xs = bytesVal ys \<longleftrightarrow> xs = ys"
proof (induction xs arbitrary: ys rule: rev_induct)
  case (snoc x xs)
  then obtain ys' y where ys: "ys = ys' @ [y]" "length ys' = length xs"
    by (cases ys rule: rev_cases) auto
  have "bytesVal (xs @ [x]) = bytesVal xs * 256 + unat x" "bytesVal (ys' @ [y]) = bytesVal ys' * 256 + unat y"
    by (simp_all add: bytesVal_append bytesVal_def)
  then have "bytesVal (xs @ [x]) = bytesVal (ys' @ [y]) \<longleftrightarrow> bytesVal xs = bytesVal ys' \<and> unat x = unat y"
    using digits_eq [of "unat x" 256 "unat y"] unat_byte by simp
  then show ?case using snoc.IH [of ys'] ys by (simp add: word_unat_eq_iff)
qed simp

lemma take_bytes_eq:
  "n \<le> length a \<Longrightarrow> n \<le> length b \<Longrightarrow> (\<forall>i < n. a ! i = b ! i) \<longleftrightarrow> take n a = take n b"
  by (auto simp: list_eq_iff_nth_eq)

lemma bit_ff: "bit (0xff :: 8 word) m \<longleftrightarrow> m < 8"
proof -
  have ff: "(0xff :: 8 word) = -1" by simp
  have "bit (-1 :: 8 word) m \<longleftrightarrow> m < 8"
    by (rule trans [OF bit_minus_1_iff]) (rule trans [OF possible_bit_word], simp)
  then show ?thesis unfolding ff .
qed

lemma bit_high_mask: "bit (w AND push_bit k 0xff) n \<longleftrightarrow> k \<le> n \<and> n < 8 \<and> bit w n" for w :: "8 word"
proof -
  have "bit (push_bit k (0xff :: 8 word)) n \<longleftrightarrow> k \<le> n \<and> n < 8 \<and> bit (0xff :: 8 word) (n - k)"
    by (rule trans [OF bit_push_bit_iff]) (auto simp: possible_bit_word)
  also have "\<dots> \<longleftrightarrow> k \<le> n \<and> n < 8" unfolding bit_ff by auto
  finally show ?thesis unfolding bit_and_iff by auto
qed

lemma mask_top_eq:
  fixes x y :: "8 word"
  assumes "0 < r" "r < 8"
  shows "x AND push_bit (8 - r) 0xff = y AND push_bit (8 - r) 0xff \<longleftrightarrow>
    unat x div 2 ^ (8 - r) = unat y div 2 ^ (8 - r)"
proof -
  let ?k = "8 - r"
  have "x AND push_bit ?k 0xff = y AND push_bit ?k 0xff \<longleftrightarrow>
      (\<forall>n. (?k \<le> n \<and> n < 8 \<and> bit x n) = (?k \<le> n \<and> n < 8 \<and> bit y n))"
    unfolding bit_eq_iff [of "x AND push_bit ?k 0xff"] bit_high_mask by (auto simp: possible_bit_word)
  also have "\<dots> \<longleftrightarrow> (\<forall>n. bit x (?k + n) = bit y (?k + n))"
  proof
    assume all: "\<forall>n. (?k \<le> n \<and> n < 8 \<and> bit x n) = (?k \<le> n \<and> n < 8 \<and> bit y n)"
    have "?k + n < 8" if "bit x (?k + n) \<or> bit y (?k + n)" for n
      using that bit_imp_le_length [of x "?k + n"] bit_imp_le_length [of y "?k + n"] by auto
    then show "\<forall>n. bit x (?k + n) = bit y (?k + n)" using all le_add1 [of ?k] by metis
  next
    assume all: "\<forall>n. bit x (?k + n) = bit y (?k + n)"
    have "bit x n = bit y n" if "?k \<le> n" for n using spec [OF all, of "n - ?k"] that by simp
    then show "\<forall>n. (?k \<le> n \<and> n < 8 \<and> bit x n) = (?k \<le> n \<and> n < 8 \<and> bit y n)" by blast
  qed
  also have "\<dots> \<longleftrightarrow> drop_bit ?k x = drop_bit ?k y"
  proof -
    have "n < 8" if "bit w (?k + n)" for w :: "8 word" and n using that bit_imp_le_length [of w "?k + n"] by simp
    then show ?thesis unfolding bit_eq_iff [of "drop_bit ?k x"] bit_drop_bit_eq comp_def by auto
  qed
  also have "\<dots> \<longleftrightarrow> unat (drop_bit ?k x) = unat (drop_bit ?k y)" by (simp add: word_unat_eq_iff)
  finally show ?thesis unfolding unat_drop_bit_eq by (simp add: drop_bit_eq_div)
qed

lemma prefix_val:
  assumes "w + length ys = n" "length xs = w" "0 < length ys \<or> r = 0" "r < 8"
  shows "bytesVal (xs @ ys) div 2 ^ (8 * n - (8 * w + r)) =
    (if r = 0 then bytesVal xs else bytesVal xs * 2 ^ r + unat (hd ys) div 2 ^ (8 - r))"
proof (cases "r = 0")
  case True
  have "8 * n - (8 * w + r) = 8 * length ys" using assms(1) True by simp
  then have "(2 :: nat) ^ (8 * n - (8 * w + r)) = 256 ^ length ys" by (simp add: power_mult)
  then show ?thesis using True bytesVal_bound [of ys] by (simp add: bytesVal_append)
next
  case False
  then obtain y zs where ys: "ys = y # zs" using assms(3) by (cases ys) auto
  have "8 * n - (8 * w + r) = (8 - r) + 8 * length zs" using assms ys by simp
  then have p: "(2 :: nat) ^ (8 * n - (8 * w + r)) = 256 ^ length zs * 2 ^ (8 - r)"
    by (simp add: power_add power_mult)
  have "bytesVal (xs @ y # zs) = (bytesVal xs * 256 + unat y) * 256 ^ length zs + bytesVal zs"
    using bytesVal_append [of "xs @ [y]" zs] by (simp add: bytesVal_def)
  then have "bytesVal (xs @ y # zs) div 256 ^ length zs = bytesVal xs * 256 + unat y"
    using bytesVal_bound [of zs] by simp
  moreover have "(256 :: nat) = 2 ^ r * 2 ^ (8 - r)" using assms(4) by (simp flip: power_add)
  ultimately show ?thesis using False ys by (simp add: p div_mult2_eq mult.assoc [symmetric])
qed

text \<open>
  C8: \<open>matchesPrefix\<close> compares exactly the leading \<open>prefix\<close> bits: for two addresses of one family and
  a prefix length within it, the byte loop and the mask on the byte the prefix ends in agree with
  shifting both big-endian numbers right by the remaining bits.
\<close>
theorem matchesPrefix_bits:
  assumes "length a = n" "length b = n" "pre \<le> 8 * n"
  shows "matchesPrefix a b pre \<longleftrightarrow>
    bytesVal a div 2 ^ (8 * n - pre) = bytesVal b div 2 ^ (8 * n - pre)"
proof -
  define w r where "w = pre div 8" and "r = pre mod 8"
  have pre: "pre = 8 * w + r" "r < 8" by (simp_all add: w_def r_def)
  have wn: "w \<le> n" "r \<noteq> 0 \<Longrightarrow> w < n" using assms(3) pre by auto
  have "pre AND 7 = take_bit 3 pre" by (simp add: take_bit_eq_mask mask_eq_exp_minus_1)
  then have bits: "drop_bit 3 pre = w" "pre AND 7 = r"
    by (simp_all add: drop_bit_eq_div w_def r_def take_bit_eq_mod)
  have lists: "a = take w a @ drop w a" "b = take w b @ drop w b" by simp_all
  have len: "w + length (drop w a) = n" "w + length (drop w b) = n" using assms wn by simp_all
  have ne: "0 < length (drop w a) \<or> r = 0" "0 < length (drop w b) \<or> r = 0" using assms wn by auto
  have va: "bytesVal a div 2 ^ (8 * n - pre) =
      (if r = 0 then bytesVal (take w a) else bytesVal (take w a) * 2 ^ r + unat (a ! w) div 2 ^ (8 - r))"
    and vb: "bytesVal b div 2 ^ (8 * n - pre) =
      (if r = 0 then bytesVal (take w b) else bytesVal (take w b) * 2 ^ r + unat (b ! w) div 2 ^ (8 - r))"
    using prefix_val [OF len(1) _ ne(1) pre(2), of "take w a"] prefix_val [OF len(2) _ ne(2) pre(2), of "take w b"]
      assms wn pre by (auto simp: hd_drop_conv_nth)
  have small: "unat (x :: 8 word) div 2 ^ (8 - r) < 2 ^ r" for x
  proof -
    have "(256 :: nat) = 2 ^ r * 2 ^ (8 - r)" using pre(2) by (simp flip: power_add)
    then show ?thesis using unat_byte [of x] by (simp add: div_less_iff_less_mult)
  qed
  have "(\<forall>i < w. a ! i = b ! i) \<longleftrightarrow> bytesVal (take w a) = bytesVal (take w b)"
    using take_bytes_eq [of w a b] bytesVal_inj [of "take w a" "take w b"] assms wn by simp
  moreover have "bytesVal (take w a) * 2 ^ r + unat (a ! w) div 2 ^ (8 - r) =
      bytesVal (take w b) * 2 ^ r + unat (b ! w) div 2 ^ (8 - r) \<longleftrightarrow>
      bytesVal (take w a) = bytesVal (take w b) \<and> unat (a ! w) div 2 ^ (8 - r) = unat (b ! w) div 2 ^ (8 - r)"
    using small by (intro digits_eq)
  ultimately show ?thesis
    using mask_top_eq [of r "a ! w" "b ! w"] pre(2)
    by (auto simp: matchesPrefix_def Let_def bits va vb list_ex_iff)
qed

theorem matchesPrefix_bits_witness:
  "matchesPrefix [10, 1, 2, 3] [10, 1, 3, 255] 23 \<longleftrightarrow>
   bytesVal [10, 1, 2, 3] div 2 ^ (8 * 4 - 23) = bytesVal [10, 1, 3, 255] div 2 ^ (8 * 4 - 23)"
  by (rule matchesPrefix_bits) simp_all

text \<open>What a range list asks of one address, each range on its own.\<close>

definition inRange :: "ParsedIp \<Rightarrow> Cidr \<Rightarrow> bool" where
  "inRange p rng \<longleftrightarrow> length (rangeBytes rng) = length (ipBytes p) \<and>
     matchesPrefix (ipBytes p) (rangeBytes rng) (rangePrefix rng)"

lemma rangeLoop_spec:
  "rangeLoop parsed cidrs found =
     (case find (\<lambda>c. isl (parseCidr c)) cidrs of
        Some c \<Rightarrow> Inl (notARange c)
      | None \<Rightarrow> Inr (found \<or> (\<exists>p. parsed = Some p \<and> (\<exists>c \<in> set cidrs. inRange p (projr (parseCidr c))))))"
proof (induction cidrs arbitrary: found)
  case (Cons c cidrs)
  show ?case
  proof (cases "parseCidr c")
    case (Inl e)
    then have "e = notARange c" by (auto simp: parseCidr_def Let_def split: option.splits if_splits)
    with Inl show ?thesis by simp
  next
    case (Inr rng)
    with Cons show ?thesis by (cases parsed) (auto simp: inRange_def split: option.split)
  qed
qed simp

text \<open>
  \<open>ipInRanges\<close> never answers from a list with a bad entry: it throws for the first entry that is
  not a range, wherever it stands and whatever matched before it. On a valid list it is true exactly
  when the address parses and one range of its family covers it, bit for bit.
\<close>
theorem ipInRanges_spec:
  "ipInRanges ip cidrs =
     (case find (\<lambda>c. isl (parseCidr c)) cidrs of
        Some c \<Rightarrow> Inl (notARange c)
      | None \<Rightarrow> Inr (\<exists>p. parseIp ip = Some p \<and> (\<exists>c \<in> set cidrs. inRange p (projr (parseCidr c)))))"
  by (simp add: ipInRanges_def rangeLoop_spec split: option.split)

end
