(* ===== verification/Calendar.thy ===== *)
theory Calendar
  imports Strings
begin

text \<open>
  The proleptic Gregorian calendar of \<open>Date\<close> (ECMA-262, 21.4.1): day numbers since 1970-01-01 and
  civil dates. The two directions are inverse; consecutive days have consecutive numbers; the day
  number orders dates. The date components of the sources compute with these through \<open>Date\<close>.
\<close>

definition leapYear :: "int \<Rightarrow> bool" where
  "leapYear y \<longleftrightarrow> y mod 4 = 0 \<and> (y mod 100 \<noteq> 0 \<or> y mod 400 = 0)"

definition dayFromYear :: "int \<Rightarrow> int" where
  "dayFromYear y = 365 * (y - 1970) + (y - 1969) div 4 - (y - 1901) div 100 + (y - 1601) div 400"

definition monthLengths :: "int \<Rightarrow> int list" where
  "monthLengths y = [31, if leapYear y then 29 else 28, 31, 30, 31, 30, 31, 31, 30, 31, 30, 31]"

definition monthLength :: "int \<Rightarrow> int \<Rightarrow> int" where
  "monthLength y m = monthLengths y ! nat (m - 1)"

text \<open>Days before month \<open>m\<close> (1 to 12) of year \<open>y\<close>.\<close>

definition monthOffset :: "int \<Rightarrow> int \<Rightarrow> int" where
  "monthOffset y m = sum_list (take (nat (m - 1)) (monthLengths y))"

definition dayFromCivil :: "int \<Rightarrow> int \<Rightarrow> int \<Rightarrow> int" where
  "dayFromCivil y m d = dayFromYear y + monthOffset y m + d - 1"

text \<open>\<open>YearFromTime\<close>: the year whose first day is the last one not after the day.\<close>

definition yearOfDay :: "int \<Rightarrow> int" where
  "yearOfDay n =
     (let y = 1970 + (400 * n) div 146097 in
      if dayFromYear (y + 1) \<le> n then y + 1 else if n < dayFromYear y then y - 1 else y)"

fun monthSearch :: "int list \<Rightarrow> int \<Rightarrow> int \<Rightarrow> int \<times> int" where
  "monthSearch [] m r = (m, r + 1)"
| "monthSearch [l] m r = (m, r + 1)"
| "monthSearch (l # l' # ls) m r = (if r < l then (m, r + 1) else monthSearch (l' # ls) (m + 1) (r - l))"

definition civilOfDay :: "int \<Rightarrow> int \<times> int \<times> int" where
  "civilOfDay n = (let y = yearOfDay n; (m, d) = monthSearch (monthLengths y) 1 (n - dayFromYear y)
                  in (y, m, d))"

text \<open>\<open>getUTCDay\<close>: 0 is Sunday.\<close>

definition weekdayOfDay :: "int \<Rightarrow> int" where
  "weekdayOfDay n = (n + 4) mod 7"

definition validCivil :: "int \<Rightarrow> int \<Rightarrow> int \<Rightarrow> bool" where
  "validCivil y m d \<longleftrightarrow> 1 \<le> m \<and> m \<le> 12 \<and> 1 \<le> d \<and> d \<le> monthLength y m"

section \<open>Years\<close>

lemma div_succ:
  assumes "1 < (k :: int)" shows "(z + 1) div k = z div k + (if (z + 1) mod k = 0 then 1 else 0)"
proof -
  have r: "0 \<le> z mod k" "z mod k < k" using assms by simp_all
  have e: "z + 1 = z mod k + 1 + k * (z div k)" by simp
  have "(z + 1) div k = (z mod k + 1) div k + z div k" "(z + 1) mod k = (z mod k + 1) mod k"
    using assms by (subst e; simp only: div_mult_self2 mod_mult_self2; simp)+
  moreover have "(z mod k + 1) div k = 0 \<and> (z mod k + 1) mod k = z mod k + 1" if "z mod k + 1 \<noteq> k"
    using that r by (simp add: div_pos_pos_trivial mod_pos_pos_trivial)
  moreover have "z mod k + 1 \<noteq> 0" using r by linarith
  ultimately show ?thesis using assms by (cases "z mod k + 1 = k") simp_all
qed

lemma leapYear_hundreds:
  "(y :: int) mod 400 = 0 \<Longrightarrow> y mod 100 = 0" "(y :: int) mod 100 = 0 \<Longrightarrow> y mod 4 = 0"
  using mod_mod_cancel [of 100 400 y] mod_mod_cancel [of 4 100 y] by simp_all

lemma div_step:
  assumes "1 < (k :: int)" "k dvd d - 1"
  shows "(y + 1 - d) div k = (y - d) div k + (if y mod k = 0 then 1 else 0)"
proof -
  obtain q where q: "d - 1 = k * q" using assms(2) by (auto elim: dvdE)
  have "y - d + 1 = y + k * - q" using q by simp
  then have "(y - d + 1) mod k = y mod k" by (metis mod_mult_self2)
  moreover have "y + 1 - d = y - d + 1" by simp
  ultimately show ?thesis using div_succ [OF assms(1), of "y - d"] by metis
qed

lemma dayFromYear_step: "dayFromYear (y + 1) = dayFromYear y + (if leapYear y then 366 else 365)"
proof -
  have a: "(y + 1 - 1969) div 4 = (y - 1969) div 4 + (if y mod 4 = 0 then 1 else 0)"
    and b: "(y + 1 - 1901) div 100 = (y - 1901) div 100 + (if y mod 100 = 0 then 1 else 0)"
    and c: "(y + 1 - 1601) div 400 = (y - 1601) div 400 + (if y mod 400 = 0 then 1 else 0)"
    by (rule div_step, simp, simp)+
  define A B C where "A = (y - 1969) div 4" and "B = (y - 1901) div 100" and "C = (y - 1601) div 400"
  define P Q R where "P \<longleftrightarrow> y mod 4 = 0" and "Q \<longleftrightarrow> y mod 100 = 0" and "R \<longleftrightarrow> y mod 400 = 0"
  note folds = A_def [symmetric] B_def [symmetric] C_def [symmetric] P_def [symmetric] Q_def [symmetric] R_def [symmetric]
  have "R \<longrightarrow> Q" "Q \<longrightarrow> P" unfolding P_def Q_def R_def
    by (rule impI, erule leapYear_hundreds)+
  then show ?thesis unfolding dayFromYear_def leapYear_def a b c folds
    by (cases P; cases Q; cases R) simp_all
qed

lemma dayFromYear_add: "dayFromYear y + 365 * int k \<le> dayFromYear (y + int k)"
proof (induction k)
  case (Suc k)
  then show ?case using dayFromYear_step [of "y + int k"] by (simp add: algebra_simps split: if_splits)
qed simp

lemma dayFromYear_mono: "y \<le> z \<Longrightarrow> dayFromYear y + 365 * (z - y) \<le> dayFromYear z"
  using dayFromYear_add [of y "nat (z - y)"] by simp

lemma dayFromYear_close:
  "146097 * (y - 1970) - 506 \<le> 400 * dayFromYear y" "400 * dayFromYear y \<le> 146097 * (y - 1970) + 589"
proof -
  have d: "(x :: int) div k * k = x - x mod k" for x k by (simp add: minus_mod_eq_div_mult)
  have "400 * dayFromYear y = 146000 * (y - 1970) + 100 * ((y - 1969) div 4 * 4)
      - 4 * ((y - 1901) div 100 * 100) + (y - 1601) div 400 * 400"
    by (simp add: dayFromYear_def algebra_simps)
  also have "\<dots> = 146097 * (y - 1970) + 193 - 100 * ((y - 1969) mod 4)
      + 4 * ((y - 1901) mod 100) - (y - 1601) mod 400"
    unfolding d by (simp add: algebra_simps)
  finally show "146097 * (y - 1970) - 506 \<le> 400 * dayFromYear y" "400 * dayFromYear y \<le> 146097 * (y - 1970) + 589"
    using pos_mod_bound [of 4 "y - 1969"] pos_mod_sign [of 4 "y - 1969"]
      pos_mod_bound [of 100 "y - 1901"] pos_mod_sign [of 100 "y - 1901"]
      pos_mod_bound [of 400 "y - 1601"] pos_mod_sign [of 400 "y - 1601"] by simp_all
qed

lemma yearOfDay_bounds: "dayFromYear (yearOfDay n) \<le> n" "n < dayFromYear (yearOfDay n + 1)"
proof -
  define y where "y = 1970 + (400 * n) div 146097"
  have y: "146097 * (y - 1970) \<le> 400 * n" "400 * n < 146097 * (y - 1970) + 146097"
    using pos_mod_bound [of 146097 "400 * n"] pos_mod_sign [of 146097 "400 * n"]
      mult_div_mod_eq [of 146097 "400 * n"] by (auto simp: y_def)
  have "400 * n < 400 * dayFromYear (y + 1 + 1)" using dayFromYear_close [of "y + 2"] y by (simp add: algebra_simps)
  moreover have "400 * dayFromYear (y - 1) \<le> 400 * n" using dayFromYear_close [of "y - 1"] y by (simp add: algebra_simps)
  moreover have "y - 1 + 1 = y" by simp
  ultimately show "dayFromYear (yearOfDay n) \<le> n" "n < dayFromYear (yearOfDay n + 1)"
    unfolding yearOfDay_def y_def [symmetric] Let_def by auto
qed

lemma yearOfDay_unique: "dayFromYear y \<le> n \<Longrightarrow> n < dayFromYear (y + 1) \<Longrightarrow> yearOfDay n = y"
proof -
  assume y: "dayFromYear y \<le> n" "n < dayFromYear (y + 1)"
  note b = yearOfDay_bounds [of n]
  have "yearOfDay n < y + 1"
  proof (rule ccontr)
    assume "\<not> ?thesis"
    then show False using dayFromYear_mono [of "y + 1" "yearOfDay n"] b y by simp
  qed
  moreover have "y < yearOfDay n + 1"
  proof (rule ccontr)
    assume "\<not> ?thesis"
    then show False using dayFromYear_mono [of "yearOfDay n + 1" y] b y by simp
  qed
  ultimately show ?thesis by simp
qed

section \<open>Months\<close>

lemma length_monthLengths [simp]: "length (monthLengths y) = 12"
  by (simp add: monthLengths_def)

lemma month_cases:
  assumes "1 \<le> (m :: int)" "m \<le> 12"
  obtains "m = 1" | "m = 2" | "m = 3" | "m = 4" | "m = 5" | "m = 6" | "m = 7" | "m = 8" | "m = 9"
    | "m = 10" | "m = 11" | "m = 12"
proof -
  have "m \<in> {1..12}" using assms by simp
  also have "{1..12} = set [1 :: int, 2, 3, 4, 5, 6, 7, 8, 9, 10, 11, 12]" by (simp add: upto.simps flip: set_upto)
  finally show thesis using that by auto
qed

lemma monthOffset_simps:
  "monthOffset y 1 = 0" "monthOffset y 2 = 31"
  "monthOffset y 3 = 59 + (if leapYear y then 1 else 0)" "monthOffset y 4 = 90 + (if leapYear y then 1 else 0)"
  "monthOffset y 5 = 120 + (if leapYear y then 1 else 0)" "monthOffset y 6 = 151 + (if leapYear y then 1 else 0)"
  "monthOffset y 7 = 181 + (if leapYear y then 1 else 0)" "monthOffset y 8 = 212 + (if leapYear y then 1 else 0)"
  "monthOffset y 9 = 243 + (if leapYear y then 1 else 0)" "monthOffset y 10 = 273 + (if leapYear y then 1 else 0)"
  "monthOffset y 11 = 304 + (if leapYear y then 1 else 0)" "monthOffset y 12 = 334 + (if leapYear y then 1 else 0)"
  by (simp_all add: monthOffset_def monthLengths_def numeral_eq_Suc)

lemma monthLength_simps:
  "monthLength y 1 = 31" "monthLength y 2 = (if leapYear y then 29 else 28)" "monthLength y 3 = 31"
  "monthLength y 4 = 30" "monthLength y 5 = 31" "monthLength y 6 = 30" "monthLength y 7 = 31"
  "monthLength y 8 = 31" "monthLength y 9 = 30" "monthLength y 10 = 31" "monthLength y 11 = 30"
  "monthLength y 12 = 31"
  by (simp_all add: monthLength_def monthLengths_def numeral_eq_Suc)

lemma monthLength_bounds: "1 \<le> m \<Longrightarrow> m \<le> 12 \<Longrightarrow> 28 \<le> monthLength y m \<and> monthLength y m \<le> 31"
  by (cases m rule: month_cases) (simp_all add: monthLength_simps)

lemma monthOffset_step:
  "1 \<le> m \<Longrightarrow> m < 12 \<Longrightarrow> monthOffset y (m + 1) = monthOffset y m + monthLength y m"
  by (cases m rule: month_cases) (simp_all add: monthLength_simps monthOffset_simps)

lemma monthOffset_bounds: "1 \<le> m \<Longrightarrow> m \<le> 12 \<Longrightarrow>
  0 \<le> monthOffset y m \<and> monthOffset y m + monthLength y m \<le> (if leapYear y then 366 else 365)"
  by (cases m rule: month_cases) (simp_all add: monthLength_simps monthOffset_simps)

lemma monthSearch_spec:
  assumes "0 \<le> r" "r < (if leapYear y then 366 else 365)" "monthSearch (monthLengths y) 1 r = (m, d)"
  shows "1 \<le> m \<and> m \<le> 12 \<and> 1 \<le> d \<and> d \<le> monthLength y m \<and> r = monthOffset y m + d - 1"
  using assms
  by (auto simp: monthLengths_def monthLength_simps monthOffset_simps split: if_splits)

lemma monthSearch_civil:
  assumes "validCivil y m d"
  shows "monthSearch (monthLengths y) 1 (monthOffset y m + d - 1) = (m, d)"
proof -
  have m: "1 \<le> m" "m \<le> 12" and d: "1 \<le> d" "d \<le> monthLength y m" using assms by (simp_all add: validCivil_def)
  from m show ?thesis using d
    by (cases m rule: month_cases)
      (simp_all add: monthLengths_def monthLength_simps monthOffset_simps split: if_splits)
qed

section \<open>Dates\<close>

lemma civilOfDay_ok:
  assumes "civilOfDay n = (y, m, d)"
  shows "validCivil y m d \<and> dayFromCivil y m d = n"
proof -
  have y: "y = yearOfDay n" "monthSearch (monthLengths y) 1 (n - dayFromYear y) = (m, d)"
    using assms by (auto simp: civilOfDay_def Let_def split: prod.splits)
  have "0 \<le> n - dayFromYear y \<and> n - dayFromYear y < (if leapYear y then 366 else 365)"
    using yearOfDay_bounds [of n] dayFromYear_step [of y] y(1) by simp
  with monthSearch_spec [OF _ _ y(2)] show ?thesis by (auto simp: validCivil_def dayFromCivil_def)
qed

lemma civil_in_year:
  assumes "validCivil y m d"
  shows "dayFromYear y \<le> dayFromCivil y m d \<and> dayFromCivil y m d < dayFromYear (y + 1)"
  using assms monthOffset_bounds [of m y] dayFromYear_step [of y]
  by (simp add: validCivil_def dayFromCivil_def)

lemma civilOfDay_dayFromCivil:
  assumes "validCivil y m d" shows "civilOfDay (dayFromCivil y m d) = (y, m, d)"
proof -
  have "yearOfDay (dayFromCivil y m d) = y" using civil_in_year [OF assms] yearOfDay_unique by blast
  moreover have "dayFromCivil y m d - dayFromYear y = monthOffset y m + d - 1" by (simp add: dayFromCivil_def)
  ultimately show ?thesis using monthSearch_civil [OF assms] by (simp add: civilOfDay_def)
qed

lemma dayFromCivil_inj:
  assumes "validCivil y m d" "validCivil y' m' d'"
  shows "dayFromCivil y m d = dayFromCivil y' m' d' \<longleftrightarrow> (y, m, d) = (y', m', d')"
proof
  assume "dayFromCivil y m d = dayFromCivil y' m' d'"
  then have "civilOfDay (dayFromCivil y m d) = civilOfDay (dayFromCivil y' m' d')" by (rule arg_cong)
  then show "(y, m, d) = (y', m', d')"
    unfolding civilOfDay_dayFromCivil [OF assms(1)] civilOfDay_dayFromCivil [OF assms(2)] .
qed simp

lemma weekdayOfDay_bounds: "0 \<le> weekdayOfDay n \<and> weekdayOfDay n \<le> 6"
  using pos_mod_sign [of 7 "n + 4"] pos_mod_bound [of 7 "n + 4"] by (simp add: weekdayOfDay_def)

text \<open>The first day of the next month comes after the month's last day.\<close>

lemma dayFromCivil_next_month:
  assumes "1 \<le> m" "m \<le> 12"
  shows "(if m = 12 then dayFromCivil (y + 1) 1 1 else dayFromCivil y (m + 1) 1) =
    dayFromCivil y m (monthLength y m) + 1"
proof (cases "m = 12")
  case True
  then show ?thesis using dayFromYear_step [of y] by (simp add: dayFromCivil_def monthOffset_simps monthLength_simps)
next
  case False
  then show ?thesis using assms monthOffset_step [of m y] by (simp add: dayFromCivil_def)
qed

text \<open>Day numbers order the dates.\<close>

lemma monthOffset_mono: "1 \<le> m \<Longrightarrow> m < m' \<Longrightarrow> m' \<le> 12 \<Longrightarrow> monthOffset y m + monthLength y m \<le> monthOffset y m'"
proof (induction "nat (m' - m)" arbitrary: m')
  case (Suc n)
  show ?case
  proof (cases "m' = m + 1")
    case True
    then show ?thesis using monthOffset_step [of m y] Suc.prems by simp
  next
    case False
    then have "monthOffset y m + monthLength y m \<le> monthOffset y (m' - 1)"
      using Suc.hyps(1) [of "m' - 1"] Suc.hyps(2) Suc.prems by simp
    then show ?thesis
      using monthOffset_step [of "m' - 1" y] monthLength_bounds [of "m' - 1" y] Suc.prems False by simp
  qed
qed simp

lemma dayFromCivil_lex:
  assumes "validCivil y m d" "validCivil y' m' d'" "y < y' \<or> y = y' \<and> (m < m' \<or> m = m' \<and> d < d')"
  shows "dayFromCivil y m d < dayFromCivil y' m' d'"
proof -
  have "dayFromCivil y m d < dayFromCivil y' m' d'" if "y < y'"
    using civil_in_year [OF assms(1)] civil_in_year [OF assms(2)] dayFromYear_mono [of "y + 1" y'] that by simp
  moreover have "dayFromCivil y m d < dayFromCivil y m' d'" if "y = y'" "m < m'"
    using monthOffset_mono [of m m' y] assms(1,2) that by (simp add: validCivil_def dayFromCivil_def)
  ultimately show ?thesis using assms(3) by (auto simp: dayFromCivil_def)
qed

lemma dayFromCivil_less:
  assumes "validCivil y m d" "validCivil y' m' d'"
  shows "dayFromCivil y m d < dayFromCivil y' m' d' \<longleftrightarrow> y < y' \<or> y = y' \<and> (m < m' \<or> m = m' \<and> d < d')"
  using dayFromCivil_lex [OF assms] dayFromCivil_lex [OF assms(2,1)] dayFromCivil_inj [OF assms]
  by (metis linorder_neq_iff order_less_asym prod.inject)

end
