(* ===== verification/Date.thy ===== *)
theory Date
  imports Calendar
begin

text \<open>
  \<open>time/date.ts\<close>: calendar arithmetic on \<open>YYYY-MM-DD\<close> strings. \<open>Date.parse\<close> and \<open>toISOString\<close> are the
  ECMAScript ones over the calendar of theory Calendar (\<open>Date.parse\<close> lets a day up to 31 roll into
  the next month). The results: what \<open>parseIsoDate\<close> accepts is exactly the real dates of years 0 to
  9999; every operation on such a date is characterised by year, month and day.
\<close>

definition MS_PER_DAY :: int where "MS_PER_DAY = 86400000"

record DateRange =
  dFrom :: string
  dTo :: string

definition pad2 :: "int \<Rightarrow> string" where
  "pad2 value = padStart 2 (CHR ''0'') (show_int value)"

definition paddedYear :: "int \<Rightarrow> string" where
  "paddedYear year =
     (if year \<ge> 10000 then CHR ''+'' # padStart 6 (CHR ''0'') (show_int year)
      else if year < 0 then CHR ''-'' # padStart 6 (CHR ''0'') (show_int (- year))
      else padStart 4 (CHR ''0'') (show_int year))"

text \<open>The date half of \<open>toISOString\<close>, and \<open>ISO_DATE_PATTERN\<close>.\<close>

definition isoText :: "int \<Rightarrow> string" where
  "isoText n = (case civilOfDay n of (y, m, d) \<Rightarrow> paddedYear y @ ''-'' @ pad2 m @ ''-'' @ pad2 d)"

definition isoDatePattern :: "string \<Rightarrow> bool" where
  "isoDatePattern s \<longleftrightarrow> length s = 10 \<and> s ! 4 = CHR ''-'' \<and> s ! 7 = CHR ''-'' \<and>
     list_all (\<lambda>i. isDigit (s ! i)) [0, 1, 2, 3, 5, 6, 8, 9]"

definition isoPrefix :: "string \<Rightarrow> bool" where
  "isoPrefix s \<longleftrightarrow> length s \<ge> 8 \<and> s ! 4 = CHR ''-'' \<and> s ! 7 = CHR ''-'' \<and>
     list_all (\<lambda>i. isDigit (s ! i)) [0, 1, 2, 3, 5, 6]"

definition MAX_TIME :: int where "MAX_TIME = 8640000000000000"

text \<open>\<open>Date.UTC\<close> with the month counted from 0 and the time of day in milliseconds; \<open>None\<close> is NaN.\<close>

definition utcTime :: "int \<Rightarrow> int \<Rightarrow> int \<Rightarrow> int \<Rightarrow> int option" where
  "utcTime year month day ms =
     (let yr = (if 0 \<le> year \<and> year \<le> 99 then 1900 + year else year);
          t = MS_PER_DAY * (dayFromCivil (yr + month div 12) (month mod 12 + 1) 1 + day - 1) + ms
      in if \<bar>t\<bar> > MAX_TIME then None else Some t)"

definition formatIsoDate :: "int \<Rightarrow> js_error + string" where
  "formatIsoDate ms =
     (if \<bar>ms\<bar> > MAX_TIME then Inl (RangeErr ''Invalid time value'')
      else let iso = isoText (ms div MS_PER_DAY) in
        if \<not> isoPrefix iso
        then Inl (PlainErr (''expected a date in the 0001-9999 window, received: '' @ take 10 iso))
        else Inr (take 10 iso))"

definition dateParse :: "string \<Rightarrow> int option" where
  "dateParse s =
     (let y = int (readNat (take 4 s)); m = int (readNat (take 2 (drop 5 s)));
          d = int (readNat (take 2 (drop 8 s)))
      in if 1 \<le> m \<and> m \<le> 12 \<and> 1 \<le> d \<and> d \<le> 31 then Some (MS_PER_DAY * dayFromCivil y m d) else None)"

definition notADate :: "string \<Rightarrow> js_error" where
  "notADate date = PlainErr (''expected a YYYY-MM-DD date, received: '' @ date)"

definition parseIsoDate :: "string \<Rightarrow> js_error + int" where
  "parseIsoDate date =
     (if \<not> isoDatePattern date then Inl (notADate date)
      else case dateParse date of
        None \<Rightarrow> Inl (notADate date)
      | Some ms \<Rightarrow> andThen (formatIsoDate ms) (\<lambda>s. if s \<noteq> date then Inl (notADate date) else Inr ms))"

definition shiftMonth :: "string \<Rightarrow> int \<Rightarrow> js_error + string" where
  "shiftMonth date months =
     andThen (andThen (parseIsoDate date) formatIsoDate) (\<lambda>iso.
       let total = int (readNat (take 4 iso)) * 12 + (int (readNat (take 2 (drop 5 iso))) - 1) + months;
           year = total div 12;
           result = paddedYear year @ ''-'' @ pad2 (total - year * 12 + 1) @ ''-01''
       in if \<not> isoDatePattern result
          then Inl (PlainErr (''expected a date in the 0001-9999 window, received: '' @ take 10 result))
          else Inr result)"

definition startOfMonth :: "string \<Rightarrow> js_error + string" where
  "startOfMonth date =
     andThen (andThen (parseIsoDate date) formatIsoDate) (\<lambda>iso. Inr (take 7 iso @ ''-01''))"

definition endOfMonth :: "string \<Rightarrow> js_error + string" where
  "endOfMonth date =
     andThen (andThen (shiftMonth date 1) parseIsoDate) (\<lambda>ms. formatIsoDate (ms - MS_PER_DAY))"

definition daysInMonth :: "string \<Rightarrow> js_error + int" where
  "daysInMonth date = andThen (endOfMonth date) (\<lambda>e. Inr (int (readNat (take 2 (drop 8 e)))))"

definition dayInMonth :: "string \<Rightarrow> jsnum \<Rightarrow> js_error + string" where
  "dayInMonth date dayNumber =
     (if \<not> js_isInteger dayNumber then Inl (PlainErr ''expected a whole day number'')
      else andThen (daysInMonth date) (\<lambda>n.
        let clipped = min (max (js_floor dayNumber) 1) n in
        andThen (startOfMonth date) (\<lambda>s. Inr (take 8 s @ pad2 clipped))))"

definition utcDay :: "int \<Rightarrow> int" where
  "utcDay ms = weekdayOfDay (ms div MS_PER_DAY)"

definition monthFirstWeekday :: "string \<Rightarrow> int \<Rightarrow> js_error + int" where
  "monthFirstWeekday date firstWeekday =
     andThen (andThen (startOfMonth date) parseIsoDate) (\<lambda>ms.
       Inr ((utcDay ms - firstWeekday mod 7 + 7) mod 7))"

definition startOfWeek :: "string \<Rightarrow> int \<Rightarrow> js_error + string" where
  "startOfWeek date firstWeekday =
     andThen (parseIsoDate date) (\<lambda>ms.
       let back = (utcDay ms - firstWeekday mod 7 + 7) mod 7
       in formatIsoDate (ms - back * MS_PER_DAY))"

definition startOfQuarter :: "string \<Rightarrow> js_error + string" where
  "startOfQuarter date =
     andThen (andThen (parseIsoDate date) formatIsoDate) (\<lambda>iso.
       shiftMonth date (- ((int (readNat (take 2 (drop 5 iso))) - 1) mod 3)))"

definition endOfQuarter :: "string \<Rightarrow> js_error + string" where
  "endOfQuarter date =
     andThen (startOfQuarter date) (\<lambda>s. andThen (shiftMonth s 3) (\<lambda>n.
       andThen (parseIsoDate n) (\<lambda>ms. formatIsoDate (ms - MS_PER_DAY))))"

definition startOfYear :: "string \<Rightarrow> js_error + string" where
  "startOfYear date =
     andThen (andThen (parseIsoDate date) formatIsoDate) (\<lambda>iso. Inr (take 4 iso @ ''-01-01''))"

definition endOfYear :: "string \<Rightarrow> js_error + string" where
  "endOfYear date =
     andThen (andThen (parseIsoDate date) formatIsoDate) (\<lambda>iso. Inr (take 4 iso @ ''-12-31''))"

definition isSameDay :: "string \<Rightarrow> string \<Rightarrow> js_error + bool" where
  "isSameDay a b = andThen (parseIsoDate a) (\<lambda>x. andThen (parseIsoDate b) (\<lambda>y. Inr (x = y)))"

definition isValidDateRange :: "DateRange \<Rightarrow> bool" where
  "isValidDateRange r =
     (case andThen (parseIsoDate (dFrom r)) (\<lambda>x. andThen (parseIsoDate (dTo r)) (\<lambda>y. Inr (x \<le> y))) of
        Inr ok \<Rightarrow> ok | Inl (e :: js_error) \<Rightarrow> False)"

text \<open>\<open>count\<close> in the safe range; \<open>now\<close> is \<open>None\<close> for an invalid date.\<close>

definition recentIsoDates :: "jsnum \<Rightarrow> int option \<Rightarrow> js_error + string list" where
  "recentIsoDates count now =
     (if \<not> js_isSafeInteger count \<or> js_floor count < 0 then Inl (RangeErr ''count must be a whole number from 0'')
      else case now of
        None \<Rightarrow> Inl (RangeErr ''now must be a valid date'')
      | Some time \<Rightarrow>
          mapE (\<lambda>index. formatIsoDate (time - (js_floor count - 1 - int index) * MS_PER_DAY))
            [0..<nat (js_floor count)])"

section \<open>Date layouts\<close>

datatype DatePattern = YYYY_MM_DD_dash | YYYY_MM_DD_slash | YYYY_MM_DD_dot
  | DD_MM_YYYY_dot | DD_MM_YYYY_slash | DD_MM_YYYY_dash | MM_DD_YYYY_slash | MM_DD_YYYY_dash
  | DD_MM_YY_dot | DD_MM_YY_slash | MM_DD_YY_slash

definition DATE_PATTERNS :: "DatePattern list" where
  "DATE_PATTERNS = [YYYY_MM_DD_dash, YYYY_MM_DD_slash, YYYY_MM_DD_dot, DD_MM_YYYY_dot, DD_MM_YYYY_slash,
     DD_MM_YYYY_dash, MM_DD_YYYY_slash, MM_DD_YYYY_dash, DD_MM_YY_dot, DD_MM_YY_slash, MM_DD_YY_slash]"

datatype part = Year nat | Month | Day | Sep char

fun datePatternParts :: "DatePattern \<Rightarrow> part list" where
  "datePatternParts YYYY_MM_DD_dash = [Year 4, Sep CHR ''-'', Month, Sep CHR ''-'', Day]"
| "datePatternParts YYYY_MM_DD_slash = [Year 4, Sep CHR ''/'', Month, Sep CHR ''/'', Day]"
| "datePatternParts YYYY_MM_DD_dot = [Year 4, Sep CHR ''.'', Month, Sep CHR ''.'', Day]"
| "datePatternParts DD_MM_YYYY_dot = [Day, Sep CHR ''.'', Month, Sep CHR ''.'', Year 4]"
| "datePatternParts DD_MM_YYYY_slash = [Day, Sep CHR ''/'', Month, Sep CHR ''/'', Year 4]"
| "datePatternParts DD_MM_YYYY_dash = [Day, Sep CHR ''-'', Month, Sep CHR ''-'', Year 4]"
| "datePatternParts MM_DD_YYYY_slash = [Month, Sep CHR ''/'', Day, Sep CHR ''/'', Year 4]"
| "datePatternParts MM_DD_YYYY_dash = [Month, Sep CHR ''-'', Day, Sep CHR ''-'', Year 4]"
| "datePatternParts DD_MM_YY_dot = [Day, Sep CHR ''.'', Month, Sep CHR ''.'', Year 2]"
| "datePatternParts DD_MM_YY_slash = [Day, Sep CHR ''/'', Month, Sep CHR ''/'', Year 2]"
| "datePatternParts MM_DD_YY_slash = [Month, Sep CHR ''/'', Day, Sep CHR ''/'', Year 2]"

text \<open>
  The compiled expression. Every digit group is followed by a character that is no digit, or by the
  end, so the match is the longest run of digits, of a length the group allows. The groups matched so
  far are year, month and day.
\<close>

fun matchParts :: "part list \<Rightarrow> string \<Rightarrow> string \<times> string \<times> string \<Rightarrow>
    ((string \<times> string \<times> string) \<times> string) option" where
  "matchParts [] s g = Some (g, s)"
| "matchParts (Sep c # ps) s g = (case s of [] \<Rightarrow> None | x # xs \<Rightarrow> if x = c then matchParts ps xs g else None)"
| "matchParts (Year n # ps) s (y, m, d) =
     (let ds = takeWhile isDigit s in
      if length ds = n then matchParts ps (drop (length ds) s) (ds, m, d) else None)"
| "matchParts (Month # ps) s (y, m, d) =
     (let ds = takeWhile isDigit s in
      if length ds = 1 \<or> length ds = 2 then matchParts ps (drop (length ds) s) (y, ds, d) else None)"
| "matchParts (Day # ps) s (y, m, d) =
     (let ds = takeWhile isDigit s in
      if length ds = 1 \<or> length ds = 2 then matchParts ps (drop (length ds) s) (y, m, ds) else None)"

text \<open>\<open>TRAILING_TIME\<close> up to the end of the text.\<close>

definition trailingTime :: "string \<Rightarrow> bool" where
  "trailingTime s \<longleftrightarrow> s = [] \<or>
     (hd s \<in> {CHR '' '', CHR ''T''} \<and>
      (let h = takeWhile isDigit (tl s); r = drop (length h) (tl s) in
       (length h = 1 \<or> length h = 2) \<and>
       (case splitOn (CHR '':'') r of
          [e, mi] \<Rightarrow> e = [] \<and> length mi = 2 \<and> allDigits mi
        | [e, mi, se] \<Rightarrow> e = [] \<and> length mi = 2 \<and> allDigits mi \<and> length se = 2 \<and> allDigits se
        | _ \<Rightarrow> False)))"

definition parseDateWithPattern :: "string \<Rightarrow> DatePattern \<Rightarrow> string option" where
  "parseDateWithPattern text pattern =
     (case matchParts (datePatternParts pattern) (trimText text) ([], [], []) of
        None \<Rightarrow> None
      | Some ((gy, gm, gd), rest) \<Rightarrow>
          if \<not> trailingTime rest then None
          else let year = int (readNat gy) +
                     (if length gy = 2 then (if readNat gy < 70 then 2000 else 1900) else 0);
                   date = padStart 4 (CHR ''0'') (show_int year) @ ''-'' @ padStart 2 (CHR ''0'') gm @ ''-''
                     @ padStart 2 (CHR ''0'') gd
               in (case parseIsoDate date of Inl _ \<Rightarrow> None | Inr _ \<Rightarrow> Some date))"

definition detectDatePatterns :: "string list \<Rightarrow> DatePattern list" where
  "detectDatePatterns samples =
     (let filled = filter (\<lambda>s. trimText s \<noteq> []) samples in
      if filled = [] then []
      else filter (\<lambda>p. list_all (\<lambda>s. parseDateWithPattern s p \<noteq> None) filled) DATE_PATTERNS)"

section \<open>Real dates\<close>

definition dateText :: "int \<Rightarrow> int \<Rightarrow> int \<Rightarrow> string" where
  "dateText y m d = paddedYear y @ ''-'' @ pad2 m @ ''-'' @ pad2 d"

text \<open>A date of the window: years 0 to 9999.\<close>

definition realDate :: "int \<Rightarrow> int \<Rightarrow> int \<Rightarrow> bool" where
  "realDate y m d \<longleftrightarrow> 0 \<le> y \<and> y \<le> 9999 \<and> validCivil y m d"

lemma pad2_padNat: "0 \<le> v \<Longrightarrow> pad2 v = padNat 2 (nat v)"
  by (simp add: pad2_def show_int_def padNat_def)

lemma pad2_text:
  assumes "0 \<le> v" "v < 100"
  obtains a b where "pad2 v = [a, b]" "isDigit a" "isDigit b" "readNat [a, b] = nat v"
proof -
  have n: "nat v < 10 ^ Suc 1" using assms by simp
  note p = padNat_props [OF n]
  obtain a b where ab: "padNat (Suc 1) (nat v) = [a, b]"
    using p(1) by (auto simp: length_Suc_conv)
  with p that [of a b] show thesis using assms by (auto simp: pad2_padNat numeral_2_eq_2)
qed

lemma year_text:
  assumes "0 \<le> y" "y \<le> 9999"
  obtains a b c d where "paddedYear y = [a, b, c, d]" "isDigit a" "isDigit b" "isDigit c" "isDigit d"
    "readNat [a, b, c, d] = nat y"
proof -
  have n: "nat y < 10 ^ Suc 3" using assms by simp
  note p = padNat_props [OF n]
  have four: "Suc 3 = 4" by simp
  obtain a b c d where abcd: "padNat (Suc 3) (nat y) = [a, b, c, d]"
    using p(1) by (auto simp: length_Suc_conv numeral_3_eq_3)
  moreover have "paddedYear y = padNat 4 (nat y)"
    using assms by (simp add: paddedYear_def padNat_def show_int_def)
  ultimately show thesis using p that [of a b c d] unfolding four by auto
qed

lemma dateText_facts:
  assumes "0 \<le> y" "y \<le> 9999" "0 \<le> m" "m < 100" "0 \<le> d" "d < 100"
  shows "isoDatePattern (dateText y m d)" "isoPrefix (dateText y m d)" "length (dateText y m d) = 10"
    "readNat (take 4 (dateText y m d)) = nat y" "readNat (take 2 (drop 5 (dateText y m d))) = nat m"
    "readNat (take 2 (drop 8 (dateText y m d))) = nat d"
    "take 4 (dateText y m d) = paddedYear y"
    "take 7 (dateText y m d) = paddedYear y @ ''-'' @ pad2 m"
proof -
  obtain a b c e where y: "paddedYear y = [a, b, c, e]" "isDigit a" "isDigit b" "isDigit c" "isDigit e"
    "readNat [a, b, c, e] = nat y" using year_text [OF assms(1,2)] .
  obtain f g where m: "pad2 m = [f, g]" "isDigit f" "isDigit g" "readNat [f, g] = nat m"
    using pad2_text [OF assms(3,4)] .
  obtain h i where d: "pad2 d = [h, i]" "isDigit h" "isDigit i" "readNat [h, i] = nat d"
    using pad2_text [OF assms(5,6)] .
  have t: "dateText y m d = [a, b, c, e, CHR ''-'', f, g, CHR ''-'', h, i]"
    by (simp add: dateText_def y(1) m(1) d(1))
  show "isoDatePattern (dateText y m d)" "isoPrefix (dateText y m d)" "length (dateText y m d) = 10"
    "readNat (take 4 (dateText y m d)) = nat y" "readNat (take 2 (drop 5 (dateText y m d))) = nat m"
    "readNat (take 2 (drop 8 (dateText y m d))) = nat d"
    "take 4 (dateText y m d) = paddedYear y"
    "take 7 (dateText y m d) = paddedYear y @ ''-'' @ pad2 m"
    unfolding t y(1) m(1) using y m d by (simp_all add: isoDatePattern_def isoPrefix_def)
qed

lemma validCivil_small: "validCivil y m d \<Longrightarrow> 1 \<le> m \<and> m \<le> 12 \<and> 1 \<le> d \<and> d \<le> 31"
  using monthLength_bounds [of m y] by (auto simp: validCivil_def)

lemma realDate_facts:
  assumes "realDate y m d"
  shows "isoDatePattern (dateText y m d)" "isoPrefix (dateText y m d)" "length (dateText y m d) = 10"
    "readNat (take 4 (dateText y m d)) = nat y" "readNat (take 2 (drop 5 (dateText y m d))) = nat m"
    "readNat (take 2 (drop 8 (dateText y m d))) = nat d"
    "take 4 (dateText y m d) = paddedYear y"
    "take 7 (dateText y m d) = paddedYear y @ ''-'' @ pad2 m"
  using dateText_facts [of y m d] validCivil_small [of y m d] assms by (auto simp: realDate_def)

lemma day_range:
  assumes "realDate y m d"
  shows "-719528 \<le> dayFromCivil y m d" "dayFromCivil y m d < 2932897"
proof -
  have v: "validCivil y m d" "0 \<le> y" "y + 1 \<le> 10000" using assms by (auto simp: realDate_def)
  have "dayFromYear 0 = -719528" "dayFromYear 10000 = 2932897" by (simp_all add: dayFromYear_def)
  then show "-719528 \<le> dayFromCivil y m d" "dayFromCivil y m d < 2932897"
    using civil_in_year [OF v(1)] dayFromYear_mono [OF v(2)] dayFromYear_mono [OF v(3)] v by simp_all
qed

lemma format_window:
  assumes "civilOfDay (ms div MS_PER_DAY) = (y, m, d)" "0 \<le> y" "y \<le> 9999"
  shows "formatIsoDate ms = Inr (dateText y m d)"
proof -
  have ok: "validCivil y m d" "dayFromCivil y m d = ms div MS_PER_DAY" using civilOfDay_ok [OF assms(1)] by auto
  then have real: "realDate y m d" using assms by (simp add: realDate_def)
  have "\<bar>ms\<bar> \<le> MAX_TIME"
    using day_range [OF real] mult_div_mod_eq [of MS_PER_DAY ms] pos_mod_bound [of MS_PER_DAY ms]
      pos_mod_sign [of MS_PER_DAY ms] ok(2)
    by (simp add: MS_PER_DAY_def MAX_TIME_def)
  moreover have "isoText (ms div MS_PER_DAY) = dateText y m d" by (simp add: isoText_def dateText_def assms(1))
  ultimately show ?thesis using realDate_facts(2,3) [OF real] by (simp add: formatIsoDate_def Let_def)
qed

lemma format_midnight:
  assumes "realDate y m d"
  shows "formatIsoDate (MS_PER_DAY * dayFromCivil y m d) = Inr (dateText y m d)"
  using assms format_window civilOfDay_dayFromCivil by (simp add: realDate_def MS_PER_DAY_def)

lemma format_Inr:
  assumes "formatIsoDate ms = Inr s"
  obtains y m d where "civilOfDay (ms div MS_PER_DAY) = (y, m, d)" "realDate y m d" "s = dateText y m d"
proof -
  obtain y m d where c: "civilOfDay (ms div MS_PER_DAY) = (y, m, d)" by (cases "civilOfDay (ms div MS_PER_DAY)") auto
  have "isoPrefix (isoText (ms div MS_PER_DAY))" using assms by (auto simp: formatIsoDate_def Let_def split: if_splits)
  then have "isDigit (hd (paddedYear y))"
  proof -
    have "paddedYear y \<noteq> []" by (simp add: paddedYear_def padStart_def show_int_def)
    moreover assume "isoPrefix (isoText (ms div MS_PER_DAY))"
    ultimately show ?thesis by (cases "paddedYear y") (auto simp: isoPrefix_def isoText_def c)
  qed
  then have "0 \<le> y \<and> y \<le> 9999" by (auto simp: paddedYear_def split: if_splits)
  with c that civilOfDay_ok [OF c] format_window [OF c] assms show thesis by (auto simp: realDate_def)
qed

lemma parse_dateText:
  assumes "realDate y m d" shows "parseIsoDate (dateText y m d) = Inr (MS_PER_DAY * dayFromCivil y m d)"
proof -
  have "1 \<le> m \<and> m \<le> 12 \<and> 1 \<le> d \<and> d \<le> 31" "0 \<le> y"
    using assms validCivil_small by (auto simp: realDate_def)
  then have "dateParse (dateText y m d) = Some (MS_PER_DAY * dayFromCivil y m d)"
    using realDate_facts [OF assms] by (simp add: dateParse_def)
  then show ?thesis using realDate_facts(1) [OF assms] format_midnight [OF assms]
    by (simp add: parseIsoDate_def)
qed

lemma parse_Inr:
  assumes "parseIsoDate s = Inr ms"
  obtains y m d where "realDate y m d" "s = dateText y m d" "ms = MS_PER_DAY * dayFromCivil y m d"
proof -
  obtain y' m' d' where ms: "ms = MS_PER_DAY * dayFromCivil y' m' d'" and f: "formatIsoDate ms = Inr s"
    using assms by (auto simp: parseIsoDate_def dateParse_def Let_def andThen_Inr split: if_splits)
  obtain y m d where r: "civilOfDay (ms div MS_PER_DAY) = (y, m, d)" "realDate y m d" "s = dateText y m d"
    using format_Inr [OF f] .
  have "ms div MS_PER_DAY = dayFromCivil y' m' d'" by (simp add: ms MS_PER_DAY_def)
  with civilOfDay_ok [OF r(1)] have "dayFromCivil y m d = dayFromCivil y' m' d'" by simp
  with that r ms show thesis by simp
qed

text \<open>Dates of the window compare as their texts.\<close>

lemma pad2_digits:
  assumes "0 \<le> v" "v < 100"
  shows "length (pad2 v) = 2" "\<forall>c \<in> set (pad2 v). isDigit c" "readNat (pad2 v) = nat v"
  by (rule pad2_text [OF assms]; simp)+

lemma year_digits:
  assumes "0 \<le> y" "y \<le> 9999"
  shows "length (paddedYear y) = 4" "\<forall>c \<in> set (paddedYear y). isDigit c" "readNat (paddedYear y) = nat y"
  by (rule year_text [OF assms]; simp)+

lemma strLess_pad2: "0 \<le> a \<Longrightarrow> a < 100 \<Longrightarrow> 0 \<le> b \<Longrightarrow> b < 100 \<Longrightarrow> strLess (pad2 a) (pad2 b) \<longleftrightarrow> a < b"
  using strLess_digits [of "pad2 a" "pad2 b"] by (auto simp: pad2_digits)

lemma pad2_inj: "0 \<le> a \<Longrightarrow> a < 100 \<Longrightarrow> 0 \<le> b \<Longrightarrow> b < 100 \<Longrightarrow> pad2 a = pad2 b \<longleftrightarrow> a = b"
  by (metis eq_nat_nat_iff pad2_digits(3))

lemma strLess_dateText:
  assumes "realDate y m d" "realDate y' m' d'"
  shows "strLess (dateText y m d) (dateText y' m' d') \<longleftrightarrow> dayFromCivil y m d < dayFromCivil y' m' d'"
proof -
  have v: "validCivil y m d" "validCivil y' m' d'" using assms by (simp_all add: realDate_def)
  have b: "0 \<le> y" "y \<le> 9999" "0 \<le> m" "m < 100" "0 \<le> d" "d < 100"
      "0 \<le> y'" "y' \<le> 9999" "0 \<le> m'" "m' < 100" "0 \<le> d'" "d' < 100"
    using validCivil_small [OF v(1)] validCivil_small [OF v(2)] assms by (auto simp: realDate_def)
  have "strLess (paddedYear y) (paddedYear y') \<longleftrightarrow> y < y'"
    using strLess_digits [of "paddedYear y" "paddedYear y'"] b year_digits [of y] year_digits [of y'] by auto
  moreover have "paddedYear y = paddedYear y' \<longleftrightarrow> y = y'"
    using b year_digits(3) [of y] year_digits(3) [of y'] by (metis eq_nat_nat_iff)
  ultimately have years: "strLess (paddedYear y) (paddedYear y') \<longleftrightarrow> y < y'" "paddedYear y = paddedYear y' \<longleftrightarrow> y = y'"
    by blast+
  show ?thesis
    unfolding dayFromCivil_less [OF v] dateText_def
    using b by (simp add: strLess_append year_digits pad2_digits years strLess_pad2 pad2_inj)
qed

text \<open>
  C9: \<open>parseIsoDate\<close> accepts exactly the real dates of the years 0000 to 9999, written with four, two
  and two digits, and answers their midnight: no 31 February, no month 13, no roll into March; and
  everything it accepts is written back by \<open>formatIsoDate\<close>.
\<close>
theorem parse_iso_exact:
  "parseIsoDate s = Inr ms \<longleftrightarrow>
     (\<exists>y m d. realDate y m d \<and> s = dateText y m d \<and> ms = MS_PER_DAY * dayFromCivil y m d)"
  by (auto elim!: parse_Inr simp: parse_dateText)

lemma dateText_roundtrip:
  assumes "realDate y m d"
  shows "andThen (andThen (parseIsoDate (dateText y m d)) formatIsoDate) f = f (dateText y m d)"
  using parse_dateText [OF assms] format_midnight [OF assms] by simp

section \<open>Months\<close>

lemma paddedYear_outside: "y < 0 \<or> 9999 < y \<Longrightarrow> \<not> isoDatePattern (paddedYear y @ s)"
  by (auto simp: isoDatePattern_def paddedYear_def isDigit_def code_def)

lemma shiftMonth_run:
  assumes "realDate y m d" and t: "t = 12 * y + (m - 1) + k"
  shows "shiftMonth (dateText y m d) k =
    (if 0 \<le> t \<and> t < 120000 then Inr (dateText (t div 12) (t mod 12 + 1) 1)
     else Inl (PlainErr (''expected a date in the 0001-9999 window, received: '' @
       take 10 (dateText (t div 12) (t mod 12 + 1) 1))))"
proof -
  have m: "1 \<le> m" "m \<le> 12" "0 \<le> y" using assms(1) validCivil_small by (auto simp: realDate_def)
  have tot: "int (nat y) * 12 + (int (nat m) - 1) + k = t" using m by (simp add: t)
  have month: "t - t div 12 * 12 + 1 = t mod 12 + 1" by (simp add: minus_div_mult_eq_mod)
  have one: "''-'' @ pad2 1 = ''-01''" by code_simp
  have run: "shiftMonth (dateText y m d) k =
      (if \<not> isoDatePattern (dateText (t div 12) (t mod 12 + 1) 1)
       then Inl (PlainErr (''expected a date in the 0001-9999 window, received: '' @
         take 10 (dateText (t div 12) (t mod 12 + 1) 1)))
       else Inr (dateText (t div 12) (t mod 12 + 1) 1))"
    unfolding shiftMonth_def dateText_roundtrip [OF assms(1)]
    unfolding realDate_facts(4,5) [OF assms(1)] tot Let_def month
    unfolding dateText_def one by simp
  have "0 \<le> t mod 12" "t mod 12 < 12" by simp_all
  then have mm: "0 \<le> t mod 12 + 1" "t mod 12 + 1 < 100" by linarith+
  have "isoDatePattern (dateText (t div 12) (t mod 12 + 1) 1) \<longleftrightarrow> 0 \<le> t div 12 \<and> t div 12 \<le> 9999"
    using dateText_facts(1) [OF _ _ mm, of "t div 12" 1] paddedYear_outside [of "t div 12"]
    by (force simp: dateText_def)
  moreover have "0 \<le> t div 12 \<and> t div 12 \<le> 9999 \<longleftrightarrow> 0 \<le> t \<and> t < 120000" by linarith
  ultimately show ?thesis by (simp add: run)
qed

lemma first_realDate: "0 \<le> t \<Longrightarrow> t < 120000 \<Longrightarrow> realDate (t div 12) (t mod 12 + 1) 1"
proof -
  assume t: "0 \<le> t" "t < (120000 :: int)"
  have m: "1 \<le> t mod 12 + 1" "t mod 12 + 1 \<le> 12" using pos_mod_bound [of 12 t] by simp_all
  have "28 \<le> monthLength (t div 12) (t mod 12 + 1)" using monthLength_bounds [OF m] by blast
  moreover have "0 \<le> t div 12 \<and> t div 12 \<le> 9999" using t by presburger
  ultimately show ?thesis using m by (simp add: realDate_def validCivil_def)
qed

text \<open>
  \<open>shiftMonth\<close> is month arithmetic: from any day of month \<open>m\<close> of year \<open>y\<close> it answers the first of
  the month \<open>k\<close> months on, counting months from the year 0, and throws exactly when that month is
  outside the window. So two steps make one step of the sum.
\<close>
theorem shiftMonth_exact:
  assumes "realDate y m d" and "t = 12 * y + (m - 1) + k"
  shows "case shiftMonth (dateText y m d) k of
      Inr s \<Rightarrow> 0 \<le> t \<and> t < 120000 \<and> s = dateText (t div 12) (t mod 12 + 1) 1 \<and>
        (\<forall>j. 0 \<le> t + j \<and> t + j < 120000 \<longrightarrow> shiftMonth s j = shiftMonth (dateText y m d) (k + j))
    | Inl _ \<Rightarrow> t < 0 \<or> 120000 \<le> t"
proof (cases "0 \<le> t \<and> t < 120000")
  case True
  have "shiftMonth (dateText (t div 12) (t mod 12 + 1) 1) j = shiftMonth (dateText y m d) (k + j)"
    if "0 \<le> t + j" "t + j < 120000" for j
  proof -
    have e: "t + j = 12 * (t div 12) + (t mod 12 + 1 - 1) + j" by simp
    have e': "t + j = 12 * y + (m - 1) + (k + j)" using assms(2) by simp
    show ?thesis
      unfolding shiftMonth_run [OF first_realDate e] shiftMonth_run [OF assms(1) e'] using that True
      by (simp add: shiftMonth_run [OF first_realDate e])
  qed
  with True shiftMonth_run [OF assms] show ?thesis by simp
next
  case False
  with shiftMonth_run [OF assms] show ?thesis by auto
qed

theorem shiftMonth_exact_witness: "shiftMonth (dateText 2026 1 31) 1 = Inr (dateText 2026 2 1)"
proof -
  have "realDate 2026 1 31" by code_simp
  from shiftMonth_exact [OF this refl, of 1] show ?thesis
    by (cases "shiftMonth (dateText 2026 1 31) 1") simp_all
qed

lemma endOfMonth_run:
  assumes "realDate y m d"
  shows "if y = 9999 \<and> m = 12 then isl (endOfMonth (dateText y m d))
    else endOfMonth (dateText y m d) = Inr (dateText y m (monthLength y m))"
proof -
  have m: "1 \<le> m" "m \<le> 12" "0 \<le> y" "y \<le> 9999" using assms validCivil_small by (auto simp: realDate_def)
  define t where "t = 12 * y + (m - 1) + 1"
  note run = shiftMonth_run [OF assms t_def]
  show ?thesis
  proof (cases "y = 9999 \<and> m = 12")
    case True
    then have "\<not> (0 \<le> t \<and> t < 120000)" by (simp add: t_def)
    then have "isl (shiftMonth (dateText y m d) 1)" unfolding run by (simp only: if_False sum.disc)
    then show ?thesis using True by (cases "shiftMonth (dateText y m d) 1") (simp_all add: endOfMonth_def)
  next
    case False
    then have t: "0 \<le> t" "t < 120000" using m by (auto simp: t_def)
    have nxt: "dayFromCivil (t div 12) (t mod 12 + 1) 1 = dayFromCivil y m (monthLength y m) + 1"
    proof (cases "m = 12")
      case True
      then have "t = 12 * (y + 1)" by (simp add: t_def)
      then have e: "t div 12 = y + 1" "t mod 12 = 0" by simp_all
      show ?thesis unfolding e using dayFromCivil_next_month [OF m(1,2), of y] True by simp
    next
      case no: False
      have "t = m + y * 12" by (simp add: t_def)
      then have e: "t div 12 = y" "t mod 12 = m" using m no by simp_all
      show ?thesis unfolding e using dayFromCivil_next_month [OF m(1,2), of y] no by simp
    qed
    have last: "realDate y m (monthLength y m)"
      using m monthLength_bounds [OF m(1,2), of y] by (simp add: realDate_def validCivil_def)
    have "MS_PER_DAY * dayFromCivil (t div 12) (t mod 12 + 1) 1 - MS_PER_DAY =
        MS_PER_DAY * dayFromCivil y m (monthLength y m)"
      unfolding nxt by (simp add: algebra_simps)
    then have "endOfMonth (dateText y m d) = Inr (dateText y m (monthLength y m))"
      using run t parse_dateText [OF first_realDate [OF t]] format_midnight [OF last]
      by (simp add: endOfMonth_def)
    then show ?thesis using False by (simp only: if_False)
  qed
qed

text \<open>
  The clipped day of a month: for a real date before December 9999, \<open>dayInMonth\<close> with any whole
  number answers the real date of that month whose day is the number clipped to 1 and the month's
  length, 28 to 31 by month and leap year.
\<close>
theorem dayInMonth_clips:
  assumes "realDate y m d" "\<not> (y = 9999 \<and> m = 12)"
  shows "dayInMonth (dateText y m d) (js_int k) = Inr (dateText y m (min (max k 1) (monthLength y m))) \<and>
    realDate y m (min (max k 1) (monthLength y m))"
proof -
  have m: "1 \<le> m" "m \<le> 12" "0 \<le> y" "y \<le> 9999" using assms(1) validCivil_small by (auto simp: realDate_def)
  note len = monthLength_bounds [OF m(1,2), of y]
  then have last: "realDate y m (monthLength y m)" using m by (simp add: realDate_def validCivil_def)
  have start: "startOfMonth (dateText y m d) = Inr (paddedYear y @ ''-'' @ pad2 m @ ''-01'')"
    unfolding startOfMonth_def dateText_roundtrip [OF assms(1)] realDate_facts(8) [OF assms(1)] by simp
  have eight: "take 8 (paddedYear y @ ''-'' @ pad2 m @ ''-01'') = paddedYear y @ ''-'' @ pad2 m @ ''-''"
  proof -
    obtain a b c e where "paddedYear y = [a, b, c, e]" using year_text [OF m(3,4)] .
    moreover obtain f g where "pad2 m = [f, g]" by (rule pad2_text [of m]) (use m in auto)
    ultimately show ?thesis by simp
  qed
  have "daysInMonth (dateText y m d) = Inr (monthLength y m)"
    using endOfMonth_run [OF assms(1)] assms(2) realDate_facts(6) [OF last] len by (auto simp: daysInMonth_def)
  then have "dayInMonth (dateText y m d) (js_int k) = Inr (dateText y m (min (max k 1) (monthLength y m)))"
    using start eight by (simp add: dayInMonth_def Let_def dateText_def)
  moreover have "realDate y m (min (max k 1) (monthLength y m))"
    using m len by (auto simp: realDate_def validCivil_def)
  ultimately show ?thesis by blast
qed

theorem dayInMonth_clips_witness:
  "dayInMonth (dateText 2024 2 10) (js_int 31) = Inr (dateText 2024 2 29)"
proof -
  have "realDate 2024 2 10" by code_simp
  moreover have "min (max 31 1) (monthLength 2024 2) = 29" by code_simp
  ultimately show ?thesis using dayInMonth_clips [of 2024 2 10 31] by simp
qed

section \<open>Weeks, quarters, ranges\<close>

lemma MS_div: "(MS_PER_DAY * n - k * MS_PER_DAY) div MS_PER_DAY = n - k"
proof -
  have "MS_PER_DAY * n - k * MS_PER_DAY = (n - k) * MS_PER_DAY" by (simp add: algebra_simps)
  then show ?thesis by (simp add: MS_PER_DAY_def)
qed

lemma week_step: "((z :: int) - (z mod 7 - f mod 7 + 7) mod 7) mod 7 = f mod 7"
proof -
  have "(z - (z mod 7 - f mod 7 + 7) mod 7) mod 7 = (z - (z mod 7 - f mod 7 + 7)) mod 7"
    by (rule mod_diff_right_eq)
  also have "z - (z mod 7 - f mod 7 + 7) = f mod 7 + (z div 7 - 1) * 7" by (simp add: minus_mod_eq_div_mult [symmetric])
  also have "(f mod 7 + (z div 7 - 1) * 7) mod 7 = f mod 7" by (subst mod_mult_self1) simp
  finally show ?thesis .
qed

text \<open>
  \<open>startOfWeek\<close>, for every way to number the first weekday: when it answers, the answer is a real
  date at most six days back, and its weekday (0 is Sunday) is the one the week opens on; it refuses
  only when that date lies before the window.
\<close>
theorem startOfWeek_spec:
  assumes "realDate y m d"
  shows "(\<exists>y' m' d'. startOfWeek (dateText y m d) f = Inr (dateText y' m' d') \<and> realDate y' m' d' \<and>
      weekdayOfDay (dayFromCivil y' m' d') = f mod 7 \<and>
      dayFromCivil y m d - 6 \<le> dayFromCivil y' m' d' \<and> dayFromCivil y' m' d' \<le> dayFromCivil y m d)
    \<or> isl (startOfWeek (dateText y m d) f) \<and> dayFromCivil y m d < dayFromCivil 0 1 7"
proof -
  let ?n = "dayFromCivil y m d"
  define b where "b = (weekdayOfDay ?n - f mod 7 + 7) mod 7"
  have b: "0 \<le> b" "b \<le> 6" using pos_mod_bound [of 7 "weekdayOfDay ?n - f mod 7 + 7"] by (simp_all add: b_def)
  obtain y' m' d' where c: "civilOfDay (?n - b) = (y', m', d')" by (cases "civilOfDay (?n - b)") auto
  note ok = civilOfDay_ok [OF c]
  have run: "startOfWeek (dateText y m d) f = formatIsoDate (MS_PER_DAY * ?n - b * MS_PER_DAY)"
    using parse_dateText [OF assms] by (simp add: startOfWeek_def utcDay_def MS_PER_DAY_def b_def Let_def)
  show ?thesis
  proof (cases "0 \<le> y'")
    case True
    have "y' \<le> 9999"
    proof (rule ccontr)
      assume "\<not> ?thesis"
      then have "dayFromYear 10000 \<le> dayFromYear y'" using dayFromYear_mono [of 10000 y'] by simp
      moreover have "dayFromYear 10000 = 2932897" by (simp add: dayFromYear_def)
      ultimately show False using civil_in_year [of y' m' d'] ok day_range [OF assms] b by simp
    qed
    with True have "formatIsoDate (MS_PER_DAY * ?n - b * MS_PER_DAY) = Inr (dateText y' m' d')"
      by (intro format_window) (simp_all add: MS_div c)
    moreover have "weekdayOfDay (?n - b) = f mod 7"
      using week_step [of "?n + 4" f] by (simp add: b_def weekdayOfDay_def algebra_simps)
    ultimately show ?thesis using ok b True \<open>y' \<le> 9999\<close> run
      by (intro disjI1 exI [of _ y'] exI [of _ m'] exI [of _ d']) (simp add: realDate_def)
  next
    case False
    have "isl (formatIsoDate (MS_PER_DAY * ?n - b * MS_PER_DAY))"
    proof (rule ccontr)
      assume "\<not> ?thesis"
      then obtain s where "formatIsoDate (MS_PER_DAY * ?n - b * MS_PER_DAY) = Inr s"
        by (cases "formatIsoDate (MS_PER_DAY * ?n - b * MS_PER_DAY)") auto
      from format_Inr [OF this] c False show False by (auto simp: MS_div realDate_def)
    qed
    moreover have "?n - b < dayFromYear 0"
      using ok civil_in_year [of y' m' d'] dayFromYear_mono [of "y' + 1" 0] False by simp
    moreover have "dayFromCivil 0 1 7 = dayFromYear 0 + 6" by (simp add: dayFromCivil_def monthOffset_simps)
    ultimately show ?thesis using run b by simp
  qed
qed

theorem startOfWeek_spec_witness:
  "realDate 2026 1 1 \<and> ((\<exists>y' m' d'. startOfWeek (dateText 2026 1 1) 1 = Inr (dateText y' m' d') \<and> realDate y' m' d' \<and>
      weekdayOfDay (dayFromCivil y' m' d') = 1 mod 7 \<and>
      dayFromCivil 2026 1 1 - 6 \<le> dayFromCivil y' m' d' \<and> dayFromCivil y' m' d' \<le> dayFromCivil 2026 1 1)
    \<or> isl (startOfWeek (dateText 2026 1 1) 1) \<and> dayFromCivil 2026 1 1 < dayFromCivil 0 1 7)"
proof -
  have "realDate 2026 1 1" by code_simp
  then show ?thesis using startOfWeek_spec [of 2026 1 1 1] by blast
qed

lemma isSameDay_exact:
  "realDate y m d \<Longrightarrow> realDate y' m' d' \<Longrightarrow>
   isSameDay (dateText y m d) (dateText y' m' d') = Inr ((y, m, d) = (y', m', d'))"
  using dayFromCivil_inj [of y m d y' m' d']
  by (simp add: isSameDay_def parse_dateText realDate_def MS_PER_DAY_def)

section \<open>Layouts\<close>

text \<open>A date written in a layout, day and month with two digits.\<close>

fun partText :: "int \<Rightarrow> int \<Rightarrow> int \<Rightarrow> part \<Rightarrow> string" where
  "partText y m d (Year n) = padNat n (nat (y mod 10 ^ n))"
| "partText y m d Month = pad2 m"
| "partText y m d Day = pad2 d"
| "partText y m d (Sep c) = [c]"

definition writeDate :: "DatePattern \<Rightarrow> int \<Rightarrow> int \<Rightarrow> int \<Rightarrow> string" where
  "writeDate p y m d = concat (map (partText y m d) (datePatternParts p))"

definition shortYear :: "DatePattern \<Rightarrow> bool" where
  "shortYear p \<longleftrightarrow> Year 2 \<in> set (datePatternParts p)"

lemma isDigit_no_space: "isDigit c \<Longrightarrow> \<not> isSpaceChar c"
  by (auto simp: isDigit_def isSpaceChar_def)

lemma trim_digits: "isDigit a \<Longrightarrow> isDigit z \<Longrightarrow> trimText (a # xs @ [z]) = a # xs @ [z]"
  by (simp add: trimText_def isDigit_no_space)

lemma trim_digits8:
  "isDigit a \<Longrightarrow> isDigit h \<Longrightarrow> trimText [a, b, c, d, e, f, g, h] = [a, b, c, d, e, f, g, h]"
  "isDigit a \<Longrightarrow> isDigit j \<Longrightarrow> trimText [a, b, c, d, e, f, g, h, i, j] = [a, b, c, d, e, f, g, h, i, j]"
  using trim_digits [of a h "[b, c, d, e, f, g]"] trim_digits [of a j "[b, c, d, e, f, g, h, i]"] by simp_all

text \<open>
  Every layout reads back what is written in it: for each of the eleven layouts, a real date
  written in the layout (a two-digit year for 1970 to 2069) is read as that date by
  \<open>parseDateWithPattern\<close>, so the day and the month are never swapped and the century rule is exact.
\<close>
theorem parse_written_date:
  assumes "realDate y m d" and "if shortYear p then 1970 \<le> y \<and> y \<le> 2069 else True"
  shows "parseDateWithPattern (writeDate p y m d) p = Some (dateText y m d)"
proof -
  have b: "0 \<le> y" "y \<le> 9999" "0 \<le> m" "m < 100" "0 \<le> d" "d < 100"
    using assms(1) validCivil_small [of y m d] by (auto simp: realDate_def)
  obtain f g where m: "pad2 m = [f, g]" "isDigit f" "isDigit g" using pad2_text [OF b(3,4)] by metis
  obtain h i where d: "pad2 d = [h, i]" "isDigit h" "isDigit i" using pad2_text [OF b(5,6)] by metis
  have parse: "parseIsoDate (dateText y m d) = Inr (MS_PER_DAY * dayFromCivil y m d)"
    using parse_dateText [OF assms(1)] .
  have pads: "padStart 2 (CHR ''0'') [f, g] = [f, g]" "padStart 2 (CHR ''0'') [h, i] = [h, i]"
    by (simp_all add: padStart_def)
  have no: "\<not> isDigit (CHR ''-'')" "\<not> isDigit (CHR ''/'')" "\<not> isDigit (CHR ''.'')" by simp_all
  show ?thesis
  proof (cases "shortYear p")
    case False
    obtain a b' c e where y: "paddedYear y = [a, b', c, e]" "isDigit a" "isDigit b'" "isDigit c" "isDigit e"
      "readNat [a, b', c, e] = nat y" using year_text [OF b(1,2)] .
    have y4: "padNat 4 (nat (y mod 10 ^ 4)) = [a, b', c, e]"
      using y(1) b by (simp add: paddedYear_def padNat_def show_int_def)
    have outp: "padStart 4 (CHR ''0'') (show_int y) @ ''-'' @ [f, g] @ ''-'' @ [h, i] = dateText y m d"
      using b by (simp add: dateText_def m d paddedYear_def)
    from False show ?thesis
      by (cases p)
        (simp_all add: shortYear_def parseDateWithPattern_def writeDate_def m d y4 [simplified] y b(1) trim_digits8
          no trailingTime_def pads Let_def outp [simplified] parse)
  next
    case True
    then have y: "1970 \<le> y" "y \<le> 2069" using assms(2) by auto
    define v where "v = nat (y mod 100)"
    have v: "v < 10 ^ Suc 1" by (simp add: v_def)
    have Suc1: "Suc 1 = 2" by simp
    obtain a b' where ab: "padNat 2 v = [a, b']" "isDigit a" "isDigit b'" "readNat [a, b'] = v"
      using padNat_props [OF v] unfolding Suc1 by (auto simp: length_Suc_conv numeral_2_eq_2)
    have year: "int v + (if v < 70 then 2000 else 1900) = y"
    proof (cases "y < 2000")
      case True
      then have "y mod 100 = y - 1900" using y by presburger
      then show ?thesis using y True by (simp add: v_def)
    next
      case False
      then have "y mod 100 = y - 2000" using y by presburger
      then show ?thesis using y False by (simp add: v_def)
    qed
    have y2: "padNat 2 (nat (y mod 10 ^ 2)) = [a, b']" using ab(1) by (simp add: v_def)
    have outp: "padStart 4 (CHR ''0'') (show_int y) @ ''-'' @ [f, g] @ ''-'' @ [h, i] = dateText y m d"
      using b by (simp add: dateText_def m d paddedYear_def)
    from True show ?thesis
      by (cases p)
        (simp_all add: shortYear_def parseDateWithPattern_def writeDate_def m d y2 [simplified] ab trim_digits8 no
          trailingTime_def pads Let_def year [simplified] outp [simplified] parse)
  qed
qed

theorem parse_written_date_witness:
  "parseDateWithPattern (writeDate DD_MM_YY_dot 2026 12 31) DD_MM_YY_dot = Some (dateText 2026 12 31)"
proof -
  have "realDate 2026 12 31" "shortYear DD_MM_YY_dot" by code_simp+
  then show ?thesis using parse_written_date [of 2026 12 31 DD_MM_YY_dot] by simp
qed

section \<open>Dates by day number\<close>

definition dayText :: "int \<Rightarrow> string" where
  "dayText n = (case civilOfDay n of (y, m, d) \<Rightarrow> dateText y m d)"

definition inWindow :: "int \<Rightarrow> bool" where "inWindow n \<longleftrightarrow> -719528 \<le> n \<and> n < 2932897"

lemma dayText_civil: "validCivil y m d \<Longrightarrow> dayText (dayFromCivil y m d) = dateText y m d"
  by (simp add: dayText_def civilOfDay_dayFromCivil)

lemma inWindow_civil: "validCivil y m d \<Longrightarrow> inWindow (dayFromCivil y m d) \<longleftrightarrow> realDate y m d"
proof
  assume v: "validCivil y m d" and w: "inWindow (dayFromCivil y m d)"
  have ends: "dayFromYear 0 = -719528" "dayFromYear 10000 = 2932897" by (simp_all add: dayFromYear_def)
  have "y \<le> 9999"
  proof (rule ccontr)
    assume "\<not> y \<le> 9999"
    then have "10000 \<le> y" by simp
    then have "dayFromYear 10000 \<le> dayFromYear y" using dayFromYear_mono [of 10000 y] by simp
    then show False using conjunct1 [OF civil_in_year [OF v]] w unfolding ends inWindow_def by linarith
  qed
  moreover have "0 \<le> y"
  proof (rule ccontr)
    assume "\<not> 0 \<le> y"
    then have "y + 1 \<le> 0" by simp
    then have "dayFromYear (y + 1) \<le> dayFromYear 0" using dayFromYear_mono [of "y + 1" 0] by simp
    then show False using conjunct2 [OF civil_in_year [OF v]] w unfolding ends inWindow_def by linarith
  qed
  ultimately show "realDate y m d" using v by (simp add: realDate_def)
qed (simp add: inWindow_def day_range)

lemma window_date:
  assumes "inWindow n"
  obtains y m d where "civilOfDay n = (y, m, d)" "realDate y m d" "dayFromCivil y m d = n" "dayText n = dateText y m d"
proof -
  obtain y m d where c: "civilOfDay n = (y, m, d)" by (metis prod_cases3)
  then have "validCivil y m d" "dayFromCivil y m d = n" using civilOfDay_ok by blast+
  with assms c that show thesis using inWindow_civil by (auto simp: dayText_def)
qed

lemma parse_dayText: "inWindow n \<Longrightarrow> parseIsoDate (dayText n) = Inr (MS_PER_DAY * n)"
  by (erule window_date) (metis parse_dateText)

lemma parse_day:
  assumes "parseIsoDate s = Inr ms"
  obtains n where "inWindow n" "s = dayText n" "ms = MS_PER_DAY * n"
proof (rule parse_Inr [OF assms])
  fix y m d assume r: "realDate y m d" "s = dateText y m d" "ms = MS_PER_DAY * dayFromCivil y m d"
  then show thesis using that [of "dayFromCivil y m d"] inWindow_civil dayText_civil by (simp add: realDate_def)
qed

lemma format_dayText: "inWindow n \<Longrightarrow> formatIsoDate (MS_PER_DAY * n) = Inr (dayText n)"
  by (erule window_date) (metis format_midnight)

lemma format_outside:
  assumes "\<not> inWindow n" shows "isl (formatIsoDate (MS_PER_DAY * n))"
proof (cases "formatIsoDate (MS_PER_DAY * n)")
  case (Inr s)
  have day: "MS_PER_DAY * n div MS_PER_DAY = n" by (simp add: MS_PER_DAY_def)
  obtain y m d where c: "civilOfDay n = (y, m, d)" "realDate y m d"
    by (rule format_Inr [OF Inr, unfolded day])
  have "validCivil y m d \<and> dayFromCivil y m d = n" by (rule civilOfDay_ok [OF c(1)])
  then show ?thesis using inWindow_civil [of y m d] c(2) assms by simp
qed simp

lemma dayText_inj:
  assumes "inWindow a" "inWindow b" shows "dayText a = dayText b \<longleftrightarrow> a = b"
proof
  assume "dayText a = dayText b"
  then have "(Inr (MS_PER_DAY * a) :: js_error + int) = Inr (MS_PER_DAY * b)"
    unfolding parse_dayText [OF assms(1), symmetric] parse_dayText [OF assms(2), symmetric] by (rule arg_cong)
  then show "a = b" by (simp add: MS_PER_DAY_def)
qed simp

lemma strLess_dayText:
  assumes "inWindow a" "inWindow b" shows "strLess (dayText a) (dayText b) \<longleftrightarrow> a < b"
proof (rule window_date [OF assms(1)], rule window_date [OF assms(2)])
  fix y m d y' m' d'
  assume a: "realDate y m d" "dayFromCivil y m d = a" "dayText a = dateText y m d"
    and b: "realDate y' m' d'" "dayFromCivil y' m' d' = b" "dayText b = dateText y' m' d'"
  then show ?thesis using strLess_dateText [OF a(1) b(1)] by simp
qed

lemma startOfWeek_day:
  "inWindow n \<Longrightarrow> startOfWeek (dayText n) f = formatIsoDate (MS_PER_DAY * (n - (weekdayOfDay n - f mod 7 + 7) mod 7))"
  by (simp add: startOfWeek_def parse_dayText utcDay_def Let_def MS_PER_DAY_def algebra_simps)

end
