(* ===== verification/Units.thy ===== *)
theory Units
  imports Strings
begin

text \<open>
  JavaScript texts with characters beyond ASCII: lists of UTF-16 code units, with the character class
  \<open>\s\<close> and the string methods the sources call on them.
\<close>

type_synonym units = "nat list"

definition u :: "string \<Rightarrow> units" where
  "u s = map code s"

text \<open>The class \<open>\s\<close>.\<close>

definition isSpace :: "nat \<Rightarrow> bool" where
  "isSpace c \<longleftrightarrow> (9 \<le> c \<and> c \<le> 13) \<or> c = 32 \<or> c = 160 \<or> c = 0x1680 \<or> (0x2000 \<le> c \<and> c \<le> 0x200a) \<or>
     c = 0x2028 \<or> c = 0x2029 \<or> c = 0x202f \<or> c = 0x205f \<or> c = 0x3000 \<or> c = 0xfeff"

fun joinUnits :: "units \<Rightarrow> units list \<Rightarrow> units" where
  "joinUnits sep [] = []"
| "joinUnits sep [x] = x"
| "joinUnits sep (x # y # ys) = x @ sep @ joinUnits sep (y # ys)"

definition isDigitU :: "nat \<Rightarrow> bool" where "isDigitU c \<longleftrightarrow> 48 \<le> c \<and> c \<le> 57"

definition trimUnits :: "units \<Rightarrow> units" where
  "trimUnits s = rev (dropWhile isSpace (rev (dropWhile isSpace s)))"

text \<open>\<open>Array.from(text)\<close>: a text as its characters, a surrogate pair being one.\<close>

fun chars :: "units \<Rightarrow> units list" where
  "chars [] = []"
| "chars [x] = [[x]]"
| "chars (x # y # r) =
     (if 0xd800 \<le> x \<and> x \<le> 0xdbff \<and> 0xdc00 \<le> y \<and> y \<le> 0xdfff then [x, y] # chars r else [x] # chars (y # r))"

text \<open>\<open>s.split(c)\<close> for a text of one unit.\<close>

fun splitUnits :: "nat \<Rightarrow> units \<Rightarrow> units list" where
  "splitUnits c [] = [[]]"
| "splitUnits c (x # xs) =
     (if x = c then [] # splitUnits c xs
      else (case splitUnits c xs of [] \<Rightarrow> [[x]] | y # ys \<Rightarrow> (x # y) # ys))"

text \<open>\<open>BigInt(s)\<close> for a text of decimal digits.\<close>

definition readU :: "units \<Rightarrow> nat" where
  "readU s = foldl (\<lambda>n c. 10 * n + (c - 48)) 0 s"

definition padEndU :: "nat \<Rightarrow> units \<Rightarrow> units" where
  "padEndU n s = s @ replicate (n - length s) 48"

lemma splitUnits_ne [simp]: "splitUnits c s \<noteq> []"
  by (induction s) (auto split: list.split)

lemma splitUnits_none [simp]: "c \<notin> set s \<Longrightarrow> splitUnits c s = [s]"
  by (induction s) auto

lemma splitUnits_append [simp]: "c \<notin> set x \<Longrightarrow> splitUnits c (x @ c # r) = x # splitUnits c r"
  by (induction x) auto

lemma readU_u: "readU (u s) = readNat s"
proof -
  have "foldl (\<lambda>n c. 10 * n + (c - 48)) a (map code s) = foldl (\<lambda>n c. 10 * n + digitVal c) a s" for a
    by (induction s arbitrary: a) (simp_all add: digitVal_def)
  then show ?thesis by (simp add: readU_def readNat_def u_def)
qed

lemma readU_append: "readU (a @ b) = readU a * 10 ^ length b + readU b"
proof (induction b rule: rev_induct)
  case (snoc x b)
  have "readU (s @ [x]) = 10 * readU s + (x - 48)" for s by (simp add: readU_def)
  with snoc show ?case by (simp flip: append_assoc add: algebra_simps)
qed (simp add: readU_def)

lemma readU_zeros [simp]: "readU (replicate k 48) = 0"
  by (induction k) (simp_all add: readU_def)

lemma readU_Nil [simp]: "readU [] = 0"
  by (simp add: readU_def)

lemma readU_padEnd: "readU (padEndU n s) = readU s * 10 ^ (n - length s)"
  by (simp add: padEndU_def readU_append)

lemma readU_bound: "list_all isDigitU s \<Longrightarrow> readU s < 10 ^ length s"
proof (induction s rule: rev_induct)
  case (snoc x s)
  then have "readU s < 10 ^ length s" "x - 48 < 10" by (auto simp: isDigitU_def)
  then show ?case by (simp add: readU_append) (simp add: readU_def)
qed simp

lemma u_append [simp]: "u (a @ b) = u a @ u b" and u_Nil [simp]: "u [] = []"
  and u_Cons [simp]: "u (c # s) = code c # u s" and length_u [simp]: "length (u s) = length s"
  by (simp_all add: u_def)

lemma u_digits: "allDigits s \<Longrightarrow> list_all isDigitU (u s)"
  by (auto simp: allDigits_def u_def list_all_iff isDigit_def isDigitU_def)

lemma trimUnits_id: "s = [] \<or> \<not> isSpace (hd s) \<and> \<not> isSpace (last s) \<Longrightarrow> trimUnits s = s"
  using dropWhile_eq_self_iff [of isSpace s] dropWhile_eq_self_iff [of isSpace "rev s"]
  by (auto simp: trimUnits_def hd_rev)

text \<open>\<open>s.replaceAll(c, t)\<close> for one unit.\<close>

definition replaceUnit :: "nat \<Rightarrow> units \<Rightarrow> units \<Rightarrow> units" where
  "replaceUnit c t s = concat (map (\<lambda>x. if x = c then t else [x]) s)"

lemma replaceUnit_simps [simp]:
  "replaceUnit c t [] = []" "replaceUnit c t (x # s) = (if x = c then t else [x]) @ replaceUnit c t s"
  by (simp_all add: replaceUnit_def)

lemma replaceUnit_append [simp]: "replaceUnit c t (a @ b) = replaceUnit c t a @ replaceUnit c t b"
  by (simp add: replaceUnit_def)

end
