(* ===== verification/Csv.thy ===== *)
theory Csv
  imports Units
begin

text \<open>
  \<open>platform/universal/csv.ts\<close> and \<open>csv-read.ts\<close>: writing cells that no spreadsheet opens as a
  formula, RFC 4180 quoting, and the one-pass scan that bounds an upload. Texts are lists of UTF-16
  code units. \<open>@std/csv\<close>'s \<open>parse\<close> and the text decoders are parameters. The results: no cell a reader
  can split out of a written string opens with a formula; the whitespace cache changes nothing; the
  scan of a written file reports every row with every column.
\<close>

section \<open>Writing\<close>

text \<open>A cell value: a number or bigint with its \<open>String()\<close> text, or anything else as its text.\<close>

datatype CsvCellValue = Number (cellText: units) | Other (cellText: units)

text \<open>\<open>= + - @\<close> and their full-width forms.\<close>

definition FORMULA_LEAD_CHARS :: "nat list" where
  "FORMULA_LEAD_CHARS = [61, 43, 45, 64, 0xff1d, 0xff0b, 0xff0d, 0xff20]"

definition CELL_START_GUARD_CHARS :: "nat list" where
  "CELL_START_GUARD_CHARS = FORMULA_LEAD_CHARS @ [9, 13, 10]"

definition CELL_BOUNDARY_CHARS :: "nat list" where
  "CELL_BOUNDARY_CHARS = [44, 59, 9, 13, 10]"

definition whitespaceRunEnd :: "units \<Rightarrow> int \<Rightarrow> int \<times> int \<Rightarrow> (int \<times> int) \<times> int" where
  "whitespaceRunEnd field from cache =
     (if fst cache \<le> from \<and> from < snd cache then (cache, snd cache)
      else let e = from + int (length (takeWhile isSpace (drop (nat from) field))) in ((from, e), e))"

definition guardStep :: "units \<Rightarrow> units \<times> int \<times> int \<Rightarrow> nat \<Rightarrow> units \<times> int \<times> int" where
  "guardStep field acc index =
     (case acc of (guarded, cache) \<Rightarrow>
       let char = field ! index;
           atStart = (index = 0);
           afterBoundary = (index > 0 \<and> field ! (index - 1) \<in> set CELL_BOUNDARY_CHARS);
           (cache', opensCell) =
             (if atStart \<and> char \<in> set CELL_START_GUARD_CHARS then (cache, True)
              else if atStart \<or> afterBoundary then
                (let (cache', leadIndex) = whitespaceRunEnd field (int index) cache
                 in (cache', nat leadIndex < length field \<and> field ! nat leadIndex \<in> set FORMULA_LEAD_CHARS))
              else (cache, False))
       in (guarded @ (if opensCell then [39] else []) @ [char], cache'))"

definition guardFormulaInjection :: "units \<Rightarrow> units" where
  "guardFormulaInjection field = fst (foldl (guardStep field) ([], -1, -1) [0..<length field])"

definition needsQuoting :: "units \<Rightarrow> bool" where
  "needsQuoting s \<longleftrightarrow> list_ex (\<lambda>c. c \<in> {34, 44, 13, 10}) s"

definition doubleQuotes :: "units \<Rightarrow> units" where
  "doubleQuotes s = concat (map (\<lambda>c. if c = 34 then [34, 34] else [c]) s)"

definition csvField :: "CsvCellValue \<Rightarrow> units" where
  "csvField raw =
     (case raw of
        Number t \<Rightarrow> t
      | Other t \<Rightarrow> (let guarded = guardFormulaInjection t in
          if needsQuoting guarded then 34 # doubleQuotes guarded @ [34] else guarded))"

text \<open>
  A column: its header, the value it reads from a row (\<open>None\<close> for null or undefined), and an optional
  format.
\<close>

record 'row CsvColumn =
  header :: units
  valueOf :: "'row \<Rightarrow> CsvCellValue option"
  formatOf :: "(CsvCellValue option \<Rightarrow> 'row \<Rightarrow> CsvCellValue) option"

definition fieldValue :: "'row CsvColumn \<Rightarrow> 'row \<Rightarrow> CsvCellValue" where
  "fieldValue column row =
     (let v = valueOf column row in
      case formatOf column of
        Some fmt \<Rightarrow> fmt v row
      | None \<Rightarrow> (case v of None \<Rightarrow> Other [] | Some x \<Rightarrow> x))"

definition csvRow :: "'row CsvColumn list \<Rightarrow> 'row \<Rightarrow> units" where
  "csvRow columns row = joinUnits [44] (map (\<lambda>c. csvField (fieldValue c row)) columns)"

definition csvHeaderRow :: "'row CsvColumn list \<Rightarrow> units" where
  "csvHeaderRow columns = joinUnits [44] (map (\<lambda>c. csvField (Other (header c))) columns)"

definition LINE_ENDING :: units where "LINE_ENDING = [13, 10]"

definition toCsvText :: "'row CsvColumn list \<Rightarrow> 'row list \<Rightarrow> units" where
  "toCsvText columns rows =
     concat (map (\<lambda>line. line @ LINE_ENDING) (csvHeaderRow columns # map (csvRow columns) rows))"

section \<open>Scanning\<close>

record CsvLimits =
  maxRows :: nat
  maxFieldLength :: nat
  maxColumns :: nat

definition CSV_DEFAULT_LIMITS :: CsvLimits where
  "CSV_DEFAULT_LIMITS = \<lparr>maxRows = 100000, maxFieldLength = 10000, maxColumns = 1000\<rparr>"

definition SNIFF_CHARACTERS :: nat where "SNIFF_CHARACTERS = 65536"
definition SNIFF_RECORDS :: nat where "SNIFF_RECORDS = 50"
definition HEADER_ROWS :: nat where "HEADER_ROWS = 20"

definition SNIFF_LIMITS :: CsvLimits where
  "SNIFF_LIMITS = \<lparr>maxRows = nat MAX_SAFE_INTEGER, maxFieldLength = SNIFF_CHARACTERS,
     maxColumns = nat MAX_SAFE_INTEGER\<rparr>"

datatype CsvParseError = TooManyRows nat nat | FieldTooLong nat nat | TooManyColumns nat nat
  | UnclosedQuote nat | Malformed nat units

text \<open>The loop variables of \<open>scanCsv\<close>; \<open>quoteLine = 0\<close> is outside a quoted field.\<close>

record scan =
  line :: nat
  rows :: nat
  fieldCount :: nat
  fieldLength :: nat
  fieldLine :: nat
  recordLine :: nat
  recordStarted :: bool
  fieldStart :: bool
  quoteLine :: nat

definition scanStart :: scan where
  "scanStart = \<lparr>line = 1, rows = 0, fieldCount = 1, fieldLength = 0, fieldLine = 1, recordLine = 1,
     recordStarted = False, fieldStart = True, quoteLine = 0\<rparr>"

definition afterBreak :: "scan \<Rightarrow> scan" where
  "afterBreak st = st\<lparr>line := line st + 1, fieldCount := 1, fieldLength := 0, fieldLine := line st + 1,
     recordLine := line st + 1, recordStarted := False, fieldStart := True\<rparr>"

text \<open>
  The scan over the rest of the text from offset \<open>i\<close>. \<open>onRecord\<close> gets the field count, the record's
  line and the offset past it, with the state its closure keeps; \<open>False\<close> stops the scan.
\<close>

fun scanLoop :: "nat \<Rightarrow> CsvLimits \<Rightarrow> (nat \<Rightarrow> nat \<Rightarrow> nat \<Rightarrow> 's \<Rightarrow> 's \<times> bool) \<Rightarrow> units \<Rightarrow> nat \<Rightarrow> scan \<Rightarrow> 's \<Rightarrow>
    CsvParseError option \<times> 's" where
  "scanLoop delim limits onRecord [] i st s =
     (if quoteLine st > 0 then (Some (UnclosedQuote (quoteLine st)), s)
      else if recordStarted st then
        (if rows st + 1 > maxRows limits then (Some (TooManyRows (recordLine st) (maxRows limits)), s)
         else (None, fst (onRecord (fieldCount st) (recordLine st) i s)))
      else (None, s))"
| "scanLoop delim limits onRecord (c # cs) i st s =
     (let tooLong = Some (FieldTooLong (fieldLine st) (maxFieldLength limits)) in
      if quoteLine st > 0 then
        (if c = 34 \<and> take 1 cs \<noteq> [34] then scanLoop delim limits onRecord cs (i + 1) (st\<lparr>quoteLine := 0\<rparr>) s
         else let st1 = (if c \<noteq> 34 \<and> c = 10 then st\<lparr>line := line st + 1\<rparr> else st);
                  st2 = st1\<lparr>fieldLength := fieldLength st1 + 1\<rparr>
              in if fieldLength st2 > maxFieldLength limits then (tooLong, s)
                 else if c = 34 then scanLoop delim limits onRecord (tl cs) (i + 2) st2 s
                 else scanLoop delim limits onRecord cs (i + 1) st2 s)
      else if c = 10 \<or> (c = 13 \<and> take 1 cs = [10]) then
        (let rest = (if c = 13 then tl cs else cs); j = (if c = 13 then i + 2 else i + 1) in
         if recordStarted st then
           (if rows st + 1 > maxRows limits then (Some (TooManyRows (recordLine st) (maxRows limits)), s)
            else case onRecord (fieldCount st) (recordLine st) j s of
                (s', False) \<Rightarrow> (None, s')
              | (s', True) \<Rightarrow>
                  scanLoop delim limits onRecord rest j (afterBreak (st\<lparr>rows := rows st + 1\<rparr>)) s')
         else scanLoop delim limits onRecord rest j (afterBreak st) s)
      else let st1 = st\<lparr>recordStarted := True\<rparr> in
        if c = delim then
          (if fieldCount st1 + 1 > maxColumns limits
           then (Some (TooManyColumns (recordLine st1) (maxColumns limits)), s)
           else scanLoop delim limits onRecord cs (i + 1)
             (st1\<lparr>fieldCount := fieldCount st1 + 1, fieldLength := 0, fieldLine := line st1, fieldStart := True\<rparr>) s)
        else if c = 34 \<and> fieldStart st1 then
          scanLoop delim limits onRecord cs (i + 1) (st1\<lparr>quoteLine := line st1, fieldStart := False\<rparr>) s
        else if fieldLength st1 + 1 > maxFieldLength limits then (tooLong, s)
        else scanLoop delim limits onRecord cs (i + 1)
          (st1\<lparr>fieldLength := fieldLength st1 + 1, fieldStart := False\<rparr>) s)"

definition scanCsv :: "units \<Rightarrow> nat \<Rightarrow> CsvLimits \<Rightarrow> (nat \<Rightarrow> nat \<Rightarrow> nat \<Rightarrow> 's \<Rightarrow> 's \<times> bool) \<Rightarrow> 's \<Rightarrow>
    CsvParseError option \<times> 's" where
  "scanCsv text delim limits onRecord s = scanLoop delim limits onRecord text 0 scanStart s"

section \<open>Parsing an upload\<close>

definition dropBom :: "units \<Rightarrow> units" where
  "dropBom s = (if take 1 s = [0xfeff] then tl s else s)"

text \<open>One limit option: absent, or checked to be a positive whole number.\<close>

definition definedLimit :: "string \<Rightarrow> jsnum option \<Rightarrow> nat \<Rightarrow> js_error + nat" where
  "definedLimit key value dflt =
     (case value of
        None \<Rightarrow> Inr dflt
      | Some v \<Rightarrow>
          if \<not> js_isSafeInteger v \<or> js_floor v < 1
          then Inl (RangeErr (''csv '' @ key @ '' must be a whole number above zero''))
          else Inr (nat (js_floor v)))"

definition definedLimits :: "jsnum option \<Rightarrow> jsnum option \<Rightarrow> jsnum option \<Rightarrow> js_error + CsvLimits" where
  "definedLimits r f c =
     andThen (definedLimit ''maxRows'' r (maxRows CSV_DEFAULT_LIMITS)) (\<lambda>r'.
     andThen (definedLimit ''maxFieldLength'' f (maxFieldLength CSV_DEFAULT_LIMITS)) (\<lambda>f'.
     andThen (definedLimit ''maxColumns'' c (maxColumns CSV_DEFAULT_LIMITS)) (\<lambda>c'.
     Inr \<lparr>maxRows = r', maxFieldLength = f', maxColumns = c'\<rparr>)))"

text \<open>
  \<open>parseLib\<close> is \<open>@std/csv\<close>'s strict \<open>parse\<close>: rows, or an error with the line its message names (1
  when it names none) and the message.
\<close>

definition parseCsv :: "(units \<Rightarrow> nat \<Rightarrow> (nat \<times> units) + units list list) \<Rightarrow> units \<Rightarrow> units \<Rightarrow>
    jsnum option \<Rightarrow> jsnum option \<Rightarrow> jsnum option \<Rightarrow> js_error + (CsvParseError + units list list)" where
  "parseCsv parseLib text delimiter r f c =
     (if length delimiter \<noteq> 1 \<or> delimiter = [34] \<or> delimiter = [13] \<or> delimiter = [10]
      then Inl (RangeErr ''csv delimiter must be one character other than a quote or line break'')
      else andThen (definedLimits r f c) (\<lambda>checked.
        let inp = dropBom text in
        case fst (scanCsv inp (hd delimiter) checked (\<lambda>_ _ _ s. (s, True)) ()) of
          Some fault \<Rightarrow> Inr (Inl fault)
        | None \<Rightarrow> (case parseLib inp (hd delimiter) of
              Inr rs \<Rightarrow> Inr (Inr rs)
            | Inl (lineNo, message) \<Rightarrow> Inr (Inl (Malformed lineNo message)))))"

section \<open>Sniffing\<close>

definition CSV_DELIMITERS :: "nat list" where "CSV_DELIMITERS = [44, 59, 9, 124]"

record agreement =
  count :: nat
  agreeing :: nat
  records :: nat

text \<open>The tally is a \<open>Map\<close> in insertion order; the first most common count wins.\<close>

definition tallyCounts :: "nat list \<Rightarrow> (nat, nat) jsmap" where
  "tallyCounts counts = foldl (\<lambda>m c. jm_set c (orElse (jm_get m c) 0 + 1) m) [] counts"

definition bestCount :: "nat \<Rightarrow> (nat, nat) jsmap \<Rightarrow> agreement" where
  "bestCount n tally =
     foldl (\<lambda>best (c, a). if a > agreeing best then \<lparr>count = c, agreeing = a, records = n\<rparr> else best)
       \<lparr>count = 0, agreeing = 0, records = n\<rparr> tally"

definition fieldCountAgreement :: "units \<Rightarrow> nat \<Rightarrow> agreement" where
  "fieldCountAgreement text delim =
     (let counts = snd (scanCsv text delim SNIFF_LIMITS
            (\<lambda>fs _ _ cs. (cs @ [fs], length (cs @ [fs]) < SNIFF_RECORDS)) [])
      in bestCount (length counts) (tallyCounts counts))"

definition ranksBefore :: "nat \<times> agreement \<Rightarrow> nat \<times> agreement \<Rightarrow> bool" where
  "ranksBefore a b \<longleftrightarrow>
     agreeing (snd a) > agreeing (snd b) \<or> (agreeing (snd a) = agreeing (snd b) \<and>
       count (snd a) \<ge> count (snd b))"

text \<open>The sort is stable, so equal ranks keep the order of \<open>CSV_DELIMITERS\<close>.\<close>

fun insertRanked :: "nat \<times> agreement \<Rightarrow> (nat \<times> agreement) list \<Rightarrow> (nat \<times> agreement) list" where
  "insertRanked x [] = [x]"
| "insertRanked x (y # ys) = (if ranksBefore x y then x # y # ys else y # insertRanked x ys)"

definition sniffDelimiters :: "units \<Rightarrow> nat list" where
  "sniffDelimiters sample =
     (let text = dropBom (take SNIFF_CHARACTERS sample);
          candidates = filter (\<lambda>(d, a). count a \<ge> 2 \<and> agreeing a * 2 > records a)
            (map (\<lambda>d. (d, fieldCountAgreement text d)) CSV_DELIMITERS);
          ranked = foldr insertRanked candidates []
      in if ranked \<noteq> [] then map fst ranked else [44])"


definition isWordU :: "nat \<Rightarrow> bool" where
  "isWordU c \<longleftrightarrow> isDigitU c \<or> (65 \<le> c \<and> c \<le> 90) \<or> (97 \<le> c \<and> c \<le> 122) \<or> c = 95"

text \<open>The two expressions of \<open>looksLikeValue\<close>; each group is a longest run, as what follows it differs.\<close>

definition looksLikeDate :: "units \<Rightarrow> bool" where
  "looksLikeDate v =
     (let a = takeWhile isDigitU v; r1 = drop (length a) v;
          b = takeWhile isDigitU (tl r1); r2 = drop (length b) (tl r1);
          c = takeWhile isDigitU (tl r2); r3 = drop (length c) (tl r2)
      in 1 \<le> length a \<and> length a \<le> 4 \<and> r1 \<noteq> [] \<and> hd r1 \<in> {46, 47, 45} \<and>
         1 \<le> length b \<and> length b \<le> 2 \<and> r2 \<noteq> [] \<and> hd r2 \<in> {46, 47, 45} \<and>
         1 \<le> length c \<and> length c \<le> 4 \<and> (r3 = [] \<or> \<not> isWordU (hd r3)))"

definition looksLikeNumber :: "units \<Rightarrow> bool" where
  "looksLikeNumber v =
     (let v1 = (if v \<noteq> [] \<and> hd v \<in> {45, 43, 0x2212, 40} then tl v else v);
          v2 = dropWhile isSpace v1;
          v3 = dropWhile (\<lambda>c. isDigitU c \<or> c \<in> {46, 44, 39, 0x2019, 32, 160, 0x202f}) (tl v2);
          v4 = (if take 1 v3 = [41] then tl v3 else v3);
          v5 = (if take 1 v4 = [45] then tl v4 else v4)
      in v2 \<noteq> [] \<and> isDigitU (hd v2) \<and> v5 = [])"

definition looksLikeValue :: "units \<Rightarrow> bool" where
  "looksLikeValue cell = (let v = trimUnits cell in looksLikeDate v \<or> looksLikeNumber v)"

text \<open>\<open>lazyParse\<close> is \<open>parse\<close> with lazy quotes; \<open>None\<close> when it throws.\<close>

definition hasHeader :: "(units \<Rightarrow> nat \<Rightarrow> units list list option) \<Rightarrow> units \<Rightarrow> nat \<Rightarrow> bool" where
  "hasHeader lazyParse text delim =
     (let (e, _) = snd (scanCsv text delim SNIFF_LIMITS
            (\<lambda>_ _ recordEnd (e, seen). ((recordEnd, seen + 1), seen + 1 \<le> HEADER_ROWS)) (length text, 0))
      in case lazyParse (take e text) delim of
           Some (first # below) \<Rightarrow>
             below \<noteq> [] \<and> \<not> list_ex looksLikeValue first \<and>
             list_ex (\<lambda>column. trimUnits (first ! column) \<noteq> [] \<and>
               length (filter (\<lambda>row. looksLikeValue (if column < length row then row ! column else [])) below)
                 * 2 > length below) [0..<length first]
         | _ \<Rightarrow> False)"

record CsvSniff =
  delimiter :: nat
  delimiters :: "nat list"
  sniffHeader :: bool

definition sniffCsv :: "(units \<Rightarrow> nat \<Rightarrow> units list list option) \<Rightarrow> units \<Rightarrow> CsvSniff" where
  "sniffCsv lazyParse sample =
     (let text = dropBom (take SNIFF_CHARACTERS sample); ds = sniffDelimiters sample
      in \<lparr>delimiter = hd ds, delimiters = ds, sniffHeader = hasHeader lazyParse text (hd ds)\<rparr>)"

section \<open>Decoding\<close>

datatype TextFileEncoding = Utf8 | Utf16le | Utf16be | Windows1252 | Windows1251 | Windows1250
  | Iso8859_2 | Koi8r | Ibm866

definition SINGLE_BYTE_ENCODINGS :: "TextFileEncoding list" where
  "SINGLE_BYTE_ENCODINGS = [Windows1252, Windows1251, Windows1250, Iso8859_2, Koi8r, Ibm866]"

record DecodedTextFile =
  dText :: units
  dEncoding :: TextFileEncoding
  dCandidates :: "TextFileEncoding list"

definition byteOrderMark :: "nat list \<Rightarrow> TextFileEncoding option" where
  "byteOrderMark bytes =
     (if take 3 bytes = [0xef, 0xbb, 0xbf] then Some Utf8
      else if take 2 bytes = [0xff, 0xfe] then Some Utf16le
      else if take 2 bytes = [0xfe, 0xff] then Some Utf16be
      else None)"

text \<open>\<open>decoder\<close> and \<open>strictUtf8\<close> are the platform's \<open>TextDecoder\<close>, the second one fatal.\<close>

definition decodeTextFile ::
  "(TextFileEncoding \<Rightarrow> nat list \<Rightarrow> units) \<Rightarrow> (nat list \<Rightarrow> units option) \<Rightarrow> nat list \<Rightarrow>
   TextFileEncoding option \<Rightarrow> DecodedTextFile" where
  "decodeTextFile decoder strictUtf8 bytes fallback =
     (case byteOrderMark bytes of
        Some bom \<Rightarrow> \<lparr>dText = decoder bom bytes, dEncoding = bom, dCandidates = []\<rparr>
      | None \<Rightarrow> (case strictUtf8 bytes of
            Some text \<Rightarrow> \<lparr>dText = text, dEncoding = Utf8, dCandidates = []\<rparr>
          | None \<Rightarrow> (let fb = orElse fallback Windows1252 in
              \<lparr>dText = decoder fb bytes, dEncoding = fb,
               dCandidates = filter (\<lambda>e. e \<noteq> fb) SINGLE_BYTE_ENCODINGS\<rparr>)))"

section \<open>The whitespace cache\<close>

definition runEnd :: "units \<Rightarrow> nat \<Rightarrow> nat" where
  "runEnd field i = i + length (takeWhile isSpace (drop i field))"

definition cacheOk :: "units \<Rightarrow> int \<times> int \<Rightarrow> bool" where
  "cacheOk field cache \<longleftrightarrow>
     (\<forall>i :: nat. fst cache \<le> int i \<and> int i < snd cache \<longrightarrow> int (runEnd field i) = snd cache)"

lemma runEnd_step: "i < length field \<Longrightarrow> isSpace (field ! i) \<Longrightarrow> runEnd field (Suc i) = runEnd field i"
  by (simp add: runEnd_def Cons_nth_drop_Suc [symmetric])

lemma runEnd_stop: "i < length field \<Longrightarrow> \<not> isSpace (field ! i) \<Longrightarrow> runEnd field i = i"
  by (simp add: runEnd_def Cons_nth_drop_Suc [symmetric])

lemma runEnd_inside: "i \<le> j \<Longrightarrow> j < runEnd field i \<Longrightarrow> runEnd field j = runEnd field i"
proof (induction "j - i" arbitrary: i)
  case (Suc n)
  have ij: "i < j" "j < runEnd field i" using Suc.hyps(2) Suc.prems by simp_all
  have len: "i < length field"
  proof (rule ccontr)
    assume "\<not> i < length field"
    then have "runEnd field i = i" by (simp add: runEnd_def)
    then show False using ij by simp
  qed
  have "isSpace (field ! i)" using ij runEnd_stop [OF len] by fastforce
  with len have "runEnd field (Suc i) = runEnd field i" by (rule runEnd_step)
  then show ?case using Suc.hyps(1) [of "Suc i"] Suc.hyps(2) Suc.prems by simp
qed simp

lemma whitespaceRunEnd_ok:
  assumes "cacheOk field cache" "whitespaceRunEnd field (int i) cache = (cache', e)"
  shows "cacheOk field cache' \<and> e = int (runEnd field i)"
proof (cases "fst cache \<le> int i \<and> int i < snd cache")
  case True
  then show ?thesis using assms by (auto simp: whitespaceRunEnd_def cacheOk_def)
next
  case False
  then have new: "cache' = (int i, int (runEnd field i))" "e = int (runEnd field i)"
    using assms(2) by (auto simp: whitespaceRunEnd_def runEnd_def Let_def split: if_splits)
  have "int (runEnd field j) = int (runEnd field i)" if "int i \<le> int j" "int j < int (runEnd field i)" for j
    using that by (simp only: of_nat_eq_iff) (rule runEnd_inside, simp_all)
  then show ?thesis unfolding cacheOk_def new fst_conv snd_conv by blast
qed

text \<open>Whether a text opens with a formula once leading whitespace is skipped.\<close>

definition startsFormula :: "units \<Rightarrow> bool" where
  "startsFormula s = (case dropWhile isSpace s of [] \<Rightarrow> False | c # _ \<Rightarrow> c \<in> set FORMULA_LEAD_CHARS)"

lemma startsFormula_runEnd:
  "i \<le> length field \<Longrightarrow>
   (runEnd field i < length field \<and> field ! runEnd field i \<in> set FORMULA_LEAD_CHARS) = startsFormula (drop i field)"
proof -
  assume i: "i \<le> length field"
  have "dropWhile isSpace (drop i field) = drop (runEnd field i) field"
    by (simp add: runEnd_def dropWhile_eq_drop add.commute)
  then have "startsFormula (drop i field) = (case drop (runEnd field i) field of [] \<Rightarrow> False | c # _ \<Rightarrow> c \<in> set FORMULA_LEAD_CHARS)"
    by (simp add: startsFormula_def)
  then show ?thesis
    by (cases "runEnd field i < length field") (simp_all add: Cons_nth_drop_Suc [symmetric])
qed

text \<open>The guard without a cache, by recursion: \<open>first\<close> at the start, \<open>opens\<close> where a cell may open.\<close>

fun guardRec :: "bool \<Rightarrow> bool \<Rightarrow> units \<Rightarrow> units" where
  "guardRec first opens [] = []"
| "guardRec first opens (c # cs) =
     (if first \<and> c \<in> set CELL_START_GUARD_CHARS \<or> opens \<and> startsFormula (c # cs) then [39] else []) @
     c # guardRec False (c \<in> set CELL_BOUNDARY_CHARS) cs"

lemma guardStep_rec:
  assumes "cacheOk field cache" "i < length field"
  shows "\<exists>cache'. cacheOk field cache' \<and> guardStep field (acc, cache) i =
    (acc @ (if i = 0 \<and> field ! i \<in> set CELL_START_GUARD_CHARS \<or>
              (i = 0 \<or> field ! (i - 1) \<in> set CELL_BOUNDARY_CHARS) \<and> startsFormula (drop i field)
            then [39] else []) @ [field ! i], cache')"
proof -
  obtain cache' e where run: "whitespaceRunEnd field (int i) cache = (cache', e)"
    by (cases "whitespaceRunEnd field (int i) cache")
  note ok = whitespaceRunEnd_ok [OF assms(1) run]
  have "(nat e < length field \<and> field ! nat e \<in> set FORMULA_LEAD_CHARS) = startsFormula (drop i field)"
    using startsFormula_runEnd [of i field] assms(2) ok by simp
  then have lead: "(nat e < length field \<and> field ! nat e \<in> set FORMULA_LEAD_CHARS) \<longleftrightarrow> startsFormula (drop i field)" .
  consider (start) "i = 0" "field ! i \<in> set CELL_START_GUARD_CHARS"
    | (opens) "\<not> (i = 0 \<and> field ! i \<in> set CELL_START_GUARD_CHARS)" "i = 0 \<or> field ! (i - 1) \<in> set CELL_BOUNDARY_CHARS"
    | (inside) "i > 0" "field ! (i - 1) \<notin> set CELL_BOUNDARY_CHARS" by blast
  then show ?thesis
  proof cases
    case start
    then show ?thesis using assms(1) by (intro exI [of _ cache]) (simp add: guardStep_def)
  next
    case opens
    have "guardStep field (acc, cache) i =
        (acc @ (if startsFormula (drop i field) then [39] else []) @ [field ! i], cache')"
      using opens run lead by (cases "i = 0") (simp_all add: guardStep_def Let_def)
    then show ?thesis using ok opens by (intro exI [of _ cache']) simp
  next
    case inside
    then show ?thesis using assms(1) by (intro exI [of _ cache]) (simp add: guardStep_def)
  qed
qed

lemma guard_fold:
  assumes "cacheOk field cache" "i \<le> length field"
  shows "fst (foldl (guardStep field) (acc, cache) [i..<length field]) =
    acc @ guardRec (i = 0) (i = 0 \<or> field ! (i - 1) \<in> set CELL_BOUNDARY_CHARS) (drop i field)"
  using assms
proof (induction "length field - i" arbitrary: i acc cache)
  case (Suc n)
  then have i: "i < length field" by simp
  obtain cache' where step: "cacheOk field cache'" "guardStep field (acc, cache) i =
      (acc @ (if i = 0 \<and> field ! i \<in> set CELL_START_GUARD_CHARS \<or>
                (i = 0 \<or> field ! (i - 1) \<in> set CELL_BOUNDARY_CHARS) \<and> startsFormula (drop i field)
              then [39] else []) @ [field ! i], cache')"
    using guardStep_rec [OF Suc.prems(1) i] by blast
  have "[i..<length field] = i # [Suc i..<length field]" using i by (simp add: upt_conv_Cons)
  moreover have "drop i field = field ! i # drop (Suc i) field" using i by (simp add: Cons_nth_drop_Suc)
  ultimately show ?case using Suc.hyps(1) [of "Suc i"] Suc.hyps(2) step i by simp
qed simp

lemma guard_rec: "guardFormulaInjection field = guardRec True True field"
  using guard_fold [of field "(-1, -1)" 0 "[]"] by (simp add: guardFormulaInjection_def cacheOk_def)

section \<open>No cell opens a formula\<close>

text \<open>
  Every text a reader can take for a cell's content up to its end: the whole cell, and what follows
  a separator or line break inside it.
\<close>

fun tailsAfterBoundary :: "units \<Rightarrow> units list" where
  "tailsAfterBoundary [] = []"
| "tailsAfterBoundary (c # cs) =
     (if c \<in> set CELL_BOUNDARY_CHARS then cs # tailsAfterBoundary cs else tailsAfterBoundary cs)"

lemma quote_plain: "\<not> isSpace 39" "39 \<notin> set FORMULA_LEAD_CHARS" "39 \<notin> set CELL_BOUNDARY_CHARS"
  "39 \<notin> set CELL_START_GUARD_CHARS"
  by (simp_all add: isSpace_def FORMULA_LEAD_CHARS_def CELL_BOUNDARY_CHARS_def CELL_START_GUARD_CHARS_def)

lemma startsFormula_quote [simp]: "\<not> startsFormula (39 # s)" "\<not> startsFormula []"
  using quote_plain by (simp_all add: startsFormula_def)

lemma startsFormula_Cons: "startsFormula (c # s) = (if isSpace c then startsFormula s else c \<in> set FORMULA_LEAD_CHARS)"
  by (simp add: startsFormula_def)

lemma guardRec_keeps_safe: "\<not> startsFormula cs \<Longrightarrow> \<not> startsFormula (guardRec f b cs)"
  by (induction f b cs rule: guardRec.induct) (auto simp: startsFormula_Cons quote_plain)

lemma guardRec_opens_safe: "\<not> startsFormula (guardRec f True cs)"
  using guardRec_keeps_safe [of cs f True] by (cases cs) auto

lemma guardRec_tails_safe: "t \<in> set (tailsAfterBoundary (guardRec f b cs)) \<Longrightarrow> \<not> startsFormula t"
proof (induction f b cs arbitrary: t rule: guardRec.induct)
  case (2 f b c cs)
  let ?g = "guardRec False (c \<in> set CELL_BOUNDARY_CHARS) cs"
  have "tailsAfterBoundary (39 # x) = tailsAfterBoundary x" for x using quote_plain by simp
  then have "tailsAfterBoundary (guardRec f b (c # cs)) = tailsAfterBoundary (c # ?g)"
    by (simp del: tailsAfterBoundary.simps)
  then have "t \<in> set (tailsAfterBoundary ?g) \<or> c \<in> set CELL_BOUNDARY_CHARS \<and> t = ?g"
    using 2(2) by (auto split: if_splits)
  then show ?case using 2(1) guardRec_opens_safe [of False cs] by auto
qed simp

text \<open>
  C10: CSV injection. Whatever text a cell holds, the guarded text opens no formula in any reader: not
  at its start, and not after any comma, semicolon, tab or line break inside it, leading whitespace
  skipped; and it never starts with a tab or line break either. The cached whitespace search changes
  nothing.
\<close>
theorem guard_no_formula:
  "\<not> startsFormula (guardFormulaInjection field) \<and>
   list_all (\<lambda>t. \<not> startsFormula t) (tailsAfterBoundary (guardFormulaInjection field)) \<and>
   list_all (\<lambda>c. c \<notin> set CELL_START_GUARD_CHARS) (take 1 (guardFormulaInjection field))"
proof -
  have "list_all (\<lambda>c. c \<notin> set CELL_START_GUARD_CHARS) (take 1 (guardRec True True field))"
    using quote_plain by (cases field) auto
  then show ?thesis
    using guardRec_opens_safe [of True field] guardRec_tails_safe [of _ True True field]
    by (auto simp: guard_rec list_all_iff)
qed

section \<open>The scan of a written file\<close>

definition collect :: "nat \<Rightarrow> nat \<Rightarrow> nat \<Rightarrow> nat list \<Rightarrow> nat list \<times> bool" where
  "collect fs l e cs = (cs @ [fs], True)"

text \<open>A written cell, and the scan inside and after it.\<close>

definition plainCell :: "units \<Rightarrow> bool" where
  "plainCell s \<longleftrightarrow> (\<forall>c \<in> set s. c \<notin> {34, 44, 13, 10})"

lemma scan_plain:
  assumes "plainCell s" "quoteLine st = 0" "fieldLength st + length s \<le> maxFieldLength L" "s \<noteq> []"
  shows "scanLoop 44 L f (s @ rest) i st x =
    scanLoop 44 L f rest (i + length s) (st\<lparr>recordStarted := True, fieldLength := fieldLength st + length s,
      fieldStart := False\<rparr>) x"
  using assms
proof (induction s arbitrary: i st)
  case (Cons c s)
  have c: "c \<noteq> 34" "c \<noteq> 44" "c \<noteq> 13" "c \<noteq> 10" using Cons.prems(1) by (auto simp: plainCell_def)
  let ?st1 = "st\<lparr>recordStarted := True, fieldLength := fieldLength st + 1, fieldStart := False\<rparr>"
  have step: "scanLoop 44 L f ((c # s) @ rest) i st x = scanLoop 44 L f (s @ rest) (i + 1) ?st1 x"
    using c Cons.prems(2,3) by simp
  show ?case
  proof (cases "s = []")
    case True
    then show ?thesis unfolding step by (cases st) simp
  next
    case False
    have "scanLoop 44 L f (s @ rest) (i + 1) ?st1 x =
      scanLoop 44 L f rest (i + 1 + length s) (?st1\<lparr>recordStarted := True, fieldLength := fieldLength ?st1 + length s,
        fieldStart := False\<rparr>) x"
      using Cons.prems False by (intro Cons.IH) (auto simp: plainCell_def)
    then show ?thesis unfolding step by (cases st) simp
  qed
qed simp

definition breaks :: "units \<Rightarrow> nat" where
  "breaks s = length (filter (\<lambda>c. c = 10) s)"

lemma scan_quoted_body:
  assumes "quoteLine st > 0" "fieldLength st + length s \<le> maxFieldLength L" "take 1 rest \<noteq> [34]"
  shows "scanLoop 44 L f (doubleQuotes s @ 34 # rest) i st x =
    scanLoop 44 L f rest (i + length (doubleQuotes s) + 1) (st\<lparr>line := line st + breaks s,
      fieldLength := fieldLength st + length s, quoteLine := 0\<rparr>) x"
  using assms
proof (induction s arbitrary: i st)
  case Nil
  then show ?case by (simp add: doubleQuotes_def breaks_def)
next
  case (Cons c s)
  let ?st1 = "st\<lparr>line := line st + (if c = 10 then 1 else 0), fieldLength := fieldLength st + 1\<rparr>"
  let ?k = "if c = 34 then 2 else 1"
  have step: "scanLoop 44 L f (doubleQuotes (c # s) @ 34 # rest) i st x =
      scanLoop 44 L f (doubleQuotes s @ 34 # rest) (i + ?k) ?st1 x"
    using Cons.prems by (simp add: doubleQuotes_def)
  have "scanLoop 44 L f (doubleQuotes s @ 34 # rest) (i + ?k) ?st1 x =
      scanLoop 44 L f rest (i + ?k + length (doubleQuotes s) + 1) (?st1\<lparr>line := line ?st1 + breaks s,
        fieldLength := fieldLength ?st1 + length s, quoteLine := 0\<rparr>) x"
    using Cons.prems by (intro Cons.IH) simp_all
  then show ?case unfolding step by (cases st) (simp add: doubleQuotes_def breaks_def)
qed

definition writtenText :: "CsvCellValue \<Rightarrow> units" where
  "writtenText v = (case v of Number t \<Rightarrow> t | Other t \<Rightarrow> guardFormulaInjection t)"

text \<open>A cell the reader's limit takes; the text of a number has no separator, quote or break.\<close>

definition cellFits :: "CsvLimits \<Rightarrow> CsvCellValue \<Rightarrow> bool" where
  "cellFits L v \<longleftrightarrow> length (writtenText v) \<le> maxFieldLength L \<and>
     (case v of Number t \<Rightarrow> plainCell t | Other _ \<Rightarrow> True)"

definition atField :: "scan \<Rightarrow> bool" where
  "atField st \<longleftrightarrow> quoteLine st = 0 \<and> fieldStart st \<and> fieldLength st = 0 \<and> 0 < line st"

definition keeps :: "scan \<Rightarrow> scan \<Rightarrow> bool" where
  "keeps st st' \<longleftrightarrow> rows st' = rows st \<and> quoteLine st' = 0 \<and> 0 < line st' \<and> (recordStarted st \<longrightarrow> recordStarted st')"

lemma scan_cell:
  assumes "atField st" "cellFits L v" "take 1 rest \<noteq> [34]"
  shows "\<exists>j st'. scanLoop 44 L f (csvField v @ rest) i st x = scanLoop 44 L f rest j st' x \<and>
    keeps st st' \<and> fieldCount st' = fieldCount st"
proof -
  let ?w = "writtenText v"
  have len: "length ?w \<le> maxFieldLength L" using assms(2) by (simp add: cellFits_def)
  consider (empty) "csvField v = []" | (plain) "csvField v = ?w" "plainCell ?w" "?w \<noteq> []"
    | (quoted) "csvField v = 34 # doubleQuotes ?w @ [34]"
  proof (cases v)
    case (Number t)
    then show ?thesis using assms(2) that(1,2) by (cases "t = []") (auto simp: csvField_def writtenText_def cellFits_def)
  next
    case (Other t)
    then have w: "?w = guardFormulaInjection t" by (simp add: writtenText_def)
    show ?thesis
    proof (cases "needsQuoting ?w")
      case True
      then show ?thesis using that(3) Other w by (simp add: csvField_def)
    next
      case False
      then have "plainCell ?w" by (auto simp: needsQuoting_def plainCell_def list_ex_iff)
      then show ?thesis using that(1,2) Other w False by (cases "?w = []") (auto simp: csvField_def)
    qed
  qed
  then show ?thesis
  proof cases
    case empty
    then show ?thesis using assms(1) by (intro exI [of _ i] exI [of _ st]) (simp add: keeps_def atField_def)
  next
    case plain
    then have "scanLoop 44 L f (csvField v @ rest) i st x =
        scanLoop 44 L f rest (i + length ?w) (st\<lparr>recordStarted := True, fieldLength := fieldLength st + length ?w,
          fieldStart := False\<rparr>) x"
      using assms(1) len by (simp add: scan_plain atField_def)
    then show ?thesis using assms(1) by (fastforce simp: keeps_def atField_def)
  next
    case quoted
    let ?st1 = "st\<lparr>recordStarted := True, quoteLine := line st, fieldStart := False\<rparr>"
    have "scanLoop 44 L f (csvField v @ rest) i st x = scanLoop 44 L f (doubleQuotes ?w @ 34 # rest) (i + 1) ?st1 x"
      using assms(1) quoted by (simp add: atField_def)
    also have "\<dots> = scanLoop 44 L f rest (i + 1 + length (doubleQuotes ?w) + 1) (?st1\<lparr>line := line ?st1 + breaks ?w,
        fieldLength := fieldLength ?st1 + length ?w, quoteLine := 0\<rparr>) x"
      using assms(1,3) len by (intro scan_quoted_body) (simp_all add: atField_def)
    finally show ?thesis using assms(1) by (fastforce simp: keeps_def atField_def)
  qed
qed

lemma scan_comma:
  assumes "quoteLine st = 0" "0 < line st" "fieldCount st + 1 \<le> maxColumns L"
  shows "\<exists>st'. scanLoop 44 L f (44 # rest) i st x = scanLoop 44 L f rest (i + 1) st' x \<and>
    keeps st st' \<and> atField st' \<and> recordStarted st' \<and> fieldCount st' = fieldCount st + 1"
  using assms by (fastforce simp: keeps_def atField_def)

lemma scan_cells:
  assumes "vs \<noteq> []" "atField st" "\<forall>v \<in> set vs. cellFits L v" "fieldCount st + length vs - 1 \<le> maxColumns L"
    and "rest = 13 # r"
  shows "\<exists>j st'. scanLoop 44 L f (joinUnits [44] (map csvField vs) @ rest) i st x = scanLoop 44 L f rest j st' x \<and>
    keeps st st' \<and> fieldCount st' = fieldCount st + length vs - 1 \<and> (2 \<le> length vs \<longrightarrow> recordStarted st')"
  using assms(1-4)
proof (induction vs arbitrary: i st rule: induct_list012)
  case (2 v)
  then show ?case using scan_cell [of st L v rest f i x] assms(5) by auto
next
  case (3 v w vs)
  let ?more = "joinUnits [44] (map csvField (w # vs)) @ rest"
  obtain j st1 where a: "scanLoop 44 L f (csvField v @ 44 # ?more) i st x = scanLoop 44 L f (44 # ?more) j st1 x"
    "keeps st st1" "fieldCount st1 = fieldCount st"
    using scan_cell [of st L v "44 # ?more" f i x] 3 by auto
  obtain st2 where b: "scanLoop 44 L f (44 # ?more) j st1 x = scanLoop 44 L f ?more (j + 1) st2 x"
    "keeps st1 st2" "atField st2" "recordStarted st2" "fieldCount st2 = fieldCount st1 + 1"
    using scan_comma [of st1 L f ?more j x] a 3 by (auto simp: keeps_def)
  obtain k st3 where c: "scanLoop 44 L f ?more (j + 1) st2 x = scanLoop 44 L f rest k st3 x"
    "keeps st2 st3" "fieldCount st3 = fieldCount st2 + length (w # vs) - 1"
    using "3.IH"(2) [of st2 "j + 1"] "3.prems" a b by auto
  have "scanLoop 44 L f (joinUnits [44] (map csvField (v # w # vs)) @ rest) i st x = scanLoop 44 L f rest k st3 x"
    using a(1) b(1) c(1) by simp
  moreover have "keeps st st3" "recordStarted st3" using a(2) b(2,4) c(2) by (auto simp: keeps_def)
  ultimately show ?case using a(3) b(5) c(3) by fastforce
qed simp

definition rowText :: "CsvCellValue list \<Rightarrow> units" where
  "rowText vs = joinUnits [44] (map csvField vs) @ LINE_ENDING"

lemma scan_row:
  assumes "2 \<le> length vs" "atField st" "\<not> recordStarted st" "fieldCount st = 1"
    "\<forall>v \<in> set vs. cellFits L v" "length vs \<le> maxColumns L" "rows st + 1 \<le> maxRows L"
  shows "\<exists>j st'. scanLoop 44 L collect (rowText vs @ rest) i st x = scanLoop 44 L collect rest j st' (x @ [length vs]) \<and>
    atField st' \<and> \<not> recordStarted st' \<and> fieldCount st' = 1 \<and> rows st' = rows st + 1"
proof -
  obtain j st1 where a: "scanLoop 44 L collect (joinUnits [44] (map csvField vs) @ 13 # 10 # rest) i st x =
      scanLoop 44 L collect (13 # 10 # rest) j st1 x"
    "keeps st st1" "fieldCount st1 = length vs" "recordStarted st1"
    using scan_cells [of vs st L "13 # 10 # rest" "10 # rest" collect i x] assms by fastforce
  have "scanLoop 44 L collect (13 # 10 # rest) j st1 x =
      scanLoop 44 L collect rest (j + 2) (afterBreak (st1\<lparr>rows := rows st1 + 1\<rparr>)) (x @ [length vs])"
    using a(2-4) assms(7) by (simp add: keeps_def collect_def)
  moreover have "atField (afterBreak (st1\<lparr>rows := rows st1 + 1\<rparr>)) \<and> \<not> recordStarted (afterBreak (st1\<lparr>rows := rows st1 + 1\<rparr>)) \<and>
      fieldCount (afterBreak (st1\<lparr>rows := rows st1 + 1\<rparr>)) = 1 \<and> rows (afterBreak (st1\<lparr>rows := rows st1 + 1\<rparr>)) = rows st + 1"
    using a(2) by (simp add: afterBreak_def atField_def keeps_def)
  ultimately show ?thesis using a(1) by (auto simp: rowText_def LINE_ENDING_def)
qed

lemma scan_rows:
  assumes "\<forall>vs \<in> set vss. length vs = n \<and> (\<forall>v \<in> set vs. cellFits L v)" "2 \<le> n" "n \<le> maxColumns L"
    "rows st + length vss \<le> maxRows L" "atField st" "\<not> recordStarted st" "fieldCount st = 1"
  shows "scanLoop 44 L collect (concat (map rowText vss)) i st x = (None, x @ replicate (length vss) n)"
  using assms
proof (induction vss arbitrary: i st x)
  case Nil
  then show ?case by (simp add: atField_def)
next
  case (Cons vs vss)
  obtain j st' where "scanLoop 44 L collect (rowText vs @ concat (map rowText vss)) i st x =
      scanLoop 44 L collect (concat (map rowText vss)) j st' (x @ [n])"
    "atField st'" "\<not> recordStarted st'" "fieldCount st' = 1" "rows st' = rows st + 1"
    using scan_row [of vs st L "concat (map rowText vss)" i x] Cons.prems by auto
  then show ?case using Cons.IH [of st' j "x @ [n]"] Cons.prems by simp
qed

lemma toCsvText_rows:
  "toCsvText columns rs = concat (map rowText (map (Other \<circ> header) columns # map (\<lambda>r. map (\<lambda>c. fieldValue c r) columns) rs))"
  by (simp add: toCsvText_def csvHeaderRow_def csvRow_def rowText_def comp_def)

text \<open>
  C11: What the writer writes, the reader's scan sees: for a file of at least two columns within the
  limits, the scan of \<open>toCsvText\<close> reports no fault and exactly one record per row after the header,
  each with every column, whatever separators, quotes and line breaks the texts hold.
\<close>
theorem scan_written_csv:
  assumes "2 \<le> length columns" "length columns \<le> maxColumns L" "length rs + 1 \<le> maxRows L"
    and "\<forall>c \<in> set columns. cellFits L (Other (header c)) \<and> (\<forall>r \<in> set rs. cellFits L (fieldValue c r))"
  shows "scanCsv (toCsvText columns rs) 44 L collect [] = (None, replicate (length rs + 1) (length columns))"
  unfolding scanCsv_def toCsvText_rows
  using assms scan_rows [of "map (Other \<circ> header) columns # map (\<lambda>r. map (\<lambda>c. fieldValue c r) columns) rs"
      "length columns" L scanStart 0 "[]"]
  by (simp add: scanStart_def atField_def)

theorem scan_written_csv_witness:
  "scanCsv (toCsvText [\<lparr>header = u ''name'', valueOf = (\<lambda>r. Some (Other (u (fst r)))), formatOf = None\<rparr>,
                       \<lparr>header = u ''n'', valueOf = (\<lambda>r. Some (Number (u (snd r)))), formatOf = None\<rparr>]
             [(''=a, b'', ''-5''), (''x'', ''7'')]) 44 CSV_DEFAULT_LIMITS collect [] = (None, [2, 2, 2])"
proof -
  let ?cs = "[\<lparr>header = u ''name'', valueOf = (\<lambda>r. Some (Other (u (fst r)))), formatOf = None\<rparr>,
              \<lparr>header = u ''n'', valueOf = (\<lambda>r. Some (Number (u (snd r)))), formatOf = None\<rparr>]"
  have len: "length (guardRec f b s) \<le> 2 * length s" for f b s by (induction f b s rule: guardRec.induct) auto
  have "cellFits CSV_DEFAULT_LIMITS (Other s)" if "length s \<le> 100" for s
    using len [of True True s] that by (simp add: cellFits_def writtenText_def guard_rec CSV_DEFAULT_LIMITS_def)
  then show ?thesis
    using scan_written_csv [of ?cs CSV_DEFAULT_LIMITS "[(''=a, b'', ''-5''), (''x'', ''7'')]"]
    by (simp add: fieldValue_def u_def CSV_DEFAULT_LIMITS_def cellFits_def writtenText_def plainCell_def code_def
        numeral_2_eq_2 numeral_3_eq_3)
qed

end
