(* ===== verification/Money.thy ===== *)
theory Money
  imports Units
begin

text \<open>
  \<open>platform/universal/money-core.ts\<close> and the table of \<open>money-currencies.ts\<close>: amounts as whole numbers of
  a currency's smallest unit. This theory holds the decimals of a currency, the exact decimal text of
  an amount, the readers of typed text (\<open>parseMoney\<close>) and of file columns (\<open>parseAmount\<close>), sums and
  splits. Texts are UTF-16 code units. What \<open>Intl\<close> answers for a locale is a parameter (\<open>intl\<close>). A
  thrown error carries the constant part of its message. The results: a written amount reads back; a
  column amount is accepted exactly when it is a whole number of the smallest unit in the safe range;
  a split adds up and misses each exact share by less than one unit.
\<close>

section \<open>Decimals of a currency\<close>

definition currencies :: "(string \<times> nat) list" where
  "currencies =
    [(''AED'', 2), (''AFN'', 2), (''ALL'', 2), (''AMD'', 2), (''AOA'', 2), (''ARS'', 2),
    (''AUD'', 2), (''AWG'', 2), (''AZN'', 2), (''BAM'', 2), (''BBD'', 2), (''BDT'', 2), (''BHD'', 3),
    (''BIF'', 0), (''BMD'', 2), (''BND'', 2), (''BOB'', 2), (''BOV'', 2), (''BRL'', 2), (''BSD'', 2),
    (''BTN'', 2), (''BWP'', 2), (''BYN'', 2), (''BZD'', 2), (''CAD'', 2), (''CDF'', 2), (''CHE'', 2),
    (''CHF'', 2), (''CHW'', 2), (''CLF'', 4), (''CLP'', 0), (''CNY'', 2), (''COP'', 2), (''COU'', 2),
    (''CRC'', 2), (''CUP'', 2), (''CVE'', 2), (''CZK'', 2), (''DJF'', 0), (''DKK'', 2), (''DOP'', 2),
    (''DZD'', 2), (''EGP'', 2), (''ERN'', 2), (''ETB'', 2), (''EUR'', 2), (''FJD'', 2), (''FKP'', 2),
    (''GBP'', 2), (''GEL'', 2), (''GHS'', 2), (''GIP'', 2), (''GMD'', 2), (''GNF'', 0), (''GTQ'', 2),
    (''GYD'', 2), (''HKD'', 2), (''HNL'', 2), (''HTG'', 2), (''HUF'', 2), (''IDR'', 2), (''ILS'', 2),
    (''INR'', 2), (''IQD'', 3), (''IRR'', 2), (''ISK'', 0), (''JMD'', 2), (''JOD'', 3), (''JPY'', 0),
    (''KES'', 2), (''KGS'', 2), (''KHR'', 2), (''KMF'', 0), (''KPW'', 2), (''KRW'', 0), (''KWD'', 3),
    (''KYD'', 2), (''KZT'', 2), (''LAK'', 2), (''LBP'', 2), (''LKR'', 2), (''LRD'', 2), (''LSL'', 2),
    (''LYD'', 3), (''MAD'', 2), (''MDL'', 2), (''MGA'', 2), (''MKD'', 2), (''MMK'', 2), (''MNT'', 2),
    (''MOP'', 2), (''MRU'', 2), (''MUR'', 2), (''MVR'', 2), (''MWK'', 2), (''MXN'', 2), (''MXV'', 2),
    (''MYR'', 2), (''MZN'', 2), (''NAD'', 2), (''NGN'', 2), (''NIO'', 2), (''NOK'', 2), (''NPR'', 2),
    (''NZD'', 2), (''OMR'', 3), (''PAB'', 2), (''PEN'', 2), (''PGK'', 2), (''PHP'', 2), (''PKR'', 2),
    (''PLN'', 2), (''PYG'', 0), (''QAR'', 2), (''RON'', 2), (''RSD'', 2), (''RUB'', 2), (''RWF'', 0),
    (''SAR'', 2), (''SBD'', 2), (''SCR'', 2), (''SDG'', 2), (''SEK'', 2), (''SGD'', 2), (''SHP'', 2),
    (''SLE'', 2), (''SOS'', 2), (''SRD'', 2), (''SSP'', 2), (''STN'', 2), (''SVC'', 2), (''SYP'', 2),
    (''SZL'', 2), (''THB'', 2), (''TJS'', 2), (''TMT'', 2), (''TND'', 3), (''TOP'', 2), (''TRY'', 2),
    (''TTD'', 2), (''TWD'', 2), (''TZS'', 2), (''UAH'', 2), (''UGX'', 0), (''USD'', 2), (''USN'', 2),
    (''UYI'', 0), (''UYU'', 2), (''UYW'', 4), (''UZS'', 2), (''VED'', 2), (''VES'', 2), (''VND'', 0),
    (''VUV'', 0), (''WST'', 2), (''XAD'', 2), (''XAF'', 0), (''XCD'', 2), (''XCG'', 2), (''XOF'', 0),
    (''XPF'', 0), (''YER'', 2), (''ZAR'', 2), (''ZMW'', 2), (''ZWG'', 2)]"

definition isCurrencyCode :: "units \<Rightarrow> bool" where
  "isCurrencyCode c \<longleftrightarrow> c \<in> set (map (u \<circ> fst) currencies)"

definition currencyTable :: "units \<Rightarrow> nat option" where
  "currencyTable c = map_of (map (\<lambda>(k, d). (u k, d)) currencies) c"

text \<open>
  What \<open>Intl.NumberFormat\<close> answers for one locale: the glyph of a digit, the parts of a grouped
  number (its type and text), the parts of -1234.5, and \<open>maximumFractionDigits\<close> of a currency, which
  may throw or be undefined.
\<close>

datatype partType = IntegerPart | GroupPart | DecimalPart | MinusPart | OtherPart

record intl =
  glyph :: "nat \<Rightarrow> units"
  groupParts :: "nat \<Rightarrow> (partType \<times> units) list"
  markParts :: "(partType \<times> units) list"
  fractionDigits :: "units \<Rightarrow> js_error + nat option"

definition checkedDecimals :: "jsnum \<Rightarrow> js_error + nat" where
  "checkedDecimals d =
     (if \<not> js_isInteger d \<or> js_less d (Fin 0) \<or> js_less (Fin 20) d
      then Inl (PlainErr ''money decimals must be a whole number from 0 to 20'')
      else Inr (nat (js_floor d)))"

definition checkedCurrency :: "units \<Rightarrow> js_error + units" where
  "checkedCurrency c =
     (if trimUnits c = [] then Inl (RangeErr ''money currency code must not be empty'') else Inr c)"

definition currencyDecimals :: "intl \<Rightarrow> units \<Rightarrow> jsnum option \<Rightarrow> js_error + nat" where
  "currencyDecimals loc currency decimals =
     andThen (checkedCurrency currency) (\<lambda>_.
       case decimals of Some d \<Rightarrow> checkedDecimals d
       | None \<Rightarrow>
           (case currencyTable currency of Some d \<Rightarrow> Inr d
            | None \<Rightarrow>
                andThen (fractionDigits loc currency) (\<lambda>m. case m of
                  None \<Rightarrow> Inl (PlainErr ''Intl reported no fraction-digit count for currency'')
                | Some n \<Rightarrow> Inr n)))"

section \<open>The text of an amount\<close>

definition safeAmount :: "jsnum \<Rightarrow> js_error + int" where
  "safeAmount a =
     (if \<not> js_isInteger a \<or> \<not> js_isSafeInteger a then Inl (PlainErr ''money amount must be a safe integer'')
      else Inr (js_floor a))"

definition moneyDecimalString :: "jsnum \<Rightarrow> nat \<Rightarrow> js_error + string" where
  "moneyDecimalString amount decimals =
     andThen (safeAmount amount) (\<lambda>safe.
       let negative = safe < 0;
           digits = padStart (decimals + 1) (CHR ''0'') (show_nat (nat \<bar>safe\<bar>));
           cut = length digits - decimals;
           intPart = take cut digits;
           fracPart = (if decimals > 0 then ''.'' @ drop cut digits else [])
       in Inr ((if negative then ''-'' else []) @ intPart @ fracPart))"

section \<open>Typed text\<close>

datatype ParseMoneyError = EmptyText | InvalidCharacters | TooManyDecimals nat | TooLarge

definition DIRECTION_MARKS :: "nat list" where "DIRECTION_MARKS = [0x200e, 0x200f, 0x61c]"
definition SPACE_GROUP_CHARS :: "units list" where "SPACE_GROUP_CHARS = [[0x20], [0xa0], [0x202f], [0x2009]]"
definition APOSTROPHE_GROUP_CHARS :: "units list" where "APOSTROPHE_GROUP_CHARS = [[0x27], [0x2019], [0x2bc]]"

definition groupEquivalents :: "units \<Rightarrow> units list" where
  "groupEquivalents groupMark =
     (if groupMark \<in> set SPACE_GROUP_CHARS then SPACE_GROUP_CHARS
      else if groupMark \<in> set APOSTROPHE_GROUP_CHARS then APOSTROPHE_GROUP_CHARS
      else if groupMark = [] then [] else [groupMark])"

definition digitMap :: "intl \<Rightarrow> (units, units) jsmap" where
  "digitMap loc =
     foldl (\<lambda>m digit. if length (glyph loc digit) = 1 then jm_set (glyph loc digit) (u (show_nat digit)) m else m)
       [] [0..<10]"

definition toAsciiDigits :: "units \<Rightarrow> (units, units) jsmap \<Rightarrow> units" where
  "toAsciiDigits txt digits = concat (map (\<lambda>c. orElse (jm_get digits c) c) (chars txt))"

definition groupedDigits :: "nat \<Rightarrow> intl \<Rightarrow> units" where
  "groupedDigits magnitude loc =
     concat (map (\<lambda>(ty, v). if ty = GroupPart then [44] else toAsciiDigits v (digitMap loc))
       (filter (\<lambda>p. fst p = IntegerPart \<or> fst p = GroupPart) (groupParts loc magnitude)))"

record LocaleMarks =
  markGroup :: units
  markDecimal :: units
  markMinus :: "units list"

definition findPart :: "partType \<Rightarrow> (partType \<times> units) list \<Rightarrow> units option" where
  "findPart ty parts = map_option snd (List.find (\<lambda>p. fst p = ty) parts)"

definition localeMarks :: "intl \<Rightarrow> LocaleMarks" where
  "localeMarks loc =
     \<lparr>markGroup = orElse (findPart GroupPart (markParts loc)) [44],
      markDecimal = orElse (findPart DecimalPart (markParts loc)) [46],
      markMinus = (let m = orElse (findPart MinusPart (markParts loc)) [45]
                   in [[45], [0x2212]] @ (if m \<in> {[45], [0x2212]} then [] else [m]))\<rparr>"

text \<open>
  \<open>rest.split(decimal)\<close> for a mark of any length: the parts between the first occurrences, left to
  right. (An empty mark would split into units; no locale has one, and the model then does not split.)
\<close>

function splitAt :: "units \<Rightarrow> units \<Rightarrow> units \<Rightarrow> units list" where
  "splitAt mark [] acc = [acc]"
| "splitAt mark (x # xs) acc =
     (if mark \<noteq> [] \<and> prefix mark (x # xs) then acc # splitAt mark (drop (length mark) (x # xs)) []
      else splitAt mark xs (acc @ [x]))"
  by pat_completeness auto
termination by (relation "measure (\<lambda>(m, s, a). length s)") (auto simp: neq_Nil_conv)

text \<open>The walk over the integer part: its digits, and its digits with \<open>,\<close> for every group mark.\<close>

fun walkInteger :: "units list \<Rightarrow> units list \<Rightarrow> units \<times> units \<Rightarrow> (units \<times> units) option" where
  "walkInteger groupChars [] acc = Some acc"
| "walkInteger groupChars (c # cs) (digitsOnly, canonical) =
     (if length c = 1 \<and> isDigitU (hd c) then walkInteger groupChars cs (digitsOnly @ c, canonical @ c)
      else if c \<in> set groupChars then walkInteger groupChars cs (digitsOnly, canonical @ [44])
      else None)"

text \<open>The last steps both readers share: the magnitude in the smallest unit.\<close>

definition signedAmount :: "bool \<Rightarrow> nat \<Rightarrow> ParseMoneyError + int" where
  "signedAmount negative magnitude =
     (if int magnitude > MAX_SAFE_INTEGER then Inl TooLarge
      else if magnitude = 0 then Inr 0
      else Inr (int magnitude * (if negative then -1 else 1)))"

definition parseNormalized :: "intl \<Rightarrow> nat \<Rightarrow> units \<Rightarrow> ParseMoneyError + int" where
  "parseNormalized loc decimals normalized =
     (let marks = localeMarks loc;
          unsigned = (if prefix [43] normalized then tl normalized else normalized);
          (negative, rest) =
            (case List.find (\<lambda>sign. prefix sign normalized) (markMinus marks) of
               Some m \<Rightarrow> if m \<noteq> [] then (True, drop (length m) normalized) else (False, unsigned)
             | None \<Rightarrow> (False, unsigned));
          decimalParts = splitAt (markDecimal marks) rest []
      in if length decimalParts > 2 then Inl InvalidCharacters
         else let intPartRaw = hd decimalParts;
                  fracPartRaw = (if length decimalParts > 1 then decimalParts ! 1 else [])
         in if intPartRaw = [] \<and> fracPartRaw = [] then Inl EmptyText
            else if \<not> list_all isDigitU fracPartRaw then Inl InvalidCharacters
            else case walkInteger (groupEquivalents (markGroup marks)) (chars intPartRaw) ([], []) of
                None \<Rightarrow> Inl InvalidCharacters
              | Some (intDigitsOnly, canonicalIntPart) \<Rightarrow>
                  if intPartRaw \<noteq> [] \<and> intDigitsOnly = [] then Inl InvalidCharacters
                  else if 44 \<in> set canonicalIntPart \<and> canonicalIntPart \<noteq> groupedDigits (readU intDigitsOnly) loc
                  then Inl InvalidCharacters
                  else if length fracPartRaw > decimals then Inl (TooManyDecimals decimals)
                  else let intPart = (if intDigitsOnly = [] then [48] else intDigitsOnly)
                       in signedAmount negative (readU (intPart @ padEndU decimals fracPartRaw)))"

definition parseMoney :: "intl \<Rightarrow> units \<Rightarrow> units \<Rightarrow> jsnum option \<Rightarrow> js_error + (ParseMoneyError + int)" where
  "parseMoney loc txt currency decimalsOption =
     andThen (checkedCurrency currency) (\<lambda>_.
       let cleaned = trimUnits (filter (\<lambda>c. c \<notin> set DIRECTION_MARKS) txt)
       in if cleaned = [] then Inr (Inl EmptyText)
          else andThen (currencyDecimals loc currency decimalsOption) (\<lambda>decimals.
            Inr (parseNormalized loc decimals (toAsciiDigits cleaned (digitMap loc)))))"

section \<open>File columns\<close>

record NumberFormatGuess =
  decimalMark :: nat
  groupMark :: "nat option"

definition NUMBER_FORMATS :: "NumberFormatGuess list" where
  "NUMBER_FORMATS =
     map (\<lambda>(d, g). \<lparr>decimalMark = d, groupMark = g\<rparr>)
       [(46, None), (46, Some 44), (46, Some 32), (46, Some 39), (44, None), (44, Some 46), (44, Some 32)]"

datatype NegativeStyle = Minus | Parentheses | TrailingMinus

definition NEGATIVE_STYLES :: "NegativeStyle list" where
  "NEGATIVE_STYLES = [Minus, Parentheses, TrailingMinus]"

definition MINUS_SIGNS :: "nat list" where "MINUS_SIGNS = [45, 0x2212]"

text \<open>The two alternatives of the expression, over the parts between commas.\<close>

definition GROUPED_INTEGER :: "units \<Rightarrow> bool" where
  "GROUPED_INTEGER t \<longleftrightarrow>
     (let parts = splitUnits 44 t in
      list_all (list_all isDigitU) parts \<and> length parts \<ge> 2 \<and>
      ((1 \<le> length (hd parts) \<and> length (hd parts) \<le> 3 \<and> list_all (\<lambda>p. length p = 3) (tl parts)) \<or>
       (1 \<le> length (hd parts) \<and> length (hd parts) \<le> 2 \<and>
        list_all (\<lambda>p. length p = 2) (butlast (tl parts)) \<and> length (last parts) = 3)))"

record NumberParts =
  negative :: bool
  integer :: units
  fraction :: units

text \<open>The sign of a number and what is left, or nothing when its style is not accepted.\<close>

definition readSign :: "units \<Rightarrow> NegativeStyle list \<Rightarrow> (bool \<times> units) option" where
  "readSign rest negatives =
     (if rest \<noteq> [] \<and> hd rest = 40 \<and> last rest = 41
      then (if Parentheses \<in> set negatives then Some (True, trimUnits (butlast (tl rest))) else None)
      else if rest \<noteq> [] \<and> hd rest \<in> set MINUS_SIGNS
      then (if Minus \<in> set negatives then Some (True, trimUnits (tl rest)) else None)
      else if rest \<noteq> [] \<and> last rest \<in> set MINUS_SIGNS
      then (if TrailingMinus \<in> set negatives then Some (True, trimUnits (butlast rest)) else None)
      else if rest \<noteq> [] \<and> hd rest = 43 then Some (False, trimUnits (tl rest))
      else Some (False, rest))"

definition readNumber :: "units \<Rightarrow> NumberFormatGuess \<Rightarrow> NegativeStyle list \<Rightarrow> ParseMoneyError + NumberParts" where
  "readNumber txt format negatives =
     (let rest0 = trimUnits (filter (\<lambda>c. c \<notin> set DIRECTION_MARKS) txt) in
      if rest0 = [] then Inl EmptyText
      else case readSign rest0 negatives of
        None \<Rightarrow> Inl InvalidCharacters
      | Some (neg, rest) \<Rightarrow>
          let parts = splitUnits (decimalMark format) rest in
          if length parts > 2 then Inl InvalidCharacters
          else let integerRaw = hd parts; frac = (if length parts > 1 then parts ! 1 else [])
          in if integerRaw = [] \<and> frac = [] then Inl EmptyText
             else if \<not> list_all isDigitU frac then Inl InvalidCharacters
             else case walkInteger (groupEquivalents (case groupMark format of None \<Rightarrow> [] | Some g \<Rightarrow> [g]))
                         (chars integerRaw) ([], []) of
                 None \<Rightarrow> Inl InvalidCharacters
               | Some (digitsOnly, canonical) \<Rightarrow>
                   if canonical \<noteq> digitsOnly \<and> \<not> GROUPED_INTEGER canonical then Inl InvalidCharacters
                   else Inr \<lparr>negative = neg, integer = digitsOnly, fraction = frac\<rparr>)"

definition amountOfParts :: "nat \<Rightarrow> NumberParts \<Rightarrow> ParseMoneyError + int" where
  "amountOfParts decimals p =
     (if length (fraction p) > decimals \<and> list_ex (\<lambda>c. c \<noteq> 48) (drop decimals (fraction p))
      then Inl (TooManyDecimals decimals)
      else let frac = (if length (fraction p) > decimals then take decimals (fraction p) else fraction p)
           in signedAmount (negative p)
                (readU ((if integer p = [] then [48] else integer p) @ padEndU decimals frac)))"

definition parseAmount ::
  "intl \<Rightarrow> units \<Rightarrow> units \<Rightarrow> NumberFormatGuess \<Rightarrow> NegativeStyle list option \<Rightarrow> jsnum option \<Rightarrow>
   js_error + (ParseMoneyError + int)" where
  "parseAmount en txt currency format negatives decimalsOption =
     andThen (checkedCurrency currency) (\<lambda>_.
     andThen (currencyDecimals en currency decimalsOption) (\<lambda>decimals.
       Inr (andThen (readNumber txt format (orElse negatives [Minus])) (amountOfParts decimals))))"

definition reads :: "NumberFormatGuess \<Rightarrow> units \<Rightarrow> bool" where
  "reads format sample = (case readNumber sample format NEGATIVE_STYLES of Inl _ \<Rightarrow> False | Inr _ \<Rightarrow> True)"

definition detectNumberFormat :: "units list \<Rightarrow> NumberFormatGuess list" where
  "detectNumberFormat samples =
     (let filled = filter (\<lambda>s. trimUnits s \<noteq> []) samples in
      if filled = [] then [] else filter (\<lambda>format. list_all (reads format) filled) NUMBER_FORMATS)"

text \<open>\<open>true\<close> for a non-zero amount, \<open>false\<close> for a blank or zero cell, \<open>None\<close> for anything else.\<close>

fun firstReading :: "units \<Rightarrow> NumberFormatGuess list \<Rightarrow> bool option" where
  "firstReading cell [] = None"
| "firstReading cell (format # fs) =
     (case readNumber cell format NEGATIVE_STYLES of
        Inr p \<Rightarrow> Some (list_ex (\<lambda>c. 49 \<le> c \<and> c \<le> 57) (integer p @ fraction p))
      | Inl _ \<Rightarrow> firstReading cell fs)"

definition cellAmount :: "units \<Rightarrow> bool option" where
  "cellAmount cell = (if trimUnits cell = [] then Some False else firstReading cell NUMBER_FORMATS)"

fun pairLoop :: "units list \<Rightarrow> units list \<Rightarrow> nat \<times> nat \<Rightarrow> (nat \<times> nat) option" where
  "pairLoop (l # ls) (r # rs) (leftAmounts, rightAmounts) =
     (case (cellAmount l, cellAmount r) of
        (Some a, Some b) \<Rightarrow>
          if a = b then None
          else if a then pairLoop ls rs (leftAmounts + 1, rightAmounts)
          else pairLoop ls rs (leftAmounts, rightAmounts + 1)
      | _ \<Rightarrow> None)"
| "pairLoop _ _ counts = Some counts"

definition isDebitCreditPair :: "units list \<Rightarrow> units list \<Rightarrow> bool" where
  "isDebitCreditPair left right =
     (if left = [] \<or> length left \<noteq> length right then False
      else case pairLoop left right (0, 0) of None \<Rightarrow> False | Some (l, r) \<Rightarrow> l > 0 \<and> r > 0)"

section \<open>Sums and splits\<close>

record Money =
  moneyAmount :: jsnum
  moneyCurrency :: units

datatype SumMoneyError = MixedCurrencies | UnsafeSum

definition isSafeBigInt :: "int \<Rightarrow> bool" where
  "isSafeBigInt v \<longleftrightarrow> v \<le> MAX_SAFE_INTEGER \<and> v \<ge> - MAX_SAFE_INTEGER"

fun sumLoop :: "units \<Rightarrow> Money list \<Rightarrow> int \<Rightarrow> js_error + (SumMoneyError + int)" where
  "sumLoop cur [] sofar = Inr (if isSafeBigInt sofar then Inr sofar else Inl UnsafeSum)"
| "sumLoop cur (item # items) sofar =
     (if moneyCurrency item \<noteq> cur then Inr (Inl MixedCurrencies)
      else andThen (safeAmount (moneyAmount item)) (\<lambda>a. sumLoop cur items (sofar + a)))"

definition sumMoney :: "Money list \<Rightarrow> units \<Rightarrow> js_error + (SumMoneyError + int)" where
  "sumMoney items cur = andThen (checkedCurrency cur) (\<lambda>_. sumLoop cur items 0)"

text \<open>The units left over, one each to the parts in the order of their remainders.\<close>

fun giveOne :: "nat list \<Rightarrow> nat list \<Rightarrow> nat \<Rightarrow> nat list" where
  "giveOne parts (k # order) (Suc left) = giveOne (parts[k := parts ! k + 1]) order left"
| "giveOne parts _ _ = parts"

definition shareFloors :: "nat \<Rightarrow> nat list \<Rightarrow> nat list" where
  "shareFloors m ws = map (\<lambda>w. m * w div sum_list ws) ws"

definition shareRem :: "nat \<Rightarrow> nat list \<Rightarrow> nat \<Rightarrow> nat" where
  "shareRem m ws i = m * (ws ! i) mod sum_list ws"

definition shareLeft :: "nat \<Rightarrow> nat list \<Rightarrow> nat" where
  "shareLeft m ws = m - sum_list (shareFloors m ws)"

definition shareOrder :: "nat \<Rightarrow> nat list \<Rightarrow> nat list" where
  "shareOrder m ws = sort_key (\<lambda>i. - int (shareRem m ws i)) [0..<length ws]"

definition allocateParts :: "nat \<Rightarrow> nat list \<Rightarrow> nat list" where
  "allocateParts m ws = giveOne (shareFloors m ws) (shareOrder m ws) (shareLeft m ws)"

definition allocate :: "jsnum \<Rightarrow> jsnum list \<Rightarrow> js_error + int list" where
  "allocate a weights =
     (if \<not> js_isSafeInteger a then Inl (RangeErr ''money amount must be a safe integer'')
      else if weights = [] then Inl (RangeErr ''allocate needs at least one weight'')
      else if \<not> list_all (\<lambda>w. js_isSafeInteger w \<and> \<not> js_less w (Fin 0)) weights
      then Inl (RangeErr ''a weight must be a safe integer of zero or more'')
      else let ws = map (\<lambda>w. nat (js_floor w)) weights in
        if sum_list ws = 0 then Inl (RangeErr ''allocate needs a weight above zero'')
        else Inr (map (\<lambda>p. if js_floor a < 0 then - int p else int p)
                    (allocateParts (nat \<bar>js_floor a\<bar>) ws)))"

section \<open>Reading what was written\<close>

lemma isDigitU_simps [simp]: "isDigitU c \<Longrightarrow> \<not> isSpace c" "isDigitU c \<Longrightarrow> c \<noteq> 46" "isDigitU c \<Longrightarrow> c \<noteq> 44"
  "isDigitU c \<Longrightarrow> c \<noteq> 45" "isDigitU c \<Longrightarrow> c \<noteq> 43" "isDigitU c \<Longrightarrow> c \<noteq> 40" "isDigitU c \<Longrightarrow> c \<noteq> 41"
  "isDigitU c \<Longrightarrow> c \<noteq> 0x2212" "isDigitU c \<Longrightarrow> c \<notin> set DIRECTION_MARKS"
  by (auto simp: isDigitU_def isSpace_def DIRECTION_MARKS_def)

lemma chars_digits: "list_all isDigitU s \<Longrightarrow> chars s = map (\<lambda>c. [c]) s"
  by (induction s rule: chars.induct) (auto simp: isDigitU_def)

lemma walk_digits: "list_all isDigitU s \<Longrightarrow> walkInteger g (map (\<lambda>c. [c]) s) (a, b) = Some (a @ s, b @ s)"
  by (induction s arbitrary: a b) auto

lemma floor_nonneg: "js_isSafeInteger w \<Longrightarrow> \<not> js_less w (Fin 0) \<Longrightarrow> 0 \<le> js_floor w"
  by (cases w) (auto simp: js_isSafeInteger_def)

lemma readNumber_plain:
  assumes "list_all isDigitU ip" "list_all isDigitU fr" "ip \<noteq> []" "m \<in> {46, 44}"
    and "\<not> neg \<or> Minus \<in> set negs"
  shows "readNumber ((if neg then [45] else []) @ ip @ (if fr = [] then [] else m # fr)) \<lparr>decimalMark = m, groupMark = g\<rparr> negs
    = Inr \<lparr>negative = neg, integer = ip, fraction = fr\<rparr>"
proof -
  let ?body = "ip @ (if fr = [] then [] else m # fr)"
  let ?t = "(if neg then [45] else []) @ ?body"
  have digit: "isDigitU c" if "c \<in> set ip \<union> set fr" for c using that assms(1,2) by (auto simp: list_all_iff)
  have hd: "hd ?body = hd ip" "isDigitU (hd ip)" and last: "last ?body \<in> set ip \<union> set fr"
    using assms(3) digit by (auto simp: last_append)
  have lastD: "isDigitU (last ?body)" using digit last by blast
  have marks: "filter (\<lambda>c. c \<notin> set DIRECTION_MARKS) ?t = ?t"
  proof (rule filter_True, rule ballI)
    fix c assume "c \<in> set ?t"
    then have "isDigitU c \<or> c \<in> {45, 46, 44}" using digit assms(4) by (auto split: if_splits)
    then show "c \<notin> set DIRECTION_MARKS" by (auto simp: DIRECTION_MARKS_def isDigitU_def)
  qed
  have body: "trimUnits ?body = ?body" using hd lastD by (intro trimUnits_id) simp
  have "trimUnits ?t = ?t"
  proof (cases neg)
    case True
    have "\<not> isSpace (last (45 # ?body))" using lastD assms(3) by auto
    then show ?thesis using True by (intro trimUnits_id) (simp add: isSpace_def)
  qed (use body in simp)
  moreover have "readSign ?t negs = Some (neg, ?body)"
  proof (cases neg)
    case True
    with assms(5) body show ?thesis by (simp add: readSign_def MINUS_SIGNS_def)
  next
    case False
    have "hd ?body \<notin> {40, 45, 0x2212, 43}" "last ?body \<notin> {45, 0x2212}"
      using hd lastD by (auto simp: isDigitU_def)
    with False show ?thesis by (simp add: readSign_def MINUS_SIGNS_def)
  qed
  moreover have "splitUnits m ?body = (if fr = [] then [ip] else [ip, fr])"
  proof -
    have "m \<notin> set ip" "m \<notin> set fr" using digit [of m] assms(4) by (auto simp: isDigitU_def)
    then show ?thesis by simp
  qed
  moreover have "?t \<noteq> []" using assms(3) by simp
  ultimately show ?thesis
    using assms unfolding readNumber_def marks
    by (cases "fr = []") (simp_all add: Let_def chars_digits walk_digits)
qed

lemma moneyDecimalString_parts:
  assumes "js_isSafeInteger a"
  obtains ip fr where
    "moneyDecimalString a d = Inr ((if js_floor a < 0 then ''-'' else []) @ ip @ (if fr = [] then [] else ''.'' @ fr))"
    "ip \<noteq> []" "length fr = d" "allDigits (ip @ fr)" "readNat (ip @ fr) = nat \<bar>js_floor a\<bar>"
proof -
  define D where "D = padStart (Suc d) (CHR ''0'') (show_nat (nat \<bar>js_floor a\<bar>))"
  have int: "js_isInteger a" using assms by (simp add: js_isSafeInteger_def)
  have D: "length D \<ge> d + 1" "allDigits D" "readNat D = nat \<bar>js_floor a\<bar>"
  proof -
    show "length D \<ge> d + 1" by (simp add: D_def padStart_def)
    show "allDigits D"
      using show_nat_digits [of _ "nat \<bar>js_floor a\<bar>"] by (auto simp: D_def padStart_def allDigits_def)
    show "readNat D = nat \<bar>js_floor a\<bar>" by (simp add: D_def)
  qed
  let ?c = "length D - d"
  show thesis
  proof
    show "moneyDecimalString a d = Inr ((if js_floor a < 0 then ''-'' else []) @ take ?c D @
        (if drop ?c D = [] then [] else ''.'' @ drop ?c D))"
    proof -
      have "moneyDecimalString a d = andThen (Inr (js_floor a)) (\<lambda>safe.
         Inr ((if safe < 0 then ''-'' else []) @ take ?c D @ (if d > 0 then ''.'' @ drop ?c D else [])))"
        using assms int by (simp add: moneyDecimalString_def safeAmount_def Let_def D_def)
      then show ?thesis using D(1) by simp
    qed
  qed (use D in auto)
qed

lemma signedAmount_abs:
  assumes "\<bar>n\<bar> \<le> MAX_SAFE_INTEGER"
  shows "signedAmount (n < 0) (nat \<bar>n\<bar>) = Inr n"
  using assms by (auto simp: signedAmount_def)

lemma money_text_read:
  assumes "js_isSafeInteger a" "moneyDecimalString a d = Inr t" "m \<in> {46, 44}" "Minus \<in> set negs"
  shows "andThen (readNumber (map (\<lambda>c. if c = 46 then m else c) (u t)) \<lparr>decimalMark = m, groupMark = g\<rparr> negs)
    (amountOfParts d) = Inr (js_floor a)"
proof -
  obtain ip fr where t: "moneyDecimalString a d = Inr ((if js_floor a < 0 then ''-'' else []) @ ip @ (if fr = [] then [] else ''.'' @ fr))"
    and p: "ip \<noteq> []" "length fr = d" "allDigits (ip @ fr)" "readNat (ip @ fr) = nat \<bar>js_floor a\<bar>"
    using moneyDecimalString_parts [OF assms(1)] .
  have dig: "list_all isDigitU (u ip)" "list_all isDigitU (u fr)"
    using u_digits [OF p(3)] by simp_all
  have id: "map (\<lambda>c. if c = 46 then m else c) s = s" if "list_all isDigitU s" for s
    using that by (induction s) auto
  have ne: "u ip \<noteq> []" "(u fr = []) = (fr = [])" using p(1) by (simp_all add: u_def)
  have "map (\<lambda>c. if c = 46 then m else c) (u t) =
     (if js_floor a < 0 then [45] else []) @ u ip @ (if u fr = [] then [] else m # u fr)"
    using assms(2) t id [OF dig(1)] id [OF dig(2)] ne(2) by (auto simp: code_def)
  then have "readNumber (map (\<lambda>c. if c = 46 then m else c) (u t)) \<lparr>decimalMark = m, groupMark = g\<rparr> negs =
     Inr \<lparr>negative = js_floor a < 0, integer = u ip, fraction = u fr\<rparr>"
    using readNumber_plain [OF dig ne(1) assms(3), of "js_floor a < 0" negs g] assms(4) by simp
  moreover have "readU (u ip @ padEndU d (u fr)) = nat \<bar>js_floor a\<bar>"
    using p(2,4) readU_u [of "ip @ fr"] by (simp add: padEndU_def)
  moreover have "\<bar>js_floor a\<bar> \<le> MAX_SAFE_INTEGER"
    using assms(1) by (cases a) (auto simp: js_isSafeInteger_def)
  ultimately show ?thesis
    using p(2) ne(1) by (simp add: amountOfParts_def signedAmount_abs del: append_is_Nil_conv)
qed

text \<open>
  C12: The text of an amount reads back. For a currency code that is not blank, decimals from 0 to 20 and
  any safe amount, writing the amount with \<open>moneyDecimalString\<close> and reading it with \<open>parseAmount\<close>, with
  either decimal mark in place of the point and any grouping mark, gives the amount.
\<close>
theorem amount_text_roundtrip:
  assumes "js_isSafeInteger a" "trimUnits cur \<noteq> []" "d \<le> 20" "m \<in> {46, 44}"
  shows "\<exists>t. moneyDecimalString a d = Inr t \<and>
    parseAmount en (map (\<lambda>c. if c = 46 then m else c) (u t)) cur \<lparr>decimalMark = m, groupMark = g\<rparr> None
      (Some (js_int (int d))) = Inr (Inr (js_floor a))"
proof -
  obtain t where t: "moneyDecimalString a d = Inr t"
    using moneyDecimalString_parts [OF assms(1)] by metis
  have "currencyDecimals en cur (Some (js_int (int d))) = Inr d"
    using assms(2,3) by (simp add: currencyDecimals_def checkedCurrency_def checkedDecimals_def)
  then show ?thesis
    using t money_text_read [OF assms(1) t assms(4), of "[Minus]" g] assms(2)
    by (simp add: parseAmount_def checkedCurrency_def)
qed

section \<open>Nothing is rounded\<close>

lemma walk_digits_only:
  assumes "walkInteger g cs (a, b) = Some (x, y)" "list_all isDigitU a"
  shows "list_all isDigitU x"
  using assms
proof (induction g cs "(a, b)" arbitrary: a b rule: walkInteger.induct)
  case (2 g c cs a b)
  then show ?case by (cases c) (auto split: if_splits)
qed simp

lemma readNumber_digits:
  assumes "readNumber t f negs = Inr p"
  shows "list_all isDigitU (integer p) \<and> list_all isDigitU (fraction p)"
  using assms walk_digits_only [where a = "[]" and b = "[]"]
  by (fastforce simp: readNumber_def Let_def split: if_splits option.splits prod.splits)

lemma readU_zero_iff: "list_all isDigitU s \<Longrightarrow> readU s = 0 \<longleftrightarrow> \<not> list_ex (\<lambda>c. c \<noteq> 48) s"
proof (induction s rule: rev_induct)
  case (snoc x s)
  then show ?case by (auto simp: readU_append) (auto simp: readU_def isDigitU_def)
qed simp

lemma signedAmount_Inr:
  "signedAmount neg k = Inr n \<longleftrightarrow> n = (if neg then - int k else int k) \<and> \<bar>n\<bar> \<le> MAX_SAFE_INTEGER"
  by (auto simp: signedAmount_def)

lemma signed_scale: "n * 10 ^ k = (if neg then -1 else 1) * int (x * 10 ^ k) \<longleftrightarrow> n = (if neg then - int x else int x)"
proof -
  have "(if neg then -1 else 1) * int (x * 10 ^ k) = (if neg then - int x else int x) * 10 ^ k" by simp
  then show ?thesis by (simp only: mult_cancel_right) simp
qed

lemma scaled_remainder:
  fixes A y :: nat
  assumes "y < 10 ^ k"
  shows "n * 10 ^ k = (if neg then -1 else 1) * int (A * 10 ^ k + y) \<longleftrightarrow> n = (if neg then - int A else int A) \<and> y = 0"
proof
  assume *: "n * 10 ^ k = (if neg then -1 else 1) * int (A * 10 ^ k + y)"
  then have "(if neg then - n else n) * 10 ^ k = int A * 10 ^ k + int y" by (auto split: if_splits)
  then have "int y = ((if neg then - n else n) - int A) * 10 ^ k" by (simp add: algebra_simps)
  then have "int y mod 10 ^ k = 0" by simp
  then have "y = 0" using assms by (metis mod_less of_nat_0_eq_iff of_nat_numeral of_nat_power zmod_int)
  with * show "n = (if neg then - int A else int A) \<and> y = 0" using signed_scale [of n k neg A] by simp
qed (use signed_scale [of n k neg A] in simp)

lemma amountOfParts_exact:
  assumes "list_all isDigitU (integer p)" "list_all isDigitU (fraction p)"
  shows "amountOfParts d p = Inr n \<longleftrightarrow> \<bar>n\<bar> \<le> MAX_SAFE_INTEGER \<and>
    n * 10 ^ length (fraction p) = (if negative p then -1 else 1) * int (readU (integer p @ fraction p) * 10 ^ d)"
proof -
  let ?i = "integer p" and ?f = "fraction p" and ?j = "if integer p = [] then [48] else integer p"
  have ij: "readU ?j = readU ?i" by (simp add: readU_def)
  show ?thesis
  proof (cases "length ?f \<le> d")
    case True
    have "readU (?j @ padEndU d ?f) = readU (?i @ ?f) * 10 ^ (d - length ?f)"
      using True ij by (simp add: readU_append readU_padEnd padEndU_def algebra_simps power_add [symmetric])
    moreover have "int (readU (?i @ ?f) * 10 ^ d) = int (readU (?i @ ?f) * 10 ^ (d - length ?f) * 10 ^ length ?f)"
      using True by (simp add: power_add [symmetric])
    moreover have "amountOfParts d p = signedAmount (negative p) (readU (?j @ padEndU d ?f))"
      using True by (simp add: amountOfParts_def)
    ultimately show ?thesis
      using signed_scale [of n "length ?f" "negative p" "readU (?i @ ?f) * 10 ^ (d - length ?f)"]
      by (simp only: signedAmount_Inr) blast
  next
    case False
    define x y where "x = take d ?f" and "y = drop d ?f"
    have f: "?f = x @ y" "length x = d" "length ?f - d = length y" "length ?f = length y + d"
      using False by (auto simp: x_def y_def)
    have y: "list_all isDigitU y" using assms(2) f(1) by simp
    have A: "readU (?j @ padEndU d x) = readU (?i @ x)"
      using f(2) ij by (simp add: padEndU_def readU_append)
    have "n * 10 ^ length ?f = (if negative p then -1 else 1) * int (readU (?i @ ?f) * 10 ^ d) \<longleftrightarrow>
      n * 10 ^ length y = (if negative p then -1 else 1) * int (readU (?i @ x) * 10 ^ length y + readU y)"
    proof -
      have "readU (?i @ ?f) = readU (?i @ x) * 10 ^ length y + readU y"
        using f(1) readU_append [of "?i @ x" y] by simp
      moreover have "n * 10 ^ length ?f = n * 10 ^ length y * 10 ^ d" using f(4) by (simp add: power_add)
      moreover have "(if negative p then -1 else 1) * int (readU (?i @ ?f) * 10 ^ d) =
          (if negative p then -1 else 1) * int (readU (?i @ ?f)) * 10 ^ d" by simp
      ultimately show ?thesis by (simp only: mult_cancel_right) simp
    qed
    also have "\<dots> \<longleftrightarrow> n = (if negative p then - int (readU (?i @ x)) else int (readU (?i @ x))) \<and> readU y = 0"
      by (rule scaled_remainder) (rule readU_bound [OF y])
    finally have eq: "n * 10 ^ length ?f = (if negative p then -1 else 1) * int (readU (?i @ ?f) * 10 ^ d) \<longleftrightarrow>
      n = (if negative p then - int (readU (?i @ x)) else int (readU (?i @ x))) \<and> readU y = 0" .
    have "amountOfParts d p = (if readU y = 0 then signedAmount (negative p) (readU (?i @ x)) else Inl (TooManyDecimals d))"
      using False A readU_zero_iff [OF y] by (simp add: amountOfParts_def flip: x_def y_def)
    then show ?thesis unfolding eq by (auto simp: signedAmount_Inr)
  qed
qed

text \<open>
  \<open>parseAmount\<close> never rounds and never refuses an exact amount. It answers \<open>n\<close> if and only if the currency
  has decimals, the text reads as a number in the format, and \<open>n\<close> is that very number in the smallest
  unit (the equation clears the fraction digits) and within the safe range.
\<close>
theorem parse_amount_exact:
  "parseAmount en txt cur format negs dec = Inr (Inr n) \<longleftrightarrow>
    (\<exists>d p. currencyDecimals en cur dec = Inr d \<and> readNumber txt format (orElse negs [Minus]) = Inr p \<and>
       \<bar>n\<bar> \<le> MAX_SAFE_INTEGER \<and>
       n * 10 ^ length (fraction p) = (if negative p then -1 else 1) * int (readU (integer p @ fraction p) * 10 ^ d))"
proof -
  have "parseAmount en txt cur format negs dec = Inr (Inr n) \<longleftrightarrow>
    (\<exists>d p. currencyDecimals en cur dec = Inr d \<and> readNumber txt format (orElse negs [Minus]) = Inr p \<and>
       amountOfParts d p = Inr n)"
    by (auto simp: parseAmount_def andThen_Inr currencyDecimals_def)
  then show ?thesis using amountOfParts_exact readNumber_digits by blast
qed

section \<open>Splitting\<close>

lemma giveOne_nth:
  assumes "distinct order" "set order \<subseteq> {..<length parts}" "left \<le> length order"
  shows "length (giveOne parts order left) = length parts"
    "i < length parts \<Longrightarrow> giveOne parts order left ! i = parts ! i + (if i \<in> set (take left order) then 1 else 0)"
  using assms
proof (induction parts order left rule: giveOne.induct)
  case (1 parts k order left)
  { case 1 with "1.IH"(1) show ?case by simp }
  { case 2 with "1.IH"(2) show ?case by (auto simp: nth_list_update dest: in_set_takeD) }
qed (auto simp: neq_Nil_conv)

lemma sum_list_indicator:
  "distinct xs \<Longrightarrow> set xs \<subseteq> {..<n :: nat} \<Longrightarrow> (\<Sum>i<n. f i + (if i \<in> set xs then 1 else 0)) = (\<Sum>i<n. f i) + (length xs :: nat)"
proof -
  assume a: "distinct xs" "set xs \<subseteq> {..<n}"
  have "(\<Sum>i<n. (if i \<in> set xs then 1 else 0)) = (\<Sum>i\<in>set xs. 1 :: nat)"
    using sum.inter_restrict [of "{..<n}" "\<lambda>_. 1 :: nat" "set xs"] a(2) by (simp add: Int_absorb1)
  then show ?thesis using a(1) by (simp add: sum.distrib distinct_card)
qed

lemma order_set: "set (shareOrder m ws) = {..<length ws}" and order_distinct: "distinct (shareOrder m ws)"
  and order_length: "length (shareOrder m ws) = length ws"
  by (auto simp: shareOrder_def)

lemma sum_rem: "m * sum_list ws = sum_list (shareFloors m ws) * sum_list ws + (\<Sum>i<length ws. shareRem m ws i)"
proof -
  have "m * sum_list ws = (\<Sum>i<length ws. m * (ws ! i))"
    by (simp add: sum_list_sum_nth atLeast0LessThan sum_distrib_left)
  also have "\<dots> = (\<Sum>i<length ws. shareFloors m ws ! i * sum_list ws + shareRem m ws i)"
    by (rule sum.cong) (simp_all add: shareFloors_def shareRem_def)
  finally show ?thesis
    by (simp add: sum.distrib sum_list_sum_nth atLeast0LessThan sum_distrib_right [symmetric] shareFloors_def)
qed

lemma left_rem: "shareLeft m ws * sum_list ws = (\<Sum>i<length ws. shareRem m ws i)" and shares_le: "sum_list (shareFloors m ws) \<le> m"
  if pos: "sum_list ws > 0"
proof -
  have "sum_list (shareFloors m ws) * sum_list ws \<le> m * sum_list ws" using sum_rem [of m ws] by linarith
  then show "sum_list (shareFloors m ws) \<le> m" using pos by simp
  then show "shareLeft m ws * sum_list ws = (\<Sum>i<length ws. shareRem m ws i)" using sum_rem [of m ws] by (simp add: shareLeft_def diff_mult_distrib)
qed

text \<open>The parts that get a unit have a remainder.\<close>

lemma order_sorted:
  assumes "k \<le> j" "j < length ws"
  shows "shareRem m ws (shareOrder m ws ! j) \<le> shareRem m ws (shareOrder m ws ! k)"
proof -
  have "sorted (map (\<lambda>i. - int (shareRem m ws i)) (shareOrder m ws))" by (simp add: shareOrder_def)
  then have "map (\<lambda>i. - int (shareRem m ws i)) (shareOrder m ws) ! k \<le> map (\<lambda>i. - int (shareRem m ws i)) (shareOrder m ws) ! j"
    using assms by (intro sorted_nth_mono) (simp_all add: order_length)
  then show ?thesis using assms by (simp add: order_length)
qed

lemma sum_order: "(\<Sum>i<length ws. shareRem m ws i) = (\<Sum>k<length ws. shareRem m ws (shareOrder m ws ! k))"
proof -
  have "(\<Sum>i<length ws. shareRem m ws i) = sum_list (map (shareRem m ws) (shareOrder m ws))"
    using order_set order_distinct by (simp add: sum_list_distinct_conv_sum_set)
  then show ?thesis by (simp add: sum_list_sum_nth order_length atLeast0LessThan)
qed

lemma rem_given:
  assumes "j < shareLeft m ws" "j < length ws" and pos: "sum_list ws > 0"
  shows "shareRem m ws (shareOrder m ws ! j) > 0"
proof (rule ccontr)
  assume "\<not> shareRem m ws (shareOrder m ws ! j) > 0"
  then have zero: "shareRem m ws (shareOrder m ws ! k) = 0" if "j \<le> k" "k < length ws" for k using order_sorted [OF that] \<open>\<not> shareRem m ws (shareOrder m ws ! j) > 0\<close>
    by (metis bot_nat_0.not_eq_extremum le_zero_eq)
  have "(\<Sum>k<length ws. shareRem m ws (shareOrder m ws ! k)) = (\<Sum>k<j. shareRem m ws (shareOrder m ws ! k))"
    using assms(2) zero by (intro sum.mono_neutral_right) auto
  also have "\<dots> \<le> (\<Sum>k<j. sum_list ws)" using pos by (intro sum_mono) (simp add: shareRem_def less_imp_le)
  also have "\<dots> < shareLeft m ws * sum_list ws" using assms(1) pos by (simp add: mult_strict_right_mono)
  finally show False using left_rem [OF pos, of m] sum_order by simp
qed

lemma left_le: "sum_list ws > 0 \<Longrightarrow> shareLeft m ws \<le> length (shareOrder m ws)"
proof -
  assume pos: "sum_list ws > 0"
  have "(\<Sum>i<length ws. shareRem m ws i) \<le> (\<Sum>i<length ws. sum_list ws)" using pos by (intro sum_mono) (simp add: shareRem_def less_imp_le)
  then have "shareLeft m ws * sum_list ws \<le> length ws * sum_list ws" using left_rem [OF pos, of m] by simp
  then show ?thesis using pos by (simp add: order_length)
qed

lemma split_parts_length: "sum_list ws > 0 \<Longrightarrow> length (allocateParts m ws) = length ws"
  using giveOne_nth(1) [where parts = "shareFloors m ws", OF order_distinct _ left_le] order_set by (simp add: allocateParts_def shareFloors_def)

lemma split_part_nth:
  assumes "i < length ws" and pos: "sum_list ws > 0"
  shows "allocateParts m ws ! i = shareFloors m ws ! i + (if i \<in> set (take (shareLeft m ws) (shareOrder m ws)) then 1 else 0)"
  using giveOne_nth(2) [where parts = "shareFloors m ws" and i = i, OF order_distinct _ left_le [OF assms(2)]] order_set assms
  by (simp add: allocateParts_def shareFloors_def)

lemma split_parts_sum:
  assumes pos: "sum_list ws > 0"
  shows "sum_list (allocateParts m ws) = m"
proof -
  have "sum_list (allocateParts m ws) = (\<Sum>i<length ws. shareFloors m ws ! i + (if i \<in> set (take (shareLeft m ws) (shareOrder m ws)) then 1 else 0))"
    unfolding sum_list_sum_nth atLeast0LessThan split_parts_length [OF pos]
    by (rule sum.cong) (simp_all only: split_part_nth pos lessThan_iff)
  also have "\<dots> = (\<Sum>i<length ws. shareFloors m ws ! i) + length (take (shareLeft m ws) (shareOrder m ws))"
    using order_distinct order_set set_take_subset by (intro sum_list_indicator) (auto dest: in_set_takeD)
  also have "\<dots> = sum_list (shareFloors m ws) + shareLeft m ws"
    using left_le [OF pos, of m] by (simp add: sum_list_sum_nth atLeast0LessThan shareFloors_def)
  finally show ?thesis using shares_le [OF pos, of m] by (simp add: shareLeft_def)
qed

lemma split_part_close:
  assumes "i < length ws" and pos: "sum_list ws > 0"
  shows "\<bar>int (allocateParts m ws ! i) * int (sum_list ws) - int m * int (ws ! i)\<bar> < int (sum_list ws)"
proof -
  let ?q = "shareFloors m ws ! i"
  have q: "m * ws ! i = ?q * sum_list ws + shareRem m ws i" using assms(1) by (simp add: shareFloors_def shareRem_def)
  then have iq: "int m * int (ws ! i) = int ?q * int (sum_list ws) + int (shareRem m ws i)" by (metis of_nat_add of_nat_mult)
  have r: "shareRem m ws i < sum_list ws" using pos by (simp add: shareRem_def)
  show ?thesis
  proof (cases "i \<in> set (take (shareLeft m ws) (shareOrder m ws))")
    case True
    then obtain j where "j < shareLeft m ws" "j < length ws" "shareOrder m ws ! j = i"
      by (auto simp: in_set_conv_nth order_length)
    then have "shareRem m ws i > 0" using rem_given [OF _ _ pos] by auto
    then show ?thesis using True iq r split_part_nth [OF assms] by (simp add: algebra_simps)
  next
    case False
    then show ?thesis using iq r split_part_nth [OF assms] by (simp add: algebra_simps)
  qed
qed



text \<open>
  C13: \<open>allocate\<close> splits without loss. The parts are as many as the weights, they add up to the amount
  exactly, and each part differs from its exact share of the amount by less than one unit (so a share
  that is whole is met exactly, and a weight of zero gets zero).
\<close>
theorem allocate_exact:
  assumes "allocate a weights = Inr parts"
  shows "length parts = length weights \<and> sum_list parts = js_floor a \<and>
    (\<forall>i<length weights. \<bar>parts ! i * sum_list (map js_floor weights) - js_floor a * js_floor (weights ! i)\<bar>
        < sum_list (map js_floor weights))"
proof -
  define ws where "ws = map (\<lambda>w. nat (js_floor w)) weights"
  define sg :: int where "sg = (if js_floor a < 0 then -1 else 1)"
  have "sum_list ws \<noteq> 0" using assms by (auto simp: allocate_def ws_def split: if_splits)
  then have tot: "sum_list ws > 0" by (metis gr0I)
  have pos: "\<forall>w \<in> set weights. js_floor w \<ge> 0" and parts: "parts = map (\<lambda>p. sg * int p) (allocateParts (nat \<bar>js_floor a\<bar>) ws)"
    using assms unfolding allocate_def ws_def sg_def
    by (simp_all add: Let_def split: if_splits) (auto simp: list_all_iff floor_nonneg)
  have ws: "map js_floor weights = map int ws" using pos by (simp add: ws_def)
  have len: "length ws = length weights" by (simp add: ws_def)
  have W: "sum_list (map js_floor weights) = int (sum_list ws)"
    unfolding ws by (induction ws) simp_all
  have amount: "sg * \<bar>js_floor a\<bar> = js_floor a" by (simp add: sg_def)
  have "sum_list parts = sg * int (sum_list (allocateParts (nat \<bar>js_floor a\<bar>) ws))"
  proof -
    have "(\<Sum>p\<leftarrow>ps. sg * int p) = sg * int (sum_list ps)" for ps by (induction ps) (simp_all add: algebra_simps)
    then show ?thesis by (simp add: parts)
  qed
  moreover have "\<bar>parts ! i * sum_list (map js_floor weights) - js_floor a * js_floor (weights ! i)\<bar>
        < sum_list (map js_floor weights)" if "i < length weights" for i
  proof -
    let ?p = "int (allocateParts (nat \<bar>js_floor a\<bar>) ws ! i)" and ?w = "int (ws ! i)"
    have "parts ! i = sg * ?p" using that split_parts_length [OF tot] len by (simp add: parts)
    moreover have "js_floor (weights ! i) = ?w" using that ws by (metis len nth_map)
    ultimately have eq: "parts ! i * int (sum_list ws) - js_floor a * js_floor (weights ! i) =
        sg * (?p * int (sum_list ws) - \<bar>js_floor a\<bar> * ?w)"
      using amount by (simp add: algebra_simps)
    have "\<bar>sg * x\<bar> = \<bar>x\<bar>" for x by (simp add: sg_def)
    then show ?thesis
      using split_part_close [OF _ tot, of i "nat \<bar>js_floor a\<bar>"] that len unfolding W eq by simp
  qed
  ultimately show ?thesis using split_parts_sum [OF tot] split_parts_length [OF tot] len amount by (simp add: parts)
qed

text \<open>Ten units over three equal weights, with a weight of zero.\<close>
theorem allocate_exact_witness:
  "allocate (js_int (- 10)) [js_int 1, js_int 1, js_int 0, js_int 1] = Inr [- 4, - 3, 0, - 3] \<and>
   sum_list [- 4, - 3, 0, - 3 :: int] = js_floor (js_int (- 10))"
proof -
  have a: "allocate (js_int (- 10)) [js_int 1, js_int 1, js_int 0, js_int 1] = Inr [- 4, - 3, 0, - 3]"
  proof -
    have "allocateParts 10 [1, 1, 0, 1] = [4, 3, 0, 3]" by code_simp
    then show ?thesis by (simp add: allocate_def js_isSafeInteger_def MAX_SAFE_INTEGER_def)
  qed
  show ?thesis using a allocate_exact [OF a] by blast
qed

theorem amount_text_roundtrip_witness:
  "\<exists>t. moneyDecimalString (js_int (- 123456)) 2 = Inr t \<and>
    parseAmount \<lparr>glyph = (\<lambda>d. [48 + d]), groupParts = (\<lambda>_. []), markParts = [], fractionDigits = (\<lambda>_. Inr (Some 2))\<rparr>
      (map (\<lambda>c. if c = 46 then 44 else c) (u t)) (u ''EUR'') \<lparr>decimalMark = 44, groupMark = Some 46\<rparr> None
      (Some (js_int (int 2))) = Inr (Inr (- 123456))"
  using amount_text_roundtrip [of "js_int (- 123456)" "u ''EUR''" 2 44 _ "Some 46"]
  by (simp add: js_isSafeInteger_def MAX_SAFE_INTEGER_def code_def trimUnits_def isSpace_def)

end
