(* ===== verification/Exchange.thy ===== *)
theory Exchange
  imports Money
begin

text \<open>
  The second half of \<open>platform/universal/money-core.ts\<close>: formatting over \<open>Intl\<close>, the currency picker, and
  exchange rates. Rates are decimal strings, read as exact fractions; conversion rounds once, half
  away from zero; a derived rate keeps twenty significant digits. The loop that finds the number of
  places is a partial function, and is proved to return for every valid pair of rates.
\<close>

section \<open>Formatting\<close>

datatype formatPart = CurrencySymbolPart | TextPart string

text \<open>
  \<open>formatter currency decimals\<close> is \<open>new Intl.NumberFormat\<close> for the locale and sign display, as its
  \<open>formatToParts\<close>; it throws for a code or a locale \<open>Intl\<close> refuses.
\<close>

type_synonym formatter = "units \<Rightarrow> nat \<Rightarrow> js_error + (string \<Rightarrow> (formatPart \<times> units) list)"

definition moneyFormatter :: "formatter \<Rightarrow> units \<Rightarrow> nat \<Rightarrow> (string \<Rightarrow> (formatPart \<times> units) list) option" where
  "moneyFormatter fmt currency decimals = (case fmt currency decimals of Inl _ \<Rightarrow> None | Inr f \<Rightarrow> Some f)"

definition formatMoneyParts ::
  "intl \<Rightarrow> formatter \<Rightarrow> jsnum \<Rightarrow> units \<Rightarrow> jsnum option \<Rightarrow> js_error + (formatPart \<times> units) list" where
  "formatMoneyParts loc fmt amount currency decimalsOption =
     andThen (currencyDecimals loc currency decimalsOption) (\<lambda>decimals.
     andThen (moneyDecimalString amount decimals) (\<lambda>digits.
       case moneyFormatter fmt currency decimals of
         Some f \<Rightarrow> Inr (f digits)
       | None \<Rightarrow> andThen (fmt (u ''XXX'') decimals) (\<lambda>placeholder.
           Inr (map (\<lambda>(ty, v). if ty = CurrencySymbolPart then (ty, currency) else (ty, v)) (placeholder digits)))))"

definition formatMoney :: "intl \<Rightarrow> formatter \<Rightarrow> jsnum \<Rightarrow> units \<Rightarrow> jsnum option \<Rightarrow> js_error + units" where
  "formatMoney loc fmt amount currency decimalsOption =
     andThen (formatMoneyParts loc fmt amount currency decimalsOption) (\<lambda>parts. Inr (concat (map snd parts)))"

section \<open>The currency picker\<close>

record CustomCurrency =
  customCode :: units
  customName :: units
  customDecimals :: jsnum

record CurrencyOption =
  optionCode :: units
  optionName :: units
  optionSymbol :: units
  optionDecimals :: nat
  aliases :: "units list"

definition CUSTOM_CODE :: "units \<Rightarrow> bool" where
  "CUSTOM_CODE c \<longleftrightarrow> 2 \<le> length c \<and> length c \<le> 12 \<and> list_all (\<lambda>x. isDigitU x \<or> 65 \<le> x \<and> x \<le> 90) c"

definition MAX_CUSTOM_DECIMALS :: int where "MAX_CUSTOM_DECIMALS = 8"

definition distinctAliases :: "units list \<Rightarrow> units \<Rightarrow> units list" where
  "distinctAliases as name = filter (\<lambda>a. a \<noteq> name) (rev (remdups (rev as)))"

text \<open>What \<open>Intl\<close> prints for a code: its names (perhaps none), its symbol and its narrow symbol.\<close>

record pickerIntl =
  displayName :: "units \<Rightarrow> units option"
  englishName :: "units \<Rightarrow> units option"
  symbolOf :: "units \<Rightarrow> units option"
  narrowSymbolOf :: "units \<Rightarrow> units option"
  collate :: "units \<Rightarrow> units \<Rightarrow> int"

definition isoRow :: "pickerIntl \<Rightarrow> string \<times> nat \<Rightarrow> CurrencyOption" where
  "isoRow p entry =
     (let code = u (fst entry);
          name = orElse (displayName p code) code;
          symbol = orElse (symbolOf p code) code;
          narrow = orElse (narrowSymbolOf p code) code;
          as = [code, orElse (englishName p code) code, symbol, narrow]
      in \<lparr>optionCode = code, optionName = name, optionSymbol = symbol, optionDecimals = snd entry,
          aliases = distinctAliases as name\<rparr>)"

fun addCustom :: "CustomCurrency list \<Rightarrow> units list \<Rightarrow> CurrencyOption list \<Rightarrow> js_error + CurrencyOption list" where
  "addCustom [] seen rows = Inr rows"
| "addCustom (c # cs) seen rows =
     (if \<not> CUSTOM_CODE (customCode c) then Inl (RangeErr ''a custom currency code is 2 to 12 capital letters or digits'')
      else if isCurrencyCode (customCode c) then Inl (RangeErr ''is an ISO 4217 code, not a custom one'')
      else if customCode c \<in> set seen then Inl (RangeErr ''custom currency is given twice'')
      else if trimUnits (customName c) = [] then Inl (RangeErr ''custom currency needs a name'')
      else if \<not> js_isInteger (customDecimals c) \<or> js_less (customDecimals c) (Fin 0) \<or>
              js_less (js_int MAX_CUSTOM_DECIMALS) (customDecimals c)
      then Inl (RangeErr ''custom currency decimals must be 0 to 8'')
      else addCustom cs (customCode c # seen)
        (rows @ [\<lparr>optionCode = customCode c, optionName = customName c, optionSymbol = customCode c,
                  optionDecimals = nat (js_floor (customDecimals c)),
                  aliases = distinctAliases [customCode c] (customName c)\<rparr>]))"

text \<open>\<open>sort\<close> is stable: an equal later row stays later.\<close>

fun insertRow :: "(CurrencyOption \<Rightarrow> CurrencyOption \<Rightarrow> int) \<Rightarrow> CurrencyOption \<Rightarrow> CurrencyOption list \<Rightarrow> CurrencyOption list" where
  "insertRow cmp r [] = [r]"
| "insertRow cmp r (x # xs) = (if cmp r x \<le> 0 then r # x # xs else x # insertRow cmp r xs)"

definition compareRows :: "pickerIntl \<Rightarrow> CurrencyOption \<Rightarrow> CurrencyOption \<Rightarrow> int" where
  "compareRows p a b =
     (let c = collate p (optionName a) (optionName b)
      in if c \<noteq> 0 then c else collate p (optionCode a) (optionCode b))"

definition currencyOptions :: "pickerIntl \<Rightarrow> CustomCurrency list \<Rightarrow> js_error + CurrencyOption list" where
  "currencyOptions p extra =
     andThen (addCustom extra [] (map (isoRow p) currencies)) (\<lambda>rows.
       Inr (foldr (insertRow (compareRows p)) rows []))"

section \<open>Exchange rates\<close>

record ExchangeRate =
  base :: units
  quote :: units
  rate :: units
  date :: units
  source :: units

datatype ConvertError = NoRate | WrongPair | Unsafe

definition RATE_PATTERN :: "units \<Rightarrow> (units \<times> units) option" where
  "RATE_PATTERN t =
     (case splitUnits 46 t of
        [a] \<Rightarrow> if a \<noteq> [] \<and> list_all isDigitU a then Some (a, []) else None
      | [a, b] \<Rightarrow> if a \<noteq> [] \<and> b \<noteq> [] \<and> list_all isDigitU a \<and> list_all isDigitU b then Some (a, b) else None
      | _ \<Rightarrow> None)"

definition DATE_PATTERN :: "units \<Rightarrow> bool" where
  "DATE_PATTERN t \<longleftrightarrow> length t = 10 \<and>
     list_all (\<lambda>(i, c). if i = 4 \<or> i = 7 then c = 45 else isDigitU c) (enumerate 0 t)"

definition rateFraction :: "ExchangeRate \<Rightarrow> js_error + (nat \<times> nat)" where
  "rateFraction r =
     andThen (checkedCurrency (base r)) (\<lambda>_. andThen (checkedCurrency (quote r)) (\<lambda>_.
       case RATE_PATTERN (rate r) of
         None \<Rightarrow> Inl (RangeErr ''an exchange rate is a decimal string above zero'')
       | Some (a, b) \<Rightarrow>
           if readU (a @ b) = 0 then Inl (RangeErr ''an exchange rate is a decimal string above zero'')
           else if \<not> DATE_PATTERN (date r) then Inl (RangeErr ''an exchange rate date is YYYY-MM-DD'')
           else Inr (readU (a @ b), 10 ^ length b)))"

definition divideHalfAwayFromZero :: "int \<Rightarrow> int \<Rightarrow> int" where
  "divideHalfAwayFromZero numerator denominator =
     (let magnitude = (if numerator < 0 then - numerator else numerator);
          quotient = magnitude div denominator;
          quotient' = (if (magnitude mod denominator) * 2 \<ge> denominator then quotient + 1 else quotient)
      in if numerator < 0 then - quotient' else quotient')"

definition convertMoney ::
  "intl \<Rightarrow> jsnum \<Rightarrow> units \<Rightarrow> units \<Rightarrow> ExchangeRate option \<Rightarrow> jsnum option \<Rightarrow> jsnum option \<Rightarrow>
   js_error + (ConvertError + int)" where
  "convertMoney en amount from to theRate fromDecimalsOption toDecimalsOption =
     (if \<not> js_isSafeInteger amount then Inl (RangeErr ''money amount must be a safe integer'')
      else
       andThen (currencyDecimals en from fromDecimalsOption) (\<lambda>fromDecimals.
       andThen (currencyDecimals en to toDecimalsOption) (\<lambda>toDecimals.
         if from = to then Inr (Inr (js_floor amount))
         else case theRate of None \<Rightarrow> Inr (Inl NoRate)
         | Some r \<Rightarrow>
             andThen (rateFraction r) (\<lambda>(rateUnits, rateScale).
               let numerator = js_floor amount * 10 ^ toDecimals;
                   denominator = 10 ^ fromDecimals;
                   fraction =
                     (if base r = from \<and> quote r = to
                      then Some (numerator * int rateUnits, denominator * int rateScale)
                      else if base r = to \<and> quote r = from
                      then Some (numerator * int rateScale, denominator * int rateUnits)
                      else None)
               in case fraction of None \<Rightarrow> Inr (Inl WrongPair)
                  | Some (n, d) \<Rightarrow>
                      let result = divideHalfAwayFromZero n d
                      in Inr (if isSafeBigInt result then Inr result else Inl Unsafe)))))"

definition CROSS_RATE_DIGITS :: nat where "CROSS_RATE_DIGITS = 20"

text \<open>The loop over the places; a call that would not end is \<open>None\<close>.\<close>

partial_function (option) placesLoop :: "nat \<Rightarrow> nat \<Rightarrow> nat \<Rightarrow> nat \<Rightarrow> nat option" where
  "placesLoop numerator denominator least places =
     (if numerator * 10 ^ places div denominator < least then placesLoop numerator denominator least (places + 1)
      else Some places)"

definition decimalText :: "nat \<Rightarrow> nat \<Rightarrow> units" where
  "decimalText scaled places =
     (let txt = u (padStart (places + 1) (CHR ''0'') (show_nat scaled));
          cut = length txt - places;
          frac = rev (dropWhile (\<lambda>c. c = 48) (rev (drop cut txt)))
      in if frac = [] then take cut txt else take cut txt @ [46] @ frac)"

definition significantDecimal :: "nat \<Rightarrow> nat \<Rightarrow> nat \<Rightarrow> units option" where
  "significantDecimal numerator denominator digits =
     map_option (\<lambda>places.
         decimalText (nat (divideHalfAwayFromZero (int (numerator * 10 ^ places)) (int denominator))) places)
       (placesLoop numerator denominator (10 ^ (digits - 1)) 0)"

text \<open>\<open>a < b\<close> on strings.\<close>

fun lessUnits :: "units \<Rightarrow> units \<Rightarrow> bool" where
  "lessUnits _ [] = False"
| "lessUnits [] (y # ys) = True"
| "lessUnits (x # xs) (y # ys) = (x < y \<or> x = y \<and> lessUnits xs ys)"

text \<open>The result: \<open>None\<close> when it would not return; a throw; \<open>wrong-pair\<close>; or the derived rate.\<close>

definition crossRate :: "ExchangeRate \<Rightarrow> ExchangeRate \<Rightarrow> (js_error + (ConvertError + ExchangeRate)) option" where
  "crossRate left right =
     (case andThen (rateFraction left) (\<lambda>l. andThen (rateFraction right) (\<lambda>r. Inr (l, r))) of
        Inl e \<Rightarrow> Some (Inl e)
      | Inr ((leftUnits, leftScale), (rightUnits, rightScale)) \<Rightarrow>
          let shared = filter (\<lambda>code. code = base right \<or> code = quote right) [base left, quote left]
          in if length shared \<noteq> 1 then Some (Inr (Inl WrongPair))
             else let common = hd shared;
                 (aUnits, aScale) = (if base left = common then (leftUnits, leftScale) else (leftScale, leftUnits));
                 (bUnits, bScale) = (if base right = common then (rightUnits, rightScale) else (rightScale, rightUnits))
             in map_option (\<lambda>text. Inr (Inr
                  \<lparr>base = (if base left = common then quote left else base left),
                   quote = (if base right = common then quote right else base right),
                   rate = text,
                   date = (if lessUnits (date left) (date right) then date left else date right),
                   source = (if source left = source right then source left
                             else source left @ u '', '' @ source right)\<rparr>))
                (significantDecimal (bUnits * aScale) (bScale * aUnits) CROSS_RATE_DIGITS))"

section \<open>Conversion is exact up to one rounding\<close>

text \<open>The rounding of the contract, on rational numbers: half away from zero.\<close>

definition halfAway :: "rat \<Rightarrow> int" where
  "halfAway x = (if x < 0 then - \<lfloor>- x + 1 / 2\<rfloor> else \<lfloor>x + 1 / 2\<rfloor>)"

lemma half_up_div:
  fixes m d :: int
  assumes "d > 0" "m \<ge> 0"
  shows "(if (m mod d) * 2 \<ge> d then m div d + 1 else m div d) = (2 * m + d) div (2 * d)"
proof -
  define q r where "q = m div d" and "r = m mod d"
  have m: "m = d * q + r" and r: "0 \<le> r" "r < d" using assms by (simp_all add: q_def r_def)
  have "(2 * m + d) div (2 * d) = q + (2 * r + d) div (2 * d)"
  proof -
    have eq: "2 * m + d = (2 * r + d) + q * (2 * d)" by (simp add: m algebra_simps)
    show ?thesis unfolding eq using assms(1) by (subst div_mult_self1) simp_all
  qed
  moreover have "(2 * r + d) div (2 * d) = (if r * 2 \<ge> d then 1 else 0)"
  proof (cases "r * 2 \<ge> d")
    case True
    have "(2 * r + d) div (2 * d) = (2 * r - d + 1 * (2 * d)) div (2 * d)" by (simp add: algebra_simps)
    also have "\<dots> = (2 * r - d) div (2 * d) + 1" using assms(1) by (subst div_mult_self1) auto
    also have "(2 * r - d) div (2 * d) = 0" using True r by (intro div_pos_pos_trivial) auto
    finally show ?thesis using True by simp
  qed (use r assms in \<open>auto intro: div_pos_pos_trivial\<close>)
  ultimately show ?thesis by (simp add: q_def r_def)
qed

lemma divideHalfAway_exact:
  assumes "d > 0"
  shows "divideHalfAwayFromZero n d = halfAway (of_int n / of_int d)"
proof -
  have up: "\<lfloor>of_int m / of_int d + 1 / 2 :: rat\<rfloor> = (if (m mod d) * 2 \<ge> d then m div d + 1 else m div d)"
    if "m \<ge> 0" for m
  proof -
    have "of_int m / of_int d + 1 / 2 = (of_int (2 * m + d) / of_int (2 * d) :: rat)"
      using assms by (simp add: field_simps)
    then show ?thesis using half_up_div [OF assms that] by (simp only: floor_divide_of_int_eq)
  qed
  have neg: "(of_int n / of_int d :: rat) < 0 \<longleftrightarrow> n < 0" using assms by (simp add: divide_less_0_iff)
  show ?thesis
    using up [of n] up [of "- n"] neg by (simp add: divideHalfAwayFromZero_def halfAway_def Let_def)
qed

text \<open>A rate's value, and the exact amount it converts to.\<close>

definition rateValue :: "nat \<times> nat \<Rightarrow> rat" where
  "rateValue p = of_nat (fst p) / of_nat (snd p)"

lemma rateFraction_pos: "rateFraction r = Inr (p, q) \<Longrightarrow> p > 0 \<and> q > 0"
  by (auto simp: rateFraction_def checkedCurrency_def split: if_splits option.splits)

text \<open>
  C14: \<open>convertMoney\<close> is exact with one rounding. For a well-formed rate of the two currencies, quoted either
  way round, the answer is the exact rational amount (scaled by the decimals of the two sides, times
  the rate or divided by it) rounded half away from zero once, and \<open>unsafe\<close> exactly when that leaves
  the safe range; a rate for another pair is \<open>wrong-pair\<close>.
\<close>
theorem convert_exact:
  assumes "js_isSafeInteger amount" "currencyDecimals en from fd = Inr f" "currencyDecimals en to td = Inr t"
    and "from \<noteq> to" "rateFraction r = Inr v"
    and x: "x = of_int (js_floor amount) * 10 ^ t / 10 ^ f *
      (if base r = from \<and> quote r = to then rateValue v else 1 / rateValue v)"
  shows "convertMoney en amount from to (Some r) fd td =
    Inr (if {base r, quote r} = {from, to}
         then (if isSafeBigInt (halfAway x) then Inr (halfAway x) else Inl Unsafe) else Inl WrongPair)"
proof -
  obtain p q where v: "v = (p, q)" by (cases v)
  then have pq: "p > 0" "q > 0" using rateFraction_pos assms(5) by auto
  have a: "divideHalfAwayFromZero (js_floor amount * 10 ^ t * int n) (10 ^ f * int d) =
      halfAway (of_int (js_floor amount) * 10 ^ t / 10 ^ f * (of_nat n / of_nat d))" if "d > 0" for n d
    using that by (subst divideHalfAway_exact) simp_all
  have "x = of_int (js_floor amount) * 10 ^ t / 10 ^ f *
      (if base r = from \<and> quote r = to then of_nat p / of_nat q else of_nat q / of_nat p)"
    using x by (simp add: rateValue_def v)
  then show ?thesis
    using assms(1-5) v a [OF pq(1), of q] a [OF pq(2), of p] assms(4)
    by (auto simp: convertMoney_def Let_def doubleton_eq_iff mult.commute [of "10 ^ f :: rat"])
qed

section \<open>Derived rates\<close>

lemma places_loop_total:
  assumes "n > 0" "d > 0"
  shows "\<exists>q. placesLoop n d least p = Some q \<and> p \<le> q \<and> least \<le> n * 10 ^ q div d"
proof (induction "least * d - n * 10 ^ p" arbitrary: p rule: less_induct)
  case less
  show ?case
  proof (cases "n * 10 ^ p div d < least")
    case True
    then have "n * 10 ^ p < least * d" using assms(2) by (simp add: div_less_iff_less_mult)
    moreover have "n * 10 ^ p < n * 10 ^ (p + 1)" using assms(1) by simp
    ultimately have "least * d - n * 10 ^ (p + 1) < least * d - n * 10 ^ p" by (rule diff_less_mono2 [rotated])
    from less [OF this] show ?thesis using True
      by (subst placesLoop.simps) (auto intro: Suc_leD)
  next
    case False
    then show ?thesis by (subst placesLoop.simps) simp
  qed
qed

text \<open>
  The loop that looks for enough decimal places returns for every positive fraction, with places that
  give at least the digits asked for.
\<close>
theorem places_loop_returns:
  assumes "n > 0" "d > 0"
  shows "\<exists>q. placesLoop n d least p = Some q \<and> p \<le> q \<and> least \<le> n * 10 ^ q div d"
  using places_loop_total [OF assms] .

theorem places_loop_returns_witness:
  "\<exists>q. placesLoop 1 300 1000 0 = Some q \<and> 0 \<le> q \<and> (1000 :: nat) \<le> 1 * 10 ^ q div 300"
  using places_loop_returns [of 1 300 1000 0] by simp

lemma trailing_zeros: "\<exists>k. s = rev (dropWhile (\<lambda>c. c = 48) (rev s)) @ replicate k 48" for s :: units
proof -
  let ?z = "takeWhile (\<lambda>c. c = 48) (rev s)"
  have "rev s = ?z @ dropWhile (\<lambda>c. c = 48) (rev s)" by simp
  then have "s = rev (dropWhile (\<lambda>c. c = 48) (rev s)) @ rev ?z" by (metis rev_append rev_rev_ident)
  moreover have "rev ?z = replicate (length ?z) 48"
    by (intro replicate_eqI) (auto dest: set_takeWhileD)
  ultimately show ?thesis by metis
qed

lemma decimalText_value:
  obtains a b where "RATE_PATTERN (decimalText s p) = Some (a, b)" "readU (a @ b) * 10 ^ p = s * 10 ^ length b"
proof -
  define tx where "tx = u (padStart (p + 1) (CHR ''0'') (show_nat s))"
  define a where "a = take (length tx - p) tx"
  define full where "full = drop (length tx - p) tx"
  define b where "b = rev (dropWhile (\<lambda>c. c = 48) (rev full))"
  have long: "length tx \<ge> p + 1" by (simp add: tx_def padStart_def)
  have digits: "list_all isDigitU tx"
    unfolding tx_def using show_nat_digits by (intro u_digits) (auto simp: allDigits_def padStart_def)
  have val: "readU tx = s" unfolding tx_def readU_u by simp
  have split: "tx = a @ full" "length full = p" "a \<noteq> []"
    using long by (auto simp: a_def full_def)
  obtain k where k: "full = b @ replicate k 48" using trailing_zeros unfolding b_def by blast
  have da: "list_all isDigitU a" "list_all isDigitU b" using digits split(1) k by auto
  have dot: "46 \<notin> set a" "46 \<notin> set b" using da by (auto simp: list_all_iff isDigitU_def)
  have "RATE_PATTERN (decimalText s p) = Some (a, b)"
  proof -
    have "decimalText s p = (if b = [] then a else a @ 46 # b)"
      unfolding decimalText_def tx_def [symmetric] Let_def full_def [symmetric] a_def [symmetric] b_def [symmetric] by simp
    then show ?thesis using da dot split(3) by (simp add: RATE_PATTERN_def)
  qed
  moreover have "readU (a @ b) * 10 ^ p = s * 10 ^ length b"
  proof -
    have "s = readU (a @ b) * 10 ^ k" using val split(1) k readU_append [of "a @ b" "replicate k 48"] by simp
    moreover have "p = length b + k" using split(2) k by simp
    ultimately show ?thesis by (simp add: power_add)
  qed
  ultimately show thesis using that by blast
qed

lemma halfAway_close: "\<bar>of_int (halfAway x) - x\<bar> \<le> 1 / 2"
proof -
  have "\<bar>of_int \<lfloor>y + 1 / 2\<rfloor> - y\<bar> \<le> 1 / 2" for y :: rat
    using floor_correct [of "y + 1 / 2"] by linarith
  from this [of x] this [of "- x"] show ?thesis unfolding halfAway_def by (cases "x < 0"; simp only: if_True if_False of_int_minus; linarith)
qed

lemma halfAway_nonneg: "x \<ge> 0 \<Longrightarrow> halfAway x \<ge> 0"
  by (simp add: halfAway_def)

lemma halfAway_ge: "x \<ge> of_nat k \<Longrightarrow> halfAway x \<ge> int k"
  by (simp add: halfAway_def le_floor_iff)

text \<open>A derived text is a rate, within half a unit of its last place of the exact fraction.\<close>

lemma significantDecimal_close:
  assumes "n > 0" "d > 0"
  shows "\<exists>t a b. significantDecimal n d (Suc k) = Some t \<and> RATE_PATTERN t = Some (a, b) \<and> readU (a @ b) > 0 \<and>
    \<bar>of_nat (readU (a @ b)) / 10 ^ length b - of_nat n / of_nat d\<bar> * (2 * 10 ^ k) \<le> (of_nat n / of_nat d :: rat)"
proof -
  obtain q where q: "placesLoop n d (10 ^ k) 0 = Some q" "10 ^ k \<le> n * 10 ^ q div d"
    using places_loop_total [OF assms] by blast
  define y :: rat where "y = of_nat n / of_nat d"
  define s where "s = nat (halfAway (y * 10 ^ q))"
  have div: "divideHalfAwayFromZero (int (n * 10 ^ q)) (int d) = halfAway (y * 10 ^ q)"
    using assms by (subst divideHalfAway_exact) (simp_all add: y_def)
  have big: "of_nat (10 ^ k) \<le> y * 10 ^ q"
  proof -
    have "10 ^ k * d \<le> n * 10 ^ q" using q(2) assms(2) by (simp add: less_eq_div_iff_mult_less_eq)
    then have "(of_nat (10 ^ k * d) :: rat) \<le> of_nat (n * 10 ^ q)" by (rule of_nat_mono)
    then show ?thesis using assms(2) by (simp add: y_def field_simps)
  qed
  have s: "of_nat s = (of_int (halfAway (y * 10 ^ q)) :: rat)" "s \<ge> 10 ^ k"
  proof -
    have z: "halfAway (y * 10 ^ q) \<ge> 10 ^ k" using halfAway_ge [OF big] by simp
    then have "halfAway (y * 10 ^ q) \<ge> 0" by (rule order_trans [rotated]) simp
    with z show "of_nat s = (of_int (halfAway (y * 10 ^ q)) :: rat)" "s \<ge> 10 ^ k"
      by (simp_all add: s_def le_nat_iff)
  qed
  obtain a b where ab: "RATE_PATTERN (decimalText s q) = Some (a, b)" "readU (a @ b) * 10 ^ q = s * 10 ^ length b"
    using decimalText_value .
  have "(of_nat (readU (a @ b) * 10 ^ q) :: rat) = of_nat (s * 10 ^ length b)" by (simp only: ab(2))
  then have val: "of_nat (readU (a @ b)) / 10 ^ length b = (of_nat s / 10 ^ q :: rat)" by (simp add: field_simps)
  have "\<bar>of_nat s - y * 10 ^ q\<bar> \<le> 1 / 2" using halfAway_close s(1) by simp
  moreover have "(of_nat s / 10 ^ q - y) * 10 ^ q = of_nat s - y * 10 ^ q" by (simp add: left_diff_distrib)
  ultimately have "\<bar>(of_nat s / 10 ^ q - y) * 10 ^ q\<bar> \<le> 1 / 2" by simp
  then have "\<bar>of_nat s / 10 ^ q - y\<bar> * 10 ^ q \<le> 1 / 2" by (simp add: abs_mult)
  then have "\<bar>of_nat s / 10 ^ q - y\<bar> * (2 * 10 ^ k) * 10 ^ q \<le> 10 ^ k" by (simp add: field_simps)
  also have "\<dots> \<le> y * 10 ^ q" using big by simp
  finally have "\<bar>of_nat s / 10 ^ q - y\<bar> * (2 * 10 ^ k) \<le> y" by simp
  moreover have "readU (a @ b) > 0"
  proof (rule ccontr)
    assume "\<not> ?thesis"
    then have "s = 0" using ab(2) by simp
    then show False using s(2) by simp
  qed
  moreover have "significantDecimal n d (Suc k) = Some (decimalText s q)"
    using q(1) div by (simp add: significantDecimal_def s_def)
  ultimately show ?thesis using ab(1) val unfolding y_def by metis
qed

text \<open>
  A rate as "one \<open>common\<close> buys this much of the other currency".
\<close>

definition perCommon :: "ExchangeRate \<Rightarrow> units \<Rightarrow> nat \<times> nat \<Rightarrow> rat" where
  "perCommon r common v = (if base r = common then rateValue v else 1 / rateValue v)"

text \<open>
  \<open>crossRate\<close> derives a usable, accurate rate. From two valid rates that share exactly one currency it
  returns a rate between the two others that \<open>convertMoney\<close> accepts (its text and date are well formed, its
  value is above zero) and whose relative error to the exact quotient is at most half a unit in the
  twentieth digit.
\<close>
theorem cross_rate_accurate:
  assumes "rateFraction left = Inr lv" "rateFraction right = Inr rv"
    and "filter (\<lambda>c. c = base right \<or> c = quote right) [base left, quote left] = [common]"
    and e: "e = perCommon right common rv / perCommon left common lv"
  shows "\<exists>x v. crossRate left right = Some (Inr (Inr x)) \<and> rateFraction x = Inr v \<and>
    base x = (if base left = common then quote left else base left) \<and>
    quote x = (if base right = common then quote right else base right) \<and>
    \<bar>rateValue v - e\<bar> * (2 * 10 ^ 19) \<le> e"
proof -
  obtain lu ls ru rs where lr: "lv = (lu, ls)" "rv = (ru, rs)" by (cases lv; cases rv)
  define A where "A = (if base left = common then (lu, ls) else (ls, lu))"
  define B where "B = (if base right = common then (ru, rs) else (rs, ru))"
  have pos: "lu > 0" "ls > 0" "ru > 0" "rs > 0" using assms(1,2) lr rateFraction_pos by blast+
  then have AB: "fst A > 0" "snd A > 0" "fst B > 0" "snd B > 0" by (simp_all add: A_def B_def)
  have e': "e = of_nat (fst B * snd A) / of_nat (snd B * fst A)"
    using pos by (simp add: e perCommon_def rateValue_def lr A_def B_def)
  obtain t a b where t: "significantDecimal (fst B * snd A) (snd B * fst A) (Suc 19) = Some t"
    "RATE_PATTERN t = Some (a, b)" "readU (a @ b) > 0"
    "\<bar>of_nat (readU (a @ b)) / 10 ^ length b - e\<bar> * (2 * 10 ^ 19) \<le> e"
    using significantDecimal_close [of "fst B * snd A" "snd B * fst A" 19] AB unfolding e' by auto
  define x where "x = \<lparr>base = (if base left = common then quote left else base left),
      quote = (if base right = common then quote right else base right), rate = t,
      date = (if lessUnits (date left) (date right) then date left else date right),
      source = (if source left = source right then source left else source left @ u '', '' @ source right)\<rparr>"
  have "crossRate left right = Some (Inr (Inr x))"
    using assms(1-3) t(1) by (simp add: crossRate_def lr Let_def A_def B_def x_def CROSS_RATE_DIGITS_def numeral_eq_Suc split: if_splits)
  moreover have "rateFraction x = Inr (readU (a @ b), 10 ^ length b)"
    using assms(1,2) t(2,3) by (auto simp: rateFraction_def x_def checkedCurrency_def split: if_splits option.splits)
  ultimately show ?thesis using t(4) by (auto simp: rateValue_def x_def)
qed

text \<open>An \<open>Intl\<close> that knows only two-digit currencies, for the witnesses.\<close>

definition plainIntl :: intl where
  "plainIntl = \<lparr>glyph = (\<lambda>d. [48 + d]), groupParts = (\<lambda>_. []), markParts = [], fractionDigits = (\<lambda>_. Inr (Some 2))\<rparr>"

definition sampleRate :: "string \<Rightarrow> string \<Rightarrow> string \<Rightarrow> ExchangeRate" where
  "sampleRate b q r = \<lparr>base = u b, quote = u q, rate = u r, date = u ''2026-01-02'', source = u ''ecb''\<rparr>"

lemma sample_fractions:
  "rateFraction (sampleRate ''EUR'' ''VND'' ''27500.5'') = Inr (275005, 10)"
  "rateFraction (sampleRate ''EUR'' ''USD'' ''1.1'') = Inr (11, 10)"
  by (simp_all add: rateFraction_def sampleRate_def checkedCurrency_def trimUnits_def code_def isSpace_def
      RATE_PATTERN_def isDigitU_def readU_def DATE_PATTERN_def)

lemma sample_decimals:
  "currencyDecimals plainIntl (u ''EUR'') (Some (js_int 2)) = Inr 2"
  "currencyDecimals plainIntl (u ''VND'') (Some (js_int 0)) = Inr 0"
  by (simp_all add: currencyDecimals_def checkedCurrency_def trimUnits_def code_def isSpace_def checkedDecimals_def)

text \<open>1.01 euro is 27775.505 dong, rounded to 27776.\<close>
theorem convert_exact_witness:
  "convertMoney plainIntl (js_int 101) (u ''EUR'') (u ''VND'') (Some (sampleRate ''EUR'' ''VND'' ''27500.5''))
     (Some (js_int 2)) (Some (js_int 0))
     = Inr (Inr 27776)"
proof -
  have names: "base (sampleRate ''EUR'' ''VND'' ''27500.5'') = u ''EUR''" "quote (sampleRate ''EUR'' ''VND'' ''27500.5'') = u ''VND''"
    "u ''EUR'' \<noteq> u ''VND''" by (simp_all add: sampleRate_def code_def)
  have r: "halfAway (5555101 / 200) = 27776" by (simp add: halfAway_def floor_eq_iff)
  show ?thesis
    by (subst convert_exact [OF _ sample_decimals names(3) sample_fractions(1) refl])
      (simp_all add: names rateValue_def js_isSafeInteger_def MAX_SAFE_INTEGER_def r isSafeBigInt_def)
qed

theorem cross_rate_accurate_witness:
  "\<exists>x v. crossRate (sampleRate ''EUR'' ''USD'' ''1.1'') (sampleRate ''EUR'' ''VND'' ''27500.5'') = Some (Inr (Inr x)) \<and>
    rateFraction x = Inr v \<and> base x = u ''USD'' \<and> quote x = u ''VND'' \<and>
    \<bar>rateValue v - 275005 / 11\<bar> * (2 * 10 ^ 19) \<le> 275005 / 11"
proof -
  have "filter (\<lambda>c. c = base (sampleRate ''EUR'' ''VND'' ''27500.5'') \<or> c = quote (sampleRate ''EUR'' ''VND'' ''27500.5''))
      [base (sampleRate ''EUR'' ''USD'' ''1.1''), quote (sampleRate ''EUR'' ''USD'' ''1.1'')] = [u ''EUR'']"
    by (simp add: sampleRate_def code_def)
  from cross_rate_accurate [OF sample_fractions(2,1) this refl]
  show ?thesis by (simp add: perCommon_def rateValue_def sampleRate_def)
qed

end
