(* ===== verification/CronRuns.thy ===== *)
theory CronRuns
  imports Cron
begin

text \<open>
  The specification of \<open>nextCronRun\<close> (\<open>time/cron.ts\<close>): the minutes a schedule names, and that the loop,
  which jumps over months, days and hours, returns the first of them after the moment. A well-formed
  schedule names one within 400 years, because the calendar repeats its weekdays every 400 years and
  every date falls on every weekday in between.
\<close>

text \<open>The minutes a schedule names.\<close>

definition runsAt :: "CronSchedule \<Rightarrow> int \<Rightarrow> bool" where
  "runsAt cron t \<longleftrightarrow> t mod CRON_MINUTE_MS = 0 \<and>
     (case civilOfDay (t div MS_PER_DAY) of (y, m, d) \<Rightarrow>
        nat m \<in> set (months cron) \<and> dayMatches cron (nat d) (nat (utcDay t)) \<and>
        nat (hourOf t) \<in> set (hours cron) \<and> nat (minuteOf t) \<in> set (minutes cron))"

section \<open>Calendar facts\<close>

lemma yearOfDay_mono: "n \<le> n' \<Longrightarrow> yearOfDay n \<le> yearOfDay n'"
proof (rule ccontr)
  assume n: "n \<le> n'" and "\<not> yearOfDay n \<le> yearOfDay n'"
  then have "yearOfDay n' + 1 \<le> yearOfDay n" by simp
  from dayFromYear_mono [OF this] show False
    using yearOfDay_bounds [of n] yearOfDay_bounds [of n'] n \<open>yearOfDay n' + 1 \<le> yearOfDay n\<close> by simp
qed

lemma fst_civilOfDay [simp]: "fst (civilOfDay n) = yearOfDay n"
  by (simp add: civilOfDay_def Let_def split: prod.splits)

lemma civilOfDay_year: "civilOfDay n = (y, m, d) \<Longrightarrow> y = yearOfDay n"
  using fst_civilOfDay [of n] by simp

lemma civil_same_month:
  assumes "civilOfDay n = (y, m, d)" "n \<le> n'" "n' \<le> dayFromCivil y m (monthLength y m)"
  shows "civilOfDay n' = (y, m, d + (n' - n))"
proof -
  have ok: "validCivil y m d" "dayFromCivil y m d = n" using civilOfDay_ok [OF assms(1)] by simp_all
  have "validCivil y m (d + (n' - n))" using ok assms(2,3) by (simp add: validCivil_def dayFromCivil_def)
  moreover have "dayFromCivil y m (d + (n' - n)) = n'" using ok(2) by (simp add: dayFromCivil_def)
  ultimately show ?thesis using civilOfDay_dayFromCivil by metis
qed

lemma civil_bounds: "civilOfDay n = (y, m, d) \<Longrightarrow> 1 \<le> m \<and> m \<le> 12 \<and> 1 \<le> d \<and> d \<le> monthLength y m \<and> dayFromCivil y m 1 + d - 1 = n"
  using civilOfDay_ok [of n y m d] by (simp add: validCivil_def dayFromCivil_def)

lemma leapYear_400: "leapYear (y + 400 * k) = leapYear y"
proof -
  have "(y + 400 * k) mod 4 = y mod 4" "(y + 400 * k) mod 100 = y mod 100" "(y + 400 * k) mod 400 = y mod 400"
    using mod_mult_self2 [of y 4 "100 * k"] mod_mult_self2 [of y 100 "4 * k"] by simp_all
  then show ?thesis by (simp add: leapYear_def)
qed

lemma dayFromYear_400: "dayFromYear (y + 400 * k) = dayFromYear y + 146097 * k"
proof -
  have "(a + 400 * k) div 4 = a div 4 + 100 * k" "(a + 400 * k) div 100 = a div 100 + 4 * k"
    "(a + 400 * k) div 400 = a div 400 + k" for a :: int
    using div_mult_self1 [of 4 a "100 * k"] div_mult_self1 [of 100 a "4 * k"] div_mult_self1 [of 400 a k]
    by (simp_all add: algebra_simps)
  from this(1) [of "y - 1969"] this(2) [of "y - 1901"] this(3) [of "y - 1601"] show ?thesis
    by (simp add: dayFromYear_def algebra_simps)
qed

lemma civil_400:
  "validCivil (y + 400 * k) m d = validCivil y m d"
  "weekdayOfDay (dayFromCivil (y + 400 * k) m d) = weekdayOfDay (dayFromCivil y m d)"
proof -
  have l: "monthLengths (y + 400 * k) = monthLengths y" by (simp add: monthLengths_def leapYear_400)
  then show "validCivil (y + 400 * k) m d = validCivil y m d" by (simp add: validCivil_def monthLength_def)
  have "dayFromCivil (y + 400 * k) m d + 4 = dayFromCivil y m d + 4 + 7 * (20871 * k)"
    using l by (simp add: dayFromCivil_def monthOffset_def dayFromYear_400)
  then show "weekdayOfDay (dayFromCivil (y + 400 * k) m d) = weekdayOfDay (dayFromCivil y m d)"
    unfolding weekdayOfDay_def by (metis mod_mult_self2)
qed

text \<open>In 2000 to 2027 every date falls on every weekday.\<close>

lemma weekday_years:
  "list_all (\<lambda>r. list_ex (\<lambda>y. \<not> leapYear y \<and> dayFromYear y mod 7 = r) [2001, 2002, 2003, 2005, 2006, 2007, 2009, 2010, 2011]) [0, 1, 2, 3, 4, 5, 6]"
  "list_all (\<lambda>r. list_ex (\<lambda>y. leapYear y \<and> dayFromYear y mod 7 = r) [2000, 2004, 2008, 2012, 2016, 2020, 2024]) [0, 1, 2, 3, 4, 5, 6]"
  by (simp_all add: leapYear_def dayFromYear_def)

lemma mod7_cases: "(r :: int) mod 7 \<in> set [0, 1, 2, 3, 4, 5, 6]"
  using pos_mod_sign [of 7 r] pos_mod_bound [of 7 r] by (auto simp: int_one_le_iff_zero_less)

lemma year_with_remainder: "\<exists>y. 2000 \<le> y \<and> y < 2400 \<and> leapYear y = b \<and> dayFromYear y mod 7 = r mod 7"
proof -
  let ?L = "if b then [2000, 2004, 2008, 2012, 2016, 2020, 2024 :: int] else [2001, 2002, 2003, 2005, 2006, 2007, 2009, 2010, 2011]"
  have "list_ex (\<lambda>y. leapYear y = b \<and> dayFromYear y mod 7 = r mod 7) ?L"
    using weekday_years mod7_cases [of r] unfolding list_all_iff by (cases b) (simp_all only: if_True if_False simp_thms)
  then obtain y where y: "y \<in> set ?L" "leapYear y = b" "dayFromYear y mod 7 = r mod 7" unfolding list_ex_iff by blast
  from y(1) have "2000 \<le> y \<and> y < 2400" by (auto split: if_splits)
  with y show ?thesis by blast
qed

lemma date_on_weekday:
  assumes "1 \<le> m" "m \<le> 12" "1 \<le> d" "d \<le> int (MONTH_MAX_DAYS ! (nat m - 1))" "0 \<le> w" "w \<le> 6"
  shows "\<exists>y. z < y \<and> y \<le> z + 400 \<and> validCivil y m d \<and> weekdayOfDay (dayFromCivil y m d) = w"
proof -
  define b where "b \<longleftrightarrow> m = 2 \<and> d = 29"
  define q where "q = (if b then 2000 else 2001 :: int)"
  have leapq: "leapYear q = b" by (simp add: q_def leapYear_def)
  obtain y0 where y0: "2000 \<le> y0" "y0 < 2400" "leapYear y0 = b"
    "dayFromYear y0 mod 7 = (w - 4 - (monthOffset q m + d - 1)) mod 7"
    using year_with_remainder by blast
  have same: "monthLengths y0 = monthLengths q" using y0(3) leapq by (simp add: monthLengths_def)
  have valid: "validCivil y0 m d"
    using assms(1-4) y0(3) unfolding validCivil_def b_def
    by (cases m rule: month_cases) (simp_all add: monthLength_simps MONTH_MAX_DAYS_def numeral_eq_Suc)
  have "(dayFromYear y0 + (monthOffset q m + d - 1) + 4) mod 7 = (w - 4 - (monthOffset q m + d - 1) + (monthOffset q m + d - 1) + 4) mod 7"
    using y0(4) by (metis add.assoc mod_add_left_eq)
  then have wd: "weekdayOfDay (dayFromCivil y0 m d) = w"
    using assms(5,6) same by (simp add: weekdayOfDay_def dayFromCivil_def monthOffset_def algebra_simps)
  define k where "k = (z + 400 - y0) div 400"
  have "z < y0 + 400 * k \<and> y0 + 400 * k \<le> z + 400"
    using pos_mod_sign [of 400 "z + 400 - y0"] pos_mod_bound [of 400 "z + 400 - y0"]
      mult_div_mod_eq [of 400 "z + 400 - y0"] unfolding k_def by linarith
  then show ?thesis using valid wd civil_400 [of y0 k m d] by blast
qed

section \<open>The loop finds the first match\<close>

lemma parts_of_time:
  assumes "0 \<le> s" "s < MS_PER_DAY"
  shows "(MS_PER_DAY * n + s) div MS_PER_DAY = n"
  using assms by (simp add: MS_PER_DAY_def)

lemma dateUTC_day:
  assumes "y \<ge> 100" "0 \<le> mi" "mi \<le> 11" "\<bar>MS_PER_DAY * (dayFromCivil y (mi + 1) 1 + d - 1) + h * 3600000\<bar> \<le> MAX_TIME"
  shows "dateUTC y mi d h = Some (MS_PER_DAY * (dayFromCivil y (mi + 1) 1 + d - 1) + h * 3600000)"
  using assms by (simp add: dateUTC_def utcTime_def Let_def div_pos_pos_trivial mod_pos_pos_trivial)

lemma dateUTC_next_month:
  assumes "y \<ge> 100" "1 \<le> m" "m \<le> 12" "\<bar>MS_PER_DAY * (dayFromCivil y m (monthLength y m) + 1)\<bar> \<le> MAX_TIME"
  shows "dateUTC y m 1 0 = Some (MS_PER_DAY * (dayFromCivil y m (monthLength y m) + 1))"
  using assms dayFromCivil_next_month [of m y] by (cases "m = 12") (simp_all add: dateUTC_def utcTime_def Let_def)

lemma div_bracket: "0 < k \<Longrightarrow> t div k * k \<le> t" "0 < k \<Longrightarrow> t < t div k * k + k" for t k :: int
  using div_mult_mod_eq [of t k] pos_mod_sign [of k t] pos_mod_bound [of k t] by linarith+

lemma hour_split: "t div 3600000 = 24 * (t div MS_PER_DAY) + hourOf t"
proof -
  have "t div 3600000 div 24 = t div MS_PER_DAY" by (simp add: MS_PER_DAY_def zdiv_zmult2_eq [symmetric])
  then show ?thesis unfolding hourOf_def by (metis mult_div_mod_eq)
qed

lemma time_facts: "t div MS_PER_DAY * MS_PER_DAY \<le> t" "t < t div MS_PER_DAY * MS_PER_DAY + MS_PER_DAY"
  "t div 3600000 = 24 * (t div MS_PER_DAY) + hourOf t" "0 \<le> hourOf t" "hourOf t \<le> 23"
  "t div 3600000 * 3600000 \<le> t" "t < t div 3600000 * 3600000 + 3600000"
proof -
  have "0 < MS_PER_DAY" by (simp add: MS_PER_DAY_def)
  then show "t div MS_PER_DAY * MS_PER_DAY \<le> t" "t < t div MS_PER_DAY * MS_PER_DAY + MS_PER_DAY"
    by (rule div_bracket)+
  show "t div 3600000 * 3600000 \<le> t" "t < t div 3600000 * 3600000 + 3600000" by (rule div_bracket, simp)+
  show "0 \<le> hourOf t" "hourOf t \<le> 23"
    using pos_mod_sign [of 24 "t div 3600000"] pos_mod_bound [of 24 "t div 3600000"] unfolding hourOf_def by linarith+
qed (rule hour_split)

lemma div_same_hour:
  assumes "t \<le> M" "M < (t div 3600000 + 1) * (3600000 :: int)"
  shows "M div 3600000 = t div 3600000"
proof (rule antisym)
  show "t div 3600000 \<le> M div 3600000" using assms(1) by (rule zdiv_mono1) simp
  have "M div 3600000 * 3600000 < (t div 3600000 + 1) * 3600000"
    using div_bracket(1) [of 3600000 M] assms(2) by linarith
  then show "M div 3600000 \<le> t div 3600000" by simp
qed

lemma minute_gap:
  assumes "M mod CRON_MINUTE_MS = 0" "t mod CRON_MINUTE_MS = 0" "t < M"
  shows "t + CRON_MINUTE_MS \<le> M"
proof -
  obtain a b where ab: "M = CRON_MINUTE_MS * a" "t = CRON_MINUTE_MS * b" using assms(1,2) by (auto elim!: dvdE simp: mod_eq_0_iff_dvd)
  then have "b < a" using assms(3) by (simp add: CRON_MINUTE_MS_def)
  then show ?thesis using ab by (simp add: CRON_MINUTE_MS_def)
qed

text \<open>One step of the loop from a minute that is not a match, while a match lies ahead.\<close>

definition ahead :: "CronSchedule \<Rightarrow> int \<Rightarrow> int \<Rightarrow> int \<Rightarrow> bool" where
  "ahead cron l M t \<longleftrightarrow> runsAt cron M \<and> t \<le> M \<and> M \<le> MAX_TIME \<and> yearOfDay (M div MS_PER_DAY) \<le> l \<and>
     MS_PER_DAY * dayFromYear 100 \<le> t \<and> - MAX_TIME \<le> t \<and> t mod CRON_MINUTE_MS = 0"

lemma runsAt_parts:
  assumes "runsAt cron M" "civilOfDay (M div MS_PER_DAY) = (y, m, d)"
  shows "nat m \<in> set (months cron)" "dayMatches cron (nat d) (nat (utcDay M))" "nat (hourOf M) \<in> set (hours cron)"
    "nat (minuteOf M) \<in> set (minutes cron)" "M mod CRON_MINUTE_MS = 0"
  using assms by (simp_all add: runsAt_def)

lemma loop_step:
  assumes a: "ahead cron l M t" and no: "\<not> runsAt cron t"
  shows "\<exists>t'. t < t' \<and> t' \<le> M \<and> t' mod CRON_MINUTE_MS = 0 \<and> cronLoop cron (Some l) (Some t) = cronLoop cron (Some l) (Some t')"
proof -
  obtain y m d where c: "civilOfDay (t div MS_PER_DAY) = (y, m, d)" by (metis prod_cases3)
  define n where "n = t div MS_PER_DAY"
  obtain y' m' d' where c': "civilOfDay (M div MS_PER_DAY) = (y', m', d')" by (metis prod_cases3)
  note tf = time_facts [of t] time_facts [of M]
  have M: "runsAt cron M" "t \<le> M" "M \<le> MAX_TIME" and t: "- MAX_TIME \<le> t" "t mod CRON_MINUTE_MS = 0"
    using a by (simp_all add: ahead_def)
  note Mp = runsAt_parts [OF M(1) c']
  have b: "1 \<le> m" "m \<le> 12" "1 \<le> d" "d \<le> monthLength y m" "dayFromCivil y m 1 + d - 1 = n"
    using civil_bounds [OF c] by (simp_all add: n_def)
  have le: "n \<le> M div MS_PER_DAY" unfolding n_def using M(2) by (rule zdiv_mono1) (simp add: MS_PER_DAY_def)
  have y: "y \<ge> 100" "y \<le> l"
  proof -
    have "yearOfDay (dayFromYear 100) = 100" by (rule yearOfDay_unique) (simp_all add: dayFromYear_def)
    moreover have "dayFromYear 100 \<le> n" using a unfolding n_def ahead_def MS_PER_DAY_def by linarith
    ultimately show "y \<ge> 100" using yearOfDay_mono [of "dayFromYear 100" n] civilOfDay_year [OF c] by (simp add: n_def)
    show "y \<le> l" using yearOfDay_mono [OF le] civilOfDay_year [OF c] a by (simp add: n_def ahead_def)
  qed
  have valid: "\<not> \<bar>t\<bar> > MAX_TIME" using t M by simp
  have unfolded: "cronLoop cron (Some l) (Some t) =
     (if nat m \<notin> set (months cron) then cronLoop cron (Some l) (dateUTC y m 1 0)
      else if \<not> dayMatches cron (nat d) (nat (utcDay t)) then cronLoop cron (Some l) (dateUTC y (m - 1) (d + 1) 0)
      else if nat (hourOf t) \<notin> set (hours cron) then cronLoop cron (Some l) (dateUTC y (m - 1) d (hourOf t + 1))
      else if nat (minuteOf t) \<notin> set (minutes cron) then cronLoop cron (Some l) (Some (t + CRON_MINUTE_MS))
      else Some (Inr t))"
    using valid y(2) by (subst cronLoop.simps) (simp add: c)
  have minute: "MS_PER_DAY * k mod CRON_MINUTE_MS = 0" "(MS_PER_DAY * k + h * 3600000) mod CRON_MINUTE_MS = 0" for k h
  proof -
    have eq: "MS_PER_DAY * k = CRON_MINUTE_MS * (1440 * k)" "MS_PER_DAY * k + h * 3600000 = CRON_MINUTE_MS * (1440 * k + 60 * h)"
      by (simp_all add: MS_PER_DAY_def CRON_MINUTE_MS_def)
    show "MS_PER_DAY * k mod CRON_MINUTE_MS = 0" unfolding eq(1) by (rule mod_mult_self1_is_0)
    show "(MS_PER_DAY * k + h * 3600000) mod CRON_MINUTE_MS = 0" unfolding eq(2) by (rule mod_mult_self1_is_0)
  qed
  consider (month) "nat m \<notin> set (months cron)"
    | (day) "nat m \<in> set (months cron)" "\<not> dayMatches cron (nat d) (nat (utcDay t))"
    | (hour) "nat m \<in> set (months cron)" "dayMatches cron (nat d) (nat (utcDay t))" "nat (hourOf t) \<notin> set (hours cron)"
    | (minute) "nat m \<in> set (months cron)" "dayMatches cron (nat d) (nat (utcDay t))" "nat (hourOf t) \<in> set (hours cron)"
        "nat (minuteOf t) \<notin> set (minutes cron)"
    using no t(2) c by (auto simp: runsAt_def)
  then show ?thesis
  proof cases
    case month
    let ?f = "dayFromCivil y m (monthLength y m) + 1"
    have "\<not> M div MS_PER_DAY \<le> dayFromCivil y m (monthLength y m)"
      using civil_same_month [OF c [folded n_def] le] c' Mp(1) month by auto
    then have "MS_PER_DAY * ?f \<le> M" using tf(8) by (simp add: MS_PER_DAY_def)
    moreover have "n < ?f" using b by (simp add: dayFromCivil_def)
    then have "MS_PER_DAY * (n + 1) \<le> MS_PER_DAY * ?f" by (intro mult_left_mono) (simp_all add: MS_PER_DAY_def)
    then have "t < MS_PER_DAY * ?f" using tf(2) by (simp add: n_def algebra_simps)
    moreover from calculation have "dateUTC y m 1 0 = Some (MS_PER_DAY * ?f)"
      using y(1) b(1,2) M(3) t(1) by (intro dateUTC_next_month) auto
    ultimately show ?thesis using unfolded month minute(1) by auto
  next
    case day
    have "M div MS_PER_DAY \<noteq> n"
    proof
      assume "M div MS_PER_DAY = n"
      then show False using c c' Mp(2) day(2) by (simp add: n_def utcDay_def)
    qed
    then have "MS_PER_DAY * (n + 1) \<le> MS_PER_DAY * (M div MS_PER_DAY)"
      using le by (intro mult_left_mono) (simp_all add: MS_PER_DAY_def)
    then have "MS_PER_DAY * (n + 1) \<le> M" using tf(8) by (simp add: mult.commute)
    moreover have "t < MS_PER_DAY * (n + 1)" using tf(2) by (simp add: n_def algebra_simps)
    moreover have "dayFromCivil y (m - 1 + 1) 1 + (d + 1) - 1 = n + 1" using b(5) by simp
    moreover from calculation have "dateUTC y (m - 1) (d + 1) 0 = Some (MS_PER_DAY * (n + 1))"
      using dateUTC_day [of y "m - 1" "d + 1" 0] y(1) b(1,2) M(3) t(1) by auto
    ultimately show ?thesis using unfolded day minute(1) by auto
  next
    case hour
    let ?t = "MS_PER_DAY * n + (hourOf t + 1) * 3600000"
    have eq: "?t = (t div 3600000 + 1) * 3600000" using tf(3) by (simp add: MS_PER_DAY_def n_def)
    have "?t \<le> M"
    proof (rule ccontr)
      assume "\<not> ?t \<le> M"
      then have "M div 3600000 = t div 3600000" using eq M(2) by (intro div_same_hour) auto
      then show False using Mp(3) hour(3) by (simp add: hourOf_def)
    qed
    moreover have "t < ?t" using tf(7) eq by simp
    moreover from calculation have "dateUTC y (m - 1) d (hourOf t + 1) = Some ?t"
      using dateUTC_day [of y "m - 1" d "hourOf t + 1"] y(1) b M(3) t(1) by auto
    ultimately show ?thesis using unfolded hour minute(2) [of n "hourOf t + 1"] by (intro exI [of _ ?t]) simp
  next
    case minute
    have "M \<noteq> t" using Mp(4) minute(4) by auto
    then have "t + CRON_MINUTE_MS \<le> M" using minute_gap [OF Mp(5) t(2)] M(2) by simp
    moreover have "(t + CRON_MINUTE_MS) mod CRON_MINUTE_MS = 0" using t(2) by simp
    ultimately show ?thesis using unfolded minute by (intro exI [of _ "t + CRON_MINUTE_MS"]) (simp add: CRON_MINUTE_MS_def)
  qed
qed

lemma loop_finds:
  assumes "ahead cron l M t" "\<And>x. t \<le> x \<Longrightarrow> x < M \<Longrightarrow> \<not> runsAt cron x"
  shows "cronLoop cron (Some l) (Some t) = Some (Inr M)"
  using assms
proof (induction "nat (M - t)" arbitrary: t rule: less_induct)
  case less
  show ?case
  proof (cases "runsAt cron t")
    case False
    from loop_step [OF less.prems(1) this] obtain t' where t': "t < t'" "t' \<le> M" "t' mod CRON_MINUTE_MS = 0"
      "cronLoop cron (Some l) (Some t) = cronLoop cron (Some l) (Some t')" by auto
    have "ahead cron l M t'" using less.prems(1) t' by (simp add: ahead_def)
    then have "cronLoop cron (Some l) (Some t') = Some (Inr M)" using t'(1,2) less.prems(2) by (intro less.hyps) auto
    with t'(4) show ?thesis by simp
  next
    case True
    then have "t = M" using less.prems by (force simp: ahead_def)
    obtain y m d where c: "civilOfDay (t div MS_PER_DAY) = (y, m, d)" by (metis prod_cases3)
    have valid: "\<not> MAX_TIME < \<bar>M\<bar>" using less.prems(1) \<open>t = M\<close> by (auto simp: ahead_def abs_le_iff not_less)
    have "y \<le> l" using less.prems(1) civilOfDay_year [OF c] \<open>t = M\<close> by (simp add: ahead_def)
    then show ?thesis
      using True less.prems(1) c \<open>t = M\<close> valid by (subst cronLoop.simps) (simp add: ahead_def runsAt_def)
  qed
qed

section \<open>A run always lies ahead\<close>

lemma runsAt_build:
  assumes "validCivil y m d" "nat m \<in> set (months cron)"
    "dayMatches cron (nat d) (nat (weekdayOfDay (dayFromCivil y m d)))"
    "h \<in> set (hours cron)" "h \<le> 23" "mi \<in> set (minutes cron)" "mi \<le> 59"
  shows "runsAt cron (MS_PER_DAY * dayFromCivil y m d + int h * 3600000 + int mi * 60000)"
proof -
  let ?n = "dayFromCivil y m d" and ?t = "MS_PER_DAY * dayFromCivil y m d + int h * 3600000 + int mi * 60000"
  have "?t = CRON_MINUTE_MS * (1440 * ?n + 60 * int h + int mi)" by (simp add: MS_PER_DAY_def CRON_MINUTE_MS_def)
  then have "?t mod CRON_MINUTE_MS = 0" by simp
  moreover have day: "?t div MS_PER_DAY = ?n"
    using assms(5,7) parts_of_time [of "int h * 3600000 + int mi * 60000" ?n] by (simp add: MS_PER_DAY_def add.assoc)
  moreover have "minuteOf ?t = int mi"
  proof -
    have "?t = (1440 * ?n + 60 * int h + int mi) * 60000" by (simp add: MS_PER_DAY_def)
    then have "?t div 60000 = 1440 * ?n + 60 * int h + int mi" by (metis nonzero_mult_div_cancel_right zero_neq_numeral)
    then have "minuteOf ?t = (int mi + 60 * (24 * ?n + int h)) mod 60" unfolding minuteOf_def by (simp add: algebra_simps)
    also have "\<dots> = int mi mod 60" by (rule mod_mult_self2)
    finally show ?thesis using assms(7) by simp
  qed
  moreover have "hourOf ?t = int h"
  proof -
    have "?t = (24 * ?n + int h) * 3600000 + int mi * 60000" by (simp add: MS_PER_DAY_def)
    moreover have "((24 * ?n + int h) * 3600000 + int mi * 60000) div 3600000 = int h + 24 * ?n"
      using assms(7) by (subst div_mult_self3) (simp_all add: div_pos_pos_trivial)
    ultimately have "hourOf ?t = (int h + 24 * ?n) mod 24" unfolding hourOf_def by (simp only:)
    also have "\<dots> = int h mod 24" by (rule mod_mult_self2)
    finally show ?thesis using assms(5) by simp
  qed
  ultimately show ?thesis using assms(1-4,6) civilOfDay_dayFromCivil [OF assms(1)]
    unfolding runsAt_def utcDay_def day by simp
qed

lemma runs_within_400:
  assumes "cronWellFormed cron"
  shows "\<exists>M. runsAt cron M \<and> z < yearOfDay (M div MS_PER_DAY) \<and> yearOfDay (M div MS_PER_DAY) \<le> z + 400"
proof -
  have ne: "hours cron \<noteq> []" "minutes cron \<noteq> []" "months cron \<noteq> []" "daysOfMonth cron \<noteq> []" "daysOfWeek cron \<noteq> []"
    and sub: "set (minutes cron) \<subseteq> {..59}" "set (hours cron) \<subseteq> {..23}" "set (daysOfMonth cron) \<subseteq> {1..31}"
      "set (months cron) \<subseteq> {1..12}" "set (daysOfWeek cron) \<subseteq> {..6}"
    using assms by (simp_all add: cronWellFormed_def)
  have or: "orRule cron \<or> (\<exists>m\<in>set (months cron). \<exists>d\<in>set (daysOfMonth cron). d \<le> MONTH_MAX_DAYS ! (m - 1))"
    using assms by (simp add: cronWellFormed_def list_ex_iff)
  obtain w where w: "w \<in> set (daysOfWeek cron)" "w \<le> 6" using ne(5) sub(5) by (metis atMost_iff in_mono list.set_sel(1))
  obtain h where h: "h \<in> set (hours cron)" "h \<le> 23" using ne(1) sub(2) by (metis atMost_iff in_mono list.set_sel(1))
  obtain mi where mi: "mi \<in> set (minutes cron)" "mi \<le> 59" using ne(2) sub(1) by (metis atMost_iff in_mono list.set_sel(1))
  obtain m d where m: "m \<in> set (months cron)" "1 \<le> m" "m \<le> 12" and d: "1 \<le> d" "d \<le> MONTH_MAX_DAYS ! (m - 1)"
    and match: "orRule cron \<or> d \<in> set (daysOfMonth cron)"
  proof (cases "orRule cron")
    case True
    obtain m where "m \<in> set (months cron)" "m \<in> {1..12}" using ne(3) sub(4) by (metis in_mono list.set_sel(1))
    moreover have "1 \<le> MONTH_MAX_DAYS ! (m - 1)" if "m \<in> {1..12}" for m
    proof -
      have "list_all (\<lambda>x. 1 \<le> x) MONTH_MAX_DAYS" by (simp add: MONTH_MAX_DAYS_def)
      moreover have "m - 1 < length MONTH_MAX_DAYS" using that by (auto simp: MONTH_MAX_DAYS_def)
      ultimately show ?thesis by (simp add: list_all_length)
    qed
    ultimately show thesis using that [of m 1] True by auto
  next
    case False
    then obtain m d where "m \<in> set (months cron)" "d \<in> set (daysOfMonth cron)" "d \<le> MONTH_MAX_DAYS ! (m - 1)"
      using or by auto
    moreover from this have "m \<in> {1..12}" "d \<in> {1..31}" using sub(3,4) by auto
    ultimately show thesis using that [of m d] by auto
  qed
  obtain y where y: "z < y" "y \<le> z + 400" "validCivil y (int m) (int d)" "weekdayOfDay (dayFromCivil y (int m) (int d)) = int w"
    using date_on_weekday [of "int m" "int d" "int w" z] m d w(2) by auto
  let ?M = "MS_PER_DAY * dayFromCivil y (int m) (int d) + int h * 3600000 + int mi * 60000"
  have "dayMatches cron d w" using match w(1) by (auto simp: dayMatches_def orRule_def)
  then have "runsAt cron ?M" using y m h mi by (intro runsAt_build) simp_all
  moreover have "?M div MS_PER_DAY = dayFromCivil y (int m) (int d)"
    using h(2) mi(2) parts_of_time [of "int h * 3600000 + int mi * 60000" "dayFromCivil y (int m) (int d)"]
    by (simp add: MS_PER_DAY_def add.assoc)
  moreover have "yearOfDay (dayFromCivil y (int m) (int d)) = y"
    using civilOfDay_year [OF civilOfDay_dayFromCivil [OF y(3)]] by simp
  ultimately show ?thesis using y(1,2) by metis
qed

lemma first_run:
  assumes "runsAt cron N" "t \<le> N"
  obtains M where "runsAt cron M" "t \<le> M" "M \<le> N" "\<And>x. t \<le> x \<Longrightarrow> x < M \<Longrightarrow> \<not> runsAt cron x"
proof -
  define P where "P k \<longleftrightarrow> runsAt cron (t + int k)" for k
  have "P (nat (N - t))" using assms by (simp add: P_def)
  then obtain k where k: "P k" "k \<le> nat (N - t)" "\<And>i. i < k \<Longrightarrow> \<not> P i"
    using ex_least_nat_le [of P "nat (N - t)"] by metis
  show thesis
  proof
    show "runsAt cron (t + int k)" using k(1) by (simp add: P_def)
    show "t \<le> t + int k" "t + int k \<le> N" using k(2) assms(2) by simp_all
    fix x assume "t \<le> x" "x < t + int k"
    then show "\<not> runsAt cron x" using k(3) [of "nat (x - t)"] by (simp add: P_def)
  qed
qed

lemma next_run_of:
  assumes "cronWellFormed cron" "MS_PER_DAY * dayFromYear 100 \<le> a" "a < MS_PER_DAY * dayFromYear 275000"
  shows "\<exists>M. nextCronRunOf cron (Some a) = Some (Inr M) \<and> a < M \<and> runsAt cron M \<and>
    (\<forall>x. a < x \<and> x < M \<longrightarrow> \<not> runsAt cron x)"
proof -
  define t where "t = a div CRON_MINUTE_MS * CRON_MINUTE_MS + CRON_MINUTE_MS"
  have mm: "0 < CRON_MINUTE_MS" by (simp add: CRON_MINUTE_MS_def)
  have t: "a < t" "t \<le> a + CRON_MINUTE_MS" "t mod CRON_MINUTE_MS = 0"
    using div_bracket [OF mm, of a] by (simp_all add: t_def)
  have years: "dayFromYear 100 = - 683003" "dayFromYear 275000 = 99722160" "dayFromYear 275402 = 99868987"
    by (simp_all add: dayFromYear_def)
  have tb: "- MAX_TIME \<le> t" "t \<le> MAX_TIME" "MS_PER_DAY * dayFromYear 100 \<le> t"
    using t assms(2,3) unfolding years by (simp_all add: MS_PER_DAY_def MAX_TIME_def CRON_MINUTE_MS_def)
  define Y where "Y = yearOfDay (t div MS_PER_DAY)"
  obtain N where N: "runsAt cron N" "Y < yearOfDay (N div MS_PER_DAY)" "yearOfDay (N div MS_PER_DAY) \<le> Y + 400"
    using runs_within_400 [OF assms(1)] by blast
  have "t \<le> N"
  proof (rule ccontr)
    assume "\<not> t \<le> N"
    then have "N div MS_PER_DAY \<le> t div MS_PER_DAY" by (intro zdiv_mono1) (simp_all add: MS_PER_DAY_def)
    then show False using yearOfDay_mono N(2) by (force simp: Y_def)
  qed
  then obtain M where M: "runsAt cron M" "t \<le> M" "M \<le> N" "\<And>x. t \<le> x \<Longrightarrow> x < M \<Longrightarrow> \<not> runsAt cron x"
    using first_run [OF N(1)] by blast
  have "t div MS_PER_DAY \<le> dayFromYear 275000"
  proof -
    have "t \<le> MS_PER_DAY * dayFromYear 275000 + CRON_MINUTE_MS" using t(2) assms(3) by simp
    then have "t div MS_PER_DAY \<le> (MS_PER_DAY * dayFromYear 275000 + CRON_MINUTE_MS) div MS_PER_DAY"
      by (rule zdiv_mono1) (simp add: MS_PER_DAY_def)
    then show ?thesis by (simp add: MS_PER_DAY_def CRON_MINUTE_MS_def years)
  qed
  then have "Y \<le> 275000"
    using yearOfDay_mono [of "t div MS_PER_DAY" "dayFromYear 275000"] yearOfDay_unique [of 275000 "dayFromYear 275000"]
    by (simp add: Y_def dayFromYear_def)
  then have "N div MS_PER_DAY < dayFromYear 275402"
    using yearOfDay_bounds(2) [of "N div MS_PER_DAY"] N(3) dayFromYear_mono [of "yearOfDay (N div MS_PER_DAY) + 1" 275402] by simp
  then have "N \<le> MAX_TIME"
    using time_facts(2) [of N] unfolding years by (simp add: MS_PER_DAY_def MAX_TIME_def)
  moreover have "yearOfDay (M div MS_PER_DAY) \<le> Y + 400"
    using yearOfDay_mono [of "M div MS_PER_DAY" "N div MS_PER_DAY"] M(3) N(3) zdiv_mono1 [of M N MS_PER_DAY]
    by (simp add: MS_PER_DAY_def)
  ultimately have "ahead cron (Y + 400) M t" using M t(3) tb by (simp add: ahead_def)
  then have "cronLoop cron (Some (Y + 400)) (Some t) = Some (Inr M)" using M(4) by (rule loop_finds)
  moreover have "\<not> MAX_TIME < \<bar>t\<bar>" using tb by simp
  ultimately have "nextCronRunOf cron (Some a) = Some (Inr M)"
    by (simp add: nextCronRunOf_def Let_def Y_def flip: t_def)
  moreover have "\<not> runsAt cron x" if x: "a < x" "x < M" for x
  proof
    assume r: "runsAt cron x"
    then have "x mod CRON_MINUTE_MS = 0" by (simp add: runsAt_def)
    moreover have "(a div CRON_MINUTE_MS * CRON_MINUTE_MS) mod CRON_MINUTE_MS = 0" by simp
    moreover have "a div CRON_MINUTE_MS * CRON_MINUTE_MS < x" using div_bracket(1) [OF mm, of a] x(1) by simp
    ultimately have "t \<le> x" unfolding t_def by (rule minute_gap)
    then show False using M(4) x(2) r by blast
  qed
  ultimately show ?thesis using M t(1) by (intro exI [of _ M]) auto
qed

text \<open>
  C16: For every expression \<open>parseCron\<close> accepts and every moment of the years 100 to 274999, \<open>nextCronRun\<close>
  returns, and its answer is the first minute the schedule names that is strictly after the moment.
\<close>
theorem next_cron_run_first:
  assumes "parseCron e = Inr cron" "MS_PER_DAY * dayFromYear 100 \<le> a" "a < MS_PER_DAY * dayFromYear 275000"
  shows "\<exists>M. nextCronRun (Inl e) (Some a) = Some (Inr M) \<and> a < M \<and> runsAt cron M \<and>
    (\<forall>x. a < x \<and> x < M \<longrightarrow> \<not> runsAt cron x)"
  using next_run_of [OF parseCron_ok [OF assms(1)] assms(2,3)] assms(1) by (simp add: nextCronRun_def)

lemma daily_parsed:
  "parseCron ''@daily'' = Inr \<lparr>minutes = [0], hours = [0], daysOfMonth = [1..<32], months = [1..<13],
     daysOfWeek = [0..<7], dayOfMonthRestricted = False, dayOfWeekRestricted = False\<rparr>"
  by code_simp

text \<open>The daily run after 1970-01-01 00:00:30.\<close>
theorem next_cron_run_first_witness:
  "\<exists>M. nextCronRun (Inl ''@daily'') (Some 30000) = Some (Inr M) \<and> 30000 < M \<and>
    runsAt \<lparr>minutes = [0], hours = [0], daysOfMonth = [1..<32], months = [1..<13], daysOfWeek = [0..<7],
      dayOfMonthRestricted = False, dayOfWeekRestricted = False\<rparr> M"
  using next_cron_run_first [OF daily_parsed, of 30000] by (auto simp: dayFromYear_def MS_PER_DAY_def)

lemma early_jump:
  assumes "0 \<le> y" "y \<le> 99" "0 \<le> mo" "mo \<le> 12" "1 \<le> d" "d \<le> 32" "0 \<le> h" "h \<le> 24"
  shows "\<exists>t. dateUTC y mo d h = Some t \<and> \<bar>t\<bar> \<le> MAX_TIME \<and> 1900 \<le> yearOfDay (t div MS_PER_DAY)"
proof -
  define Y m where "Y = 1900 + y + mo div 12" and "m = mo mod 12 + 1"
  have "0 \<le> mo div 12" "mo div 12 \<le> 1" using zdiv_mono1 [of 0 mo 12] zdiv_mono1 [of mo 12 12] assms(3,4) by simp_all
  then have Y: "1900 \<le> Y" "Y \<le> 2000" using assms(1,2) by (simp_all add: Y_def)
  have m: "1 \<le> m" "m \<le> 12" using pos_mod_sign [of 12 mo] pos_mod_bound [of 12 mo] by (simp_all add: m_def)
  have years: "dayFromYear 1900 = - 25567" "dayFromYear 2000 = 10957" by (simp_all add: dayFromYear_def)
  have "0 \<le> monthOffset Y m" "monthOffset Y m \<le> 366"
    using monthOffset_bounds [OF m, of Y] monthLength_bounds [OF m, of Y] by (auto split: if_splits)
  then have day: "- 25567 \<le> dayFromCivil Y m 1" "dayFromCivil Y m 1 \<le> 11323"
    using dayFromYear_mono [OF Y(1)] dayFromYear_mono [OF Y(2)] years Y by (simp_all add: dayFromCivil_def)
  define t where "t = MS_PER_DAY * (dayFromCivil Y m 1 + d - 1) + h * 3600000"
  have bounds: "MS_PER_DAY * - 25567 \<le> t" "t \<le> MAX_TIME" "- MAX_TIME \<le> t"
    using day assms(5-8) by (simp_all add: t_def MS_PER_DAY_def MAX_TIME_def)
  have "- 25567 \<le> t div MS_PER_DAY" using zdiv_mono1 [OF bounds(1), of MS_PER_DAY] by (simp add: MS_PER_DAY_def)
  then have "yearOfDay (dayFromYear 1900) \<le> yearOfDay (t div MS_PER_DAY)" by (intro yearOfDay_mono) (simp add: years)
  moreover have "yearOfDay (dayFromYear 1900) = 1900" using yearOfDay_unique [of 1900] by (simp add: dayFromYear_def)
  moreover have "dateUTC y mo d h = Some t"
    using assms(1,2) bounds by (simp add: dateUTC_def utcTime_def Let_def Y_def m_def t_def)
  ultimately show ?thesis using bounds by auto
qed

lemma early_throws:
  assumes c: "civilOfDay (t div MS_PER_DAY) = (y, m, d)" "0 \<le> y" "y \<le> 99" "\<bar>t\<bar> \<le> MAX_TIME"
    and miss: "\<not> (nat m \<in> set (months cron) \<and> dayMatches cron (nat d) (nat (utcDay t)) \<and> nat (hourOf t) \<in> set (hours cron))"
  shows "cronLoop cron (Some (y + 400)) (Some t) = Some (Inl (RangeErr ''cron: the schedule never matches''))"
proof -
  note b = civil_bounds [OF c(1)]
  have d: "1 \<le> d" "d \<le> 31" using b monthLength_bounds [of m y] by auto
  have past: "cronLoop cron (Some (y + 400)) (dateUTC y mo e h) = Some (Inl (RangeErr ''cron: the schedule never matches''))"
    if r: "0 \<le> mo" "mo \<le> 12" "1 \<le> e" "e \<le> 32" "0 \<le> h" "h \<le> 24" for mo e h
  proof -
    obtain j where j: "dateUTC y mo e h = Some j" "\<bar>j\<bar> \<le> MAX_TIME" "1900 \<le> yearOfDay (j div MS_PER_DAY)"
      using early_jump [OF c(2,3) r] by blast
    obtain y' m' d' where c': "civilOfDay (j div MS_PER_DAY) = (y', m', d')" by (metis prod_cases3)
    then have "y + 400 < y'" using j(3) c(3) civilOfDay_year [OF c'] by simp
    then show ?thesis unfolding j(1) using j(2) c' by (subst cronLoop.simps) simp
  qed
  have hr: "0 \<le> hourOf t" "hourOf t \<le> 23" by (rule time_facts)+
  show ?thesis
    using miss c(4) b d hr by (subst cronLoop.simps) (auto simp: c(1) past)
qed

text \<open>
  C17: In the years 0 to 99 the jumps of the loop go wrong, because \<open>Date.UTC\<close> reads those years as 1900 to
  1999. Take any expression \<open>parseCron\<close> accepts and a moment whose next whole minute lies in those years, in a
  month, on a day or in an hour the schedule does not name, so that the loop has to jump: \<open>nextCronRun\<close>
  throws that the schedule never matches, although it names a later minute within the limit of 400 years.
\<close>
theorem cron_two_digit_year:
  assumes "parseCron e = Inr cron" "t = a div CRON_MINUTE_MS * CRON_MINUTE_MS + CRON_MINUTE_MS"
    and "civilOfDay (t div MS_PER_DAY) = (y, m, d)" "0 \<le> y" "y \<le> 99"
    and "\<not> (nat m \<in> set (months cron) \<and> dayMatches cron (nat d) (nat (utcDay t)) \<and> nat (hourOf t) \<in> set (hours cron))"
  shows "nextCronRun (Inl e) (Some a) = Some (Inl (RangeErr ''cron: the schedule never matches'')) \<and>
    (\<exists>M. a < M \<and> runsAt cron M \<and> yearOfDay (M div MS_PER_DAY) \<le> y + 400)"
proof
  have y: "yearOfDay (t div MS_PER_DAY) = y" using civilOfDay_year [OF assms(3)] by simp
  have "dayFromYear y \<le> t div MS_PER_DAY" "t div MS_PER_DAY < dayFromYear (y + 1)"
    using yearOfDay_bounds [of "t div MS_PER_DAY"] y by simp_all
  moreover have "dayFromYear 0 = - 719528" "dayFromYear 100 = - 683003" by (simp_all add: dayFromYear_def)
  ultimately have "- 719528 \<le> t div MS_PER_DAY" "t div MS_PER_DAY < - 683003"
    using dayFromYear_mono [of 0 y] dayFromYear_mono [of "y + 1" 100] assms(4,5) by simp_all
  then have small: "\<bar>t\<bar> \<le> MAX_TIME" using time_facts(1,2) [of t] by (simp add: MS_PER_DAY_def MAX_TIME_def)
  then show "nextCronRun (Inl e) (Some a) = Some (Inl (RangeErr ''cron: the schedule never matches''))"
    using early_throws [OF assms(3-5) small assms(6)] assms(1) y
    by (simp add: nextCronRun_def nextCronRunOf_def Let_def assms(3) flip: assms(2))
  obtain M where M: "runsAt cron M" "y < yearOfDay (M div MS_PER_DAY)" "yearOfDay (M div MS_PER_DAY) \<le> y + 400"
    using runs_within_400 [OF parseCron_ok [OF assms(1)], of y] by blast
  have "a < M"
  proof (rule ccontr)
    assume "\<not> a < M"
    then have "M \<le> t" using div_bracket(2) [of CRON_MINUTE_MS a] by (simp add: assms(2) CRON_MINUTE_MS_def)
    then have "M div MS_PER_DAY \<le> t div MS_PER_DAY" by (rule zdiv_mono1) (simp add: MS_PER_DAY_def)
    then show False using yearOfDay_mono [of "M div MS_PER_DAY" "t div MS_PER_DAY"] M(2) y by simp
  qed
  then show "\<exists>M. a < M \<and> runsAt cron M \<and> yearOfDay (M div MS_PER_DAY) \<le> y + 400" using M by blast
qed

lemma february_parsed:
  "parseCron ''0 0 1 2 *'' = Inr \<lparr>minutes = [0], hours = [0], daysOfMonth = [1], months = [2], daysOfWeek = [0..<7],
      dayOfMonthRestricted = True, dayOfWeekRestricted = False\<rparr>"
  by code_simp

text \<open>The run of 1 February asked for on 0050-01-01.\<close>
theorem cron_two_digit_year_witness:
  "nextCronRun (Inl ''0 0 1 2 *'') (Some (- 60589296000000)) = Some (Inl (RangeErr ''cron: the schedule never matches''))"
proof -
  have "civilOfDay (- 60589295940000 div MS_PER_DAY) = (50, 1, 1)" by code_simp
  then show ?thesis
    using cron_two_digit_year [OF february_parsed, of "- 60589295940000" "- 60589296000000" 50 1 1]
    by (simp add: CRON_MINUTE_MS_def)
qed

lemma cronLoop_nan: "cronLoop cron limit None = None"
proof -
  have "t \<noteq> None" if run: "cronLoop cron limit t = Some y" for t y
  proof (rule cronLoop.raw_induct [where P = "\<lambda>c l t y. t \<noteq> None", OF _ run])
    fix loop :: "CronSchedule \<Rightarrow> int option \<Rightarrow> int option \<Rightarrow> (js_error + int) option" and c l t y
    assume hyp: "\<And>c l t y. loop c l t = Some y \<Longrightarrow> t \<noteq> None"
      and body: "(case t of None \<Rightarrow> loop c l None | Some t \<Rightarrow>
         if \<bar>t\<bar> > MAX_TIME then loop c l None
         else case civilOfDay (t div MS_PER_DAY) of (year, month, day) \<Rightarrow>
           if (case l of None \<Rightarrow> False | Some l \<Rightarrow> year > l)
           then Some (Inl (RangeErr ''cron: the schedule never matches''))
           else if nat month \<notin> set (months c) then loop c l (dateUTC year month 1 0)
           else if \<not> dayMatches c (nat day) (nat (utcDay t)) then loop c l (dateUTC year (month - 1) (day + 1) 0)
           else if nat (hourOf t) \<notin> set (hours c) then loop c l (dateUTC year (month - 1) day (hourOf t + 1))
           else if nat (minuteOf t) \<notin> set (minutes c) then loop c l (Some (t + CRON_MINUTE_MS))
           else Some (Inr t)) = Some y"
    show "t \<noteq> None"
    proof
      assume "t = None"
      then have "loop c l None = Some y" using body by simp
      from hyp [OF this] show False by simp
    qed
  qed
  then show ?thesis by (metis not_None_eq)
qed

text \<open>
  C18: From the last minute of the time range the loop does not return, whatever the schedule: the next
  minute is not a valid \<open>Date\<close>, every part of it is NaN, so neither the limit nor a match stops the loop.
\<close>
theorem cron_never_returns_at_the_end:
  "nextCronRunOf cron (Some MAX_TIME) = None"
proof -
  have past: "MAX_TIME div CRON_MINUTE_MS * CRON_MINUTE_MS + CRON_MINUTE_MS = 8640000000060000"
    by (simp add: MAX_TIME_def CRON_MINUTE_MS_def)
  have "cronLoop cron None (Some 8640000000060000) = None"
    by (subst cronLoop.simps) (simp add: MAX_TIME_def cronLoop_nan)
  moreover have "\<bar>8640000000060000 :: int\<bar> > MAX_TIME" by (simp add: MAX_TIME_def)
  ultimately show ?thesis unfolding nextCronRunOf_def Let_def option.case past by simp
qed

end
