(* ===== verification/JsonValue.thy ===== *)
theory JsonValue
  imports Units "HOL-Library.List_Lexorder"
begin

text \<open>
  JavaScript values as the sources serialise them: the primitives (a number with its \<open>String\<close> text),
  arrays, plain objects with their own properties in order, an object with a \<open>toJSON\<close> method (as the
  value it returns), and an object of another class (its name and own properties). \<open>JSON.stringify\<close> of a
  primitive and \<open>JSON.parse(JSON.stringify(v))\<close>.
\<close>

datatype jsval = Undef | Null | BoolV bool | NumV units | BigV | StrV units | FunV
  | ArrV "jsval list" | ObjV "(units \<times> jsval) list" | ToJson jsval | ClassV units "(units \<times> jsval) list"

text \<open>A property, \<open>undefined\<close> when it is missing or the value is not an object.\<close>

definition field :: "units \<Rightarrow> jsval \<Rightarrow> jsval" where
  "field f v = (case v of ObjV ps \<Rightarrow> orElse (map_of ps f) Undef | ClassV _ ps \<Rightarrow> orElse (map_of ps f) Undef | _ \<Rightarrow> Undef)"

definition hexUnit :: "nat \<Rightarrow> nat" where
  "hexUnit d = (if d < 10 then 48 + d else 87 + d)"

definition escapeU :: "nat \<Rightarrow> units" where
  "escapeU c = [92, 117, hexUnit (c div 4096), hexUnit (c div 256 mod 16), hexUnit (c div 16 mod 16), hexUnit (c mod 16)]"

text \<open>One character between the quotes: a lone surrogate and a control character are escaped.\<close>

definition quoteChar :: "units \<Rightarrow> units" where
  "quoteChar ch =
     (case ch of
        [c] \<Rightarrow>
          if c = 34 then [92, 34] else if c = 92 then [92, 92]
          else if c = 8 then [92, 98] else if c = 9 then [92, 116] else if c = 10 then [92, 110]
          else if c = 12 then [92, 102] else if c = 13 then [92, 114]
          else if c < 32 \<or> (0xd800 \<le> c \<and> c \<le> 0xdfff) then escapeU c else [c]
      | _ \<Rightarrow> ch)"

definition quoteJson :: "units \<Rightarrow> units" where
  "quoteJson s = 34 # concat (map quoteChar (chars s)) @ [34]"

definition notFinite :: "units \<Rightarrow> bool" where
  "notFinite t \<longleftrightarrow> t \<in> {u ''NaN'', u ''Infinity'', u ''-Infinity''}"

definition jsonPrim :: "jsval \<Rightarrow> units" where
  "jsonPrim v =
     (case v of BoolV b \<Rightarrow> u (if b then ''true'' else ''false'')
      | NumV t \<Rightarrow> if notFinite t then u ''null'' else t
      | StrV s \<Rightarrow> quoteJson s
      | _ \<Rightarrow> u ''null'')"

text \<open>Sequencing over the entries of an object and the items of an array.\<close>

fun sequenceE :: "('e + 'a) list \<Rightarrow> 'e + 'a list" where
  "sequenceE [] = Inr []"
| "sequenceE (r # rs) = andThen r (\<lambda>x. andThen (sequenceE rs) (\<lambda>xs. Inr (x # xs)))"

lemma size_item: "x \<in> set xs \<Longrightarrow> size x < Suc (size_list size xs)"
  by (simp add: less_Suc_eq_le size_list_estimation')

lemma size_entry: "p \<in> set ps \<Longrightarrow> size (snd p) < Suc (size_list (size_prod (\<lambda>x. 0) size) ps)"
proof (induction ps)
  case (Cons q ps)
  then show ?case by (cases q) (auto simp: less_Suc_eq_le)
qed simp

text \<open>\<open>JSON.parse(JSON.stringify(v))\<close>; \<open>None\<close> for what \<open>JSON.stringify\<close> leaves out.\<close>

function jsonCopy :: "jsval \<Rightarrow> js_error + jsval option" where
  "jsonCopy Undef = Inr None"
| "jsonCopy FunV = Inr None"
| "jsonCopy Null = Inr (Some Null)"
| "jsonCopy (BoolV b) = Inr (Some (BoolV b))"
| "jsonCopy (NumV t) = Inr (Some (if notFinite t then Null else NumV t))"
| "jsonCopy (StrV s) = Inr (Some (StrV s))"
| "jsonCopy BigV = Inl (TypeErr ''Do not know how to serialize a BigInt'')"
| "jsonCopy (ToJson v) = jsonCopy v"
| "jsonCopy (ArrV xs) =
     andThen (sequenceE (map jsonCopy xs)) (\<lambda>ys. Inr (Some (ArrV (map (\<lambda>y. orElse y Null) ys))))"
| "jsonCopy (ObjV ps) =
     andThen (sequenceE (map (\<lambda>p. andThen (jsonCopy (snd p)) (\<lambda>v. Inr (fst p, v))) ps)) (\<lambda>qs.
       Inr (Some (ObjV (concat (map (\<lambda>(k, v). case v of None \<Rightarrow> [] | Some w \<Rightarrow> [(k, w)]) qs)))))"
| "jsonCopy (ClassV n ps) =
     andThen (sequenceE (map (\<lambda>p. andThen (jsonCopy (snd p)) (\<lambda>v. Inr (fst p, v))) ps)) (\<lambda>qs.
       Inr (Some (ObjV (concat (map (\<lambda>(k, v). case v of None \<Rightarrow> [] | Some w \<Rightarrow> [(k, w)]) qs)))))"
  by pat_completeness auto

termination
  by (relation "measure size") (auto simp: size_item dest: size_entry)

text \<open>\<open>JSON.parse(JSON.stringify(value ?? null))\<close>.\<close>

definition jsonClone :: "jsval \<Rightarrow> js_error + jsval" where
  "jsonClone v =
     (if v = Undef \<or> v = Null then Inr Null
      else andThen (jsonCopy v) (\<lambda>c. case c of None \<Rightarrow> Inl (PlainErr ''SyntaxError'') | Some w \<Rightarrow> Inr w))"

text \<open>A value that came from \<open>JSON.parse\<close>.\<close>

function isJson :: "jsval \<Rightarrow> bool" where
  "isJson Null = True"
| "isJson (BoolV b) = True"
| "isJson (NumV t) = (\<not> notFinite t)"
| "isJson (StrV s) = True"
| "isJson (ArrV xs) = list_all isJson xs"
| "isJson (ObjV ps) = list_all (\<lambda>p. isJson (snd p)) ps"
| "isJson Undef = False" | "isJson FunV = False" | "isJson BigV = False"
| "isJson (ToJson v) = False" | "isJson (ClassV n ps) = False"
  by pat_completeness auto
termination
  by (relation "measure size") (auto simp: size_item dest: size_entry)

lemma sequenceE_Inr: "sequenceE rs = Inr xs \<longleftrightarrow> rs = map Inr xs"
  by (induction rs arbitrary: xs) (auto simp: andThen_Inr)

lemma sequenceE_map_Inr [simp]: "sequenceE (map Inr xs) = Inr xs"
  by (simp add: sequenceE_Inr)

lemma isJson_copy: "isJson v \<Longrightarrow> jsonCopy v = Inr (Some v)"
proof (induction v rule: isJson.induct)
  case (5 xs)
  then have "map jsonCopy xs = map Inr (map Some xs)" by (auto simp: list_all_iff)
  moreover have "map (\<lambda>y. orElse y Null) (map Some xs) = xs" by (induction xs) simp_all
  ultimately show ?case by (simp only: jsonCopy.simps sequenceE_map_Inr andThen_simps)
next
  case (6 ps)
  then have "map (\<lambda>p. andThen (jsonCopy (snd p)) (\<lambda>v. Inr (fst p, v))) ps = map Inr (map (\<lambda>p. (fst p, Some (snd p))) ps)"
    by (auto simp: list_all_iff)
  moreover have "concat (map (\<lambda>(k, v). case v of None \<Rightarrow> [] | Some w \<Rightarrow> [(k, w)]) (map (\<lambda>p. (fst p, Some (snd p))) ps)) = ps"
    by (induction ps) auto
  ultimately show ?case by (simp only: jsonCopy.simps sequenceE_map_Inr andThen_simps)
qed simp_all

lemma entries_isJson:
  assumes "\<And>p w. p \<in> set ps \<Longrightarrow> jsonCopy (snd p) = Inr (Some w) \<Longrightarrow> isJson w"
    and "jsonCopy (ObjV ps) = Inr (Some v)"
  shows "isJson v"
proof -
  obtain qs where qs: "map (\<lambda>p. andThen (jsonCopy (snd p)) (\<lambda>v. Inr (fst p, v))) ps = map Inr qs"
    and v: "v = ObjV (concat (map (\<lambda>(k, v). case v of None \<Rightarrow> [] | Some w \<Rightarrow> [(k, w)]) qs))"
    using assms(2) by (auto simp: andThen_Inr sequenceE_Inr)
  have "isJson w" if "(k, Some w) \<in> set qs" for k w
  proof -
    from that have "Inr (k, Some w) \<in> set (map (\<lambda>p. andThen (jsonCopy (snd p)) (\<lambda>v. Inr (fst p, v))) ps)"
      unfolding qs by simp
    then obtain p where "p \<in> set ps" "andThen (jsonCopy (snd p)) (\<lambda>v. Inr (fst p, v)) = Inr (k, Some w)" by auto
    then show ?thesis using assms(1) by (auto simp: andThen_Inr)
  qed
  then show ?thesis unfolding v by (auto simp: list_all_iff split: option.splits)
qed

lemma copy_isJson: "jsonCopy v = Inr (Some w) \<Longrightarrow> isJson w"
proof (induction v arbitrary: w rule: jsonCopy.induct)
  case (9 xs)
  then obtain ys where ys: "map jsonCopy xs = map Inr ys" "w = ArrV (map (\<lambda>y. orElse y Null) ys)"
    by (auto simp: andThen_Inr sequenceE_Inr)
  have "isJson (orElse y Null)" if "y \<in> set ys" for y
  proof (cases y)
    case (Some z)
    from that ys(1) have "Inr y \<in> jsonCopy ` set xs" by (metis image_eqI list.set_map)
    then show ?thesis using 9 Some by auto
  qed simp
  then show ?case using ys(2) by (simp add: list_all_iff)
next
  case (10 ps)
  show ?case by (rule entries_isJson [OF 10])
next
  case (11 n ps)
  have "jsonCopy (ObjV ps) = Inr (Some w)" using 11(2) by simp
  with 11(1) show ?case by (rule entries_isJson)
qed auto

end
