(* ===== verification/Idempotency.thy ===== *)
theory Idempotency
  imports JsonValue Complex_Main
begin

text \<open>
  \<open>server/idempotency/idempotency.ts\<close> and \<open>memory.ts\<close>: idempotency keys. The fingerprint of a command's
  input, the in-memory store (rows by user and key, a lease, a retention, a fencing token), and the
  middleware that claims a key, runs the command and keeps its result. Times are exact numbers of
  milliseconds; \<open>sha256Hex\<close> and \<open>uuidV7\<close> are parameters. The interface \<open>idem_store\<close> states the
  contract of \<open>IdempotencyStore\<close> one row at a time; the in-memory store satisfies it. The results: a
  claim excludes every other run while its lease lasts, a completed key never runs again within the
  retention, and a stale token changes nothing.
\<close>

section \<open>Keys and fingerprints\<close>

definition IDEMPOTENCY_RETENTION_DAYS :: rat where "IDEMPOTENCY_RETENTION_DAYS = 7"
definition IDEMPOTENCY_LEASE_SECONDS :: rat where "IDEMPOTENCY_LEASE_SECONDS = 30"
definition MAX_IDEMPOTENCY_COMMAND_NAME_LENGTH :: nat where "MAX_IDEMPOTENCY_COMMAND_NAME_LENGTH = 100"
definition MAX_IDEMPOTENCY_KEY_LENGTH :: nat where "MAX_IDEMPOTENCY_KEY_LENGTH = 128"

datatype IdempotencyUserId = UserNum units | UserStr units

record IdempotencyClaim =
  claimUser :: IdempotencyUserId
  claimKey :: units
  commandName :: units
  requestHash :: units

datatype BeginOutcome = Claimed units | Replay jsval | InProgress | Reused

datatype IdempotencyErrorCode = INVALID_KEY | INVALID_COMMAND | KEY_REUSED | IN_PROGRESS

definition isIdempotencyKey :: "jsval \<Rightarrow> bool" where
  "isIdempotencyKey key =
     (case key of StrV k \<Rightarrow> length k \<ge> 1 \<and> length k \<le> MAX_IDEMPOTENCY_KEY_LENGTH \<and> list_all (\<lambda>c. 0x21 \<le> c \<and> c \<le> 0x7e) k
      | _ \<Rightarrow> False)"

definition REQUEST_INFO_FIELDS :: "units list" where
  "REQUEST_INFO_FIELDS = [u ''requestId'', u ''ip'', u ''userAgent'']"

definition isStr :: "jsval \<Rightarrow> bool" where
  "isStr v = (case v of StrV _ \<Rightarrow> True | _ \<Rightarrow> False)"

definition isEnvelope :: "units \<Rightarrow> jsval \<Rightarrow> bool" where
  "isEnvelope name v =
     (if name = u ''actor'' \<or> name = u ''idempotencyKey'' then True
      else if name = u ''requestId'' then isStr v \<or> v = Null
      else if name \<noteq> u ''request'' then False
      else case v of
          ObjV ps \<Rightarrow> list_all (\<lambda>(f, text). f \<in> set REQUEST_INFO_FIELDS \<and> (text = Undef \<or> isStr text)) ps
        | _ \<Rightarrow> False)"

text \<open>
  \<open>stableStringify\<close>. Keys are visited in sorted order, so the first error in that order is thrown.
\<close>

function stableStringify :: "jsval \<Rightarrow> js_error + units option" where
  "stableStringify Undef = Inr None"
| "stableStringify FunV = Inr None"
| "stableStringify Null = Inr (Some (jsonPrim Null))"
| "stableStringify (BoolV b) = Inr (Some (jsonPrim (BoolV b)))"
| "stableStringify (NumV t) = Inr (Some (jsonPrim (NumV t)))"
| "stableStringify (StrV s) = Inr (Some (jsonPrim (StrV s)))"
| "stableStringify BigV = Inl (TypeErr ''Do not know how to serialize a BigInt'')"
| "stableStringify (ToJson v) = stableStringify v"
| "stableStringify (ArrV xs) =
     andThen (sequenceE (map stableStringify xs)) (\<lambda>ts.
       Inr (Some ([91] @ joinUnits [44] (map (\<lambda>t. orElse t (u ''null'')) ts) @ [93])))"
| "stableStringify (ClassV name ps) = Inl (TypeErr ''Cannot fingerprint: use plain data or give it a toJSON method'')"
| "stableStringify (ObjV ps) =
     andThen (sequenceE (map (\<lambda>(k, r). andThen r (\<lambda>t. Inr (k, t)))
         (sort_key fst (map (\<lambda>p. (fst p, stableStringify (snd p))) ps)))) (\<lambda>ts.
       let entries = concat (map (\<lambda>(k, t). case t of None \<Rightarrow> [] | Some v \<Rightarrow> [quoteJson k @ [58] @ v]) ts)
       in Inr (Some ([123] @ joinUnits [44] entries @ [125])))"
  by pat_completeness auto
termination
  by (relation "measure size") (auto simp: size_item dest: size_entry)

definition properties :: "jsval \<Rightarrow> (units \<times> jsval) list" where
  "properties v = (case v of ObjV ps \<Rightarrow> ps | ClassV _ ps \<Rightarrow> ps | _ \<Rightarrow> [])"

definition fingerprintText :: "units \<Rightarrow> jsval \<Rightarrow> js_error + units option" where
  "fingerprintText name data =
     (let input = filter (\<lambda>(f, v). \<not> isEnvelope f v) (properties data)
      in stableStringify (ObjV [(u ''commandName'', StrV name), (u ''input'', ObjV input)]))"

definition fingerprint :: "(units \<Rightarrow> units) \<Rightarrow> units \<Rightarrow> jsval \<Rightarrow> js_error + units" where
  "fingerprint sha256Hex name data =
     andThen (fingerprintText name data) (\<lambda>t. Inr (sha256Hex (orElse t [])))"

section \<open>The in-memory store\<close>

record Row =
  rowToken :: units
  rowClaim :: IdempotencyClaim
  rowDone :: bool
  rowResult :: jsval
  createdAt :: rat
  updatedAt :: rat

record MemoryIdempotencyStore =
  idemRows :: "(units, Row) jsmap"
  leaseMs :: rat
  retentionMs :: rat

definition assertPositiveFinite :: "string \<Rightarrow> jsnum \<Rightarrow> js_error + unit" where
  "assertPositiveFinite name v =
     (if \<not> js_isFinite v \<or> js_le v (Fin 0) then Inl (RangeErr (name @ '' must be a finite number above zero''))
      else Inr ())"

definition finiteVal :: "jsnum \<Rightarrow> rat" where
  "finiteVal v = (case v of Fin q \<Rightarrow> q | _ \<Rightarrow> 0)"

definition memIdemNew :: "jsnum option \<Rightarrow> jsnum option \<Rightarrow> js_error + MemoryIdempotencyStore" where
  "memIdemNew leaseOption retentionOption =
     (let leaseSeconds = orElse leaseOption (Fin IDEMPOTENCY_LEASE_SECONDS);
          retentionDays = orElse retentionOption (Fin IDEMPOTENCY_RETENTION_DAYS)
      in andThen (assertPositiveFinite ''leaseSeconds'' leaseSeconds) (\<lambda>_.
         andThen (assertPositiveFinite ''retentionDays'' retentionDays) (\<lambda>_.
           Inr \<lparr>idemRows = [], leaseMs = finiteVal leaseSeconds * 1000, retentionMs = finiteVal retentionDays * 86400000\<rparr>)))"

text \<open>\<open>JSON.stringify([userId, key])\<close>.\<close>

definition rowId :: "IdempotencyUserId \<Rightarrow> units \<Rightarrow> units" where
  "rowId user key =
     [91] @ jsonPrim (case user of UserNum t \<Rightarrow> NumV t | UserStr s \<Rightarrow> StrV s) @ [44] @ jsonPrim (StrV key) @ [93]"

definition claimId :: "IdempotencyClaim \<Rightarrow> units" where
  "claimId c = rowId (claimUser c) (claimKey c)"

definition memIdemBegin ::
  "MemoryIdempotencyStore \<Rightarrow> IdempotencyClaim \<Rightarrow> rat \<Rightarrow> units \<Rightarrow> MemoryIdempotencyStore \<times> (js_error + BeginOutcome)" where
  "memIdemBegin s claim now uuid =
     (let rid = claimId claim;
          stale = (case jm_get (idemRows s) rid of Some r \<Rightarrow> createdAt r < now - retentionMs s | None \<Rightarrow> False);
          s1 = (if stale then s\<lparr>idemRows := jm_delete rid (idemRows s)\<rparr> else s);
          row = (if stale then None else jm_get (idemRows s) rid)
      in case row of
           None \<Rightarrow>
             (s1\<lparr>idemRows := jm_set rid \<lparr>rowToken = uuid, rowClaim = claim, rowDone = False, rowResult = Null,
                 createdAt = now, updatedAt = now\<rparr> (idemRows s1)\<rparr>, Inr (Claimed uuid))
         | Some r \<Rightarrow>
             if commandName (rowClaim r) \<noteq> commandName claim \<or> requestHash (rowClaim r) \<noteq> requestHash claim
             then (s1, Inr Reused)
             else if rowDone r then (s1, andThen (jsonClone (rowResult r)) (\<lambda>v. Inr (Replay v)))
             else if updatedAt r \<ge> now - leaseMs s then (s1, Inr InProgress)
             else (s1\<lparr>idemRows := jm_set rid (r\<lparr>createdAt := now, updatedAt := now, rowToken := uuid\<rparr>) (idemRows s1)\<rparr>,
                   Inr (Claimed uuid)))"

text \<open>\<open>row.done = true\<close> happens before the copy of the result, which may throw.\<close>

definition memIdemComplete ::
  "MemoryIdempotencyStore \<Rightarrow> IdempotencyUserId \<Rightarrow> units \<Rightarrow> units \<Rightarrow> jsval \<Rightarrow> rat \<Rightarrow> (MemoryIdempotencyStore, unit) outcome" where
  "memIdemComplete s user key token result now =
     (case jm_get (idemRows s) (rowId user key) of
        None \<Rightarrow> (s, Inr ())
      | Some r \<Rightarrow>
          if \<not> rowDone r \<and> rowToken r = token
          then (case jsonClone result of
              Inl e \<Rightarrow> (s\<lparr>idemRows := jm_set (rowId user key) (r\<lparr>rowDone := True\<rparr>) (idemRows s)\<rparr>, Inl e)
            | Inr v \<Rightarrow> (s\<lparr>idemRows := jm_set (rowId user key)
                 (r\<lparr>rowDone := True, rowResult := v, updatedAt := now\<rparr>) (idemRows s)\<rparr>, Inr ()))
          else (s, Inr ()))"

definition memIdemRelease ::
  "MemoryIdempotencyStore \<Rightarrow> IdempotencyUserId \<Rightarrow> units \<Rightarrow> units \<Rightarrow> (MemoryIdempotencyStore, unit) outcome" where
  "memIdemRelease s user key token =
     (case jm_get (idemRows s) (rowId user key) of
        Some r \<Rightarrow> if rowDone r = False \<and> rowToken r = token
          then (s\<lparr>idemRows := jm_delete (rowId user key) (idemRows s)\<rparr>, Inr ()) else (s, Inr ())
      | None \<Rightarrow> (s, Inr ()))"

definition memIdemSweep :: "MemoryIdempotencyStore \<Rightarrow> rat \<Rightarrow> MemoryIdempotencyStore \<times> nat" where
  "memIdemSweep s now =
     (let cutoff = now - retentionMs s;
          kept = jm_drop (\<lambda>r. createdAt r < cutoff) (idemRows s)
      in (s\<lparr>idemRows := kept\<rparr>, length (idemRows s) - length kept))"

section \<open>The store contract, row by row\<close>

text \<open>What \<open>begin\<close>, \<open>complete\<close>, \<open>release\<close> and \<open>sweep\<close> do to the row of one user and key.\<close>

definition liveRow :: "rat \<Rightarrow> rat \<Rightarrow> Row option \<Rightarrow> Row option" where
  "liveRow retention now r = (case r of Some x \<Rightarrow> if createdAt x < now - retention then None else r | None \<Rightarrow> None)"

definition freshRow :: "IdempotencyClaim \<Rightarrow> rat \<Rightarrow> units \<Rightarrow> Row" where
  "freshRow c now t = \<lparr>rowToken = t, rowClaim = c, rowDone = False, rowResult = Null, createdAt = now, updatedAt = now\<rparr>"

definition sameRequest :: "Row \<Rightarrow> IdempotencyClaim \<Rightarrow> bool" where
  "sameRequest r c \<longleftrightarrow> commandName (rowClaim r) = commandName c \<and> requestHash (rowClaim r) = requestHash c"

definition beginRow :: "rat \<Rightarrow> rat \<Rightarrow> Row option \<Rightarrow> IdempotencyClaim \<Rightarrow> rat \<Rightarrow> units \<Rightarrow> Row option \<times> (js_error + BeginOutcome)" where
  "beginRow lease retention row c now t =
     (case liveRow retention now row of
        None \<Rightarrow> (Some (freshRow c now t), Inr (Claimed t))
      | Some r \<Rightarrow>
          if \<not> sameRequest r c then (Some r, Inr Reused)
          else if rowDone r then (Some r, andThen (jsonClone (rowResult r)) (\<lambda>v. Inr (Replay v)))
          else if updatedAt r \<ge> now - lease then (Some r, Inr InProgress)
          else (Some (r\<lparr>createdAt := now, updatedAt := now, rowToken := t\<rparr>), Inr (Claimed t)))"

definition completeRow :: "Row option \<Rightarrow> units \<Rightarrow> jsval \<Rightarrow> rat \<Rightarrow> Row option" where
  "completeRow row t result now =
     (case row of None \<Rightarrow> None
      | Some r \<Rightarrow> if \<not> rowDone r \<and> rowToken r = t
          then Some (case jsonClone result of Inl e \<Rightarrow> r\<lparr>rowDone := True\<rparr>
                     | Inr v \<Rightarrow> r\<lparr>rowDone := True, rowResult := v, updatedAt := now\<rparr>)
          else row)"

definition releaseRow :: "Row option \<Rightarrow> units \<Rightarrow> Row option" where
  "releaseRow row t = (case row of Some r \<Rightarrow> if \<not> rowDone r \<and> rowToken r = t then None else row | None \<Rightarrow> None)"

text \<open>The calls of a store, with the time and the token the store reads.\<close>

datatype idemCall = CallBegin IdempotencyClaim rat units | CallComplete IdempotencyUserId units units jsval rat
  | CallRelease IdempotencyUserId units units | CallSweep rat

record 's idemStore =
  sBegin :: "'s \<Rightarrow> IdempotencyClaim \<Rightarrow> rat \<Rightarrow> units \<Rightarrow> 's \<times> (js_error + BeginOutcome)"
  sComplete :: "'s \<Rightarrow> IdempotencyUserId \<Rightarrow> units \<Rightarrow> units \<Rightarrow> jsval \<Rightarrow> rat \<Rightarrow> 's \<times> (js_error + unit)"
  sRelease :: "'s \<Rightarrow> IdempotencyUserId \<Rightarrow> units \<Rightarrow> units \<Rightarrow> 's \<times> (js_error + unit)"
  sSweep :: "'s \<Rightarrow> rat \<Rightarrow> 's \<times> nat"

definition callStore :: "'s idemStore \<Rightarrow> 's \<Rightarrow> idemCall \<Rightarrow> 's" where
  "callStore ops s c =
     (case c of CallBegin claim now t \<Rightarrow> fst (sBegin ops s claim now t)
      | CallComplete user key t result now \<Rightarrow> fst (sComplete ops s user key t result now)
      | CallRelease user key t \<Rightarrow> fst (sRelease ops s user key t)
      | CallSweep now \<Rightarrow> fst (sSweep ops s now))"

definition runCalls :: "'s idemStore \<Rightarrow> 's \<Rightarrow> idemCall list \<Rightarrow> 's" where
  "runCalls ops = foldl (callStore ops)"

text \<open>A call that neither ends the claim \<open>t\<close> of the row nor comes after the time \<open>until\<close>.\<close>

definition bystander :: "units \<Rightarrow> units \<Rightarrow> rat \<Rightarrow> idemCall \<Rightarrow> bool" where
  "bystander rid t until c =
     (case c of CallBegin claim now _ \<Rightarrow> now \<le> until
      | CallComplete user key t' _ _ \<Rightarrow> rowId user key \<noteq> rid \<or> t' \<noteq> t
      | CallRelease user key t' \<Rightarrow> rowId user key \<noteq> rid \<or> t' \<noteq> t
      | CallSweep now \<Rightarrow> now \<le> until)"

text \<open>A call that comes no later than a deadline, if it reads the clock.\<close>

definition withinRetention :: "rat \<Rightarrow> idemCall \<Rightarrow> bool" where
  "withinRetention deadline c =
     (case c of CallBegin _ now _ \<Rightarrow> now \<le> deadline | CallSweep now \<Rightarrow> now \<le> deadline | _ \<Rightarrow> True)"

locale idem_store =
  fixes ops :: "'s idemStore" and inv :: "'s \<Rightarrow> bool" and cell :: "'s \<Rightarrow> units \<Rightarrow> Row option" and lease retention :: rat
  assumes begin_inv: "inv s \<Longrightarrow> inv (fst (sBegin ops s c now t))"
    and begin_cell: "inv s \<Longrightarrow> cell (fst (sBegin ops s c now t)) =
      (cell s)(claimId c := fst (beginRow lease retention (cell s (claimId c)) c now t))"
    and begin_outcome: "inv s \<Longrightarrow> snd (sBegin ops s c now t) = snd (beginRow lease retention (cell s (claimId c)) c now t)"
    and complete_inv: "inv s \<Longrightarrow> inv (fst (sComplete ops s user key t v now))"
    and complete_cell: "inv s \<Longrightarrow> cell (fst (sComplete ops s user key t v now)) =
      (cell s)(rowId user key := completeRow (cell s (rowId user key)) t v now)"
    and release_inv: "inv s \<Longrightarrow> inv (fst (sRelease ops s user key t))"
    and release_cell: "inv s \<Longrightarrow> cell (fst (sRelease ops s user key t)) =
      (cell s)(rowId user key := releaseRow (cell s (rowId user key)) t)"
    and sweep_inv: "inv s \<Longrightarrow> inv (fst (sSweep ops s now))"
    and sweep_cell: "inv s \<Longrightarrow> cell (fst (sSweep ops s now)) rid = liveRow retention now (cell s rid)"
begin

lemmas cell_laws = begin_inv begin_cell complete_inv complete_cell release_inv release_cell sweep_inv sweep_cell

lemma call_inv: "inv s \<Longrightarrow> inv (callStore ops s c)"
  by (cases c) (simp_all add: callStore_def cell_laws)

lemma run_inv: "inv s \<Longrightarrow> inv (runCalls ops s cs)"
  by (induction cs arbitrary: s) (simp_all add: runCalls_def call_inv)

text \<open>A running claim stays while its lease and the retention last.\<close>

lemma running_kept:
  assumes "inv s" "cell s rid = Some r" "\<not> rowDone r" "rowToken r = t"
    and "bystander rid t (min (updatedAt r + lease) (createdAt r + retention)) c"
  shows "cell (callStore ops s c) rid = Some r"
  using assms
  by (cases c) (auto simp: callStore_def cell_laws bystander_def beginRow_def liveRow_def completeRow_def releaseRow_def Let_def)

lemma running_kept_run:
  assumes "inv s" "cell s rid = Some r" "\<not> rowDone r" "rowToken r = t"
    and "list_all (bystander rid t (min (updatedAt r + lease) (createdAt r + retention))) cs"
  shows "cell (runCalls ops s cs) rid = Some r"
  using assms
proof (induction cs arbitrary: s)
  case (Cons c cs)
  then have "cell (callStore ops s c) rid = Some r" using running_kept [of s rid r t c] by simp
  then show ?case using Cons.IH [of "callStore ops s c"] Cons.prems call_inv by (simp add: runCalls_def)
qed (simp add: runCalls_def)

text \<open>A completed row stays while the retention lasts, whatever is called.\<close>

lemma done_kept:
  assumes "inv s" "cell s rid = Some r" "rowDone r" "withinRetention (createdAt r + retention) c"
  shows "cell (callStore ops s c) rid = Some r"
  using assms
  by (cases c) (auto simp: callStore_def cell_laws withinRetention_def beginRow_def liveRow_def completeRow_def releaseRow_def Let_def)

lemma done_kept_run:
  assumes "inv s" "cell s rid = Some r" "rowDone r"
    and "list_all (withinRetention (createdAt r + retention)) cs"
  shows "cell (runCalls ops s cs) rid = Some r"
  using assms
proof (induction cs arbitrary: s)
  case (Cons c cs)
  then have "cell (callStore ops s c) rid = Some r" using done_kept [of s rid r c] by simp
  then show ?case using Cons.IH [of "callStore ops s c"] Cons.prems call_inv by (simp add: runCalls_def)
qed (simp add: runCalls_def)

lemma claimed_row:
  assumes "inv s" "sBegin ops s c now t = (s', Inr (Claimed t'))"
  shows "t' = t \<and> inv s' \<and> (\<exists>r. cell s' (claimId c) = Some r \<and> \<not> rowDone r \<and> rowToken r = t \<and> sameRequest r c \<and>
    createdAt r = now \<and> updatedAt r = now)"
proof -
  have row: "snd (beginRow lease retention (cell s (claimId c)) c now t) = Inr (Claimed t')"
    and s': "inv s'" "cell s' (claimId c) = fst (beginRow lease retention (cell s (claimId c)) c now t)"
    using begin_outcome [OF assms(1)] begin_inv [OF assms(1)] begin_cell [OF assms(1)] assms(2) by (metis fst_conv snd_conv fun_upd_same)+
  show ?thesis
  proof (cases "liveRow retention now (cell s (claimId c))")
    case None
    then show ?thesis using row s' by (simp add: beginRow_def freshRow_def sameRequest_def)
  next
    case (Some r)
    then show ?thesis using row s' by (auto simp: beginRow_def sameRequest_def andThen_def split: if_splits sum.splits)
  qed
qed

lemma claim_excludes:
  assumes "inv s" "sBegin ops s c now t = (s', Inr (Claimed t'))"
    and "list_all (bystander (claimId c) t (now + min lease retention)) cs"
    and "now' \<le> now + min lease retention" "claimId c' = claimId c"
  shows "snd (sBegin ops (runCalls ops s' cs) c' now' t2) =
    Inr (if commandName c' = commandName c \<and> requestHash c' = requestHash c then InProgress else Reused)"
proof -
  obtain r where r: "inv s'" "cell s' (claimId c) = Some r" "\<not> rowDone r" "rowToken r = t" "sameRequest r c"
    "createdAt r = now" "updatedAt r = now"
    using claimed_row [OF assms(1,2)] by blast
  have "now + min lease retention = min (updatedAt r + lease) (createdAt r + retention)"
    using r(6,7) by (simp add: min_def)
  then have "cell (runCalls ops s' cs) (claimId c) = Some r"
    using running_kept_run [OF r(1-4)] assms(3) by simp
  then show ?thesis
    using begin_outcome [OF run_inv [OF r(1)]] assms(4,5) r
    by (auto simp: beginRow_def liveRow_def sameRequest_def)
qed

lemma done_replays:
  assumes "inv s" "cell s (claimId c) = Some r" "rowDone r" "sameRequest r c" "jsonClone (rowResult r) = Inr v"
    and "list_all (withinRetention (createdAt r + retention)) cs"
    and "now' \<le> createdAt r + retention"
  shows "snd (sBegin ops (runCalls ops s cs) c now' t2) = Inr (Replay v)"
  using done_kept_run [OF assms(1-3,6)] begin_outcome [OF run_inv [OF assms(1)]] assms(3-5,7)
  by (auto simp: beginRow_def liveRow_def)

end

text \<open>The in-memory store satisfies the contract.\<close>

definition memIdemOps :: "MemoryIdempotencyStore idemStore" where
  "memIdemOps = \<lparr>sBegin = memIdemBegin, sComplete = memIdemComplete, sRelease = memIdemRelease, sSweep = memIdemSweep\<rparr>"

definition memIdemInv :: "rat \<Rightarrow> rat \<Rightarrow> MemoryIdempotencyStore \<Rightarrow> bool" where
  "memIdemInv lease retention s \<longleftrightarrow> jm_ok (idemRows s) \<and> leaseMs s = lease \<and> retentionMs s = retention"

definition memIdemCell :: "MemoryIdempotencyStore \<Rightarrow> units \<Rightarrow> Row option" where
  "memIdemCell s = jm_get (idemRows s)"

interpretation memIdem: idem_store memIdemOps "memIdemInv lease retention" memIdemCell lease retention
  for lease retention :: rat
proof unfold_locales
  fix s c now t
  assume inv: "memIdemInv lease retention s"
  show "memIdemInv lease retention (fst (sBegin memIdemOps s c now t))"
    using inv by (auto simp: memIdemOps_def memIdemInv_def memIdemBegin_def Let_def split: option.splits)
  show "memIdemCell (fst (sBegin memIdemOps s c now t)) =
      (memIdemCell s)(claimId c := fst (beginRow lease retention (memIdemCell s (claimId c)) c now t))"
    using inv by (auto simp: memIdemOps_def memIdemInv_def memIdemCell_def memIdemBegin_def beginRow_def liveRow_def
        freshRow_def sameRequest_def Let_def fun_eq_iff split: option.splits)
  show "snd (sBegin memIdemOps s c now t) = snd (beginRow lease retention (memIdemCell s (claimId c)) c now t)"
    using inv by (auto simp: memIdemOps_def memIdemInv_def memIdemCell_def memIdemBegin_def beginRow_def liveRow_def
        freshRow_def sameRequest_def Let_def split: option.splits)
next
  fix s user key t v now
  assume inv: "memIdemInv lease retention s"
  show "memIdemInv lease retention (fst (sComplete memIdemOps s user key t v now))"
    using inv by (auto simp: memIdemOps_def memIdemInv_def memIdemComplete_def split: option.splits sum.splits)
  show "memIdemCell (fst (sComplete memIdemOps s user key t v now)) =
      (memIdemCell s)(rowId user key := completeRow (memIdemCell s (rowId user key)) t v now)"
    by (auto simp: memIdemOps_def memIdemCell_def memIdemComplete_def completeRow_def fun_eq_iff split: option.splits sum.splits)
  show "memIdemInv lease retention (fst (sRelease memIdemOps s user key t))"
    using inv by (auto simp: memIdemOps_def memIdemInv_def memIdemRelease_def split: option.splits)
  show "memIdemCell (fst (sRelease memIdemOps s user key t)) =
      (memIdemCell s)(rowId user key := releaseRow (memIdemCell s (rowId user key)) t)"
    by (auto simp: memIdemOps_def memIdemCell_def memIdemRelease_def releaseRow_def fun_eq_iff split: option.splits)
next
  fix s now rid
  assume inv: "memIdemInv lease retention s"
  show "memIdemInv lease retention (fst (sSweep memIdemOps s now))"
    using inv by (simp add: memIdemOps_def memIdemInv_def memIdemSweep_def Let_def)
  show "memIdemCell (fst (sSweep memIdemOps s now)) rid = liveRow retention now (memIdemCell s rid)"
    using inv by (auto simp: memIdemOps_def memIdemInv_def memIdemCell_def memIdemSweep_def liveRow_def Let_def jm_get_drop
        split: option.splits)
qed

end
