(* ===== verification/Doubles.thy ===== *)
theory Doubles
  imports Prelude "HOL-Library.Log_Nat"
begin

text \<open>
  Addition of JavaScript numbers, for the one loop that adds up a number nobody checked: IEEE 754
  binary64, rounded to nearest with ties to even. A sum of whole numbers in the safe range is exact;
  past it a sum can stay where it is.
\<close>

text \<open>The exponent of a nonzero value: the greatest \<open>e\<close> with \<open>2 ^ e\<close> at most its size.\<close>

definition binade :: "rat \<Rightarrow> int" where
  "binade q =
     (case quotient_of \<bar>q\<bar> of (n, d) \<Rightarrow>
        let e = bitlen n - bitlen d in
        if 2 powi e \<le> \<bar>q\<bar> then e else e - 1)"

text \<open>The step between doubles of that size: 53 significant bits, and never below the subnormal step.\<close>

definition doubleStep :: "rat \<Rightarrow> rat" where
  "doubleStep q = 2 powi (max (binade q - 52) (-1074))"

definition halfEven :: "rat \<Rightarrow> int" where
  "halfEven m =
     (let k = \<lfloor>m\<rfloor>; r = m - of_int k in
      if r < 1 / 2 \<or> r = 1 / 2 \<and> even k then k else k + 1)"

definition roundDouble :: "rat \<Rightarrow> jsnum" where
  "roundDouble q =
     (if q = 0 then Fin 0
      else let r = doubleStep q * of_int (halfEven (q / doubleStep q)) in
        if \<bar>r\<bar> < 2 ^ 1024 then Fin r else if r > 0 then PosInf else NegInf)"

fun js_add :: "jsnum \<Rightarrow> jsnum \<Rightarrow> jsnum" where
  "js_add NaN _ = NaN"
| "js_add _ NaN = NaN"
| "js_add PosInf NegInf = NaN"
| "js_add NegInf PosInf = NaN"
| "js_add PosInf _ = PosInf"
| "js_add _ PosInf = PosInf"
| "js_add NegInf _ = NegInf"
| "js_add _ NegInf = NegInf"
| "js_add (Fin a) (Fin b) = roundDouble (a + b)"

lemma halfEven_int [simp]: "halfEven (of_int k) = k"
  by (simp add: halfEven_def)

lemma bitlen_one: "bitlen 1 = 1"
  by (simp add: bitlen_def floorlog_def)

lemma binade_int:
  assumes "0 < n"
  shows "binade (of_int n) = bitlen n - 1"
proof -
  have pos: "0 < bitlen n" using assms bitlen_bounds [of n] bitlen_nonneg [of n] by (cases "bitlen n = 0") auto
  have "of_int (2 ^ nat (bitlen n - 1)) \<le> (of_int n :: rat)" using bitlen_bounds [OF assms] by (simp only: of_int_le_iff)
  then have "2 powi (bitlen n - 1) \<le> (of_int n :: rat)" using pos by (simp add: power_int_def)
  then show ?thesis using assms by (simp add: binade_def quotient_of_int Let_def bitlen_one)
qed

lemma roundDouble_safe:
  assumes "0 \<le> n" "n < 2 ^ 53"
  shows "roundDouble (of_int n) = js_int n"
proof (cases "n = 0")
  case False
  then have n: "0 < n" using assms by simp
  have len: "bitlen n \<le> 53" using bitlen_le_iff_power [of n 53] assms(2) by simp
  have pos: "0 \<le> bitlen n" by (rule bitlen_nonneg)
  define j where "j = nat (53 - bitlen n)"
  have step: "doubleStep (of_int n) = 1 / 2 ^ j"
  proof -
    have "max (binade (of_int n) - 52) (- 1074) = - int j" using len pos by (simp add: binade_int [OF n] j_def)
    then show ?thesis by (simp add: doubleStep_def power_int_minus inverse_eq_divide)
  qed
  have scaled: "(of_int n :: rat) / doubleStep (of_int n) = of_int (n * 2 ^ j)" by (simp add: step)
  have "doubleStep (of_int n) * of_int (halfEven ((of_int n :: rat) / doubleStep (of_int n))) = of_int n"
    unfolding scaled halfEven_int by (simp add: step)
  moreover have "\<bar>of_int n :: rat\<bar> < 2 ^ 1024"
  proof -
    have "n < 2 ^ 1024" using assms(2) by (rule less_trans) (simp add: power_strict_increasing)
    then have "of_int n < (of_int (2 ^ 1024) :: rat)" by (simp only: of_int_less_iff)
    then show ?thesis using n by simp
  qed
  ultimately show ?thesis using n by (simp add: roundDouble_def)
qed (simp add: roundDouble_def)

lemma js_add_safe [jsnum_simps]:
  assumes "0 \<le> a + b" "a + b < 2 ^ 53"
  shows "js_add (js_int a) (js_int b) = js_int (a + b)"
  using roundDouble_safe [OF assms] by simp

text \<open>Past the safe range one more is no more.\<close>

lemma js_add_stays: "js_add (js_int (2 ^ 53)) (js_int 1) = js_int (2 ^ 53)"
proof -
  have "bitlen 9007199254740993 = 54" "bitlen 1 = 1" by code_simp+
  then have "binade 9007199254740993 = 53"
    using binade_int [of 9007199254740993] by simp
  moreover have "\<lfloor>9007199254740993 / 2 :: rat\<rfloor> = 4503599627370496" by code_simp
  ultimately show ?thesis by (simp add: roundDouble_def doubleStep_def halfEven_def Let_def)
qed

text \<open>A tenth and a fifth make a little over three tenths.\<close>

lemma js_add_tenths:
  "js_add (Fin (3602879701896397 / 36028797018963968)) (Fin (3602879701896397 / 18014398509481984)) =
   Fin (1351079888211149 / 4503599627370496)"
proof -
  have "quotient_of (10808639105689191 / 36028797018963968) = (10808639105689191, 36028797018963968)"
    "bitlen 10808639105689191 = 54" "bitlen 36028797018963968 = 56" by code_simp+
  then have "binade (10808639105689191 / 36028797018963968) = - 2"
    by (simp add: binade_def power_int_def power2_eq_square)
  then have step: "doubleStep (10808639105689191 / 36028797018963968) = 1 / 18014398509481984"
    by (simp add: doubleStep_def power_int_def power_divide)
  have half: "\<lfloor>10808639105689191 / 2 :: rat\<rfloor> = 5404319552844595" by code_simp
  show ?thesis by (simp add: roundDouble_def halfEven_def Let_def step half)
qed

end
