(* ===== verification/IdempotencyRun.thy ===== *)
theory IdempotencyRun
  imports Idempotency Doubles
begin

text \<open>
  \<open>createIdempotencyMiddleware\<close> of \<open>server/idempotency/idempotency.ts\<close> over any store: the checks, the
  wait for a run in flight, the run, and what is kept of it. The surroundings are parameters: the times
  and tokens the store reads, what other requests do to the store while this one sleeps or runs, and
  the command itself (\<open>next\<close>, which changes the application's state and returns or throws). Nobody
  checks \<open>waitMs\<close> and \<open>pollMs\<close>, so they are any numbers, added up as doubles.
\<close>

datatype prepared = PassThrough | RefuseWith IdempotencyErrorCode | CannotFingerprint js_error | ClaimFor IdempotencyClaim

definition prepareClaim :: "(units \<Rightarrow> units) \<Rightarrow> units \<Rightarrow> jsval \<Rightarrow> prepared" where
  "prepareClaim sha256Hex name data =
     (let key = field (u ''idempotencyKey'') data in
      if key = Undef then PassThrough
      else if \<not> isIdempotencyKey key then RefuseWith INVALID_KEY
      else let userId = field (u ''userId'') (field (u ''actor'') data);
               user = (case userId of NumV t \<Rightarrow> Some (UserNum t) | StrV s \<Rightarrow> if s = [] then None else Some (UserStr s) | _ \<Rightarrow> None)
      in case user of
           None \<Rightarrow> RefuseWith INVALID_KEY
         | Some who \<Rightarrow>
             if length name > MAX_IDEMPOTENCY_COMMAND_NAME_LENGTH then RefuseWith INVALID_COMMAND
             else case fingerprint sha256Hex name data of
                 Inl e \<Rightarrow> CannotFingerprint e
               | Inr h \<Rightarrow> ClaimFor \<lparr>claimUser = who, claimKey = (case key of StrV k \<Rightarrow> k | _ \<Rightarrow> []),
                   commandName = name, requestHash = h\<rparr>)"

datatype waitEnd = StoreThrew js_error | Answered jsval | RefusedAs IdempotencyErrorCode | RunWith units

text \<open>The surroundings of one call: the clock and tokens of its \<open>begin\<close>s, and the others while it sleeps.\<close>

record 's surroundings =
  clock :: "nat \<Rightarrow> rat"
  uuids :: "nat \<Rightarrow> units"
  others :: "nat \<Rightarrow> 's \<Rightarrow> 's"

definition DEFAULT_WAIT_MS :: jsnum where "DEFAULT_WAIT_MS = js_int 8000"
definition DEFAULT_POLL_MS :: jsnum where "DEFAULT_POLL_MS = js_int 100"

partial_function (option) awaitClaim ::
  "'s idemStore \<Rightarrow> jsnum \<Rightarrow> jsnum \<Rightarrow> 's surroundings \<Rightarrow> IdempotencyClaim \<Rightarrow> 's \<Rightarrow> nat \<Rightarrow> jsnum \<Rightarrow> ('s \<times> waitEnd) option" where
  "awaitClaim ops waitMs pollMs env claim s i waited =
     (case sBegin ops s claim (clock env i) (uuids env i) of (s', out) \<Rightarrow>
        (case out of
           Inl e \<Rightarrow> Some (s', StoreThrew e)
         | Inr (Replay v) \<Rightarrow> Some (s', Answered v)
         | Inr Reused \<Rightarrow> Some (s', RefusedAs KEY_REUSED)
         | Inr (Claimed t) \<Rightarrow> Some (s', RunWith t)
         | Inr InProgress \<Rightarrow>
             if js_le waitMs waited then Some (s', RefusedAs IN_PROGRESS)
             else awaitClaim ops waitMs pollMs env claim (others env i s') (i + 1) (js_add waited pollMs)))"

text \<open>How a call ends: a result, a refusal, the command's own error, or an error before it ran.\<close>

datatype 'e mwEnd = MwResult jsval | MwRefused IdempotencyErrorCode | MwThrew 'e | MwError js_error

text \<open>The run itself; the last component is what went to \<open>onStoreFailure\<close>.\<close>

definition runClaimed ::
  "'s idemStore \<Rightarrow> IdempotencyClaim \<Rightarrow> units \<Rightarrow> ('a \<Rightarrow> 'a \<times> ('e + jsval)) \<Rightarrow> ('s \<Rightarrow> 's) \<Rightarrow> rat \<Rightarrow> 's \<Rightarrow> 'a \<Rightarrow>
   ('s \<times> 'a) \<times> 'e mwEnd \<times> js_error list" where
  "runClaimed ops claim t nextStep during doneAt s app =
     (case nextStep app of
        (app', Inl e) \<Rightarrow>
          (case sRelease ops (during s) (claimUser claim) (claimKey claim) t of
             (s', r) \<Rightarrow> ((s', app'), MwThrew e, case r of Inl x \<Rightarrow> [x] | Inr _ \<Rightarrow> []))
      | (app', Inr v) \<Rightarrow>
          (case jsonClone v of
             Inl x \<Rightarrow> ((during s, app'), MwResult v, [x])
           | Inr w \<Rightarrow>
               (case sComplete ops (during s) (claimUser claim) (claimKey claim) t w doneAt of
                  (s', r) \<Rightarrow> ((s', app'), MwResult v, case r of Inl x \<Rightarrow> [x] | Inr _ \<Rightarrow> []))))"

definition idempotencyMiddleware ::
  "'s idemStore \<Rightarrow> (units \<Rightarrow> units) \<Rightarrow> jsnum option \<Rightarrow> jsnum option \<Rightarrow> 's surroundings \<Rightarrow> ('s \<Rightarrow> 's) \<Rightarrow> rat \<Rightarrow> units \<Rightarrow> jsval \<Rightarrow>
   ('a \<Rightarrow> 'a \<times> ('e + jsval)) \<Rightarrow> 's \<Rightarrow> 'a \<Rightarrow> (('s \<times> 'a) \<times> 'e mwEnd \<times> js_error list) option" where
  "idempotencyMiddleware ops sha256Hex waitOption pollOption env during doneAt name data nextStep s app =
     (case prepareClaim sha256Hex name data of
        PassThrough \<Rightarrow> (case nextStep app of (app', r) \<Rightarrow>
          Some ((s, app'), (case r of Inl e \<Rightarrow> MwThrew e | Inr v \<Rightarrow> MwResult v), []))
      | RefuseWith why \<Rightarrow> Some ((s, app), MwRefused why, [])
      | CannotFingerprint e \<Rightarrow> Some ((s, app), MwError e, [])
      | ClaimFor claim \<Rightarrow>
          (case awaitClaim ops (orElse waitOption DEFAULT_WAIT_MS) (orElse pollOption DEFAULT_POLL_MS) env claim s 0 (Fin 0) of
             None \<Rightarrow> None
           | Some (s', StoreThrew e) \<Rightarrow> Some ((s', app), MwError e, [])
           | Some (s', Answered v) \<Rightarrow> Some ((s', app), MwResult v, [])
           | Some (s', RefusedAs why) \<Rightarrow> Some ((s', app), MwRefused why, [])
           | Some (s', RunWith t) \<Rightarrow> Some (runClaimed ops claim t nextStep during doneAt s' app)))"

section \<open>The wait ends\<close>

lemma await_whole:
  assumes "0 < p" "w + p \<le> 2 ^ 53" "0 \<le> k"
  shows "\<exists>r. awaitClaim ops (js_int w) (js_int p) env claim s i (js_int k) = Some r"
  using assms(3)
proof (induction "nat (w - k)" arbitrary: s i k rule: less_induct)
  case less
  obtain s' out where b: "sBegin ops s claim (clock env i) (uuids env i) = (s', out)" by fastforce
  show ?case
  proof (cases "out = Inr InProgress \<and> k < w")
    case True
    then have "nat (w - (k + p)) < nat (w - k)" using assms(1) by simp
    from less.hyps [OF this, of "others env i s'" "i + 1"] True b less.prems assms show ?thesis
      by (subst awaitClaim.simps) (simp add: jsnum_simps del: js_add.simps js_le.simps)
  next
    case False
    then show ?thesis using b
      by (subst awaitClaim.simps) (auto simp: jsnum_simps simp del: js_le.simps split: sum.split BeginOutcome.split)
  qed
qed

text \<open>
  C21: A retry that waits for a run in flight gives up. With a wait and a poll interval in whole milliseconds,
  the interval above zero and their sum at most \<open>2 ^ 53\<close> (where every sum of the loop is exact), the loop of
  the middleware returns for any store and whatever the others do. Nothing of the kind holds without the
  condition: a store that goes on answering \<open>in_progress\<close> keeps a call with a wait of NaN for ever.
\<close>
theorem await_claim_returns:
  assumes "0 < p" "w + p \<le> 2 ^ 53"
  shows "\<exists>r. awaitClaim ops (js_int w) (js_int p) env claim s 0 (Fin 0) = Some r"
  using await_whole [OF assms, of 0 ops env claim s 0] by simp

theorem await_claim_returns_witness:
  "\<exists>r. awaitClaim memIdemOps (js_int 8000) (js_int 100)
    \<lparr>clock = (\<lambda>i. of_nat i * 100), uuids = (\<lambda>i. [i]), others = (\<lambda>_ s. s)\<rparr>
    \<lparr>claimUser = UserNum (u ''7''), claimKey = u ''k'', commandName = u ''Pay'', requestHash = u ''h''\<rparr>
    \<lparr>idemRows = [], leaseMs = 30000, retentionMs = 604800000\<rparr> 0 (Fin 0) = Some r"
  by (rule await_claim_returns) simp_all

text \<open>
  A wait that no value of \<open>waited\<close> reaches never ends while the store answers \<open>in_progress\<close>.
\<close>
lemma await_stuck:
  assumes stuck: "\<And>s i. \<exists>s'. sBegin ops s claim (clock env i) (uuids env i) = (s', Inr InProgress)"
    and short: "\<And>w. P w \<Longrightarrow> \<not> js_le waitMs w \<and> P (js_add w pollMs)" and first: "P waited"
  shows "awaitClaim ops waitMs pollMs env claim s i waited = None"
proof -
  have "\<not> (ops' = ops \<and> wait' = waitMs \<and> poll' = pollMs \<and> env' = env \<and> claim' = claim \<and> P w)"
    if run: "awaitClaim ops' wait' poll' env' claim' s i w = Some r" for ops' wait' poll' env' claim' s i w r
  proof (rule awaitClaim.raw_induct [where P = "\<lambda>ops' wait' poll' env' claim' s i w r.
      \<not> (ops' = ops \<and> wait' = waitMs \<and> poll' = pollMs \<and> env' = env \<and> claim' = claim \<and> P w)", OF _ run], goal_cases)
    case (1 loop ops' wait' poll' env' claim' s i w r)
    show ?case
    proof
      assume same: "ops' = ops \<and> wait' = waitMs \<and> poll' = pollMs \<and> env' = env \<and> claim' = claim \<and> P w"
      obtain s' where "sBegin ops s claim (clock env i) (uuids env i) = (s', Inr InProgress)" using stuck by blast
      with 1(2) same short [of w]
      have "loop ops waitMs pollMs env claim (others env i s') (i + 1) (js_add w pollMs) = Some r" by simp
      from 1(1) [OF this] same short [of w] show False by simp
    qed
  qed
  then show ?thesis using first by (metis not_None_eq)
qed

text \<open>NaN, and a sum that stays where it is: past \<open>2 ^ 53\<close>, or an interval of zero.\<close>

lemma await_nan_never_returns:
  assumes "\<And>s i. \<exists>s'. sBegin ops s claim (clock env i) (uuids env i) = (s', Inr InProgress)"
  shows "awaitClaim ops NaN pollMs env claim s i waited = None"
  by (rule await_stuck [where P = "\<lambda>_. True", OF assms]) simp_all

lemma await_stays_never_returns:
  assumes "\<And>s i. \<exists>s'. sBegin ops s claim (clock env i) (uuids env i) = (s', Inr InProgress)"
    and "js_add waited pollMs = waited" "\<not> js_le waitMs waited"
  shows "awaitClaim ops waitMs pollMs env claim s i waited = None"
  by (rule await_stuck [where P = "\<lambda>w. w = waited", OF assms(1)]) (simp_all add: assms)

section \<open>The command's own outcome reaches the caller\<close>

text \<open>
  Whatever the store does after the command ran, the caller gets the command's own result or error,
  and the application's state is the one the command left.
\<close>
theorem run_outcome_is_own:
  "snd (fst (runClaimed ops claim t nextStep during doneAt s app)) = fst (nextStep app) \<and>
   fst (snd (runClaimed ops claim t nextStep during doneAt s app)) =
     (case snd (nextStep app) of Inl e \<Rightarrow> MwThrew e | Inr v \<Rightarrow> MwResult v)"
  by (auto simp: runClaimed_def split: prod.splits sum.splits)

section \<open>A command runs once\<close>

context idem_store
begin

lemma first_run_claims:
  assumes "inv s" "cell s (claimId c) = None"
  shows "\<exists>s'. awaitClaim ops waitMs pollMs env c s 0 (Fin 0) = Some (s', RunWith (uuids env 0)) \<and> inv s' \<and>
    cell s' (claimId c) = Some (freshRow c (clock env 0) (uuids env 0))"
proof -
  obtain s' out where b: "sBegin ops s c (clock env 0) (uuids env 0) = (s', out)" by fastforce
  have "out = Inr (Claimed (uuids env 0))" "inv s'" "cell s' (claimId c) = Some (freshRow c (clock env 0) (uuids env 0))"
    using begin_outcome [OF assms(1), of c "clock env 0" "uuids env 0"] begin_inv [OF assms(1), of c "clock env 0" "uuids env 0"]
      begin_cell [OF assms(1), of c "clock env 0" "uuids env 0"] b assms(2)
    by (simp_all add: beginRow_def liveRow_def)
  then show ?thesis using b by (subst awaitClaim.simps) simp
qed

lemma completed_row:
  assumes "inv s" "cell s (claimId c) = Some (freshRow c now t)" "jsonClone v = Inr w"
    and "list_all (bystander (claimId c) t (now + min lease retention)) cs"
  shows "inv (fst (sComplete ops (runCalls ops s cs) (claimUser c) (claimKey c) t v fin)) \<and>
    cell (fst (sComplete ops (runCalls ops s cs) (claimUser c) (claimKey c) t v fin)) (claimId c) =
      Some ((freshRow c now t)\<lparr>rowDone := True, rowResult := w, updatedAt := fin\<rparr>)"
proof -
  have "cell (runCalls ops s cs) (claimId c) = Some (freshRow c now t)"
    using running_kept_run [OF assms(1,2)] assms(4) by (simp add: freshRow_def min_def split: if_splits)
  then show ?thesis
    using complete_inv [OF run_inv [OF assms(1)]] complete_cell [OF run_inv [OF assms(1)]] assms(3)
    by (simp add: completeRow_def freshRow_def claimId_def)
qed

lemma replay_answers:
  assumes "inv s" "cell s (claimId c) = Some r" "rowDone r" "sameRequest r c" "jsonClone (rowResult r) = Inr v"
    and "list_all (withinRetention (createdAt r + retention)) cs"
    and "clock env 0 \<le> createdAt r + retention"
  shows "\<exists>s'. awaitClaim ops waitMs pollMs env c (runCalls ops s cs) 0 (Fin 0) = Some (s', Answered v)"
proof -
  obtain s' out where b: "sBegin ops (runCalls ops s cs) c (clock env 0) (uuids env 0) = (s', out)" by fastforce
  have "out = Inr (Replay v)" using done_replays [OF assms(1-6,7), of "uuids env 0"] b by simp
  then show ?thesis using b by (subst awaitClaim.simps) simp
qed

end

lemma clone_json: "jsonClone v = Inr w \<Longrightarrow> jsonClone w = Inr w"
proof -
  assume "jsonClone v = Inr w"
  then have "w = Null \<or> jsonCopy v = Inr (Some w)"
    by (auto simp: jsonClone_def andThen_Inr split: if_splits option.splits)
  then have "isJson w" using copy_isJson by auto
  then show ?thesis using isJson_copy [of w] by (auto simp: jsonClone_def)
qed

text \<open>
  C19: A command with an idempotency key runs once. Take a new key, a command that returns \<open>v\<close>, and any calls
  of others while it runs that do not use its token, inside the lease and the retention. The first call
  of the middleware runs the command and returns \<open>v\<close>. After it, and after any calls at all up to the
  retention, the same command returns the JSON copy of \<open>v\<close> and leaves the application's state alone.
\<close>
theorem command_runs_once:
  assumes "memIdemInv lease retention s" "prepareClaim sha name data = ClaimFor c" "memIdemCell s (claimId c) = None"
    and "nextStep app = (app', Inr v)" "jsonClone v = Inr w"
    and "list_all (bystander (claimId c) (uuids env 0) (clock env 0 + min lease retention)) cs"
  shows "\<exists>s1. idempotencyMiddleware memIdemOps sha wait poll env (\<lambda>s. runCalls memIdemOps s cs) fin name data nextStep s app
      = Some ((s1, app'), MwResult v, []) \<and>
    (\<forall>later env2 app2. list_all (withinRetention (clock env 0 + retention)) later \<longrightarrow> clock env2 0 \<le> clock env 0 + retention \<longrightarrow>
      (\<exists>s2. idempotencyMiddleware memIdemOps sha wait poll env2 during fin2 name data nextStep (runCalls memIdemOps s1 later) app2
        = Some ((s2, app2), MwResult w, [])))"
proof -
  let ?wait = "orElse wait DEFAULT_WAIT_MS" and ?poll = "orElse poll DEFAULT_POLL_MS" and ?t = "uuids env 0"
  obtain s0 where s0: "awaitClaim memIdemOps ?wait ?poll env c s 0 (Fin 0) = Some (s0, RunWith ?t)" "memIdemInv lease retention s0"
    "memIdemCell s0 (claimId c) = Some (freshRow c (clock env 0) ?t)"
    using memIdem.first_run_claims [OF assms(1,3)] by blast
  define s1 where "s1 = fst (sComplete memIdemOps (runCalls memIdemOps s0 cs) (claimUser c) (claimKey c) ?t w fin)"
  define r where "r = (freshRow c (clock env 0) ?t)\<lparr>rowDone := True, rowResult := w, updatedAt := fin\<rparr>"
  have ww: "jsonClone w = Inr w" by (rule clone_json [OF assms(5)])
  have s1: "memIdemInv lease retention s1" "memIdemCell s1 (claimId c) = Some r"
    using memIdem.completed_row [OF s0(2,3) ww assms(6), of fin] by (simp_all add: s1_def r_def)
  have "sComplete memIdemOps (runCalls memIdemOps s0 cs) (claimUser c) (claimKey c) ?t w fin = (s1, Inr ())"
    by (auto simp: s1_def memIdemOps_def memIdemComplete_def ww split: option.split)
  then have first: "idempotencyMiddleware memIdemOps sha wait poll env (\<lambda>s. runCalls memIdemOps s cs) fin name data nextStep s app
      = Some ((s1, app'), MwResult v, [])"
    using assms(2,4,5) s0(1) by (simp add: idempotencyMiddleware_def runClaimed_def)
  have row: "rowDone r" "sameRequest r c" "jsonClone (rowResult r) = Inr w" "createdAt r = clock env 0"
    using ww by (simp_all add: r_def freshRow_def sameRequest_def)
  have again: "\<exists>s2. idempotencyMiddleware memIdemOps sha wait poll env2 during fin2 name data nextStep (runCalls memIdemOps s1 later) app2
        = Some ((s2, app2), MwResult w, [])"
    if "list_all (withinRetention (clock env 0 + retention)) later" "clock env2 0 \<le> clock env 0 + retention" for later env2 app2
    using memIdem.replay_answers [OF s1 row(1-3), of later env2 ?wait ?poll] that assms(2) row(4)
    by (auto simp: idempotencyMiddleware_def)
  show ?thesis using first again by blast
qed

text \<open>
  C20: While a claim's lease lasts, no one else gets the key. After \<open>begin\<close> answered \<open>claimed\<close>, whatever calls
  follow that do not end this claim, every \<open>begin\<close> of the same user and key up to the end of the lease
  (and of the retention) answers \<open>in_progress\<close> for the same request and \<open>reused\<close> for another one.
\<close>
theorem claim_is_exclusive:
  assumes "memIdemInv lease retention s" "memIdemBegin s c now t = (s', Inr (Claimed t'))"
    and "list_all (bystander (claimId c) t (now + min lease retention)) cs"
    and "now' \<le> now + min lease retention" "claimId c' = claimId c"
  shows "snd (memIdemBegin (runCalls memIdemOps s' cs) c' now' t2) =
    Inr (if commandName c' = commandName c \<and> requestHash c' = requestHash c then InProgress else Reused)"
proof -
  have "sBegin memIdemOps = memIdemBegin" by (simp add: memIdemOps_def)
  then show ?thesis using memIdem.claim_excludes [OF assms(1), of c now t s' t' cs now' c' t2] assms(2-5) by simp
qed

section \<open>Concrete runs\<close>

definition sampleData :: jsval where
  "sampleData = ObjV [(u ''actor'', ObjV [(u ''userId'', NumV (u ''7''))]), (u ''idempotencyKey'', StrV (u ''k1'')),
     (u ''amount'', NumV (u ''5''))]"

definition sampleClaim :: IdempotencyClaim where
  "sampleClaim = \<lparr>claimUser = UserNum (u ''7''), claimKey = u ''k1'', commandName = u ''Pay'', requestHash = [1]\<rparr>"

definition sampleStore :: MemoryIdempotencyStore where
  "sampleStore = \<lparr>idemRows = [], leaseMs = 30000, retentionMs = 604800000\<rparr>"

definition sampleEnv :: "MemoryIdempotencyStore surroundings" where
  "sampleEnv = \<lparr>clock = (\<lambda>i. 1000 + of_nat i * 100), uuids = (\<lambda>i. [i]), others = (\<lambda>_ s. s)\<rparr>"

lemma sample_prepared: "prepareClaim (\<lambda>_. [1]) (u ''Pay'') sampleData = ClaimFor sampleClaim"
  by (simp add: prepareClaim_def sampleData_def sampleClaim_def field_def isIdempotencyKey_def fingerprint_def
      fingerprintText_def isEnvelope_def properties_def MAX_IDEMPOTENCY_KEY_LENGTH_def
      MAX_IDEMPOTENCY_COMMAND_NAME_LENGTH_def code_def)

definition sampleCommand :: "nat \<Rightarrow> nat \<times> (unit + jsval)" where
  "sampleCommand n = (n + 1, Inr (StrV (u ''paid'')))"

theorem command_runs_once_witness:
  "\<exists>s1. idempotencyMiddleware memIdemOps (\<lambda>_. [1]) None None sampleEnv (\<lambda>s. runCalls memIdemOps s [CallSweep 2000]) 3000
      (u ''Pay'') sampleData sampleCommand sampleStore 0 = Some ((s1, 1), MwResult (StrV (u ''paid'')), []) \<and>
    (\<exists>s2. idempotencyMiddleware memIdemOps (\<lambda>_. [1]) None None sampleEnv (\<lambda>s. s) 3000
      (u ''Pay'') sampleData sampleCommand (runCalls memIdemOps s1 [CallSweep 5000]) 1 = Some ((s2, 1), MwResult (StrV (u ''paid'')), []))"
proof -
  have later: "list_all (withinRetention (clock sampleEnv 0 + 604800000)) [CallSweep 5000]"
    "clock sampleEnv 0 \<le> clock sampleEnv 0 + 604800000" by (simp_all add: withinRetention_def sampleEnv_def)
  have "memIdemInv 30000 604800000 sampleStore" "memIdemCell sampleStore (claimId sampleClaim) = None"
    "sampleCommand 0 = (1, Inr (StrV (u ''paid'')))" "jsonClone (StrV (u ''paid'')) = Inr (StrV (u ''paid''))"
    "list_all (bystander (claimId sampleClaim) (uuids sampleEnv 0) (clock sampleEnv 0 + min 30000 604800000)) [CallSweep 2000]"
    by (simp_all add: sampleStore_def memIdemInv_def memIdemCell_def jsonClone_def bystander_def sampleEnv_def sampleCommand_def)
  from command_runs_once [where nextStep = sampleCommand and app = 0 and wait = None and poll = None and fin = 3000
      and during = "\<lambda>s. s" and ?fin2.0 = 3000 and env = sampleEnv and cs = "[CallSweep 2000]",
      OF this(1) sample_prepared this(2-5)] later
  show ?thesis by blast
qed

theorem claim_is_exclusive_witness:
  "snd (memIdemBegin (runCalls memIdemOps (fst (memIdemBegin sampleStore sampleClaim 1000 [9])) [CallSweep 2000]) sampleClaim 31000 [8])
    = Inr InProgress"
proof -
  have b: "memIdemBegin sampleStore sampleClaim 1000 [9] = (fst (memIdemBegin sampleStore sampleClaim 1000 [9]), Inr (Claimed [9]))"
    by (simp add: memIdemBegin_def sampleStore_def)
  show ?thesis
    by (subst claim_is_exclusive [where lease = 30000 and retention = 604800000 and c = sampleClaim, OF _ b])
      (simp_all add: memIdemInv_def sampleStore_def bystander_def)
qed

end
