(* ===== verification/IcsCore.thy ===== *)
theory IcsCore
  imports Units Date
begin

text \<open>
  \<open>time/ics-core.ts\<close>: the content lines of iCalendar. Escaping and unescaping of TEXT and parameter
  values, the UTC date-time, folding at 75 octets and unfolding. Texts are UTF-16 code units; a character
  is a code point, and its octets are those of UTF-8. The results: a value reads back with its line
  breaks normalised and cannot end its line; a folded line unfolds to itself, and no physical line is
  longer than 75 octets.
\<close>

definition FOLD_LIMIT :: nat where "FOLD_LIMIT = 75"
definition CONTINUATION_LIMIT :: nat where "CONTINUATION_LIMIT = FOLD_LIMIT - 1"
definition CRLF :: units where "CRLF = [13, 10]"
definition LF :: nat where "LF = 10"

text \<open>CRLF to LF.\<close>

fun replaceCrlf :: "units \<Rightarrow> units" where
  "replaceCrlf (x # y # r) = (if x = 13 \<and> y = 10 then 10 # replaceCrlf r else x # replaceCrlf (y # r))"
| "replaceCrlf s = s"

text \<open>\<open>codePointAt(0)\<close> of a character that is not a pair is its unit; a pair is above every control.\<close>

definition controlChar :: "units \<Rightarrow> bool" where
  "controlChar ch =
     (case ch of [c] \<Rightarrow> (c \<le> 31 \<and> c \<noteq> 9 \<and> c \<noteq> 10 \<and> c \<noteq> 13) \<or> c = 127 | _ \<Rightarrow> False)"

definition stripControlCharacters :: "units \<Rightarrow> units" where
  "stripControlCharacters v = concat (filter (\<lambda>ch. \<not> controlChar ch) (chars v))"

definition icsEscape :: "units \<Rightarrow> units" where
  "icsEscape v =
     (if v = [] then []
      else replaceUnit LF [92, 110] (replaceUnit 44 [92, 44] (replaceUnit 59 [92, 59] (replaceUnit 92 [92, 92]
        (replaceUnit 13 [LF] (replaceCrlf (stripControlCharacters v)))))))"

definition icsEscapeParameter :: "units \<Rightarrow> units" where
  "icsEscapeParameter v =
     (if v = [] then []
      else replaceUnit LF [94, 110] (replaceUnit 34 [94, 39] (replaceUnit 94 [94, 94]
        (replaceUnit 13 [LF] (replaceCrlf (stripControlCharacters v))))))"

fun icsUnescape :: "units \<Rightarrow> units" where
  "icsUnescape [] = []"
| "icsUnescape [c] = [c]"
| "icsUnescape (c # n # r) =
     (if c \<noteq> 92 then c # icsUnescape (n # r)
      else (if n = 110 \<or> n = 78 then LF else n) # icsUnescape r)"

fun icsUnescapeParameter :: "units \<Rightarrow> units" where
  "icsUnescapeParameter [] = []"
| "icsUnescapeParameter [c] = [c]"
| "icsUnescapeParameter (c # n # r) =
     (if c \<noteq> 94 then c # icsUnescapeParameter (n # r)
      else if n = 94 then 94 # icsUnescapeParameter r
      else if n = 39 then 34 # icsUnescapeParameter r
      else if n = 110 \<or> n = 78 then LF # icsUnescapeParameter r
      else 94 # icsUnescapeParameter (n # r))"

text \<open>\<open>None\<close> is an invalid date.\<close>

definition icsPad :: "nat \<Rightarrow> int \<Rightarrow> string" where
  "icsPad width v = padStart width (CHR ''0'') (show_int v)"

definition formatIcsUtc :: "int option \<Rightarrow> js_error + string" where
  "formatIcsUtc instant =
     (case instant of None \<Rightarrow> Inl (TypeErr ''formatIcsUtc requires a valid Date'')
      | Some t \<Rightarrow>
          (case civilOfDay (t div MS_PER_DAY) of (y, m, d) \<Rightarrow>
             Inr (icsPad 4 y @ icsPad 2 m @ icsPad 2 d @ ''T'' @ icsPad 2 (t div 3600000 mod 24) @
                  icsPad 2 (t div 60000 mod 60) @ icsPad 2 (t div 1000 mod 60) @ ''Z'')))"

section \<open>Folding\<close>

text \<open>\<open>TextEncoder.encode(character).length\<close>; a lone surrogate becomes U+FFFD.\<close>

definition charOctets :: "units \<Rightarrow> nat" where
  "charOctets ch = (case ch of [c] \<Rightarrow> if c < 0x80 then 1 else if c < 0x800 then 2 else 3 | _ \<Rightarrow> 4)"

definition octets :: "units \<Rightarrow> nat" where
  "octets s = sum_list (map charOctets (chars s))"

text \<open>The loop of \<open>foldLine\<close>: the chunk so far, its octets and the limit; the result is the chunks.\<close>

fun foldLoop :: "units list \<Rightarrow> units \<Rightarrow> nat \<Rightarrow> nat \<Rightarrow> units list" where
  "foldLoop [] chunk n limit = (if n > 0 then [chunk] else [])"
| "foldLoop (c # cs) chunk n limit =
     (if n > 0 \<and> n + charOctets c > limit
      then chunk # foldLoop cs c (charOctets c) CONTINUATION_LIMIT
      else foldLoop cs (chunk @ c) (n + charOctets c) limit)"

definition physicalLines :: "units list \<Rightarrow> units list" where
  "physicalLines chunks = (case chunks of [] \<Rightarrow> [] | c # cs \<Rightarrow> c # map (\<lambda>v. 32 # v) cs)"

definition foldLine :: "units \<Rightarrow> units" where
  "foldLine text =
     (if octets text \<le> FOLD_LIMIT then text
      else joinUnits CRLF (physicalLines (foldLoop (chars text) [] 0 FOLD_LIMIT)))"

text \<open>The length of a match of \<open>\r?\n[ \t]\<close> at the start, 0 for none.\<close>

definition foldBreak :: "units \<Rightarrow> nat" where
  "foldBreak s =
     (if prefix [13, 10, 32] s \<or> prefix [13, 10, 9] s then 3
      else if prefix [10, 32] s \<or> prefix [10, 9] s then 2 else 0)"

function unfoldLines :: "units \<Rightarrow> units" where
  "unfoldLines [] = []"
| "unfoldLines (x # xs) =
     (if foldBreak (x # xs) = 0 then x # unfoldLines xs else unfoldLines (drop (foldBreak (x # xs) - 1) xs))"
  by pat_completeness auto
termination by (relation "measure length") auto

definition joinContentLines :: "units list \<Rightarrow> units" where
  "joinContentLines ls = (if ls = [] then [] else joinUnits CRLF (map foldLine ls) @ CRLF)"

definition assertFoldable :: "units \<Rightarrow> js_error + unit" where
  "assertFoldable text =
     (if octets text > FOLD_LIMIT then Inl (RangeErr (''content line is '' @ show_nat (octets text) @ '' octets; fold it to <= 75''))
      else Inr ())"

section \<open>Values read back\<close>

text \<open>What a value is once its control characters are gone and its line breaks are LF.\<close>

definition normalText :: "units \<Rightarrow> units" where
  "normalText v = replaceUnit 13 [LF] (replaceCrlf (stripControlCharacters v))"

lemma no_cr: "13 \<notin> set (normalText v)"
proof -
  have "13 \<notin> set (replaceUnit 13 [LF] s)" for s by (induction s) (simp_all add: LF_def)
  then show ?thesis by (simp add: normalText_def)
qed

lemma unescape_escape:
  "icsUnescape (replaceUnit LF [92, 110] (replaceUnit 44 [92, 44] (replaceUnit 59 [92, 59] (replaceUnit 92 [92, 92] s))) @ r)
    = s @ icsUnescape r"
proof (induction s)
  case (Cons x s)
  have plain: "icsUnescape (x # t) = x # icsUnescape t" if "x \<noteq> 92" for t using that by (cases t) simp_all
  show ?case using Cons plain by (auto simp: LF_def)
qed simp

lemma unescape_parameter:
  "icsUnescapeParameter (replaceUnit LF [94, 110] (replaceUnit 34 [94, 39] (replaceUnit 94 [94, 94] s)) @ r)
    = s @ icsUnescapeParameter r"
proof (induction s)
  case (Cons x s)
  have plain: "icsUnescapeParameter (x # t) = x # icsUnescapeParameter t" if "x \<noteq> 94" for t using that by (cases t) simp_all
  show ?case using Cons plain by (auto simp: LF_def)
qed simp

lemma escape_no_break:
  "LF \<notin> set (replaceUnit LF [92, 110] t)" "LF \<notin> set (replaceUnit LF [94, 110] t)"
  "13 \<notin> set t \<Longrightarrow> 13 \<notin> set (replaceUnit c [a, b] t) \<or> a = 13 \<or> b = 13"
  by (induction t) (auto simp: LF_def)

text \<open>
  C22: A TEXT value and a parameter value read back. Unescaping what was escaped gives the value with its
  control characters removed and its line breaks as LF, and the escaped text holds no line break, so a
  value can never end its content line.
\<close>
theorem ics_value_roundtrip:
  "icsUnescape (icsEscape v) = normalText v \<and> icsUnescapeParameter (icsEscapeParameter v) = normalText v \<and>
   list_all (\<lambda>c. c \<noteq> 10 \<and> c \<noteq> 13) (icsEscape v) \<and> list_all (\<lambda>c. c \<noteq> 10 \<and> c \<noteq> 13) (icsEscapeParameter v)"
proof (cases "v = []")
  case True
  then show ?thesis by (simp add: icsEscape_def icsEscapeParameter_def normalText_def stripControlCharacters_def)
next
  case False
  let ?n = "normalText v"
  have e: "icsEscape v = replaceUnit LF [92, 110] (replaceUnit 44 [92, 44] (replaceUnit 59 [92, 59] (replaceUnit 92 [92, 92] ?n)))"
    and p: "icsEscapeParameter v = replaceUnit LF [94, 110] (replaceUnit 34 [94, 39] (replaceUnit 94 [94, 94] ?n))"
    using False by (simp_all add: icsEscape_def icsEscapeParameter_def normalText_def)
  have "icsUnescape (icsEscape v) = ?n" using unescape_escape [of ?n "[]"] by (simp add: e)
  moreover have "icsUnescapeParameter (icsEscapeParameter v) = ?n" using unescape_parameter [of ?n "[]"] by (simp add: p)
  moreover have cr: "13 \<notin> set (replaceUnit c [a, b] t)" if "13 \<notin> set t" "a \<noteq> 13" "b \<noteq> 13" for c a b t
    using escape_no_break(3) that by blast
  have "13 \<notin> set (icsEscape v)" "13 \<notin> set (icsEscapeParameter v)" unfolding e p by (intro cr no_cr; simp)+
  moreover have "10 \<notin> set (icsEscape v)" "10 \<notin> set (icsEscapeParameter v)"
    using escape_no_break(1,2) unfolding e p LF_def by blast+
  ultimately show ?thesis by (auto simp: list_all_iff)
qed

section \<open>Folded lines\<close>

text \<open>A list of characters that is the split of its own text.\<close>

definition isChars :: "units list \<Rightarrow> bool" where
  "isChars cs \<longleftrightarrow> chars (concat cs) = cs"

lemma concat_chars [simp]: "concat (chars s) = s"
  by (induction s rule: chars.induct) auto

lemma chars_ne: "c \<in> set (chars s) \<Longrightarrow> c \<noteq> []"
  by (induction s rule: chars.induct) (auto split: if_splits)

lemma isChars_chars: "isChars (chars s)"
  by (simp add: isChars_def)

lemma chars_Cons: "chars (x # s) = (if s \<noteq> [] \<and> 0xd800 \<le> x \<and> x \<le> 0xdbff \<and> 0xdc00 \<le> hd s \<and> hd s \<le> 0xdfff
    then [x, hd s] # chars (tl s) else [x] # chars s)"
  by (cases s) auto

lemma isChars_Cons:
  assumes "isChars (c # cs)"
  shows "isChars cs \<and> (c = [hd c] \<and> (cs = [] \<or> \<not> (0xd800 \<le> hd c \<and> hd c \<le> 0xdbff \<and> 0xdc00 \<le> hd (concat cs) \<and> hd (concat cs) \<le> 0xdfff))
      \<or> (\<exists>h l. c = [h, l] \<and> 0xd800 \<le> h \<and> h \<le> 0xdbff \<and> 0xdc00 \<le> l \<and> l \<le> 0xdfff))"
proof -
  have eq: "chars (c @ concat cs) = c # cs" using assms by (simp add: isChars_def)
  have "c \<in> set (chars (c @ concat cs))" unfolding eq by simp
  then have "c \<noteq> []" by (rule chars_ne)
  then obtain x t where c: "c = x # t" by (cases c) auto
  have ne: "concat cs \<noteq> []" if some: "cs \<noteq> []"
  proof -
    obtain d ds where "cs = d # ds" using some by (cases cs) auto
    moreover from this have "d \<in> set (chars (c @ concat cs))" unfolding eq by simp
    ultimately show ?thesis using chars_ne by auto
  qed
  show ?thesis
  proof (cases "t @ concat cs \<noteq> [] \<and> 0xd800 \<le> x \<and> x \<le> 0xdbff \<and> 0xdc00 \<le> hd (t @ concat cs) \<and> hd (t @ concat cs) \<le> 0xdfff")
    case True
    then have "[x, hd (t @ concat cs)] # chars (tl (t @ concat cs)) = (x # t) # cs"
      using eq chars_Cons [of x "t @ concat cs"] by (simp add: c)
    then have t: "t = [hd (t @ concat cs)]" and cs: "chars (tl (t @ concat cs)) = cs" by simp_all
    then obtain l where "t = [l]" by blast
    then show ?thesis using cs True c by (simp add: isChars_def)
  next
    case False
    then have "[x] # chars (t @ concat cs) = (x # t) # cs"
      using eq chars_Cons [of x "t @ concat cs"] by (simp only: c append_Cons if_False)
    then have "t = []" "chars (concat cs) = cs" by auto
    then show ?thesis using False c ne by (auto simp: isChars_def)
  qed
qed

lemma isChars_build:
  assumes "isChars cs" "c = [hd c] \<and> (cs = [] \<or> \<not> (0xd800 \<le> hd c \<and> hd c \<le> 0xdbff \<and> 0xdc00 \<le> hd (concat cs) \<and> hd (concat cs) \<le> 0xdfff))
      \<or> (\<exists>h l. c = [h, l] \<and> 0xd800 \<le> h \<and> h \<le> 0xdbff \<and> 0xdc00 \<le> l \<and> l \<le> 0xdfff)"
  shows "isChars (c # cs)"
  using assms(2)
proof
  assume c: "c = [hd c] \<and> (cs = [] \<or> \<not> (0xd800 \<le> hd c \<and> hd c \<le> 0xdbff \<and> 0xdc00 \<le> hd (concat cs) \<and> hd (concat cs) \<le> 0xdfff))"
  then obtain x where x: "c = [x]" by blast
  show ?thesis
  proof (cases "cs = []")
    case False
    then have "\<not> (0xd800 \<le> x \<and> x \<le> 0xdbff \<and> 0xdc00 \<le> hd (concat cs) \<and> hd (concat cs) \<le> 0xdfff)" using c by (simp add: x)
    then show ?thesis using assms(1) unfolding isChars_def x by (simp only: concat.simps append_Cons append_Nil chars_Cons) auto
  qed (simp add: isChars_def x)
next
  assume "\<exists>h l. c = [h, l] \<and> 0xd800 \<le> h \<and> h \<le> 0xdbff \<and> 0xdc00 \<le> l \<and> l \<le> 0xdfff"
  then show ?thesis using assms(1) by (auto simp: isChars_def)
qed

lemma isChars_append: "isChars (as @ bs) \<Longrightarrow> isChars as \<and> isChars bs"
proof (induction as)
  case (Cons c as)
  then have c: "isChars (c # (as @ bs))" by simp
  note facts = isChars_Cons [OF c]
  have "isChars as" "isChars bs" using Cons.IH facts by auto
  moreover have "hd (concat (as @ bs)) = hd (concat as)" if some: "as \<noteq> []"
  proof -
    have "concat as \<noteq> []"
    proof -
      obtain d ds where as: "as = d # ds" using some by (cases as) auto
      have "isChars (as @ bs)" using facts by blast
      then have "d \<in> set (chars (concat (as @ bs)))" by (simp add: isChars_def as)
      then have "d \<noteq> []" by (rule chars_ne)
      then show ?thesis by (simp add: as)
    qed
    then show ?thesis by simp
  qed
  ultimately show ?case using facts by (intro conjI isChars_build) auto
qed (simp add: isChars_def)

lemma octets_chars: "isChars cs \<Longrightarrow> octets (concat cs) = sum_list (map charOctets cs)"
  by (simp add: octets_def isChars_def)

lemma octets_space: "octets (32 # s) = Suc (octets s)"
  by (simp add: octets_def chars_Cons charOctets_def)

lemma charOctets_bounds: "1 \<le> charOctets c \<and> charOctets c \<le> 4"
  by (auto simp: charOctets_def split: list.split)

text \<open>The loop cuts the characters into chunks within the limits.\<close>

lemma foldLoop_chunks:
  assumes "n = sum_list (map charOctets sofar)" "n \<le> limit" "4 \<le> limit" "limit \<le> FOLD_LIMIT"
  shows "\<exists>css. foldLoop cs (concat sofar) n limit = map concat css \<and> concat css = sofar @ cs \<and> [] \<notin> set css \<and>
    (css \<noteq> [] \<longrightarrow> sum_list (map charOctets (hd css)) \<le> limit) \<and>
    list_all (\<lambda>xs. sum_list (map charOctets xs) \<le> CONTINUATION_LIMIT) (tl css)"
  using assms
proof (induction cs arbitrary: sofar n limit)
  case Nil
  have "sofar = []" if "n = 0"
  proof (rule ccontr)
    assume "sofar \<noteq> []"
    then obtain d ds where "sofar = d # ds" by (cases "sofar") auto
    then show False using Nil.prems(1) that charOctets_bounds [of d] by simp
  qed
  then show ?case using Nil by (intro exI [of _ "if n > 0 then [sofar] else []"]) auto
next
  case (Cons c cs)
  show ?case
  proof (cases "n > 0 \<and> n + charOctets c > limit")
    case True
    have "\<exists>css. foldLoop cs (concat [c]) (charOctets c) CONTINUATION_LIMIT = map concat css \<and> concat css = [c] @ cs \<and> [] \<notin> set css \<and>
      (css \<noteq> [] \<longrightarrow> sum_list (map charOctets (hd css)) \<le> CONTINUATION_LIMIT) \<and>
      list_all (\<lambda>xs. sum_list (map charOctets xs) \<le> CONTINUATION_LIMIT) (tl css)"
      using charOctets_bounds [of c] by (intro Cons.IH) (simp_all add: CONTINUATION_LIMIT_def FOLD_LIMIT_def)
    then obtain css where css: "foldLoop cs c (charOctets c) CONTINUATION_LIMIT = map concat css" "concat css = c # cs"
      "[] \<notin> set css" "css \<noteq> [] \<longrightarrow> sum_list (map charOctets (hd css)) \<le> CONTINUATION_LIMIT"
      "list_all (\<lambda>xs. sum_list (map charOctets xs) \<le> CONTINUATION_LIMIT) (tl css)" by auto
    have "list_all (\<lambda>xs. sum_list (map charOctets xs) \<le> CONTINUATION_LIMIT) css" using css(4,5) by (cases css) auto
    moreover have "sofar \<noteq> []" using True Cons.prems(1) by auto
    ultimately show ?thesis using True css(1-3) Cons.prems(1,2) by (intro exI [of _ "sofar # css"]) auto
  next
    case False
    have "n + charOctets c \<le> limit"
      using False Cons.prems(3) charOctets_bounds [of c] by auto
    then show ?thesis
      using False Cons.IH [of "n + charOctets c" "sofar @ [c]" limit] Cons.prems by simp
  qed
qed

lemma unfold_plain: "10 \<notin> set s \<Longrightarrow> unfoldLines (s @ r) = s @ unfoldLines r \<or> 13 \<in> set s"
  by (induction s) (auto simp: foldBreak_def)

lemma unfold_segment:
  assumes "10 \<notin> set s"
  shows "unfoldLines (s @ CRLF @ 32 # r) = s @ unfoldLines r"
  using assms
proof (induction s)
  case Nil
  then show ?case by (simp add: CRLF_def foldBreak_def)
next
  case (Cons x s)
  have "foldBreak (x # s @ CRLF @ 32 # r) = 0"
  proof (cases s)
    case Nil
    then show ?thesis using Cons.prems by (auto simp: foldBreak_def CRLF_def)
  next
    case (Cons y t)
    then show ?thesis using Cons.prems by (auto simp: foldBreak_def)
  qed
  then show ?case using Cons by simp
qed

lemma unfold_last: "10 \<notin> set s \<Longrightarrow> unfoldLines s = s"
proof (induction s)
  case (Cons x s)
  have "foldBreak (x # s) = 0" using Cons.prems by (cases s) (auto simp: foldBreak_def)
  then show ?case using Cons by simp
qed simp

lemma unfold_physical:
  assumes "list_all (\<lambda>c. 10 \<notin> set c) (c # cs)"
  shows "unfoldLines (joinUnits CRLF (c # map (\<lambda>v. 32 # v) cs)) = concat (c # cs)"
  using assms
proof (induction cs arbitrary: c)
  case Nil
  then show ?case using unfold_last [of c] by simp
next
  case (Cons d ds)
  have sp: "joinUnits CRLF ((32 # d) # map (\<lambda>v. 32 # v) ds) = 32 # joinUnits CRLF (d # map (\<lambda>v. 32 # v) ds)"
    by (cases ds) simp_all
  have "unfoldLines (joinUnits CRLF (c # map (\<lambda>v. 32 # v) (d # ds))) =
      unfoldLines (c @ CRLF @ 32 # joinUnits CRLF (d # map (\<lambda>v. 32 # v) ds))"
    using sp by simp
  also have "\<dots> = c @ unfoldLines (joinUnits CRLF (d # map (\<lambda>v. 32 # v) ds))"
    using Cons.prems by (intro unfold_segment) simp
  finally show ?case using Cons by simp
qed

lemma folded_line:
  assumes "10 \<notin> set text"
  shows "unfoldLines (foldLine text) = text \<and>
    (\<exists>css. foldLine text = joinUnits CRLF (physicalLines (map concat css)) \<and> concat css = chars text \<and>
       list_all (\<lambda>ln. octets ln \<le> FOLD_LIMIT) (physicalLines (map concat css)))"
proof (cases "octets text \<le> FOLD_LIMIT")
  case True
  then show ?thesis using unfold_last [OF assms]
    by (intro conjI exI [of _ "[chars text]"]) (simp_all add: foldLine_def physicalLines_def)
next
  case False
  obtain css where css: "foldLoop (chars text) (concat []) 0 FOLD_LIMIT = map concat css" "concat css = [] @ chars text"
    "css \<noteq> [] \<longrightarrow> sum_list (map charOctets (hd css)) \<le> FOLD_LIMIT"
    "list_all (\<lambda>xs. sum_list (map charOctets xs) \<le> CONTINUATION_LIMIT) (tl css)"
    using foldLoop_chunks [of 0 "[]" FOLD_LIMIT "chars text"] by (auto simp: FOLD_LIMIT_def)
  have f: "foldLine text = joinUnits CRLF (physicalLines (map concat css))"
    using False css(1) by (simp add: foldLine_def)
  have "css \<noteq> []" using False css(2) by (auto simp: octets_def)
  then obtain c cs where cs: "css = c # cs" by (cases css) auto
  have all: "isChars xs" if mem: "xs \<in> set css" for xs
  proof -
    obtain as bs where "css = as @ xs # bs" using mem by (meson split_list)
    then have "isChars (concat as @ xs @ concat bs)" using css(2) isChars_chars [of "text"] by simp
    then show ?thesis using isChars_append by blast
  qed
  have whole: "concat (map concat css) = text"
  proof -
    have "concat (map concat css) = concat (concat css)" by (induction css) auto
    then show ?thesis using css(2) by simp
  qed
  have "list_all (\<lambda>x. 10 \<notin> set x) (map concat css)"
    unfolding list_all_iff using assms whole by (metis UN_I set_concat)
  then have "unfoldLines (foldLine text) = text"
    using unfold_physical [of "concat c" "map concat cs"] whole unfolding f by (simp add: physicalLines_def cs)
  moreover have "list_all (\<lambda>ln. octets ln \<le> FOLD_LIMIT) (physicalLines (map concat css))"
    using css(3,4) all octets_chars octets_space unfolding cs
    by (auto simp: physicalLines_def list_all_iff CONTINUATION_LIMIT_def FOLD_LIMIT_def)
  ultimately show ?thesis using f css(2) by auto
qed

text \<open>
  C23: Folding is lossless and respects the limit. For a logical line without a line feed, the folded line
  unfolds to it, and it is a sequence of physical lines joined by CRLF, each of at most 75 octets, whose
  contents (without the leading space of a continuation) make up the line with no character split.
\<close>
theorem fold_line_correct:
  assumes "10 \<notin> set text"
  shows "unfoldLines (foldLine text) = text \<and>
    (\<exists>css. foldLine text = joinUnits CRLF (physicalLines (map concat css)) \<and> concat css = chars text \<and>
       list_all (\<lambda>ln. octets ln \<le> FOLD_LIMIT) (physicalLines (map concat css)))"
  by (rule folded_line [OF assms])

theorem fold_line_correct_witness:
  "unfoldLines (foldLine (replicate 100 97)) = replicate 100 97"
  using fold_line_correct [of "replicate 100 97"] by simp

end
