(* ===== verification/Address.thy ===== *)
theory Address
  imports JsonValue "HOL-Library.Multiset"
begin

text \<open>
  Mailboxes of \<open>email/address.ts\<close>: reading \<open>Name <addr>\<close> and recipient lists, writing a mailbox, and
  the bare address of a form field. Texts are lists of UTF-16 code units; an error carries its message.
\<close>

section \<open>Characters and patterns\<close>

datatype addr_error = AddrErr units

record EmailAddress =
  address :: units
  mailName :: "units option"

record ParsedRecipients =
  addresses :: "EmailAddress list"
  duplicates :: "units list"

definition MAX_ADDR_SPEC_LENGTH :: nat where "MAX_ADDR_SPEC_LENGTH = 254"
definition MAX_LOCAL_PART_LENGTH :: nat where "MAX_LOCAL_PART_LENGTH = 64"

definition isAlnumU :: "nat \<Rightarrow> bool" where
  "isAlnumU c \<longleftrightarrow> (48 \<le> c \<and> c \<le> 57) \<or> (65 \<le> c \<and> c \<le> 90) \<or> (97 \<le> c \<and> c \<le> 122)"

definition isAtomChar :: "nat \<Rightarrow> bool" where
  "isAtomChar c \<longleftrightarrow> isAlnumU c \<or>
     c \<in> {33, 35, 36, 37, 38, 39, 42, 43, 45, 47, 61, 63, 94, 95, 96, 123, 124, 125, 126}"

definition dotAtom :: "units \<Rightarrow> bool" where
  "dotAtom s \<longleftrightarrow> list_all (\<lambda>p. p \<noteq> [] \<and> list_all isAtomChar p) (splitUnits 46 s)"

definition domainLabel :: "units \<Rightarrow> bool" where
  "domainLabel p \<longleftrightarrow> p \<noteq> [] \<and> isAlnumU (hd p) \<and> isAlnumU (last p) \<and> list_all (\<lambda>c. isAlnumU c \<or> c = 45) p"

definition dottedDomain :: "units \<Rightarrow> bool" where
  "dottedDomain d \<longleftrightarrow> 2 \<le> length (splitUnits 46 d) \<and> list_all domainLabel (splitUnits 46 d)"

text \<open>\<open>ADDRESS_PATTERN.test\<close>: neither side of the pattern can hold an at sign.\<close>

definition isAddress :: "units \<Rightarrow> bool" where
  "isAddress s = (case splitUnits 64 s of [l, d] \<Rightarrow> dotAtom l \<and> dottedDomain d | _ \<Rightarrow> False)"

definition c0Control :: "nat \<Rightarrow> bool" where "c0Control c \<longleftrightarrow> c < 32 \<or> c = 127"

definition mailboxBreak :: "nat \<Rightarrow> bool" where
  "mailboxBreak c \<longleftrightarrow> (128 \<le> c \<and> c \<le> 159) \<or> c = 0x2028 \<or> c = 0x2029"

text \<open>\<open>QUOTING_TRIGGER_PATTERN\<close>: the specials of RFC 5322.\<close>

definition quotingTrigger :: "nat \<Rightarrow> bool" where
  "quotingTrigger c \<longleftrightarrow> c \<in> {40, 41, 60, 62, 64, 44, 59, 58, 92, 34, 91, 93}"

section \<open>Reading a mailbox\<close>

definition quoteForError :: "units \<Rightarrow> units" where
  "quoteForError v =
     concat (map (\<lambda>c. if (0x7f \<le> c \<and> c \<le> 0x9f) \<or> c = 0x2028 \<or> c = 0x2029 then escapeU c else [c]) (quoteJson v))"

definition assertNoControlCharacters :: "units \<Rightarrow> units \<Rightarrow> addr_error + unit" where
  "assertNoControlCharacters v what =
     (if list_ex c0Control v
      then Inl (AddrErr (what @ u '' contains a control character, which would inject a header: '' @ quoteForError v))
      else Inr ())"

definition assertAddrSpec :: "units \<Rightarrow> units \<Rightarrow> addr_error + units" where
  "assertAddrSpec addr original =
     (if MAX_ADDR_SPEC_LENGTH < length addr
      then Inl (AddrErr (u (''Email address is '' @ show_nat (length addr) @ '' characters, over the 254 limit'')))
      else if \<not> isAddress addr
      then Inl (AddrErr (u ''Invalid email address in '' @ quoteJson original @ u '': '' @ addr))
      else Inr addr)"

text \<open>The loop of \<open>quotedPrefixEnd\<close> from index \<open>k\<close> on; an escaped character is skipped.\<close>

fun quoteScan :: "nat \<Rightarrow> units \<Rightarrow> nat" where
  "quoteScan k [] = 0"
| "quoteScan k [c] = (if c = 34 then k + 1 else 0)"
| "quoteScan k (c # d # r) =
     (if c = 92 then quoteScan (k + 2) r else if c = 34 then k + 1 else quoteScan (k + 1) (d # r))"

definition quotedPrefixEnd :: "units \<Rightarrow> nat" where
  "quotedPrefixEnd v = (if prefix [34] v then quoteScan 1 (tl v) else 0)"

text \<open>The scan of \<open>unquoteDisplayName\<close> for a quote that is not escaped.\<close>

fun bareQuote :: "bool \<Rightarrow> units \<Rightarrow> bool" where
  "bareQuote escaped [] = False"
| "bareQuote escaped (c # r) =
     (if escaped then bareQuote False r else if c = 92 then bareQuote True r else c = 34 \<or> bareQuote False r)"

text \<open>\<open>inner.replace(/\\(.)/g, "$1")\<close>; the dot does not match a line terminator.\<close>

fun dropEscapes :: "units \<Rightarrow> units" where
  "dropEscapes [] = []"
| "dropEscapes [c] = [c]"
| "dropEscapes (c # d # r) =
     (if c = 92 \<and> d \<notin> {10, 13, 0x2028, 0x2029} then d # dropEscapes r else c # dropEscapes (d # r))"

definition unquoteDisplayName :: "units \<Rightarrow> units \<Rightarrow> addr_error + units" where
  "unquoteDisplayName rawName original =
     (let startsQuoted = prefix [34] rawName; endsQuoted = suffix [34] rawName;
          unbalanced = AddrErr (u ''Unbalanced quote in display name: '' @ quoteJson original) in
      if \<not> startsQuoted \<and> \<not> endsQuoted then (if 34 \<in> set rawName then Inl unbalanced else Inr rawName)
      else if \<not> (startsQuoted \<and> endsQuoted) \<or> length rawName < 2 then Inl unbalanced
      else if bareQuote False (butlast (tl rawName))
      then Inl (AddrErr (u ''Unescaped quote in display name: '' @ quoteJson original))
      else Inr (dropEscapes (butlast (tl rawName))))"

text \<open>\<open>indexOf\<close> and \<open>lastIndexOf\<close> of one unit, \<open>None\<close> for -1.\<close>

fun indexU :: "nat \<Rightarrow> units \<Rightarrow> nat option" where
  "indexU c [] = None"
| "indexU c (x # s) = (if x = c then Some 0 else map_option Suc (indexU c s))"

definition indexFrom :: "nat \<Rightarrow> nat \<Rightarrow> units \<Rightarrow> nat option" where
  "indexFrom c k s = map_option (\<lambda>i. k + i) (indexU c (drop k s))"

definition lastIndexU :: "nat \<Rightarrow> units \<Rightarrow> nat option" where
  "lastIndexU c s = map_option (\<lambda>i. length s - 1 - i) (indexU c (rev s))"

text \<open>\<open>parseAddress\<close> from the two brackets on.\<close>

definition bracketed :: "units \<Rightarrow> units \<Rightarrow> nat \<Rightarrow> nat \<Rightarrow> addr_error + EmailAddress" where
  "bracketed v trimmed lt gt =
     (let rawName = trimUnits (take lt trimmed) in
      andThen (assertAddrSpec (trimUnits (take (gt - (lt + 1)) (drop (lt + 1) trimmed))) v) (\<lambda>addr.
        if rawName = [] then Inr \<lparr>address = addr, mailName = None\<rparr>
        else if \<not> prefix [34] rawName \<and> 60 \<in> set rawName
        then Inl (AddrErr (u ''Malformed display name in '' @ quoteJson v))
        else andThen (unquoteDisplayName rawName v) (\<lambda>n.
          Inr \<lparr>address = addr, mailName = (if n = [] then None else Some n)\<rparr>)))"

definition parseAddress :: "units \<Rightarrow> addr_error + EmailAddress" where
  "parseAddress v =
     (if trimUnits v = [] then Inl (AddrErr (u ''Expected a non-empty mailbox, got '' @ quoteJson v))
      else andThen (assertNoControlCharacters v (u ''Mailbox'')) (\<lambda>_.
        if list_ex mailboxBreak v
        then Inl (AddrErr (u ''Mailbox contains a C1 control character or a line separator, which no address or display name carries: ''
                @ quoteForError v))
        else (let trimmed = trimUnits v;
                  malformed = AddrErr (u ''Malformed mailbox, expected \"Name <addr>\" or a bare addr-spec: '' @ quoteJson v) in
          case (indexFrom 60 (quotedPrefixEnd trimmed) trimmed, lastIndexU 62 trimmed) of
            (None, None) \<Rightarrow> andThen (assertAddrSpec trimmed v) (\<lambda>addr. Inr \<lparr>address = addr, mailName = None\<rparr>)
          | (Some lt, Some gt) \<Rightarrow>
              if gt < lt \<or> gt \<noteq> length trimmed - 1 then Inl malformed
              else bracketed v trimmed lt gt
          | _ \<Rightarrow> Inl malformed)))"

text \<open>\<open>toLowerCase\<close> on ASCII; the callers have checked the text, or compare it with ASCII domains only.\<close>

definition lowerU :: "nat \<Rightarrow> nat" where
  "lowerU c = (if 65 \<le> c \<and> c \<le> 90 then c + 32 else c)"

fun addressLoop :: "units list \<Rightarrow> units list \<Rightarrow> EmailAddress list \<Rightarrow> units list \<Rightarrow> addr_error + ParsedRecipients" where
  "addressLoop [] seen as ds = Inr \<lparr>addresses = as, duplicates = ds\<rparr>"
| "addressLoop (v # vs) seen as ds =
     andThen (parseAddress v) (\<lambda>parsed.
       (let key = map lowerU (address parsed) in
        if key \<in> set seen then addressLoop vs seen as (ds @ [address parsed])
        else addressLoop vs (key # seen) (as @ [parsed]) ds))"

text \<open>One mailbox, or a list.\<close>

definition parseAddresses :: "units + units list \<Rightarrow> addr_error + ParsedRecipients" where
  "parseAddresses values =
     (let ls = (case values of Inl v \<Rightarrow> [v] | Inr vs \<Rightarrow> vs) in
      if ls = [] then Inl (AddrErr (u ''At least one recipient is required'')) else addressLoop ls [] [] [])"

section \<open>Writing a mailbox, and bare addresses\<close>

definition nameNeedsQuoting :: "units \<Rightarrow> bool" where
  "nameNeedsQuoting n \<longleftrightarrow> list_ex quotingTrigger n \<or> n \<noteq> trimUnits n \<or> list_ex c0Control n"

definition formatAddress :: "EmailAddress \<Rightarrow> units" where
  "formatAddress a =
     (let n = orElse (mailName a) [] in
      if n = [] then address a
      else if \<not> nameNeedsQuoting n then n @ u '' <'' @ address a @ u ''>''
      else u ''\"'' @ replaceUnit 34 [92, 34] (replaceUnit 92 [92, 92] n) @ u ''\" <'' @ address a @ u ''>'')"

definition EXAMPLE_DOMAINS :: "units list" where
  "EXAMPLE_DOMAINS = [u ''example.com'', u ''example.net'', u ''example.org'']"

definition hostOf :: "units \<Rightarrow> units" where
  "hostOf a = (let h = map lowerU (case lastIndexU 64 a of None \<Rightarrow> a | Some i \<Rightarrow> drop (i + 1) a) in
     if suffix [46] h then butlast h else h)"

definition isExampleAddress :: "units \<Rightarrow> bool" where
  "isExampleAddress a \<longleftrightarrow>
     suffix (u ''.example'') (hostOf a) \<or> list_ex (\<lambda>d. hostOf a = d \<or> suffix (46 # d) (hostOf a)) EXAMPLE_DOMAINS"

definition parseBareAddress :: "jsval \<Rightarrow> units option" where
  "parseBareAddress v =
     (case v of
        StrV s \<Rightarrow>
          (let addr = trimUnits s in
           if MAX_ADDR_SPEC_LENGTH < length addr then None
           else if (case indexU 64 addr of None \<Rightarrow> False | Some i \<Rightarrow> MAX_LOCAL_PART_LENGTH < i) then None
           else if isAddress addr then Some (map lowerU addr) else None)
      | _ \<Rightarrow> None)"

section \<open>What a checked address is\<close>

lemma splitUnits_cover: "c \<in> set s \<Longrightarrow> c = sep \<or> (\<exists>p\<in>set (splitUnits sep s). c \<in> set p)"
  by (induction s) (auto split: list.splits if_splits)

definition addrChar :: "nat \<Rightarrow> bool" where
  "addrChar c \<longleftrightarrow> isAtomChar c \<or> c = 46 \<or> c = 64"

lemma dotAtom_chars: "dotAtom s \<Longrightarrow> list_all addrChar s"
  using splitUnits_cover [of _ s 46] unfolding dotAtom_def list_all_iff addrChar_def by blast

lemma dottedDomain_chars: "dottedDomain s \<Longrightarrow> list_all addrChar s"
  using splitUnits_cover [of _ s 46]
  unfolding dottedDomain_def domainLabel_def list_all_iff addrChar_def isAtomChar_def by blast

lemma isAddress_chars: "isAddress s \<Longrightarrow> list_all addrChar s"
proof -
  assume "isAddress s"
  then obtain l d where ld: "splitUnits 64 s = [l, d]" "dotAtom l" "dottedDomain d"
    by (auto simp: isAddress_def split: list.splits)
  have "c = 64 \<or> c \<in> set l \<or> c \<in> set d" if "c \<in> set s" for c
    using splitUnits_cover [OF that, of 64] ld(1) by auto
  then show ?thesis using dotAtom_chars [OF ld(2)] dottedDomain_chars [OF ld(3)]
    by (auto simp: list_all_iff addrChar_def)
qed

lemma addrChar_plain: "addrChar c \<Longrightarrow> \<not> isSpace c \<and> \<not> c0Control c \<and> \<not> mailboxBreak c \<and> c \<noteq> 60 \<and> c \<noteq> 62 \<and> c \<noteq> 34"
  by (auto simp: addrChar_def isAtomChar_def isAlnumU_def isSpace_def c0Control_def mailboxBreak_def)

lemma isAddress_ne: "isAddress s \<Longrightarrow> s \<noteq> []"
  by (auto simp: isAddress_def)

lemma trimmed_edges:
  assumes "trimUnits s = s" "s \<noteq> []"
  shows "\<not> isSpace (hd s) \<and> \<not> isSpace (last s)"
proof
  have "length (dropWhile isSpace s) = length s"
    using assms(1) length_dropWhile_le [of isSpace s] length_dropWhile_le [of isSpace "rev (dropWhile isSpace s)"]
    unfolding trimUnits_def by (metis le_antisym length_rev)
  then have d: "dropWhile isSpace s = s" by (metis dropWhile_eq_drop drop0 length_drop append_take_drop_id diff_is_0_eq' length_0_conv
      length_append takeWhile_dropWhile_id add_cancel_right_left append_Nil)
  then show "\<not> isSpace (hd s)" using assms(2) by (metis hd_dropWhile)
  have "rev (dropWhile isSpace (rev s)) = s" using assms(1) unfolding trimUnits_def d .
  then have "dropWhile isSpace (rev s) = rev s" by (metis rev_rev_ident)
  then show "\<not> isSpace (last s)" using assms(2) by (metis hd_dropWhile hd_rev rev_is_Nil_conv)
qed

lemma set_trimUnits: "set (trimUnits s) \<subseteq> set s"
  unfolding trimUnits_def by (auto dest!: set_dropWhileD)

lemma trim_address: "isAddress a \<Longrightarrow> trimUnits a = a"
  using isAddress_chars [of a] isAddress_ne [of a] addrChar_plain
  by (intro trimUnits_id) (auto simp: list_all_iff)

lemma indexU_None: "indexU c s = None \<longleftrightarrow> c \<notin> set s"
  by (induction s) auto

lemma indexU_append: "c \<notin> set a \<Longrightarrow> indexU c (a @ c # r) = Some (length a)"
  by (induction a) auto

text \<open>Text without a character that could end a header line.\<close>

definition cleanText :: "units \<Rightarrow> bool" where
  "cleanText s \<longleftrightarrow> list_all (\<lambda>c. \<not> c0Control c \<and> \<not> mailboxBreak c) s"

lemma cleanText_append [simp]: "cleanText (a @ b) \<longleftrightarrow> cleanText a \<and> cleanText b"
  and cleanText_Cons [simp]: "cleanText (c # b) \<longleftrightarrow> \<not> c0Control c \<and> \<not> mailboxBreak c \<and> cleanText b"
  and cleanText_Nil [simp]: "cleanText []"
  by (auto simp: cleanText_def)

lemma clean_address: "isAddress a \<Longrightarrow> cleanText a"
  using isAddress_chars [of a] addrChar_plain by (auto simp: cleanText_def list_all_iff)

lemma cleanText_checks: "cleanText v \<longleftrightarrow> \<not> list_ex c0Control v \<and> \<not> list_ex mailboxBreak v"
  by (auto simp: cleanText_def list_all_iff list_ex_iff)

lemma cleanText_mono: "cleanText v \<Longrightarrow> set w \<subseteq> set v \<Longrightarrow> cleanText w"
  by (auto simp: cleanText_def list_all_iff)

text \<open>The mailboxes that reading gives.\<close>

definition goodMailbox :: "EmailAddress \<Rightarrow> bool" where
  "goodMailbox a \<longleftrightarrow> isAddress (address a) \<and> length (address a) \<le> MAX_ADDR_SPEC_LENGTH \<and>
     (case mailName a of None \<Rightarrow> True | Some n \<Rightarrow> n \<noteq> [] \<and> cleanText n)"

lemma assertAddrSpec_Inr: "assertAddrSpec a v = Inr b \<longleftrightarrow> b = a \<and> isAddress a \<and> length a \<le> MAX_ADDR_SPEC_LENGTH"
  by (auto simp: assertAddrSpec_def)

lemma set_dropEscapes: "set (dropEscapes s) \<subseteq> set s"
  by (induction s rule: dropEscapes.induct) auto

lemma unquote_set:
  assumes "unquoteDisplayName r v = Inr n"
  shows "set n \<subseteq> set r"
proof -
  have "set (butlast (tl r)) \<subseteq> set r" by (cases r) (auto dest: in_set_butlastD)
  then show ?thesis using assms set_dropEscapes [of "butlast (tl r)"]
    by (auto simp: unquoteDisplayName_def Let_def split: if_splits)
qed

lemma parse_good:
  assumes "parseAddress v = Inr a"
  shows "goodMailbox a"
proof -
  have clean: "cleanText v" using assms
    by (auto simp: parseAddress_def assertNoControlCharacters_def cleanText_checks split: if_splits)
  have "goodMailbox a" if "bracketed v (trimUnits v) i j = Inr a" for i j
  proof -
    have raw: "set (trimUnits (take i (trimUnits v))) \<subseteq> set v"
      using set_trimUnits set_take_subset by (metis subset_trans)
    have "cleanText n" if "unquoteDisplayName (trimUnits (take i (trimUnits v))) v = Inr n" for n
      using cleanText_mono [OF clean] unquote_set [OF that] raw by blast
    then show ?thesis using that
      by (auto simp: bracketed_def Let_def andThen_Inr assertAddrSpec_Inr goodMailbox_def split: if_splits)
  qed
  then show ?thesis using assms
    by (auto simp: parseAddress_def Let_def andThen_Inr assertAddrSpec_Inr goodMailbox_def split: if_splits option.splits)
qed

section \<open>Written mailboxes read back\<close>

lemma parse_plain:
  assumes "isAddress a" "length a \<le> MAX_ADDR_SPEC_LENGTH"
  shows "parseAddress a = Inr \<lparr>address = a, mailName = None\<rparr>"
proof -
  have free: "60 \<notin> set a" "62 \<notin> set a" using isAddress_chars [OF assms(1)] addrChar_plain by (auto simp: list_all_iff)
  then have "indexFrom 60 k a = None" "lastIndexU 62 a = None" for k
    using in_set_dropD [of 60 k a] by (auto simp: indexFrom_def lastIndexU_def indexU_None)
  then show ?thesis
    using assms clean_address [OF assms(1)] isAddress_ne [OF assms(1)]
    by (simp add: parseAddress_def trim_address assertNoControlCharacters_def cleanText_checks assertAddrSpec_def)
qed

text \<open>A name part \<open>w\<close> whose brackets are inside its quoted prefix, then the address in brackets.\<close>

lemma parse_named:
  assumes "w \<noteq> []" "\<not> isSpace (hd w)" "cleanText w" "quotedPrefixEnd (w @ 60 # a @ [62]) \<le> length w"
    "60 \<notin> set (drop (quotedPrefixEnd (w @ 60 # a @ [62])) w)" "isAddress a" "length a \<le> MAX_ADDR_SPEC_LENGTH"
  shows "parseAddress (w @ 60 # a @ [62]) = bracketed (w @ 60 # a @ [62]) (w @ 60 # a @ [62]) (length w) (length w + length a + 1)"
proof -
  let ?v = "w @ 60 # a @ [62]"
  let ?q = "quotedPrefixEnd ?v"
  have trim: "trimUnits ?v = ?v" using assms(1,2) by (intro trimUnits_id) (simp add: isSpace_def)
  have clean: "cleanText ?v" using assms(3) clean_address [OF assms(6)] by (simp add: c0Control_def mailboxBreak_def)
  have "indexFrom 60 ?q ?v = Some (length w)"
    using assms(4) indexU_append [OF assms(5), of "a @ [62]"] by (simp add: indexFrom_def)
  moreover have "lastIndexU 62 ?v = Some (length w + length a + 1)" by (simp add: lastIndexU_def)
  ultimately show ?thesis using clean unfolding parseAddress_def trim cleanText_checks
    by (simp add: assertNoControlCharacters_def Let_def)
qed

lemma bracketed_named:
  assumes "isAddress a" "length a \<le> MAX_ADDR_SPEC_LENGTH" "trimUnits w = r" "r \<noteq> []" "prefix [34] r \<or> 60 \<notin> set r"
    "unquoteDisplayName r v = Inr n" "n \<noteq> []"
  shows "bracketed v (w @ 60 # a @ [62]) (length w) (length w + length a + 1) = Inr \<lparr>address = a, mailName = Some n\<rparr>"
  using assms by (auto simp: bracketed_def trim_address assertAddrSpec_def)

definition escapeName :: "units \<Rightarrow> units" where
  "escapeName n = replaceUnit 34 [92, 34] (replaceUnit 92 [92, 92] n)"

lemma escapeName_simps [simp]:
  "escapeName [] = []"
  "escapeName (c # n) = (if c = 92 then [92, 92] else if c = 34 then [92, 34] else [c]) @ escapeName n"
  by (simp_all add: escapeName_def)

lemma quoteScan_escape: "quoteScan k (escapeName n @ 34 # r) = k + length (escapeName n) + 1"
proof (induction n arbitrary: k)
  case Nil
  then show ?case by (cases r) auto
next
  case (Cons c n)
  have "quoteScan k (c # s @ 34 # r) = quoteScan (k + 1) (s @ 34 # r)" if "c \<noteq> 92" "c \<noteq> 34" for s
    using that by (cases "s @ 34 # r") auto
  then show ?case using Cons by auto
qed

lemma bareQuote_escape: "bareQuote False (escapeName n) = False"
  by (induction n) auto

lemma dropEscapes_plain: "c \<noteq> 92 \<Longrightarrow> dropEscapes (c # s) = c # dropEscapes s"
  by (cases s) auto

lemma dropEscapes_escape: "dropEscapes (escapeName n) = n"
  by (induction n) (auto simp: dropEscapes_plain)

lemma escapeName_clean: "cleanText (escapeName n) = cleanText n"
  by (induction n) (auto simp: c0Control_def mailboxBreak_def)

lemma trim_space:
  assumes "r \<noteq> []" "\<not> isSpace (hd r)" "\<not> isSpace (last r)"
  shows "trimUnits (r @ [32]) = r"
proof -
  obtain x t where r: "r = x # t" using assms(1) by (cases r) auto
  have "dropWhile isSpace (rev r) = rev r" using assms(1,3) by (simp add: dropWhile_eq_self_iff hd_rev)
  moreover have "dropWhile isSpace (r @ [32]) = r @ [32]" using assms(2) by (simp add: r)
  moreover have "isSpace 32" by (simp add: isSpace_def)
  ultimately show ?thesis by (simp add: trimUnits_def)
qed

lemma parse_format:
  assumes "goodMailbox a"
  shows "parseAddress (formatAddress a) = Inr a \<and> cleanText (formatAddress a)"
proof -
  have addr: "isAddress (address a)" "length (address a) \<le> MAX_ADDR_SPEC_LENGTH" using assms by (simp_all add: goodMailbox_def)
  show ?thesis
  proof (cases "mailName a")
    case None
    then show ?thesis using parse_plain [OF addr] clean_address [OF addr(1)] by (simp add: formatAddress_def)
  next
    case (Some n)
    then have n: "n \<noteq> []" "cleanText n" using assms by (simp_all add: goodMailbox_def)
    have whole: "\<lparr>address = address a, mailName = Some n\<rparr> = a" using Some by (cases a) simp
    show ?thesis
    proof (cases "nameNeedsQuoting n")
      case False
      then have plain: "trimUnits n = n" "\<not> list_ex quotingTrigger n" by (simp_all add: nameNeedsQuoting_def)
      then have free: "60 \<notin> set n" "34 \<notin> set n" by (auto simp: list_ex_iff quotingTrigger_def)
      have edges: "\<not> isSpace (hd n)" "\<not> isSpace (last n)" using trimmed_edges [OF plain(1) n(1)] by simp_all
      let ?w = "n @ [32]"
      have f: "formatAddress a = ?w @ 60 # address a @ [62]"
        using False n(1) Some by (simp add: formatAddress_def code_def)
      have "\<not> prefix [34] (n @ s)" for s using free(2) n(1) by (cases n) auto
      then have q: "quotedPrefixEnd (n @ s) = 0" for s by (simp add: quotedPrefixEnd_def)
      have "unquoteDisplayName n v = Inr n" for v
      proof -
        have "\<not> prefix [34] n" "\<not> suffix [34] n" using free(2) by (auto simp: prefix_def suffix_def)
        then show ?thesis using free(2) by (simp add: unquoteDisplayName_def Let_def del: u_Cons)
      qed
      then have "bracketed v (?w @ 60 # address a @ [62]) (length ?w) (length ?w + length (address a) + 1) = Inr a" for v
        using bracketed_named [OF addr, of ?w n v n] trim_space [OF n(1) edges] n(1) free(1) by (simp only: whole) simp
      moreover have "parseAddress (?w @ 60 # address a @ [62]) =
          bracketed (?w @ 60 # address a @ [62]) (?w @ 60 # address a @ [62]) (length ?w) (length ?w + length (address a) + 1)"
        using n edges free(1) addr by (intro parse_named) (simp_all add: q c0Control_def mailboxBreak_def)
      ultimately show ?thesis
        unfolding f using n(2) clean_address [OF addr(1)] by (simp add: c0Control_def mailboxBreak_def)
    next
      case True
      let ?r = "34 # escapeName n @ [34]"
      let ?w = "?r @ [32]"
      have f: "formatAddress a = ?w @ 60 # address a @ [62]"
        using True n(1) Some by (simp add: formatAddress_def escapeName_def code_def)
      have q: "quotedPrefixEnd (?w @ s) = length ?r" for s
        using quoteScan_escape [of 1 n "32 # s"] by (simp add: quotedPrefixEnd_def)
      have "unquoteDisplayName ?r v = Inr n" for v
        by (simp add: unquoteDisplayName_def butlast_append bareQuote_escape dropEscapes_escape suffix_def Let_def)
      moreover have "trimUnits ?w = ?r" using trim_space [of ?r] by (simp add: isSpace_def)
      ultimately have "bracketed v (?w @ 60 # address a @ [62]) (length ?w) (length ?w + length (address a) + 1) = Inr a" for v
        using bracketed_named [OF addr, of ?w ?r v n] n(1) by (simp only: whole) simp
      moreover have "parseAddress (?w @ 60 # address a @ [62]) =
          bracketed (?w @ 60 # address a @ [62]) (?w @ 60 # address a @ [62]) (length ?w) (length ?w + length (address a) + 1)"
        using n addr q by (intro parse_named) (simp_all add: escapeName_clean isSpace_def c0Control_def mailboxBreak_def)
      ultimately show ?thesis
        unfolding f using n(2) clean_address [OF addr(1)] by (simp add: escapeName_clean c0Control_def mailboxBreak_def)
    qed
  qed
qed

text \<open>
  C24: Whatever \<open>parseAddress\<close> accepts holds no character that could end a header line, its address is at
  most 254 characters of the checked pattern, and the mailbox written by \<open>formatAddress\<close> reads back as the
  same mailbox, however its display name has to be quoted.
\<close>
theorem mailbox_roundtrip:
  assumes "parseAddress v = Inr a"
  shows "goodMailbox a \<and> parseAddress (formatAddress a) = Inr a \<and> cleanText (formatAddress a)"
  using parse_good [OF assms] parse_format by blast

section \<open>Bare addresses\<close>

lemma splitUnits_map: "(\<And>x. f x = sep \<longleftrightarrow> x = sep) \<Longrightarrow> splitUnits sep (map f s) = map (map f) (splitUnits sep s)"
  by (induction s) (auto split: list.split)

lemma splitUnits_two: "splitUnits sep s = [a, b] \<Longrightarrow> s = a @ sep # b \<and> sep \<notin> set a"
proof (induction s arbitrary: a)
  case (Cons x s)
  then show ?case
  proof (cases "x = sep")
    case True
    then have "a = []" "splitUnits sep s = [b]" using Cons.prems by simp_all
    moreover have "splitUnits sep t = [b] \<Longrightarrow> t = b" for t
      by (induction t arbitrary: b) (auto split: if_splits list.splits)
    ultimately show ?thesis using True by simp
  next
    case False
    then show ?thesis using Cons by (auto split: list.splits)
  qed
qed simp

lemma lowerU_simps: "lowerU (lowerU c) = lowerU c" "isAtomChar c \<Longrightarrow> isAtomChar (lowerU c)"
  "isAlnumU c \<Longrightarrow> isAlnumU (lowerU c)" "lowerU c = 46 \<longleftrightarrow> c = 46" "lowerU c = 64 \<longleftrightarrow> c = 64" "lowerU 45 = 45"
  by (auto simp: lowerU_def isAtomChar_def isAlnumU_def)

lemma dotAtom_lower: "dotAtom s \<Longrightarrow> dotAtom (map lowerU s)"
  by (auto simp: dotAtom_def splitUnits_map lowerU_simps list_all_iff)

lemma domainLabel_lower: "domainLabel s \<Longrightarrow> domainLabel (map lowerU s)"
  by (auto simp: domainLabel_def lowerU_simps list_all_iff hd_map last_map)

lemma isAddress_lower: "isAddress s \<Longrightarrow> isAddress (map lowerU s)"
  using dotAtom_lower domainLabel_lower
  by (auto simp: isAddress_def dottedDomain_def splitUnits_map lowerU_simps list_all_iff split: list.splits)

lemma bare_facts:
  assumes "parseBareAddress v = Some a"
  shows "isAddress a \<and> parseBareAddress (StrV a) = Some a \<and> map lowerU a = a \<and> length a \<le> MAX_ADDR_SPEC_LENGTH \<and>
    (\<exists>l d. a = l @ 64 # d \<and> length l \<le> MAX_LOCAL_PART_LENGTH \<and> dotAtom l \<and> dottedDomain d) \<and>
    parseAddress a = Inr \<lparr>address = a, mailName = None\<rparr>"
proof -
  obtain t where "v = StrV t" using assms by (cases v) (auto simp: parseBareAddress_def)
  then have t: "length (trimUnits t) \<le> MAX_ADDR_SPEC_LENGTH" "isAddress (trimUnits t)" "a = map lowerU (trimUnits t)"
      "\<not> (case indexU 64 (trimUnits t) of None \<Rightarrow> False | Some i \<Rightarrow> MAX_LOCAL_PART_LENGTH < i)"
    using assms by (auto simp: parseBareAddress_def Let_def split: if_splits)
  define s where "s = trimUnits t"
  note v = t [folded s_def]
  have addr: "isAddress a" using isAddress_lower [OF v(2)] v(3) by simp
  obtain l d where ld: "splitUnits 64 a = [l, d]" "dotAtom l" "dottedDomain d"
    using addr by (auto simp: isAddress_def split: list.splits)
  have split: "a = l @ 64 # d" "64 \<notin> set l" using splitUnits_two [OF ld(1)] by simp_all
  have "indexU 64 (map lowerU t) = indexU 64 t" for t by (induction t) (simp_all add: lowerU_simps)
  then have "indexU 64 s = Some (length l)" using indexU_append [OF split(2), of d] split(1) v(3) by metis
  then have len: "length l \<le> MAX_LOCAL_PART_LENGTH" using v(4) by simp
  have low: "map lowerU a = a" using v(3) by (simp add: lowerU_simps o_def)
  have short: "length a \<le> MAX_ADDR_SPEC_LENGTH" using v(1,3) by simp
  have again: "parseBareAddress (StrV a) = Some a"
    using addr short len low indexU_append [OF split(2), of d]
    unfolding parseBareAddress_def by (simp add: trim_address split(1) [symmetric])
  show ?thesis using addr again low short split(1) len ld(2,3) parse_plain [OF addr short] by blast
qed

text \<open>
  A bare address is in one normal form. Whatever a form field held, the answer is a mailbox without
  a name that \<open>parseAddress\<close> accepts as it is, in lower case, with at most 64 characters before its one at
  sign, and reading it again answers the same address.
\<close>
theorem bare_address_normal:
  assumes "parseBareAddress v = Some a"
  shows "parseBareAddress (StrV a) = Some a \<and> map lowerU a = a \<and> length a \<le> MAX_ADDR_SPEC_LENGTH \<and>
    (\<exists>l d. a = l @ 64 # d \<and> length l \<le> MAX_LOCAL_PART_LENGTH \<and> dotAtom l \<and> dottedDomain d) \<and>
    parseAddress a = Inr \<lparr>address = a, mailName = None\<rparr>"
  using bare_facts [OF assms] by blast

section \<open>Recipient lists\<close>

definition addrKey :: "EmailAddress \<Rightarrow> units" where
  "addrKey a = map lowerU (address a)"

lemma addressLoop_spec:
  "addressLoop vs seen as ds = Inr p \<Longrightarrow> seen = map addrKey (rev as) \<Longrightarrow> distinct seen \<Longrightarrow>
   \<exists>qs. map parseAddress vs = map Inr qs \<and> distinct (map addrKey (addresses p)) \<and>
     (\<exists>more. addresses p = as @ more \<and> subseq more qs) \<and>
     mset (map address (addresses p)) + mset (duplicates p) = mset (map address as) + mset ds + mset (map address qs)"
proof (induction vs arbitrary: seen as ds)
  case (Cons v vs)
  then obtain q where q: "parseAddress v = Inr q" by (auto simp: andThen_Inr)
  let ?k = "addrKey q"
  show ?case
  proof (cases "?k \<in> set seen")
    case True
    then obtain qs where "map parseAddress vs = map Inr qs" "distinct (map addrKey (addresses p))"
      "\<exists>more. addresses p = as @ more \<and> subseq more qs"
      "mset (map address (addresses p)) + mset (duplicates p) =
         mset (map address as) + mset (ds @ [address q]) + mset (map address qs)"
      using Cons.IH [of seen as "ds @ [address q]"] Cons.prems q by (auto simp: addrKey_def [symmetric])
    then show ?thesis using q by (intro exI [of _ "q # qs"]) auto
  next
    case False
    then obtain qs more where "map parseAddress vs = map Inr qs" "distinct (map addrKey (addresses p))"
      "addresses p = (as @ [q]) @ more" "subseq more qs"
      "mset (map address (addresses p)) + mset (duplicates p) =
         mset (map address (as @ [q])) + mset ds + mset (map address qs)"
      using Cons.IH [of "?k # seen" "as @ [q]" ds] Cons.prems q by (auto simp: addrKey_def [symmetric])
    then show ?thesis using q by (intro exI [of _ "q # qs"] conjI exI [of _ "q # more"]) auto
  qed
qed (auto simp flip: rev_map)

text \<open>Every entry of an accepted list is read; each address comes out once, in order, the rest as duplicates.\<close>

lemma recipients_complete:
  assumes "parseAddresses (Inr vs) = Inr p"
  shows "\<exists>qs. map parseAddress vs = map Inr qs \<and> distinct (map addrKey (addresses p)) \<and>
    subseq (addresses p) qs \<and> mset (map address (addresses p)) + mset (duplicates p) = mset (map address qs)"
  using assms addressLoop_spec [of vs "[]" "[]" "[]" p] by (auto simp: parseAddresses_def split: if_splits)

section \<open>Concrete mailboxes\<close>

definition sampleMailbox :: EmailAddress where
  "sampleMailbox = \<lparr>address = u ''j@x.co'', mailName = Some (u ''Doe, J'')\<rparr>"

lemma sampleMailbox_good: "goodMailbox sampleMailbox"
  by (simp add: sampleMailbox_def goodMailbox_def isAddress_def dotAtom_def dottedDomain_def domainLabel_def isAtomChar_def
      isAlnumU_def MAX_ADDR_SPEC_LENGTH_def code_def c0Control_def mailboxBreak_def)

theorem mailbox_roundtrip_witness:
  "parseAddress (formatAddress sampleMailbox) = Inr sampleMailbox \<and> cleanText (formatAddress sampleMailbox)"
  using mailbox_roundtrip [OF conjunct1 [OF parse_format [OF sampleMailbox_good]]]
    parse_format [OF sampleMailbox_good] by blast

lemma sampleBare: "parseBareAddress (StrV (u '' J@X.co '')) = Some (u ''j@x.co'')"
  by (simp add: parseBareAddress_def trimUnits_def isSpace_def isAddress_def dotAtom_def dottedDomain_def domainLabel_def isAtomChar_def
      isAlnumU_def MAX_ADDR_SPEC_LENGTH_def MAX_LOCAL_PART_LENGTH_def lowerU_def code_def)

theorem bare_address_normal_witness:
  "parseBareAddress (StrV (u ''j@x.co'')) = Some (u ''j@x.co'')"
  using bare_address_normal [OF sampleBare] by blast

text \<open>An escaped quote at the end is taken for the closing one: the name keeps its backslash.\<close>

lemma escaped_quote_accepted:
  "unquoteDisplayName [34, 97, 92, 34] v = Inr [97, 92]"
  by (simp add: unquoteDisplayName_def Let_def suffix_def del: u_Cons)

end
