(* ===== verification/AuthStore.thy ===== *)
theory AuthStore
  imports Address
begin

text \<open>
  The sign-in store of \<open>server/auth\<close>: the account model (\<open>model.ts\<close>), the input checks both stores share
  (\<open>input.ts\<close>) and \<open>MemoryAuthStore\<close> (\<open>memory-store.ts\<close>) with its users, keys, proven addresses and
  guess-counted challenges. Every method is one step on the state; the clock readings are arguments.
\<close>

section \<open>The model\<close>

record AuthUser =
  userNo :: int
  userCreatedAt :: int
  deletedAt :: "int option"

text \<open>The fields a caller supplies; the dates are \<open>jsdate\<close> before the check and \<open>int\<close> after it.\<close>

record 'd NewAuthKey =
  keyMethod :: units
  subject :: units
  email :: "units option"
  secret :: "units option"
  provenAt :: "'d option"

record AuthKey = "int NewAuthKey" +
  keyId :: int
  userId :: int
  createdAt :: int
  updatedAt :: int

datatype ChallengeOutcome = Matched | WrongGuess | LockedOut | Missing

datatype AuthConflictReason = KeyExists | EmailOwned

datatype auth_error = JsError js_error | AuthConflict AuthConflictReason

definition normalizeEmail :: "jsval \<Rightarrow> units option" where
  "normalizeEmail raw = parseBareAddress raw"

record IssueChallengeInput =
  purpose :: units
  challengeFor :: units
  secretHash :: units
  expiresAt :: jsdate
  issuedNow :: jsdate

record AttemptChallengeInput =
  guessPurpose :: units
  guessFor :: units
  guessHash :: units
  maxAttempts :: jsnum
  guessNow :: jsdate

section \<open>Input checks\<close>

definition MAX_METHOD_LENGTH :: nat where "MAX_METHOD_LENGTH = 64"
definition MAX_SUBJECT_LENGTH :: nat where "MAX_SUBJECT_LENGTH = 255"
definition MAX_SECRET_LENGTH :: nat where "MAX_SECRET_LENGTH = 1024"
definition MAX_ID :: int where "MAX_ID = 2147483647"

text \<open>\<open>s.isWellFormed()\<close>: no lone surrogate.\<close>

definition isWellFormed :: "units \<Rightarrow> bool" where
  "isWellFormed s \<longleftrightarrow> list_all (\<lambda>ch. case ch of [c] \<Rightarrow> \<not> (0xd800 \<le> c \<and> c \<le> 0xdfff) | _ \<Rightarrow> True) (chars s)"

definition isStoreText :: "units \<Rightarrow> bool" where
  "isStoreText s \<longleftrightarrow> 0 \<notin> set s \<and> isWellFormed s"

definition storeText :: "nat \<Rightarrow> units \<Rightarrow> bool" where
  "storeText most s \<longleftrightarrow> 0 < length s \<and> length s \<le> most \<and> isStoreText s"

definition isStoreId :: "jsnum \<Rightarrow> bool" where
  "isStoreId v \<longleftrightarrow> js_isSafeInteger v \<and> 1 \<le> js_floor v \<and> js_floor v \<le> MAX_ID"

definition validNewKey :: "jsdate NewAuthKey \<Rightarrow> bool" where
  "validNewKey k \<longleftrightarrow>
     storeText MAX_METHOD_LENGTH (keyMethod k) \<and> storeText MAX_SUBJECT_LENGTH (subject k) \<and>
     (case secret k of None \<Rightarrow> True | Some s \<Rightarrow> storeText MAX_SECRET_LENGTH s) \<and>
     (case provenAt k of None \<Rightarrow> True | Some d \<Rightarrow> d \<noteq> None) \<and>
     (case email k of None \<Rightarrow> provenAt k = None | Some e \<Rightarrow> normalizeEmail (StrV e) = Some e)"

definition checkNewKey :: "jsdate NewAuthKey \<Rightarrow> auth_error + int NewAuthKey" where
  "checkNewKey k =
     (if \<not> validNewKey k then Inl (JsError (TypeErr ''invalid new auth key''))
      else Inr \<lparr>keyMethod = keyMethod k, subject = subject k, email = email k, secret = secret k,
                provenAt = (case provenAt k of None \<Rightarrow> None | Some d \<Rightarrow> d)\<rparr>)"

definition checkSecret :: "units \<Rightarrow> auth_error + units" where
  "checkSecret s = (if storeText MAX_SECRET_LENGTH s then Inr s else Inl (JsError (TypeErr ''invalid key secret'')))"

definition checkDate :: "jsdate \<Rightarrow> auth_error + int" where
  "checkDate d = (case d of None \<Rightarrow> Inl (JsError (TypeErr ''invalid now'')) | Some t \<Rightarrow> Inr t)"

text \<open>The checked input of a challenge: the two dates.\<close>

definition checkIssueChallenge :: "IssueChallengeInput \<Rightarrow> auth_error + int \<times> int" where
  "checkIssueChallenge v =
     (case (expiresAt v, issuedNow v) of
        (Some e, Some n) \<Rightarrow>
          if storeText MAX_METHOD_LENGTH (purpose v) \<and> storeText MAX_SUBJECT_LENGTH (challengeFor v) \<and>
             storeText MAX_SECRET_LENGTH (secretHash v)
          then Inr (e, n) else Inl (JsError (TypeErr ''invalid challenge''))
      | _ \<Rightarrow> Inl (JsError (TypeErr ''invalid challenge'')))"

definition checkDeleteChallenges :: "units \<Rightarrow> units \<Rightarrow> auth_error + unit" where
  "checkDeleteChallenges p s =
     (if storeText MAX_METHOD_LENGTH p \<and> storeText MAX_SUBJECT_LENGTH s then Inr ()
      else Inl (JsError (TypeErr ''invalid challenge deletion'')))"

text \<open>The checked input of a guess: \<open>maxAttempts\<close> and the date.\<close>

definition checkAttemptChallenge :: "AttemptChallengeInput \<Rightarrow> auth_error + int \<times> int" where
  "checkAttemptChallenge v =
     (case guessNow v of
        None \<Rightarrow> Inl (JsError (TypeErr ''invalid challenge guess''))
      | Some n \<Rightarrow>
          if storeText MAX_METHOD_LENGTH (guessPurpose v) \<and> storeText MAX_SUBJECT_LENGTH (guessFor v) \<and>
             storeText MAX_SECRET_LENGTH (guessHash v) \<and> js_isInteger (maxAttempts v) \<and>
             1 \<le> js_floor (maxAttempts v) \<and> js_floor (maxAttempts v) \<le> MAX_ID
          then Inr (js_floor (maxAttempts v), n) else Inl (JsError (TypeErr ''invalid challenge guess'')))"

section \<open>The store\<close>

record ChallengeRow =
  rowHash :: units
  attempts :: int
  rowExpiresAt :: int

record MemoryAuthStore =
  users :: "(int, AuthUser) jsmap"
  authKeys :: "(int, AuthKey) jsmap"
  owners :: "(units, int) jsmap"
  challenges :: "(units, ChallengeRow) jsmap"
  nextUserId :: int
  nextKeyId :: int

definition newAuthStore :: MemoryAuthStore where
  "newAuthStore = \<lparr>users = [], authKeys = [], owners = [], challenges = [], nextUserId = 1, nextKeyId = 1\<rparr>"

type_synonym 'r auth_outcome = "MemoryAuthStore \<times> (auth_error + 'r)"

text \<open>A check that may throw, then the rest of the method.\<close>

definition guarded :: "MemoryAuthStore \<Rightarrow> auth_error + 'a \<Rightarrow> ('a \<Rightarrow> 'r auth_outcome) \<Rightarrow> 'r auth_outcome" where
  "guarded st r f = (case r of Inl e \<Rightarrow> (st, Inl e) | Inr x \<Rightarrow> f x)"

definition challengeId :: "units \<Rightarrow> units \<Rightarrow> units" where
  "challengeId p s = p @ 0 # s"

definition findKeyIn :: "(int, AuthKey) jsmap \<Rightarrow> units \<Rightarrow> units \<Rightarrow> AuthKey option" where
  "findKeyIn m me s = find (\<lambda>k. keyMethod k = me \<and> subject k = s) (map snd m)"

definition keyOf :: "MemoryAuthStore \<Rightarrow> jsnum \<Rightarrow> AuthKey option" where
  "keyOf st v = (if isStoreId v then jm_get (authKeys st) (js_floor v) else None)"

definition findUser :: "MemoryAuthStore \<Rightarrow> jsnum \<Rightarrow> AuthUser option" where
  "findUser st v = (if isStoreId v then jm_get (users st) (js_floor v) else None)"

definition findKey :: "MemoryAuthStore \<Rightarrow> units \<Rightarrow> units \<Rightarrow> AuthKey option" where
  "findKey st me s = findKeyIn (authKeys st) me s"

definition findKeyById :: "MemoryAuthStore \<Rightarrow> jsnum \<Rightarrow> AuthKey option" where
  "findKeyById st v = keyOf st v"

definition listKeys :: "MemoryAuthStore \<Rightarrow> jsnum \<Rightarrow> AuthKey list" where
  "listKeys st v = sort_key keyId (filter (\<lambda>k. js_int (userId k) = v) (map snd (authKeys st)))"

definition findUserIdByProvenEmail :: "MemoryAuthStore \<Rightarrow> units \<Rightarrow> int option" where
  "findUserIdByProvenEmail st e = jm_get (owners st) e"

text \<open>\<open>None\<close> is a user not created yet.\<close>

definition assertOwnable :: "MemoryAuthStore \<Rightarrow> int option \<Rightarrow> units \<Rightarrow> auth_error + unit" where
  "assertOwnable st uid e =
     (case jm_get (owners st) e of
        None \<Rightarrow> Inr ()
      | Some owner \<Rightarrow> if Some owner \<noteq> uid then Inl (AuthConflict EmailOwned) else Inr ())"

definition provenEmail :: "('d, 'z) NewAuthKey_scheme \<Rightarrow> units option" where
  "provenEmail k = (if provenAt k = None then None else email k)"

definition assertInsertable :: "MemoryAuthStore \<Rightarrow> int option \<Rightarrow> int NewAuthKey \<Rightarrow> auth_error + unit" where
  "assertInsertable st uid k =
     andThen (case provenEmail k of None \<Rightarrow> Inr () | Some e \<Rightarrow> assertOwnable st uid e) (\<lambda>_.
       case findKeyIn (authKeys st) (keyMethod k) (subject k) of
         None \<Rightarrow> Inr ()
       | Some old \<Rightarrow>
           (let evicted = provenEmail k \<noteq> None \<and> Some (userId old) \<noteq> uid \<and> provenAt old = None \<and>
                  email old = provenEmail k in
            if \<not> evicted then Inl (AuthConflict KeyExists) else Inr ()))"

text \<open>Each key is held under its own id.\<close>

definition claimAddress :: "int \<Rightarrow> units \<Rightarrow> MemoryAuthStore \<Rightarrow> MemoryAuthStore" where
  "claimAddress uid e st =
     st\<lparr>owners := jm_set e uid (owners st),
        authKeys := jm_drop (\<lambda>k. email k = Some e \<and> userId k \<noteq> uid \<and> provenAt k = None) (authKeys st)\<rparr>"

definition releaseIfUnproven :: "int \<Rightarrow> units \<Rightarrow> MemoryAuthStore \<Rightarrow> MemoryAuthStore" where
  "releaseIfUnproven uid e st =
     (if list_ex (\<lambda>k. userId k = uid \<and> email k = Some e \<and> provenAt k \<noteq> None) (map snd (authKeys st)) then st
      else if jm_get (owners st) e = Some uid then st\<lparr>owners := jm_delete e (owners st)\<rparr> else st)"

definition insertKey :: "int \<Rightarrow> int \<Rightarrow> int NewAuthKey \<Rightarrow> MemoryAuthStore \<Rightarrow> MemoryAuthStore \<times> AuthKey" where
  "insertKey now uid k st =
     (let st = (case provenEmail k of None \<Rightarrow> st | Some e \<Rightarrow> claimAddress uid e st);
          key = NewAuthKey.extend k \<lparr>keyId = nextKeyId st, userId = uid, createdAt = now, updatedAt = now\<rparr> in
      (st\<lparr>authKeys := jm_set (keyId key) key (authKeys st), nextKeyId := nextKeyId st + 1\<rparr>, key))"

definition createUserWithKey :: "int \<Rightarrow> int \<Rightarrow> jsdate NewAuthKey \<Rightarrow> MemoryAuthStore \<Rightarrow> (AuthUser \<times> AuthKey) auth_outcome" where
  "createUserWithKey userNow keyNow k st =
     guarded st (checkNewKey k) (\<lambda>input.
       guarded st (assertInsertable st None input) (\<lambda>_.
         (let user = \<lparr>userNo = nextUserId st, userCreatedAt = userNow, deletedAt = None\<rparr>;
              st1 = st\<lparr>users := jm_set (userNo user) user (users st), nextUserId := nextUserId st + 1\<rparr>;
              (st2, created) = insertKey keyNow (userNo user) input st1 in
          (st2, Inr (user, created)))))"

definition addKey :: "int \<Rightarrow> jsnum \<Rightarrow> jsdate NewAuthKey \<Rightarrow> MemoryAuthStore \<Rightarrow> AuthKey auth_outcome" where
  "addKey now uid k st =
     guarded st (checkNewKey k) (\<lambda>input.
       if \<not> isStoreId uid \<or> \<not> jm_has (users st) (js_floor uid)
       then (st, Inl (JsError (RangeErr ''no auth user with id'')))
       else guarded st (assertInsertable st (Some (js_floor uid)) input) (\<lambda>_.
         (let (st1, key) = insertKey now (js_floor uid) input st in (st1, Inr key))))"

definition proveKey :: "jsnum \<Rightarrow> jsdate \<Rightarrow> MemoryAuthStore \<Rightarrow> AuthKey auth_outcome" where
  "proveKey kid now st =
     guarded st (checkDate now) (\<lambda>t.
       case keyOf st kid of
         None \<Rightarrow> (st, Inl (JsError (RangeErr ''no auth key with id'')))
       | Some key \<Rightarrow>
          (case email key of
             None \<Rightarrow> (st, Inl (JsError (TypeErr ''a key with no email cannot be proven'')))
           | Some e \<Rightarrow> guarded st (assertOwnable st (Some (userId key)) e) (\<lambda>_.
               (let st1 = claimAddress (userId key) e st;
                    key1 = key\<lparr>provenAt := Some (orElse (provenAt key) t), updatedAt := t\<rparr> in
                (st1\<lparr>authKeys := jm_set (keyId key) key1 (authKeys st1)\<rparr>, Inr key1)))))"

definition updateKeySecret :: "int \<Rightarrow> jsnum \<Rightarrow> units \<Rightarrow> MemoryAuthStore \<Rightarrow> bool auth_outcome" where
  "updateKeySecret now kid s st =
     guarded st (checkSecret s) (\<lambda>s.
       case keyOf st kid of
         None \<Rightarrow> (st, Inr False)
       | Some key \<Rightarrow> (st\<lparr>authKeys := jm_set (keyId key) (key\<lparr>secret := Some s, updatedAt := now\<rparr>) (authKeys st)\<rparr>, Inr True))"

definition deleteKey :: "jsnum \<Rightarrow> jsnum \<Rightarrow> MemoryAuthStore \<Rightarrow> bool auth_outcome" where
  "deleteKey uid kid st =
     (case keyOf st kid of
        None \<Rightarrow> (st, Inr False)
      | Some key \<Rightarrow>
          if js_int (userId key) \<noteq> uid then (st, Inr False)
          else (let st1 = st\<lparr>authKeys := jm_delete (keyId key) (authKeys st)\<rparr> in
            (case provenEmail key of None \<Rightarrow> st1 | Some e \<Rightarrow> releaseIfUnproven (userId key) e st1, Inr True)))"

definition releaseKeyEmail :: "int \<Rightarrow> jsnum \<Rightarrow> jsnum \<Rightarrow> MemoryAuthStore \<Rightarrow> bool auth_outcome" where
  "releaseKeyEmail now uid kid st =
     (case keyOf st kid of
        None \<Rightarrow> (st, Inr False)
      | Some key \<Rightarrow>
          if js_int (userId key) \<noteq> uid then (st, Inr False)
          else (let released = provenEmail key;
                    key1 = key\<lparr>email := None, provenAt := None, updatedAt := now\<rparr>;
                    st1 = st\<lparr>authKeys := jm_set (keyId key) key1 (authKeys st)\<rparr> in
            (case released of None \<Rightarrow> st1 | Some e \<Rightarrow> releaseIfUnproven (userId key) e st1, Inr True)))"

definition issueChallenge :: "IssueChallengeInput \<Rightarrow> MemoryAuthStore \<Rightarrow> unit auth_outcome" where
  "issueChallenge v st =
     guarded st (checkIssueChallenge v) (\<lambda>(expires, now).
       (let kept = jm_drop (\<lambda>row. rowExpiresAt row \<le> now) (challenges st);
            cid = challengeId (purpose v) (challengeFor v);
            count = (case jm_get kept cid of
                None \<Rightarrow> 0
              | Some previous \<Rightarrow> if rowExpiresAt previous > now then attempts previous else 0) in
        (st\<lparr>challenges := jm_set cid \<lparr>rowHash = secretHash v, attempts = count, rowExpiresAt = expires\<rparr> kept\<rparr>, Inr ())))"

definition attemptChallenge :: "AttemptChallengeInput \<Rightarrow> MemoryAuthStore \<Rightarrow> ChallengeOutcome auth_outcome" where
  "attemptChallenge v st =
     guarded st (checkAttemptChallenge v) (\<lambda>(most, now).
       (let cid = challengeId (guessPurpose v) (guessFor v) in
        case jm_get (challenges st) cid of
          None \<Rightarrow> (st, Inr Missing)
        | Some row \<Rightarrow>
            if rowExpiresAt row \<le> now then (st, Inr Missing)
            else if attempts row \<ge> most then (st, Inr LockedOut)
            else if rowHash row = guessHash v
            then (st\<lparr>challenges := jm_delete cid (challenges st)\<rparr>, Inr Matched)
            else (st\<lparr>challenges := jm_set cid (row\<lparr>attempts := attempts row + 1\<rparr>) (challenges st)\<rparr>, Inr WrongGuess)))"

definition deleteChallenges :: "units \<Rightarrow> units \<Rightarrow> MemoryAuthStore \<Rightarrow> unit auth_outcome" where
  "deleteChallenges p s st =
     guarded st (checkDeleteChallenges p s) (\<lambda>_.
       (st\<lparr>challenges := filter (\<lambda>c. \<not> prefix (challengeId p s) (fst c)) (challenges st)\<rparr>, Inr ()))"

end
