(* ===== verification/AuthStoreProofs.thy ===== *)
theory AuthStoreProofs
  imports AuthStore
begin

text \<open>
  What \<open>MemoryAuthStore\<close> promises, over every sequence of calls: the tables stay consistent and a refused
  write changes nothing, a proven address stays with its owner, and the guesses of a challenge are
  bounded.
\<close>

section \<open>Sequences of calls\<close>

datatype authOp =
    CreateUser int int "jsdate NewAuthKey" | AddKey int jsnum "jsdate NewAuthKey" | ProveKey jsnum jsdate
  | UpdateSecret int jsnum units | DeleteKey jsnum jsnum | ReleaseEmail int jsnum jsnum
  | IssueChallenge IssueChallengeInput | AttemptChallenge AttemptChallengeInput | DeleteChallenges units units

text \<open>The outcome of a guess is kept, every other result dropped.\<close>

definition plainly :: "('r \<Rightarrow> ChallengeOutcome option) \<Rightarrow> 'r auth_outcome \<Rightarrow> ChallengeOutcome option auth_outcome" where
  "plainly f r = (fst r, case snd r of Inl e \<Rightarrow> Inl e | Inr x \<Rightarrow> Inr (f x))"

fun authStep :: "authOp \<Rightarrow> MemoryAuthStore \<Rightarrow> ChallengeOutcome option auth_outcome" where
  "authStep (CreateUser un kn k) st = plainly (\<lambda>_. None) (createUserWithKey un kn k st)"
| "authStep (AddKey now uid k) st = plainly (\<lambda>_. None) (addKey now uid k st)"
| "authStep (ProveKey kid now) st = plainly (\<lambda>_. None) (proveKey kid now st)"
| "authStep (UpdateSecret now kid s) st = plainly (\<lambda>_. None) (updateKeySecret now kid s st)"
| "authStep (DeleteKey uid kid) st = plainly (\<lambda>_. None) (deleteKey uid kid st)"
| "authStep (ReleaseEmail now uid kid) st = plainly (\<lambda>_. None) (releaseKeyEmail now uid kid st)"
| "authStep (IssueChallenge v) st = plainly (\<lambda>_. None) (issueChallenge v st)"
| "authStep (AttemptChallenge v) st = plainly Some (attemptChallenge v st)"
| "authStep (DeleteChallenges p s) st = plainly (\<lambda>_. None) (deleteChallenges p s st)"

definition authRun :: "authOp list \<Rightarrow> MemoryAuthStore \<Rightarrow> MemoryAuthStore" where
  "authRun ops st = foldl (\<lambda>st op. fst (authStep op st)) st ops"

lemma authRun_simps [simp]: "authRun [] st = st" "authRun (op # ops) st = authRun ops (fst (authStep op st))"
  by (simp_all add: authRun_def)

lemma plainly_simps [simp]:
  "fst (plainly f r) = fst r" "snd (plainly f r) = Inl e \<longleftrightarrow> snd r = Inl e" "plainly f (st, Inr x) = (st, Inr (f x))"
  "plainly f (st, Inl e) = (st, Inl e)"
  by (auto simp: plainly_def split: sum.splits)

lemma plainly_error: "plainly f r = (st', Inl e) \<longleftrightarrow> r = (st', Inl e)"
  by (cases r) (auto simp: plainly_def split: sum.splits)

lemma guarded_simps [simp]: "guarded st (Inl e) f = (st, Inl e)" "guarded st (Inr x) f = f x"
  by (simp_all add: guarded_def)

lemma guarded_error: "guarded st r f = (st', Inl e) \<Longrightarrow> (\<And>x. r = Inr x \<Longrightarrow> f x = (st', Inl e) \<Longrightarrow> st' = st) \<Longrightarrow> st' = st"
  by (cases r) auto

text \<open>Every method decides before it writes.\<close>

lemma refused_changes_nothing:
  assumes "authStep op st = (st', Inl e)"
  shows "st' = st"
proof (cases op)
  case (CreateUser un kn k)
  then have "createUserWithKey un kn k st = (st', Inl e)" using assms by (simp add: plainly_error)
  then show ?thesis unfolding createUserWithKey_def by (elim guarded_error) (auto simp: Let_def split: prod.splits)
next
  case (AddKey now uid k)
  then have "addKey now uid k st = (st', Inl e)" using assms by (simp add: plainly_error)
  then show ?thesis unfolding addKey_def
    by (elim guarded_error) (auto simp: Let_def split: prod.splits if_splits elim!: guarded_error)
next
  case (ProveKey kid now)
  then have "proveKey kid now st = (st', Inl e)" using assms by (simp add: plainly_error)
  then show ?thesis unfolding proveKey_def
    by (elim guarded_error) (auto simp: Let_def split: option.splits elim!: guarded_error)
next
  case (UpdateSecret now kid s)
  then have "updateKeySecret now kid s st = (st', Inl e)" using assms by (simp add: plainly_error)
  then show ?thesis unfolding updateKeySecret_def by (elim guarded_error) (auto split: option.splits)
next
  case (DeleteKey uid kid)
  then have "deleteKey uid kid st = (st', Inl e)" using assms by (simp add: plainly_error)
  then show ?thesis by (auto simp: deleteKey_def Let_def split: option.splits if_splits)
next
  case (ReleaseEmail now uid kid)
  then have "releaseKeyEmail now uid kid st = (st', Inl e)" using assms by (simp add: plainly_error)
  then show ?thesis by (auto simp: releaseKeyEmail_def Let_def split: option.splits if_splits)
next
  case (IssueChallenge v)
  then have "issueChallenge v st = (st', Inl e)" using assms by (simp add: plainly_error)
  then show ?thesis unfolding issueChallenge_def by (elim guarded_error) (auto simp: Let_def)
next
  case (AttemptChallenge v)
  then have "attemptChallenge v st = (st', Inl e)" using assms by (simp add: plainly_error)
  then show ?thesis unfolding attemptChallenge_def
    by (elim guarded_error) (auto simp: Let_def split: option.splits if_splits)
next
  case (DeleteChallenges p s)
  then have "deleteChallenges p s st = (st', Inl e)" using assms by (simp add: plainly_error)
  then show ?thesis unfolding deleteChallenges_def by (elim guarded_error) auto
qed

section \<open>Consistency\<close>

text \<open>
  The tables: each key under its id, of a user that exists, unique by (method, subject); a proven key has
  an address its user owns; an owned address has a proven key of its owner.
\<close>

definition backs :: "AuthKey \<Rightarrow> units \<Rightarrow> int \<Rightarrow> bool" where
  "backs k e uid \<longleftrightarrow> userId k = uid \<and> email k = Some e \<and> provenAt k \<noteq> None"

definition storeOk :: "MemoryAuthStore \<Rightarrow> bool" where
  "storeOk st \<longleftrightarrow>
     jm_ok (authKeys st) \<and> jm_ok (owners st) \<and>
     list_all (\<lambda>(i, k). keyId k = i \<and> i < nextKeyId st \<and> jm_has (users st) (userId k)) (authKeys st) \<and>
     distinct (map (\<lambda>(i, k). (keyMethod k, subject k)) (authKeys st)) \<and>
     list_all (\<lambda>(i, k). provenAt k \<noteq> None \<longrightarrow> email k \<noteq> None \<and> jm_get (owners st) (the (email k)) = Some (userId k))
       (authKeys st) \<and>
     list_all (\<lambda>(e, uid). list_ex (\<lambda>(i, k). backs k e uid) (authKeys st)) (owners st) \<and>
     jm_ok (users st) \<and> list_all (\<lambda>(i, v). userNo v = i \<and> i < nextUserId st) (users st)"

text \<open>The same over the lookups: the keys, and the owners whose address is not in \<open>X\<close>.\<close>

definition keysOk :: "(int \<Rightarrow> AuthKey option) \<Rightarrow> (units \<Rightarrow> int option) \<Rightarrow> (int \<Rightarrow> bool) \<Rightarrow> int \<Rightarrow> bool" where
  "keysOk K O' U nk \<longleftrightarrow>
     (\<forall>i k. K i = Some k \<longrightarrow> keyId k = i \<and> i < nk \<and> U (userId k) \<and>
        (provenAt k \<noteq> None \<longrightarrow> (\<exists>e. email k = Some e \<and> O' e = Some (userId k)))) \<and>
     (\<forall>i j k l. K i = Some k \<longrightarrow> K j = Some l \<longrightarrow> keyMethod k = keyMethod l \<longrightarrow> subject k = subject l \<longrightarrow> i = j)"

definition backedBut :: "units set \<Rightarrow> (int \<Rightarrow> AuthKey option) \<Rightarrow> (units \<Rightarrow> int option) \<Rightarrow> bool" where
  "backedBut X K O' \<longleftrightarrow> (\<forall>e uid. e \<notin> X \<longrightarrow> O' e = Some uid \<longrightarrow> (\<exists>i k. K i = Some k \<and> backs k e uid))"

lemma list_all_get: "jm_ok m \<Longrightarrow> list_all (\<lambda>(i, v). P i v) m \<longleftrightarrow> (\<forall>i v. jm_get m i = Some v \<longrightarrow> P i v)"
  and list_ex_get: "jm_ok m \<Longrightarrow> list_ex (\<lambda>(i, v). P i v) m \<longleftrightarrow> (\<exists>i v. jm_get m i = Some v \<and> P i v)"
  using jm_get_in [of m] by (auto simp: list_all_iff list_ex_iff)

lemma distinct_get:
  assumes "jm_ok m"
  shows "distinct (map (\<lambda>(i, k). f k) m) \<longleftrightarrow>
    (\<forall>i j k l. jm_get m i = Some k \<longrightarrow> jm_get m j = Some l \<longrightarrow> f k = f l \<longrightarrow> i = j)"
proof -
  have d: "distinct m" using assms by (simp add: distinct_map)
  have "inj_on (\<lambda>(i, k). f k) (set m) \<longleftrightarrow>
    (\<forall>i j k l. jm_get m i = Some k \<longrightarrow> jm_get m j = Some l \<longrightarrow> f k = f l \<longrightarrow> i = j)"
    unfolding inj_on_def jm_get_in [OF assms] split_paired_Ball_Sigma
  proof safe
    fix i j k l
    assume "\<forall>x\<in>set m. \<forall>y\<in>set m. (case x of (i, k) \<Rightarrow> f k) = (case y of (i, k) \<Rightarrow> f k) \<longrightarrow> x = y"
      "(i, k) \<in> set m" "(j, l) \<in> set m" "f k = f l"
    then have "(i, k) = (j, l)" by fast
    then show "i = j" by simp
  next
    fix i k j l
    assume inj: "\<forall>i j k l. (i, k) \<in> set m \<longrightarrow> (j, l) \<in> set m \<longrightarrow> f k = f l \<longrightarrow> i = j"
      and mem: "(i, k) \<in> set m" "(j, l) \<in> set m" "f k = f l"
    then show ij: "i = j" by blast
    show "k = l" using mem(1,2) ij jm_get_in [OF assms, of i] by (metis option.inject)
  qed
  then show ?thesis using d by (simp add: distinct_map)
qed

definition usersOk :: "MemoryAuthStore \<Rightarrow> bool" where
  "usersOk st \<longleftrightarrow> jm_ok (users st) \<and> (\<forall>i v. jm_get (users st) i = Some v \<longrightarrow> userNo v = i \<and> i < nextUserId st)"

lemma usersOkD: "usersOk st \<Longrightarrow> jm_has (users st) i \<Longrightarrow> i < nextUserId st"
  "usersOk st \<Longrightarrow> jm_get (users st) i = Some v \<Longrightarrow> userNo v = i"
  by (auto simp: usersOk_def jm_has_get)

lemma storeOk_view:
  "storeOk st \<longleftrightarrow> jm_ok (authKeys st) \<and> jm_ok (owners st) \<and>
     keysOk (jm_get (authKeys st)) (jm_get (owners st)) (jm_has (users st)) (nextKeyId st) \<and>
     backedBut {} (jm_get (authKeys st)) (jm_get (owners st)) \<and> usersOk st"
  (is "_ \<longleftrightarrow> ?A \<and> ?B \<and> ?C \<and> ?D \<and> ?E")
proof (cases "?A \<and> ?B")
  case True
  then have A: "?A" and B: "?B" by simp_all
  have proven: "(\<exists>e. email k = Some e \<and> Q e) \<longleftrightarrow> email k \<noteq> None \<and> Q (the (email k))" for k :: AuthKey and Q by auto
  have users: "jm_ok (users st) \<and> list_all (\<lambda>(i, v). userNo v = i \<and> i < nextUserId st) (users st) \<longleftrightarrow> ?E"
    using list_all_get [of "users st" "\<lambda>i v. userNo v = i \<and> i < nextUserId st"] by (auto simp: usersOk_def)
  note uniq = distinct_get [OF A, of "\<lambda>k. (keyMethod k, subject k)", unfolded prod.inject]
  have keys: "?C \<longleftrightarrow> (\<forall>i k. jm_get (authKeys st) i = Some k \<longrightarrow> keyId k = i \<and> i < nextKeyId st \<and> jm_has (users st) (userId k)) \<and>
      (\<forall>i j k l. jm_get (authKeys st) i = Some k \<longrightarrow> jm_get (authKeys st) j = Some l \<longrightarrow>
         keyMethod k = keyMethod l \<and> subject k = subject l \<longrightarrow> i = j) \<and>
      (\<forall>i k. jm_get (authKeys st) i = Some k \<longrightarrow> provenAt k \<noteq> None \<longrightarrow>
         email k \<noteq> None \<and> jm_get (owners st) (the (email k)) = Some (userId k))"
    unfolding keysOk_def proven by blast
  have backed: "?D \<longleftrightarrow> (\<forall>e uid. jm_get (owners st) e = Some uid \<longrightarrow>
      (\<exists>i k. jm_get (authKeys st) i = Some k \<and> backs k e uid))" by (simp add: backedBut_def)
  show ?thesis
    unfolding storeOk_def users uniq keys backed list_all_get [OF A] list_all_get [OF B] list_ex_get [OF A]
    using A B by simp
qed (auto simp: storeOk_def)

section \<open>Keys over the lookups\<close>

lemma keysOkD:
  assumes "keysOk K O' U nk" "K i = Some k"
  shows "keyId k = i \<and> i < nk \<and> U (userId k)"
    and "provenAt k \<noteq> None \<Longrightarrow> \<exists>e. email k = Some e \<and> O' e = Some (userId k)"
    and "K j = Some l \<Longrightarrow> keyMethod k = keyMethod l \<Longrightarrow> subject k = subject l \<Longrightarrow> i = j"
  using assms unfolding keysOk_def by blast+

lemma keysOkI:
  assumes "\<And>i k. K i = Some k \<Longrightarrow> keyId k = i \<and> i < nk \<and> U (userId k)"
    "\<And>i k. K i = Some k \<Longrightarrow> provenAt k \<noteq> None \<Longrightarrow> \<exists>e. email k = Some e \<and> O' e = Some (userId k)"
    "\<And>i j k l. K i = Some k \<Longrightarrow> K j = Some l \<Longrightarrow> keyMethod k = keyMethod l \<Longrightarrow> subject k = subject l \<Longrightarrow> i = j"
  shows "keysOk K O' U nk"
proof (unfold keysOk_def, intro conjI allI impI)
  fix i k assume k: "K i = Some k"
  show "keyId k = i" "i < nk" "U (userId k)" using assms(1) [OF k] by simp_all
  show "\<exists>e. email k = Some e \<and> O' e = Some (userId k)" if "provenAt k \<noteq> None" by (rule assms(2) [OF k that])
  show "i = j" if "K j = Some l" "keyMethod k = keyMethod l" "subject k = subject l" for j l by (rule assms(3) [OF k that])
qed

text \<open>A claim: the address goes to \<open>uid\<close>, the unproven keys of others that carry it go away.\<close>

definition claimed :: "int \<Rightarrow> units \<Rightarrow> (int \<Rightarrow> AuthKey option) \<Rightarrow> int \<Rightarrow> AuthKey option" where
  "claimed uid e K = (\<lambda>i. case K i of None \<Rightarrow> None
     | Some k \<Rightarrow> if email k = Some e \<and> userId k \<noteq> uid \<and> provenAt k = None then None else Some k)"

lemma claimed_Some: "claimed uid e K i = Some k \<longleftrightarrow>
    K i = Some k \<and> \<not> (email k = Some e \<and> userId k \<noteq> uid \<and> provenAt k = None)"
  by (auto simp: claimed_def split: option.splits)

lemma keysOk_claimed:
  assumes "keysOk K O' U nk" "O' e = None \<or> O' e = Some uid"
  shows "keysOk (claimed uid e K) (O'(e \<mapsto> uid)) U nk"
proof (rule keysOkI)
  fix i k assume "claimed uid e K i = Some k"
  then have k: "K i = Some k" by (simp add: claimed_Some)
  show "keyId k = i \<and> i < nk \<and> U (userId k)" by (rule keysOkD(1) [OF assms(1) k])
  show "\<exists>f. email k = Some f \<and> (O'(e \<mapsto> uid)) f = Some (userId k)" if proven: "provenAt k \<noteq> None"
  proof -
    obtain f where f: "email k = Some f" "O' f = Some (userId k)" using keysOkD(2) [OF assms(1) k proven] by blast
    then have "(O'(e \<mapsto> uid)) f = Some (userId k)" using assms(2) by (cases "f = e") simp_all
    then show ?thesis using f(1) by blast
  qed
  show "i = j" if l: "claimed uid e K j = Some l" "keyMethod k = keyMethod l" "subject k = subject l" for j l
  proof (rule keysOkD(3) [OF assms(1) k _ l(2,3)])
    show "K j = Some l" using l(1) by (simp add: claimed_Some)
  qed
qed

lemma backed_claimed: "backedBut {} K O' \<Longrightarrow> backedBut {e} (claimed uid e K) (O'(e \<mapsto> uid))"
  by (fastforce simp: backedBut_def claimed_Some backs_def)

lemma keysOk_put:
  assumes "keysOk K O' U nk" "keyId k = i" "i < nk" "U (userId k)"
    "provenAt k \<noteq> None \<Longrightarrow> \<exists>e. email k = Some e \<and> O' e = Some (userId k)"
    "\<And>j l. K j = Some l \<Longrightarrow> keyMethod l = keyMethod k \<Longrightarrow> subject l = subject k \<Longrightarrow> j = i"
  shows "keysOk (K(i \<mapsto> k)) O' U nk"
proof (rule keysOkI)
  fix j l assume l: "(K(i \<mapsto> k)) j = Some l"
  show "keyId l = j \<and> j < nk \<and> U (userId l)"
    using l assms(2-4) keysOkD(1) [OF assms(1), of j l] by (cases "j = i") auto
  show "\<exists>e. email l = Some e \<and> O' e = Some (userId l)" if proven: "provenAt l \<noteq> None"
  proof (cases "j = i")
    case True
    then have "l = k" using l by simp
    then show ?thesis using assms(5) proven by blast
  next
    case False
    then have "K j = Some l" using l by simp
    then show ?thesis using keysOkD(2) [OF assms(1)] proven by blast
  qed
  show "j = j'" if l': "(K(i \<mapsto> k)) j' = Some l'" "keyMethod l = keyMethod l'" "subject l = subject l'" for j' l'
  proof (cases "j = i")
    case True
    then have "l = k" using l by simp
    then show ?thesis using assms(6) [of j' l'] l' True by (cases "j' = i") simp_all
  next
    case False
    then have j: "K j = Some l" using l by simp
    show ?thesis
    proof (cases "j' = i")
      case True
      then have "l' = k" using l' by simp
      then show ?thesis using assms(6) [OF j] l'(2,3) True by blast
    next
      case False
      then have "K j' = Some l'" using l' by simp
      then show ?thesis using keysOkD(3) [OF assms(1) j _ l'(2,3)] by blast
    qed
  qed
qed

text \<open>Putting a key keeps the owners backed if every address the replaced key backed is in \<open>X\<close> or backed by it.\<close>

lemma backed_put:
  assumes "backedBut X K O'" "\<And>e uid l. K i = Some l \<Longrightarrow> backs l e uid \<Longrightarrow> O' e = Some uid \<Longrightarrow> e \<notin> Y \<Longrightarrow> backs k e uid"
    "\<And>e uid. e \<in> X - Y \<Longrightarrow> O' e = Some uid \<Longrightarrow> backs k e uid"
  shows "backedBut Y (K(i \<mapsto> k)) O'"
  unfolding backedBut_def
proof (intro allI impI)
  fix e uid assume e: "e \<notin> Y" "O' e = Some uid"
  show "\<exists>j l. (K(i \<mapsto> k)) j = Some l \<and> backs l e uid"
  proof (cases "e \<in> X")
    case True
    then show ?thesis using assms(3) e by (intro exI [of _ i] exI [of _ k]) auto
  next
    case False
    then obtain j l where l: "K j = Some l" "backs l e uid" using assms(1) e unfolding backedBut_def by blast
    then show ?thesis using assms(2) [OF _ _ e(2,1)] by (cases "j = i") (auto intro: exI [of _ i] exI [of _ j])
  qed
qed

lemma keysOk_mono: "keysOk K O' U nk \<Longrightarrow> nk \<le> mk \<Longrightarrow> (\<And>i. U i \<Longrightarrow> V i) \<Longrightarrow> keysOk K O' V mk"
  by (rule keysOkI) (auto dest: keysOkD)

text \<open>After a key of \<open>uid\<close> lost the address: the ownership goes with the last proven key.\<close>

lemma release_ok:
  assumes "keysOk K O' U nk" "backedBut {e} K O'" "O' e = Some uid"
  shows "backedBut {} K (if \<exists>i k. K i = Some k \<and> backs k e uid then O' else O'(e := None)) \<and>
    keysOk K (if \<exists>i k. K i = Some k \<and> backs k e uid then O' else O'(e := None)) U nk"
proof (cases "\<exists>i k. K i = Some k \<and> backs k e uid")
  case True
  then have "backedBut {} K O'" using assms(2,3) unfolding backedBut_def by (metis insertE option.inject)
  then show ?thesis using True assms(1) by simp
next
  case False
  have own: "\<exists>f. email k = Some f \<and> (O'(e := None)) f = Some (userId k)" if k: "K i = Some k" "provenAt k \<noteq> None" for i k
  proof -
    obtain f where f: "email k = Some f" "O' f = Some (userId k)" using keysOkD(2) [OF assms(1) k] by blast
    have "f \<noteq> e" using False assms(3) f k by (auto simp: backs_def)
    then show ?thesis using f by simp
  qed
  have "keysOk K (O'(e := None)) U nk" by (rule keysOkI [OF _ own]) (use keysOkD [OF assms(1)] in blast)+
  moreover have "backedBut {} K (O'(e := None))" using assms(2) by (auto simp: backedBut_def)
  ultimately show ?thesis unfolding if_not_P [OF False] by blast
qed

section \<open>Every keyMethod keeps the tables consistent\<close>

lemma claimAddress_get: "jm_ok (authKeys st) \<Longrightarrow>
    jm_get (authKeys (claimAddress uid e st)) = claimed uid e (jm_get (authKeys st)) \<and>
    jm_get (owners (claimAddress uid e st)) = (jm_get (owners st))(e \<mapsto> uid)"
  by (auto simp: claimAddress_def claimed_def jm_get_drop split: option.splits)

lemma claimAddress_rest [simp]:
  "users (claimAddress uid e st) = users st" "nextUserId (claimAddress uid e st) = nextUserId st"
  "nextKeyId (claimAddress uid e st) = nextKeyId st" "challenges (claimAddress uid e st) = challenges st"
  "jm_ok (authKeys st) \<Longrightarrow> jm_ok (authKeys (claimAddress uid e st))"
  "jm_ok (owners st) \<Longrightarrow> jm_ok (owners (claimAddress uid e st))"
  by (simp_all add: claimAddress_def)

lemma assertOwnable_Inr: "assertOwnable st uid e = Inr x \<longleftrightarrow>
    (jm_get (owners st) e = None \<or> (\<exists>v. jm_get (owners st) e = Some v \<and> uid = Some v))"
  by (auto simp: assertOwnable_def split: option.splits)

lemma findKeyIn_facts:
  assumes "jm_ok m"
  shows "findKeyIn m me s = None \<Longrightarrow> jm_get m i = Some k \<Longrightarrow> \<not> (keyMethod k = me \<and> subject k = s)"
    and "findKeyIn m me s = Some k \<Longrightarrow> keyMethod k = me \<and> subject k = s \<and> (\<exists>i. jm_get m i = Some k)"
proof -
  show "\<not> (keyMethod k = me \<and> subject k = s)" if "findKeyIn m me s = None" "jm_get m i = Some k"
    using that jm_get_in [OF assms, of i k] unfolding findKeyIn_def find_None_iff by force
  assume "findKeyIn m me s = Some k"
  then have "keyMethod k = me" "subject k = s" "k \<in> snd ` set m" unfolding findKeyIn_def find_Some_iff by auto
  then show "keyMethod k = me \<and> subject k = s \<and> (\<exists>i. jm_get m i = Some k)" using jm_get_in [OF assms] by fastforce
qed

definition tablesOk :: "MemoryAuthStore \<Rightarrow> bool" where
  "tablesOk st \<longleftrightarrow> jm_ok (authKeys st) \<and> jm_ok (owners st) \<and>
     keysOk (jm_get (authKeys st)) (jm_get (owners st)) (jm_has (users st)) (nextKeyId st) \<and>
     backedBut {} (jm_get (authKeys st)) (jm_get (owners st))"

lemma storeOk_tables: "storeOk st \<longleftrightarrow> tablesOk st \<and> usersOk st"
  unfolding storeOk_view tablesOk_def by blast

lemma tablesOkD:
  assumes "tablesOk st"
  shows "jm_ok (authKeys st)" "jm_ok (owners st)"
    "keysOk (jm_get (authKeys st)) (jm_get (owners st)) (jm_has (users st)) (nextKeyId st)"
    "backedBut {} (jm_get (authKeys st)) (jm_get (owners st))"
  using assms unfolding tablesOk_def by blast+

lemma assertInsertable_Inr:
  assumes "assertInsertable st uid k = Inr x" "jm_ok (authKeys st)"
  shows "provenEmail k = Some e \<Longrightarrow> jm_get (owners st) e = None \<or> (\<exists>v. jm_get (owners st) e = Some v \<and> uid = Some v)"
    and "jm_get (authKeys st) i = Some l \<Longrightarrow> keyMethod l = keyMethod k \<Longrightarrow> subject l = subject k \<Longrightarrow>
      \<exists>old e. findKeyIn (authKeys st) (keyMethod k) (subject k) = Some old \<and> provenEmail k = Some e \<and>
        Some (userId old) \<noteq> uid \<and> provenAt old = None \<and> email old = Some e"
proof -
  show "jm_get (owners st) e = None \<or> (\<exists>v. jm_get (owners st) e = Some v \<and> uid = Some v)" if "provenEmail k = Some e"
    using assms(1) that unfolding assertInsertable_def andThen_Inr by (simp add: assertOwnable_Inr)
  assume l: "jm_get (authKeys st) i = Some l" "keyMethod l = keyMethod k" "subject l = subject k"
  obtain old where old: "findKeyIn (authKeys st) (keyMethod k) (subject k) = Some old"
    using findKeyIn_facts(1) [OF assms(2) _ l(1), of "keyMethod k" "subject k"] l(2,3) by (metis option.exhaust)
  then have "provenEmail k \<noteq> None \<and> Some (userId old) \<noteq> uid \<and> provenAt old = None \<and> email old = provenEmail k"
    using assms(1) unfolding assertInsertable_def andThen_Inr by (simp add: Let_def split: if_splits)
  then show "\<exists>old e. findKeyIn (authKeys st) (keyMethod k) (subject k) = Some old \<and> provenEmail k = Some e \<and>
        Some (userId old) \<noteq> uid \<and> provenAt old = None \<and> email old = Some e"
    using old by auto
qed

text \<open>Inserting a key that passed the checks, for a user that exists.\<close>

lemma put_new_ok:
  assumes "jm_ok (authKeys st)" "jm_ok (owners st)"
    "keysOk (jm_get (authKeys st)) (jm_get (owners st)) (jm_has (users st)) (nextKeyId st)"
    "backedBut X (jm_get (authKeys st)) (jm_get (owners st))" "keyId key = nextKeyId st" "jm_has (users st) (userId key)"
    "provenAt key \<noteq> None \<Longrightarrow> \<exists>e. email key = Some e \<and> jm_get (owners st) e = Some (userId key)"
    "\<And>e uid. e \<in> X \<Longrightarrow> jm_get (owners st) e = Some uid \<Longrightarrow> backs key e uid"
    "\<And>j l. jm_get (authKeys st) j = Some l \<Longrightarrow> keyMethod l = keyMethod key \<Longrightarrow> subject l = subject key \<Longrightarrow> False"
  shows "tablesOk (st\<lparr>authKeys := jm_set (keyId key) key (authKeys st), nextKeyId := nextKeyId st + 1\<rparr>)"
proof -
  let ?K = "jm_get (authKeys st)"
  have K: "keysOk ?K (jm_get (owners st)) (jm_has (users st)) (nextKeyId st + 1)"
    by (rule keysOk_mono [OF assms(3)]) simp_all
  have "keysOk (?K(nextKeyId st \<mapsto> key)) (jm_get (owners st)) (jm_has (users st)) (nextKeyId st + 1)"
  proof (rule keysOk_put [OF K assms(5) _ assms(6)])
    show "nextKeyId st < nextKeyId st + 1" by simp
    show "\<exists>e. email key = Some e \<and> jm_get (owners st) e = Some (userId key)" if "provenAt key \<noteq> None"
      using that by (rule assms(7))
    show "j = nextKeyId st" if "?K j = Some l" "keyMethod l = keyMethod key" "subject l = subject key" for j l
      using assms(9) [OF that] by blast
  qed
  moreover have "backedBut {} (?K(nextKeyId st \<mapsto> key)) (jm_get (owners st))"
  proof (rule backed_put [OF assms(4)])
    show "backs key e uid" if "?K (nextKeyId st) = Some l" for e uid l
      using keysOkD(1) [OF assms(3) that] by simp
    show "backs key e uid" if "e \<in> X - {}" "jm_get (owners st) e = Some uid" for e uid
      using that assms(8) by blast
  qed
  ultimately show ?thesis using assms(1,2,5) by (simp add: tablesOk_def)
qed

lemma insertKey_ok:
  assumes ok: "tablesOk st" and user: "jm_has (users st) uid"
    and addressed: "provenAt k \<noteq> None \<Longrightarrow> email k \<noteq> None"
    and ownable: "\<And>e. provenEmail k = Some e \<Longrightarrow> jm_get (owners st) e = None \<or> jm_get (owners st) e = Some uid"
    and unique: "\<And>i l. jm_get (authKeys st) i = Some l \<Longrightarrow> keyMethod l = keyMethod k \<Longrightarrow> subject l = subject k \<Longrightarrow>
      \<exists>e. provenEmail k = Some e \<and> userId l \<noteq> uid \<and> provenAt l = None \<and> email l = Some e"
  shows "tablesOk (fst (insertKey now uid k st))"
proof (cases "provenEmail k")
  case None
  then have np: "provenAt k = None" using addressed by (auto simp: provenEmail_def split: if_splits)
  have "tablesOk (st\<lparr>authKeys := jm_set (keyId key) key (authKeys st), nextKeyId := nextKeyId st + 1\<rparr>)"
    if "key = NewAuthKey.extend k \<lparr>keyId = nextKeyId st, userId = uid, createdAt = now, updatedAt = now\<rparr>" for key
    by (rule put_new_ok [OF tablesOkD [OF ok]]) (use np user unique None that in \<open>auto simp: NewAuthKey.defs\<close>)
  then show ?thesis using None by (simp add: insertKey_def Let_def)
next
  case (Some e)
  let ?st = "claimAddress uid e st"
  have em: "email k = Some e" "provenAt k \<noteq> None" using Some by (auto simp: provenEmail_def split: if_splits)
  note get = claimAddress_get [OF tablesOkD(1) [OF ok], of uid e]
  have K: "keysOk (jm_get (authKeys ?st)) (jm_get (owners ?st)) (jm_has (users ?st)) (nextKeyId ?st)"
    using keysOk_claimed [OF tablesOkD(3) [OF ok] ownable [OF Some]] get by simp
  have B: "backedBut {e} (jm_get (authKeys ?st)) (jm_get (owners ?st))"
    using backed_claimed [OF tablesOkD(4) [OF ok]] get by simp
  have free: "False" if "jm_get (authKeys ?st) j = Some l" "keyMethod l = keyMethod k" "subject l = subject k" for j l
    using that get unique [of j l] Some by (auto simp: claimed_Some)
  have "tablesOk (?st\<lparr>authKeys := jm_set (keyId key) key (authKeys ?st), nextKeyId := nextKeyId ?st + 1\<rparr>)"
    if "key = NewAuthKey.extend k \<lparr>keyId = nextKeyId ?st, userId = uid, createdAt = now, updatedAt = now\<rparr>" for key
    by (rule put_new_ok [OF _ _ K B]) (use em user free that get tablesOkD(1,2) [OF ok] in \<open>auto simp: NewAuthKey.defs backs_def\<close>)
  then show ?thesis using Some by (simp add: insertKey_def Let_def)
qed

lemma keyOf_get:
  assumes "tablesOk st" "keyOf st v = Some key"
  shows "jm_get (authKeys st) (keyId key) = Some key"
proof -
  have g: "jm_get (authKeys st) (js_floor v) = Some key" using assms(2) by (simp add: keyOf_def split: if_splits)
  then show ?thesis using keysOkD(1) [OF tablesOkD(3) [OF assms(1)] g] by simp
qed

text \<open>A key written back in place, with its id, user, method and subject.\<close>

lemma keysOk_update:
  assumes "keysOk K O' U nk" "K (keyId key) = Some key" "keyId key1 = keyId key" "userId key1 = userId key"
    "keyMethod key1 = keyMethod key" "subject key1 = subject key"
    "provenAt key1 \<noteq> None \<Longrightarrow> \<exists>e. email key1 = Some e \<and> O' e = Some (userId key1)"
  shows "keysOk (K(keyId key \<mapsto> key1)) O' U nk"
proof (rule keysOk_put [OF assms(1,3)])
  show "keyId key < nk" "U (userId key1)" using keysOkD(1) [OF assms(1,2)] assms(4) by simp_all
  show "\<exists>e. email key1 = Some e \<and> O' e = Some (userId key1)" if "provenAt key1 \<noteq> None" using that by (rule assms(7))
  show "j = keyId key" if "K j = Some l" "keyMethod l = keyMethod key1" "subject l = subject key1" for j l
    using keysOkD(3) [OF assms(1) that(1) assms(2)] that(2,3) assms(5,6) by simp
qed

lemma keysOk_remove: "keysOk K O' U nk \<Longrightarrow> keysOk (K(i := None)) O' U nk"
  by (rule keysOkI) (auto dest: keysOkD split: if_splits)

lemma get_delete: "jm_get (jm_delete k m) = (jm_get m)(k := None)"
  by (rule ext) simp

lemma releaseIfUnproven_ok:
  assumes "jm_ok (authKeys st)" "jm_ok (owners st)"
    "keysOk (jm_get (authKeys st)) (jm_get (owners st)) (jm_has (users st)) (nextKeyId st)"
    "backedBut {e} (jm_get (authKeys st)) (jm_get (owners st))" "jm_get (owners st) e = Some uid"
  shows "tablesOk (releaseIfUnproven uid e st)"
proof -
  have ex: "list_ex (\<lambda>k. userId k = uid \<and> email k = Some e \<and> provenAt k \<noteq> None) (map snd (authKeys st)) \<longleftrightarrow>
      (\<exists>i k. jm_get (authKeys st) i = Some k \<and> backs k e uid)"
    unfolding jm_get_in [OF assms(1)] by (force simp: list_ex_iff backs_def)
  note ok = release_ok [OF assms(3-5)]
  show ?thesis
  proof (cases "\<exists>i k. jm_get (authKeys st) i = Some k \<and> backs k e uid")
    case True
    then have "releaseIfUnproven uid e st = st" unfolding releaseIfUnproven_def ex by simp
    then show ?thesis using ok assms(1,2) unfolding if_P [OF True] tablesOk_def by simp
  next
    case False
    then have r: "releaseIfUnproven uid e st = st\<lparr>owners := jm_delete e (owners st)\<rparr>"
      unfolding releaseIfUnproven_def ex if_not_P [OF False] using assms(5) by simp
    show ?thesis using ok assms(1,2) unfolding if_not_P [OF False] tablesOk_def r by (simp add: get_delete)
  qed
qed

lemma proveKey_ok:
  assumes ok: "tablesOk st"
  shows "tablesOk (fst (proveKey kid now st))"
proof (cases "snd (proveKey kid now st)")
  case (Inl e)
  then show ?thesis using refused_changes_nothing [of "ProveKey kid now" st] ok by (cases "proveKey kid now st") simp
next
  case (Inr r)
  then obtain t key e where t: "checkDate now = Inr t" "keyOf st kid = Some key" "email key = Some e"
      "assertOwnable st (Some (userId key)) e = Inr ()"
    by (auto simp: proveKey_def guarded_def split: sum.splits option.splits)
  let ?st = "claimAddress (userId key) e st"
  let ?key = "key\<lparr>provenAt := Some (orElse (provenAt key) t), updatedAt := t\<rparr>"
  have f: "fst (proveKey kid now st) = ?st\<lparr>authKeys := jm_set (keyId key) ?key (authKeys ?st)\<rparr>"
    using t by (simp add: proveKey_def Let_def)
  have own: "jm_get (owners st) e = None \<or> jm_get (owners st) e = Some (userId key)" using t(4) by (auto simp: assertOwnable_Inr)
  note get = claimAddress_get [OF tablesOkD(1) [OF ok], of "userId key" e]
  have K: "keysOk (jm_get (authKeys ?st)) (jm_get (owners ?st)) (jm_has (users ?st)) (nextKeyId ?st)"
    using keysOk_claimed [OF tablesOkD(3) [OF ok] own] get by simp
  have B: "backedBut {e} (jm_get (authKeys ?st)) (jm_get (owners ?st))"
    using backed_claimed [OF tablesOkD(4) [OF ok]] get by simp
  have here: "jm_get (authKeys ?st) (keyId key) = Some key"
    using keyOf_get [OF ok t(2)] get by (simp add: claimed_Some)
  have "keysOk ((jm_get (authKeys ?st))(keyId key \<mapsto> ?key)) (jm_get (owners ?st)) (jm_has (users ?st)) (nextKeyId ?st)"
    by (rule keysOk_update [OF K here]) (use t(3) get in simp_all)
  moreover have "backedBut {} ((jm_get (authKeys ?st))(keyId key \<mapsto> ?key)) (jm_get (owners ?st))"
  proof (rule backed_put [OF B])
    show "backs ?key f uid" if "jm_get (authKeys ?st) (keyId key) = Some l" "backs l f uid" for f uid l
      using that here by (simp add: backs_def)
    show "backs ?key f uid" if "f \<in> {e} - {}" "jm_get (owners ?st) f = Some uid" for f uid
      using that t(3) get by (simp add: backs_def)
  qed
  ultimately show ?thesis using tablesOkD(1,2) [OF ok] unfolding f tablesOk_def by simp
qed

lemma updateKeySecret_ok:
  assumes ok: "tablesOk st"
  shows "tablesOk (fst (updateKeySecret now kid s st))"
proof (cases "checkSecret s")
  case (Inr s')
  show ?thesis
  proof (cases "keyOf st kid")
    case (Some key)
    let ?key = "key\<lparr>secret := Some s', updatedAt := now\<rparr>"
    note here = keyOf_get [OF ok Some]
    have "keysOk ((jm_get (authKeys st))(keyId key \<mapsto> ?key)) (jm_get (owners st)) (jm_has (users st)) (nextKeyId st)"
      by (rule keysOk_update [OF tablesOkD(3) [OF ok] here]) (use keysOkD(2) [OF tablesOkD(3) [OF ok] here] in simp_all)
    moreover have "backedBut {} ((jm_get (authKeys st))(keyId key \<mapsto> ?key)) (jm_get (owners st))"
      by (rule backed_put [OF tablesOkD(4) [OF ok]]) (use here in \<open>auto simp: backs_def\<close>)
    ultimately show ?thesis
      using tablesOkD(1,2) [OF ok] Inr Some unfolding tablesOk_def by (simp add: updateKeySecret_def)
  qed (use ok Inr in \<open>simp add: updateKeySecret_def\<close>)
qed (use ok in \<open>simp add: updateKeySecret_def\<close>)

lemma proven_backs: "provenEmail k = Some e \<Longrightarrow> backs k e (userId k)"
  and unproven_backs: "provenEmail k = None \<Longrightarrow> \<not> backs k e uid"
  by (auto simp: provenEmail_def backs_def split: if_splits)

lemma backs_owned:
  assumes "keysOk K O' U nk" "K i = Some k" "backs k e uid"
  shows "O' e = Some uid"
  using keysOkD(2) [OF assms(1,2)] assms(3) by (auto simp: backs_def)

text \<open>Taking the address from a key (by deleting it, or by clearing it): then the ownership may go.\<close>

lemma gone_ok:
  assumes ok: "tablesOk st" and here: "jm_get (authKeys st) (keyId key) = Some key"
    and st1: "jm_ok (authKeys st1)" "owners st1 = owners st" "users st1 = users st" "nextKeyId st1 = nextKeyId st"
    and K: "keysOk (jm_get (authKeys st1)) (jm_get (owners st)) (jm_has (users st)) (nextKeyId st)"
    and others: "\<And>i k. jm_get (authKeys st) i = Some k \<Longrightarrow> i \<noteq> keyId key \<Longrightarrow> jm_get (authKeys st1) i = Some k"
  shows "tablesOk (case provenEmail key of None \<Rightarrow> st1 | Some e \<Rightarrow> releaseIfUnproven (userId key) e st1)"
proof -
  have kept: "\<exists>i k. jm_get (authKeys st1) i = Some k \<and> backs k e uid"
    if own: "jm_get (owners st) e = Some uid" and notkey: "\<not> backs key e uid" for e uid
  proof -
    obtain i k where ik: "jm_get (authKeys st) i = Some k" "backs k e uid"
      using tablesOkD(4) [OF ok] own unfolding backedBut_def by blast
    then have "i \<noteq> keyId key" using here notkey by auto
    then show ?thesis using others [OF ik(1)] ik(2) by blast
  qed
  show ?thesis
  proof (cases "provenEmail key")
    case None
    then have "backedBut {} (jm_get (authKeys st1)) (jm_get (owners st1))"
      using kept unproven_backs [OF None] st1(2) unfolding backedBut_def by simp
    then show ?thesis using None st1 K tablesOkD(2) [OF ok] unfolding tablesOk_def by simp
  next
    case (Some e)
    have b: "backs key e (userId key)" by (rule proven_backs [OF Some])
    have "backedBut {e} (jm_get (authKeys st1)) (jm_get (owners st1))"
      unfolding backedBut_def st1(2)
    proof (intro allI impI)
      fix f uid assume f: "f \<notin> {e}" "jm_get (owners st) f = Some uid"
      have "\<not> backs key f uid" using f(1) b by (auto simp: backs_def)
      then show "\<exists>i k. jm_get (authKeys st1) i = Some k \<and> backs k f uid" by (rule kept [OF f(2)])
    qed
    moreover have "jm_get (owners st1) e = Some (userId key)"
      using backs_owned [OF tablesOkD(3) [OF ok] here b] st1(2) by simp
    ultimately show ?thesis
      using Some releaseIfUnproven_ok [of st1 e "userId key"] st1 K tablesOkD(2) [OF ok] by simp
  qed
qed

lemma deleteKey_ok:
  assumes ok: "tablesOk st"
  shows "tablesOk (fst (deleteKey uid kid st))"
proof (cases "keyOf st kid")
  case (Some key)
  let ?st = "st\<lparr>authKeys := jm_delete (keyId key) (authKeys st)\<rparr>"
  have "tablesOk (case provenEmail key of None \<Rightarrow> ?st | Some e \<Rightarrow> releaseIfUnproven (userId key) e ?st)"
    by (rule gone_ok [OF ok keyOf_get [OF ok Some]])
      (use tablesOkD [OF ok] in \<open>simp_all add: get_delete keysOk_remove\<close>)
  then show ?thesis using ok Some by (simp add: deleteKey_def Let_def)
qed (use ok in \<open>simp add: deleteKey_def\<close>)

lemma releaseKeyEmail_ok:
  assumes ok: "tablesOk st"
  shows "tablesOk (fst (releaseKeyEmail now uid kid st))"
proof (cases "keyOf st kid")
  case (Some key)
  let ?key = "key\<lparr>email := None, provenAt := None, updatedAt := now\<rparr>"
  let ?st = "st\<lparr>authKeys := jm_set (keyId key) ?key (authKeys st)\<rparr>"
  note here = keyOf_get [OF ok Some]
  have K: "keysOk ((jm_get (authKeys st))(keyId key \<mapsto> ?key)) (jm_get (owners st)) (jm_has (users st)) (nextKeyId st)"
    by (rule keysOk_update [OF tablesOkD(3) [OF ok] here]) simp_all
  have "tablesOk (case provenEmail key of None \<Rightarrow> ?st | Some e \<Rightarrow> releaseIfUnproven (userId key) e ?st)"
    by (rule gone_ok [OF ok here]) (use tablesOkD(1) [OF ok] K in simp_all)
  then show ?thesis using ok Some by (simp add: releaseKeyEmail_def Let_def)
qed (use ok in \<open>simp add: releaseKeyEmail_def\<close>)

lemma checkNewKey_Inr: "checkNewKey k = Inr i \<Longrightarrow> provenAt i \<noteq> None \<Longrightarrow> email i \<noteq> None"
  by (auto simp: checkNewKey_def validNewKey_def split: if_splits option.splits)

text \<open>The key found by (method, subject) is the only one, so an eviction leaves none.\<close>

lemma insertable_unique:
  assumes ok: "tablesOk st" and ins: "assertInsertable st uid k = Inr x"
    and l: "jm_get (authKeys st) i = Some l" "keyMethod l = keyMethod k" "subject l = subject k"
  shows "\<exists>e. provenEmail k = Some e \<and> Some (userId l) \<noteq> uid \<and> provenAt l = None \<and> email l = Some e"
proof -
  note A = tablesOkD(1) [OF ok]
  obtain old e where old: "findKeyIn (authKeys st) (keyMethod k) (subject k) = Some old" "provenEmail k = Some e"
      "Some (userId old) \<noteq> uid" "provenAt old = None" "email old = Some e"
    using assertInsertable_Inr(2) [OF ins A l] by blast
  obtain j where j: "jm_get (authKeys st) j = Some old" "keyMethod old = keyMethod k" "subject old = subject k"
    using findKeyIn_facts(2) [OF A old(1)] by blast
  have "i = j" using keysOkD(3) [OF tablesOkD(3) [OF ok] l(1) j(1)] l(2,3) j(2,3) by simp
  then have "l = old" using l(1) j(1) by simp
  then show ?thesis using old by blast
qed

lemma addKey_ok:
  assumes ok: "tablesOk st"
  shows "tablesOk (fst (addKey now uid k st))"
proof (cases "snd (addKey now uid k st)")
  case (Inl e)
  then show ?thesis using refused_changes_nothing [of "AddKey now uid k" st] ok by (cases "addKey now uid k st") simp
next
  case (Inr r)
  then obtain i where i: "checkNewKey k = Inr i" "jm_has (users st) (js_floor uid)" "isStoreId uid"
      "assertInsertable st (Some (js_floor uid)) i = Inr ()"
    by (auto simp: addKey_def guarded_def split: sum.splits if_splits)
  have "tablesOk (fst (insertKey now (js_floor uid) i st))"
  proof (rule insertKey_ok [OF ok i(2)])
    show "email i \<noteq> None" if "provenAt i \<noteq> None" using that by (rule checkNewKey_Inr [OF i(1)])
    show "jm_get (owners st) e = None \<or> jm_get (owners st) e = Some (js_floor uid)" if "provenEmail i = Some e" for e
      using assertInsertable_Inr(1) [OF i(4) tablesOkD(1) [OF ok] that] by auto
    show "\<exists>e. provenEmail i = Some e \<and> userId l \<noteq> js_floor uid \<and> provenAt l = None \<and> email l = Some e"
      if "jm_get (authKeys st) j = Some l" "keyMethod l = keyMethod i" "subject l = subject i" for j l
      using insertable_unique [OF ok i(4) that] by simp
  qed
  then show ?thesis using i by (cases "insertKey now (js_floor uid) i st") (simp add: addKey_def)
qed

lemma insertKey_rest [simp]:
  "users (fst (insertKey now uid k st)) = users st" "nextUserId (fst (insertKey now uid k st)) = nextUserId st"
  "challenges (fst (insertKey now uid k st)) = challenges st"
  by (simp_all add: insertKey_def Let_def split: option.splits)

lemma createUser_ok:
  assumes ok: "storeOk st"
  shows "storeOk (fst (createUserWithKey un kn k st))"
proof (cases "snd (createUserWithKey un kn k st)")
  case (Inl e)
  then show ?thesis
    using refused_changes_nothing [of "CreateUser un kn k" st] ok by (cases "createUserWithKey un kn k st") simp
next
  case (Inr r)
  have tab: "tablesOk st" and users: "usersOk st" using ok by (simp_all add: storeOk_tables)
  note old = usersOkD(1) [OF users]
  obtain i where i: "checkNewKey k = Inr i" "assertInsertable st None i = Inr ()"
    using Inr by (auto simp: createUserWithKey_def guarded_def split: sum.splits)
  let ?user = "\<lparr>userNo = nextUserId st, userCreatedAt = un, deletedAt = None\<rparr>"
  let ?st = "st\<lparr>users := jm_set (nextUserId st) ?user (users st), nextUserId := nextUserId st + 1\<rparr>"
  have has: "jm_has (users ?st) j \<longleftrightarrow> j = nextUserId st \<or> jm_has (users st) j" for j
    by (auto simp: jm_has_get)
  have ok1: "tablesOk ?st"
    using keysOk_mono [OF tablesOkD(3) [OF tab], of "nextKeyId st" "jm_has (users ?st)"] has tablesOkD [OF tab]
    by (simp add: tablesOk_def)
  have "tablesOk (fst (insertKey kn (nextUserId st) i ?st))"
  proof (rule insertKey_ok [OF ok1])
    show "jm_has (users ?st) (nextUserId st)" using has by simp
    show "email i \<noteq> None" if "provenAt i \<noteq> None" using that by (rule checkNewKey_Inr [OF i(1)])
    show "jm_get (owners ?st) e = None \<or> jm_get (owners ?st) e = Some (nextUserId st)" if "provenEmail i = Some e" for e
      using assertInsertable_Inr(1) [OF i(2) tablesOkD(1) [OF tab] that] by auto
    show "\<exists>e. provenEmail i = Some e \<and> userId l \<noteq> nextUserId st \<and> provenAt l = None \<and> email l = Some e"
      if "jm_get (authKeys ?st) j = Some l" "keyMethod l = keyMethod i" "subject l = subject i" for j l
    proof -
      have l: "jm_get (authKeys st) j = Some l" using that(1) by simp
      have "userId l < nextUserId st" using keysOkD(1) [OF tablesOkD(3) [OF tab] l] old by blast
      then show ?thesis using insertable_unique [OF tab i(2) l that(2,3)] by auto
    qed
  qed
  moreover have "fst (createUserWithKey un kn k st) = fst (insertKey kn (nextUserId st) i ?st)"
    using i by (simp add: createUserWithKey_def Let_def split: prod.splits)
  moreover have "usersOk (fst (insertKey kn (nextUserId st) i ?st))" using users by (fastforce simp: usersOk_def split: if_splits)
  ultimately show ?thesis unfolding storeOk_tables by simp
qed

lemma releaseIfUnproven_rest [simp]:
  "users (releaseIfUnproven uid e st) = users st" "nextUserId (releaseIfUnproven uid e st) = nextUserId st"
  "challenges (releaseIfUnproven uid e st) = challenges st"
  by (simp_all add: releaseIfUnproven_def)

lemma users_kept:
  "users (fst (addKey now uid k st)) = users st \<and> nextUserId (fst (addKey now uid k st)) = nextUserId st"
  "users (fst (proveKey kid d st)) = users st \<and> nextUserId (fst (proveKey kid d st)) = nextUserId st"
  "users (fst (updateKeySecret now kid s st)) = users st \<and> nextUserId (fst (updateKeySecret now kid s st)) = nextUserId st"
  "users (fst (deleteKey u' kid st)) = users st \<and> nextUserId (fst (deleteKey u' kid st)) = nextUserId st"
  "users (fst (releaseKeyEmail now u' kid st)) = users st \<and> nextUserId (fst (releaseKeyEmail now u' kid st)) = nextUserId st"
  by (simp_all add: addKey_def proveKey_def updateKeySecret_def deleteKey_def releaseKeyEmail_def guarded_def Let_def
        case_prod_unfold split: sum.split option.split)

lemma challenges_only:
  "\<exists>c. fst (issueChallenge v st) = st\<lparr>challenges := c\<rparr>" "\<exists>c. fst (attemptChallenge a st) = st\<lparr>challenges := c\<rparr>"
  "\<exists>c. fst (deleteChallenges p s st) = st\<lparr>challenges := c\<rparr>"
proof -
  have same: "\<exists>c. st = st\<lparr>challenges := c\<rparr>" by (rule exI [of _ "challenges st"]) simp
  show "\<exists>c. fst (issueChallenge v st) = st\<lparr>challenges := c\<rparr>"
    using same by (auto simp: issueChallenge_def guarded_def Let_def split: sum.split)
  show "\<exists>c. fst (attemptChallenge a st) = st\<lparr>challenges := c\<rparr>"
    using same by (auto simp: attemptChallenge_def guarded_def Let_def split: sum.split option.split)
  show "\<exists>c. fst (deleteChallenges p s st) = st\<lparr>challenges := c\<rparr>"
    using same by (auto simp: deleteChallenges_def guarded_def split: sum.split)
qed

lemma storeOk_challenges: "storeOk (st\<lparr>challenges := c\<rparr>) \<longleftrightarrow> storeOk st"
  by (simp add: storeOk_def)

lemma storeOk_step:
  assumes "storeOk st"
  shows "storeOk (fst (authStep op st))"
proof -
  have tab: "tablesOk st" and old: "usersOk st" using assms by (simp_all add: storeOk_tables)
  show ?thesis
  proof (cases op)
    case (CreateUser un kn k)
    then show ?thesis using createUser_ok [OF assms] by simp
  next
    case (IssueChallenge v)
    then show ?thesis using challenges_only(1) [of v st] assms storeOk_challenges by auto
  next
    case (AttemptChallenge v)
    then show ?thesis using challenges_only(2) [of v st] assms storeOk_challenges by auto
  next
    case (DeleteChallenges p s)
    then show ?thesis using challenges_only(3) [of p s st] assms storeOk_challenges by auto
  qed (use addKey_ok [OF tab] proveKey_ok [OF tab] updateKeySecret_ok [OF tab] deleteKey_ok [OF tab] releaseKeyEmail_ok [OF tab]
      users_kept old in \<open>simp_all add: storeOk_tables usersOk_def\<close>)
qed

lemma storeOk_run: "storeOk st \<Longrightarrow> storeOk (authRun ops st)"
  by (induction ops arbitrary: st) (simp_all add: storeOk_step)

lemma newAuthStore_ok: "storeOk newAuthStore"
  by (simp add: storeOk_def newAuthStore_def)

text \<open>
  C25: After any sequence of calls, refused ones included, the tables are consistent: every key is under its
  own id and belongs to a user that exists, no two keys share (method, subject), a proven key's address
  is owned by its user, and an owned address has a proven key of its owner, so one person owns it. And a
  call that throws has changed nothing.
\<close>
theorem auth_store_consistent:
  "storeOk (authRun ops newAuthStore) \<and>
   (case authStep op (authRun ops newAuthStore) of (st, r) \<Rightarrow>
      case r of Inl e \<Rightarrow> st = authRun ops newAuthStore | Inr x \<Rightarrow> True)"
proof (cases "authStep op (authRun ops newAuthStore)")
  case (Pair st r)
  then show ?thesis
    using storeOk_run [OF newAuthStore_ok, of ops] refused_changes_nothing [of op "authRun ops newAuthStore" st]
    by (cases r) auto
qed

section \<open>A proven address stays with its owner\<close>

text \<open>The calls by which user \<open>uid\<close> gives up addresses of its own keys.\<close>

definition givesUp :: "int \<Rightarrow> authOp \<Rightarrow> bool" where
  "givesUp uid op = (case op of DeleteKey v kid \<Rightarrow> v = js_int uid | ReleaseEmail now v kid \<Rightarrow> v = js_int uid | _ \<Rightarrow> False)"

lemma release_owner: "jm_get (owners st) e = Some uid \<Longrightarrow> v \<noteq> uid \<Longrightarrow> jm_get (owners (releaseIfUnproven v f st)) e = Some uid"
  by (auto simp: releaseIfUnproven_def)

lemma insert_owner:
  assumes "jm_get (owners st) e = Some uid" "provenEmail k = Some e \<Longrightarrow> v = uid"
  shows "jm_get (owners (fst (insertKey now v k st))) e = Some uid"
  using assms by (auto simp: insertKey_def Let_def claimAddress_def split: option.split)

lemma owner_step:
  assumes "storeOk st" "jm_get (owners st) e = Some uid" "\<not> givesUp uid op"
  shows "jm_get (owners (fst (authStep op st))) e = Some uid"
proof -
  have A: "jm_ok (authKeys st)" using assms(1) by (simp add: storeOk_def)
  show ?thesis
  proof (cases "snd (authStep op st)")
    case (Inl err)
    then have "fst (authStep op st) = st" using refused_changes_nothing [of op st] by (cases "authStep op st") simp
    then show ?thesis using assms(2) by simp
  next
    case (Inr res)
    show ?thesis
    proof (cases op)
      case (CreateUser un kn k)
      then obtain i where i: "checkNewKey k = Inr i" "assertInsertable st None i = Inr ()"
        using Inr by (auto simp: plainly_def createUserWithKey_def guarded_def split: sum.splits)
      have "provenEmail i \<noteq> Some e" using assertInsertable_Inr(1) [OF i(2) A, of e] assms(2) by auto
      then show ?thesis using i assms(2) CreateUser
        by (simp add: createUserWithKey_def Let_def case_prod_unfold) (rule insert_owner, simp_all)
    next
      case (AddKey now v k)
      then obtain i where i: "checkNewKey k = Inr i" "assertInsertable st (Some (js_floor v)) i = Inr ()"
          "isStoreId v" "jm_has (users st) (js_floor v)"
        using Inr by (auto simp: plainly_def addKey_def guarded_def split: sum.splits if_splits)
      have "js_floor v = uid" if "provenEmail i = Some e" using assertInsertable_Inr(1) [OF i(2) A that] assms(2) by auto
      then show ?thesis using i assms(2) AddKey insert_owner by (simp add: addKey_def Let_def case_prod_unfold)
    next
      case (ProveKey kid now)
      then show ?thesis using Inr assms(2)
        by (auto simp: plainly_def proveKey_def guarded_def Let_def claimAddress_def assertOwnable_Inr split: sum.splits option.splits)
    next
      case (UpdateSecret now kid s)
      then show ?thesis using assms(2) by (auto simp: updateKeySecret_def guarded_def split: sum.split option.split)
    next
      case (DeleteKey v kid)
      then show ?thesis using assms(2,3) release_owner
        by (auto simp: deleteKey_def Let_def givesUp_def split: option.split)
    next
      case (ReleaseEmail now v kid)
      then show ?thesis using assms(2,3) release_owner
        by (auto simp: releaseKeyEmail_def Let_def givesUp_def split: option.split)
    next
      case (IssueChallenge v)
      then show ?thesis using challenges_only(1) [of v st] assms(2) by auto
    next
      case (AttemptChallenge v)
      then show ?thesis using challenges_only(2) [of v st] assms(2) by auto
    next
      case (DeleteChallenges p s)
      then show ?thesis using challenges_only(3) [of p s st] assms(2) by auto
    qed
  qed
qed

text \<open>
  C26: The owner of a proven address keeps it: through any sequence of calls, by anyone, in which the owner
  does not delete or clear one of its own keys, the address stays with that user, and no key of another
  user is ever proven for it.
\<close>
theorem proven_owner_stays:
  assumes "storeOk st" "findUserIdByProvenEmail st e = Some uid" "list_all (\<lambda>op. \<not> givesUp uid op) ops"
  shows "findUserIdByProvenEmail (authRun ops st) e = Some uid \<and>
    list_all (\<lambda>(i, k). provenAt k = None \<or> email k \<noteq> Some e \<or> userId k = uid) (authKeys (authRun ops st))"
proof -
  have run: "findUserIdByProvenEmail (authRun ops st) e = Some uid"
    using assms
  proof (induction ops arbitrary: st)
    case (Cons op ops)
    then have "jm_get (owners (fst (authStep op st))) e = Some uid"
      by (intro owner_step) (simp_all add: findUserIdByProvenEmail_def)
    then show ?case using Cons storeOk_step [of st op] by (simp add: findUserIdByProvenEmail_def)
  qed simp
  have ok: "storeOk (authRun ops st)" by (rule storeOk_run [OF assms(1)])
  then have "list_all (\<lambda>(i, k). provenAt k = None \<or> email k \<noteq> Some e \<or> userId k = uid) (authKeys (authRun ops st))"
    using run by (auto simp: storeOk_def list_all_iff findUserIdByProvenEmail_def)
  then show ?thesis using run by blast
qed

section \<open>Guesses are bounded\<close>

definition guessAt :: "units \<Rightarrow> authOp \<Rightarrow> bool" where
  "guessAt cid op = (case op of AttemptChallenge v \<Rightarrow> challengeId (guessPurpose v) (guessFor v) = cid | _ \<Rightarrow> False)"

text \<open>A new challenge that does not replace a live one.\<close>

definition freshIssue :: "units \<Rightarrow> authOp \<Rightarrow> MemoryAuthStore \<Rightarrow> bool" where
  "freshIssue cid op st =
     (case op of
        IssueChallenge v \<Rightarrow> challengeId (purpose v) (challengeFor v) = cid \<and> isl (checkIssueChallenge v) = False \<and>
          (case (jm_get (challenges st) cid, issuedNow v) of
             (Some row, Some now) \<Rightarrow> rowExpiresAt row \<le> now
           | _ \<Rightarrow> True)
      | _ \<Rightarrow> False)"

text \<open>Over a run: the guesses compared with the stored secret, those that matched, and the fresh challenges.\<close>

fun tally :: "units \<Rightarrow> authOp list \<Rightarrow> MemoryAuthStore \<Rightarrow> nat \<times> nat \<times> nat" where
  "tally cid [] st = (0, 0, 0)"
| "tally cid (op # ops) st =
     (let (st1, r) = authStep op st; (compared, matched, fresh) = tally cid ops st1;
          hit = guessAt cid op \<and> r = Inr (Some Matched); miss = guessAt cid op \<and> r = Inr (Some WrongGuess) in
      (compared + of_bool (hit \<or> miss), matched + of_bool hit, fresh + of_bool (freshIssue cid op st)))"

definition guessWithin :: "units \<Rightarrow> int \<Rightarrow> authOp \<Rightarrow> bool" where
  "guessWithin cid most op = (case op of
     AttemptChallenge v \<Rightarrow> challengeId (guessPurpose v) (guessFor v) = cid \<longrightarrow> js_floor (maxAttempts v) \<le> most
   | _ \<Rightarrow> True)"

text \<open>The guesses the stored challenge still allows, and whether there is one.\<close>

definition guessesLeft :: "units \<Rightarrow> int \<Rightarrow> MemoryAuthStore \<Rightarrow> int" where
  "guessesLeft cid most st = (case jm_get (challenges st) cid of None \<Rightarrow> 0 | Some row \<Rightarrow> max 0 (most - attempts row))"

definition held :: "units \<Rightarrow> MemoryAuthStore \<Rightarrow> nat" where
  "held cid st = of_bool (jm_get (challenges st) cid \<noteq> None)"

lemma get_filter_keys: "jm_get (filter (\<lambda>c. P (fst c)) m) k = (if P k then jm_get m k else None)"
  by (induction m) auto

lemma challenges_untouched:
  assumes "case op of IssueChallenge v \<Rightarrow> False | AttemptChallenge v \<Rightarrow> False | DeleteChallenges p s \<Rightarrow> False | _ \<Rightarrow> True"
  shows "challenges (fst (authStep op st)) = challenges st"
proof (cases op)
  case (CreateUser un kn k)
  then show ?thesis by (simp add: createUserWithKey_def guarded_def Let_def case_prod_unfold split: sum.split)
next
  case (AddKey now uid k)
  then show ?thesis by (simp add: addKey_def guarded_def Let_def case_prod_unfold split: sum.split)
next
  case (ProveKey kid now)
  then show ?thesis by (simp add: proveKey_def guarded_def Let_def split: sum.split option.split)
next
  case (UpdateSecret now kid s)
  then show ?thesis by (simp add: updateKeySecret_def guarded_def split: sum.split option.split)
next
  case (DeleteKey uid kid)
  then show ?thesis by (simp add: deleteKey_def Let_def split: option.split)
next
  case (ReleaseEmail now uid kid)
  then show ?thesis by (simp add: releaseKeyEmail_def Let_def split: option.split)
qed (use assms in simp_all)

text \<open>One step against the guesses left; a fresh challenge brings \<open>most\<close> of them.\<close>

lemma tally_step:
  assumes "jm_ok (challenges st)" "0 \<le> most" "guessWithin cid most op" "authStep op st = (st1, r)"
  shows "jm_ok (challenges st1) \<and>
    of_bool (guessAt cid op \<and> (r = Inr (Some Matched) \<or> r = Inr (Some WrongGuess))) + guessesLeft cid most st1
      \<le> guessesLeft cid most st + most * of_bool (freshIssue cid op st) \<and>
    of_bool (guessAt cid op \<and> r = Inr (Some Matched)) + held cid st1 \<le> held cid st + of_bool (freshIssue cid op st)"
proof -
  have quiet: "jm_ok (challenges st1) \<and> guessesLeft cid most st1 \<le> guessesLeft cid most st \<and> held cid st1 \<le> held cid st"
    if "case op of IssueChallenge v \<Rightarrow> False | AttemptChallenge v \<Rightarrow> False | DeleteChallenges p s \<Rightarrow> False | _ \<Rightarrow> True"
    using challenges_untouched [OF that, of st] assms(1,4) by (simp add: guessesLeft_def held_def)
  show ?thesis
proof (cases op)
  case (IssueChallenge v)
  then have g: "\<not> guessAt cid op" by (simp add: guessAt_def)
  show ?thesis
  proof (cases "checkIssueChallenge v")
    case (Inl e)
    then have "st1 = st" using assms(4) IssueChallenge by (auto simp: issueChallenge_def plainly_def)
    then show ?thesis using g assms(1,2) by simp
  next
    case (Inr d)
    obtain expires now where d: "d = (expires, now)" by (cases d)
    have now: "issuedNow v = Some now" using Inr d by (auto simp: checkIssueChallenge_def split: option.splits if_splits)
    let ?kept = "jm_drop (\<lambda>row. rowExpiresAt row \<le> now) (challenges st)"
    have st1: "st1 = fst (issueChallenge v st)" using assms(4) IssueChallenge by (simp add: plainly_def)
    have get: "jm_get ?kept c = (case jm_get (challenges st) c of None \<Rightarrow> None
        | Some row \<Rightarrow> if rowExpiresAt row \<le> now then None else Some row)" for c
      by (rule jm_get_drop [OF assms(1)])
    have ok: "jm_ok (challenges st1)"
      using assms(1) unfolding st1 by (simp add: issueChallenge_def Inr d Let_def)
    show ?thesis
    proof (cases "challengeId (purpose v) (challengeFor v) = cid")
      case True
      have row: "\<exists>row. jm_get (challenges st1) cid = Some row \<and> attempts row =
          (case jm_get ?kept cid of None \<Rightarrow> 0 | Some previous \<Rightarrow> if rowExpiresAt previous > now then attempts previous else 0)"
        unfolding st1 by (simp add: issueChallenge_def Inr d Let_def True)
      have fresh: "freshIssue cid op st \<longleftrightarrow> jm_get ?kept cid = None"
        using IssueChallenge True Inr now by (auto simp: freshIssue_def get split: option.split)
      show ?thesis
      proof (cases "jm_get ?kept cid")
        case None
        then show ?thesis using row fresh g ok assms(2)
          by (auto simp: guessesLeft_def held_def split: option.splits)
      next
        case (Some previous)
        then have "jm_get (challenges st) cid = Some previous" "\<not> rowExpiresAt previous \<le> now"
          by (auto simp: get split: option.splits if_splits)
        then show ?thesis using row fresh g ok Some by (auto simp: guessesLeft_def held_def)
      qed
    next
      case False
      then have "jm_get (challenges st1) cid = jm_get ?kept cid"
        unfolding st1 by (auto simp: issueChallenge_def Inr d Let_def)
      moreover have "\<not> freshIssue cid op st" using False IssueChallenge by (simp add: freshIssue_def)
      ultimately show ?thesis using g ok by (auto simp: guessesLeft_def held_def get split: option.split)
    qed
  qed
next
  case (AttemptChallenge v)
  then have f: "\<not> freshIssue cid op st" by (simp add: freshIssue_def)
  show ?thesis
  proof (cases "checkAttemptChallenge v")
    case (Inl e)
    then have "st1 = st" "r = Inl e" using assms(4) AttemptChallenge by (auto simp: attemptChallenge_def plainly_def)
    then show ?thesis using f assms(1) by simp
  next
    case (Inr d)
    obtain m now where d: "d = (m, now)" by (cases d)
    have m: "m = js_floor (maxAttempts v)" using Inr d by (auto simp: checkAttemptChallenge_def split: option.splits if_splits)
    let ?c = "challengeId (guessPurpose v) (guessFor v)"
    have at: "plainly Some (attemptChallenge v st) = (st1, r)" using assms(4) AttemptChallenge by simp
    have cid: "guessAt cid op \<longleftrightarrow> ?c = cid" using AttemptChallenge by (simp add: guessAt_def)
    have lim: "m \<le> most" if "?c = cid" using assms(3) that m AttemptChallenge by (simp add: guessWithin_def)
    show ?thesis
      using at f assms(1) lim
      by (auto simp: attemptChallenge_def Inr d Let_def cid guessesLeft_def held_def split: option.splits if_splits)
  qed
next
  case (DeleteChallenges p s)
  then have "\<not> guessAt cid op" "\<not> freshIssue cid op st" by (simp_all add: guessAt_def freshIssue_def)
  moreover have "st1 = fst (deleteChallenges p s st)" using assms(4) DeleteChallenges by (simp add: plainly_def)
  moreover have "jm_ok (filter (\<lambda>c. \<not> prefix (challengeId p s) (fst c)) (challenges st))"
    using assms(1) by (rule distinct_map_filter)
  ultimately show ?thesis using assms(1)
    by (auto simp: deleteChallenges_def guarded_def guessesLeft_def held_def
        get_filter_keys [where P = "\<lambda>c. \<not> prefix (challengeId p s) c"] split: sum.split option.split)
next
  case (CreateUser un kn k)
  then show ?thesis using quiet by (simp add: guessAt_def freshIssue_def)
next
  case (AddKey now uid k)
  then show ?thesis using quiet by (simp add: guessAt_def freshIssue_def)
next
  case (ProveKey kid now)
  then show ?thesis using quiet by (simp add: guessAt_def freshIssue_def)
next
  case (UpdateSecret now kid s)
  then show ?thesis using quiet by (simp add: guessAt_def freshIssue_def)
next
  case (DeleteKey uid kid)
  then show ?thesis using quiet by (simp add: guessAt_def freshIssue_def)
next
  case (ReleaseEmail now uid kid)
  then show ?thesis using quiet by (simp add: guessAt_def freshIssue_def)
qed
qed

text \<open>
  C27: The guesses of one (purpose, subject) are bounded. Over any sequence of calls in which its guesses allow
  at most \<open>most\<close> attempts, the guesses ever compared with a secret are at most \<open>most\<close> per challenge that was
  not there before: asking for a new code while one lives brings no new guesses, whatever the order of the
  calls and of the clock. And each such challenge is matched at most once.
\<close>
theorem challenge_guesses_bounded:
  assumes "0 \<le> most" "list_all (guessWithin cid most) ops" "tally cid ops newAuthStore = (compared, matched, fresh)"
  shows "int compared \<le> most * int fresh \<and> matched \<le> fresh"
proof -
  have "int c \<le> most * int f + guessesLeft cid most st \<and> m \<le> f + held cid st"
    if "list_all (guessWithin cid most) ops" "jm_ok (challenges st)" "tally cid ops st = (c, m, f)" for st c m f
    using that
  proof (induction ops arbitrary: st c m f)
    case (Cons op ops)
    obtain st1 r where step: "authStep op st = (st1, r)" by (cases "authStep op st")
    obtain c1 m1 f1 where t: "tally cid ops st1 = (c1, m1, f1)" by (cases "tally cid ops st1")
    note one = tally_step [OF Cons.prems(2) assms(1) _ step, of cid]
    have ih: "int c1 \<le> most * int f1 + guessesLeft cid most st1 \<and> m1 \<le> f1 + held cid st1"
      using Cons.IH [of st1 c1 m1 f1] Cons.prems(1) one t by simp
    have eq: "c = c1 + of_bool (guessAt cid op \<and> (r = Inr (Some Matched) \<or> r = Inr (Some WrongGuess)))"
        "m = m1 + of_bool (guessAt cid op \<and> r = Inr (Some Matched))" "f = f1 + of_bool (freshIssue cid op st)"
      using Cons.prems(3) step t by (auto simp: Let_def)
    show ?case using ih one Cons.prems(1) unfolding eq by (auto simp: algebra_simps)
  qed (auto simp: guessesLeft_def split: option.split)
  from this [OF assms(2) _ assms(3)] show ?thesis by (simp add: newAuthStore_def guessesLeft_def held_def)
qed

section \<open>Concrete calls\<close>

definition sampleKey :: "jsdate NewAuthKey" where
  "sampleKey = \<lparr>keyMethod = u ''p'', subject = u ''j@x.co'', email = Some (u ''j@x.co''), secret = None, provenAt = Some (Some 5)\<rparr>"

lemma sample_text: "storeText MAX_METHOD_LENGTH (u ''p'')" "storeText MAX_SUBJECT_LENGTH (u ''j@x.co'')"
    "storeText MAX_SECRET_LENGTH (u ''h'')" "storeText MAX_SECRET_LENGTH (u ''g'')"
  by (simp_all add: storeText_def isStoreText_def isWellFormed_def MAX_METHOD_LENGTH_def MAX_SUBJECT_LENGTH_def
      MAX_SECRET_LENGTH_def code_def)

lemma sample_checked: "checkNewKey sampleKey =
    Inr \<lparr>keyMethod = u ''p'', subject = u ''j@x.co'', email = Some (u ''j@x.co''), secret = None, provenAt = Some 5\<rparr>"
proof -
  have "normalizeEmail (StrV (u ''j@x.co'')) = Some (u ''j@x.co'')"
    unfolding normalizeEmail_def by (simp add: parseBareAddress_def trimUnits_def isSpace_def isAddress_def dotAtom_def
      dottedDomain_def domainLabel_def isAtomChar_def isAlnumU_def MAX_ADDR_SPEC_LENGTH_def MAX_LOCAL_PART_LENGTH_def lowerU_def code_def)
  then show ?thesis using sample_text by (simp add: checkNewKey_def validNewKey_def sampleKey_def del: u_Cons)
qed

lemma sample_owner: "findUserIdByProvenEmail (authRun [CreateUser 0 0 sampleKey] newAuthStore) (u ''j@x.co'') = Some 1"
  by (simp add: createUserWithKey_def sample_checked assertInsertable_def provenEmail_def assertOwnable_def newAuthStore_def
      findKeyIn_def insertKey_def claimAddress_def findUserIdByProvenEmail_def Let_def del: u_Cons)

theorem proven_owner_stays_witness:
  "findUserIdByProvenEmail (authRun [AddKey 0 (js_int 2) sampleKey, DeleteKey (js_int 2) (js_int 1)]
     (authRun [CreateUser 0 0 sampleKey] newAuthStore)) (u ''j@x.co'') = Some 1"
  using proven_owner_stays [OF storeOk_run [OF newAuthStore_ok] sample_owner,
      of "[AddKey 0 (js_int 2) sampleKey, DeleteKey (js_int 2) (js_int 1)]"]
  by (simp add: givesUp_def del: authRun_simps)

definition sampleIssue :: IssueChallengeInput where
  "sampleIssue = \<lparr>purpose = u ''p'', challengeFor = u ''j@x.co'', secretHash = u ''h'', expiresAt = Some 900, issuedNow = Some 100\<rparr>"

definition sampleGuess :: "units \<Rightarrow> AttemptChallengeInput" where
  "sampleGuess g = \<lparr>guessPurpose = u ''p'', guessFor = u ''j@x.co'', guessHash = g, maxAttempts = js_int 3, guessNow = Some 200\<rparr>"

definition sampleOps :: "authOp list" where
  "sampleOps = [IssueChallenge sampleIssue, AttemptChallenge (sampleGuess (u ''g'')), IssueChallenge sampleIssue,
     AttemptChallenge (sampleGuess (u ''h''))]"

lemma sample_issue_check: "checkIssueChallenge sampleIssue = Inr (900, 100)"
  using sample_text by (simp add: checkIssueChallenge_def sampleIssue_def del: u_Cons)

lemma sample_guess_check:
  "checkAttemptChallenge (sampleGuess (u ''g'')) = Inr (3, 200)" "checkAttemptChallenge (sampleGuess (u ''h'')) = Inr (3, 200)"
  using sample_text by (simp_all add: checkAttemptChallenge_def sampleGuess_def MAX_ID_def del: u_Cons)

lemma sample_fields:
  "purpose sampleIssue = u ''p''" "challengeFor sampleIssue = u ''j@x.co''" "secretHash sampleIssue = u ''h''"
  "issuedNow sampleIssue = Some 100"
  "guessPurpose (sampleGuess g) = u ''p''" "guessFor (sampleGuess g) = u ''j@x.co''" "guessHash (sampleGuess g) = g"
  by (simp_all add: sampleIssue_def sampleGuess_def del: u_Cons)

definition sampleId :: units where "sampleId = challengeId (u ''p'') (u ''j@x.co'')"

definition sampleStore :: "int option \<Rightarrow> MemoryAuthStore" where
  "sampleStore n = newAuthStore\<lparr>challenges :=
     (case n of None \<Rightarrow> [] | Some a \<Rightarrow> [(sampleId, \<lparr>rowHash = u ''h'', attempts = a, rowExpiresAt = 900\<rparr>)])\<rparr>"

lemma sample_issues:
  "authStep (IssueChallenge sampleIssue) (sampleStore None) = (sampleStore (Some 0), Inr None)"
  "authStep (IssueChallenge sampleIssue) (sampleStore (Some a)) = (sampleStore (Some a), Inr None)"
  by (simp_all add: issueChallenge_def sample_issue_check sample_fields sampleId_def [symmetric] sampleStore_def jm_drop_def
      jm_set_def del: u_Cons)

lemma sample_guesses:
  "authStep (AttemptChallenge (sampleGuess (u ''g''))) (sampleStore (Some 0)) = (sampleStore (Some 1), Inr (Some WrongGuess))"
  "authStep (AttemptChallenge (sampleGuess (u ''h''))) (sampleStore (Some 1)) = (sampleStore None, Inr (Some Matched))"
proof -
  have "u ''h'' \<noteq> u ''g''" by (simp add: code_def)
  then show "authStep (AttemptChallenge (sampleGuess (u ''g''))) (sampleStore (Some 0)) = (sampleStore (Some 1), Inr (Some WrongGuess))"
    by (simp add: attemptChallenge_def sample_guess_check sample_fields sampleId_def [symmetric] sampleStore_def jm_set_def
        del: u_Cons)
  show "authStep (AttemptChallenge (sampleGuess (u ''h''))) (sampleStore (Some 1)) = (sampleStore None, Inr (Some Matched))"
    by (simp add: attemptChallenge_def sample_guess_check sample_fields sampleId_def [symmetric] sampleStore_def jm_delete_def
        del: u_Cons)
qed

lemma sample_tally: "tally sampleId sampleOps newAuthStore = (2, 1, 1)"
proof -
  have new: "newAuthStore = sampleStore None" by (simp add: sampleStore_def newAuthStore_def)
  have fresh: "freshIssue sampleId (IssueChallenge sampleIssue) (sampleStore None)"
      "\<not> freshIssue sampleId (IssueChallenge sampleIssue) (sampleStore (Some 1))"
    by (simp_all add: freshIssue_def sample_fields sample_issue_check sampleId_def [symmetric] sampleStore_def newAuthStore_def del: u_Cons)
  have guess: "guessAt sampleId (AttemptChallenge (sampleGuess g))" for g by (simp add: guessAt_def sample_fields sampleId_def del: u_Cons)
  have other: "\<not> guessAt c (IssueChallenge v)" "\<not> freshIssue c (AttemptChallenge w) st" for c v w st
    by (simp_all add: guessAt_def freshIssue_def)
  show ?thesis unfolding sampleOps_def new tally.simps sample_issues sample_guesses
    by (simp add: fresh guess other sample_issues sample_guesses del: u_Cons authStep.simps)
qed

theorem challenge_guesses_bounded_witness:
  "tally sampleId sampleOps newAuthStore = (2, 1, 1) \<and> int 2 \<le> 3 * int 1 \<and> (1 :: nat) \<le> 1"
proof -
  have "list_all (guessWithin sampleId 3) sampleOps" by (simp add: guessWithin_def sampleOps_def sampleGuess_def del: u_Cons)
  from challenge_guesses_bounded [OF _ this sample_tally] show ?thesis using sample_tally by simp
qed

end
