(* ===== verification/EmailCode.thy ===== *)
theory EmailCode
  imports AuthStoreProofs
begin

text \<open>
  Sign-in with a code sent by email (\<open>server/auth/email-code.ts\<close>) over any sign-in store. The store is a
  record of operations, as the code is handed an \<open>AuthStore\<close>; its contract is locale \<open>auth_store\<close>. SHA-256,
  the random bytes, the clock reading, the mail, the second factor and the session manager are arguments.
  A sign-in ends in the account that owns the address, the store's accounts change only on the right
  code, and the right code does sign in.
\<close>

section \<open>The store as the provider sees it\<close>

record 's AuthStoreOps =
  opFindUser :: "'s \<Rightarrow> jsnum \<Rightarrow> AuthUser option"
  opCreateUserWithKey :: "'s \<Rightarrow> jsdate NewAuthKey \<Rightarrow> 's \<times> (auth_error + AuthUser \<times> AuthKey)"
  opAddKey :: "'s \<Rightarrow> jsnum \<Rightarrow> jsdate NewAuthKey \<Rightarrow> 's \<times> (auth_error + AuthKey)"
  opFindKey :: "'s \<Rightarrow> units \<Rightarrow> units \<Rightarrow> AuthKey option"
  opListKeys :: "'s \<Rightarrow> jsnum \<Rightarrow> AuthKey list"
  opOwner :: "'s \<Rightarrow> units \<Rightarrow> int option"
  opProveKey :: "'s \<Rightarrow> jsnum \<Rightarrow> jsdate \<Rightarrow> 's \<times> (auth_error + AuthKey)"
  opIssue :: "'s \<Rightarrow> IssueChallengeInput \<Rightarrow> 's \<times> (auth_error + unit)"
  opAttempt :: "'s \<Rightarrow> AttemptChallengeInput \<Rightarrow> 's \<times> (auth_error + ChallengeOutcome)"

text \<open>The in-memory store, with the clock readings of its writes.\<close>

definition memAuthOps :: "int \<Rightarrow> int \<Rightarrow> MemoryAuthStore AuthStoreOps" where
  "memAuthOps userNow keyNow = \<lparr>
     opFindUser = findUser,
     opCreateUserWithKey = (\<lambda>s k. createUserWithKey userNow keyNow k s),
     opAddKey = (\<lambda>s uid k. addKey keyNow uid k s),
     opFindKey = findKey,
     opListKeys = listKeys,
     opOwner = findUserIdByProvenEmail,
     opProveKey = (\<lambda>s kid now. proveKey kid now s),
     opIssue = (\<lambda>s v. issueChallenge v s),
     opAttempt = (\<lambda>s v. attemptChallenge v s)\<rparr>"

section \<open>Constants, errors and configuration\<close>

definition EMAIL_CODE_METHOD :: units where "EMAIL_CODE_METHOD = u ''email-code''"
definition EMAIL_CODE_PURPOSE :: units where "EMAIL_CODE_PURPOSE = u ''email-code''"
definition EMAIL_PROOF_PURPOSE :: units where "EMAIL_PROOF_PURPOSE = u ''email-proof''"
definition DEFAULT_CODE_TTL_MINUTES :: int where "DEFAULT_CODE_TTL_MINUTES = 10"
definition DEFAULT_CODE_MAX_ATTEMPTS :: int where "DEFAULT_CODE_MAX_ATTEMPTS = 5"

datatype EmailCodeErrorReason = InvalidEmail | WrongCode | CodeLockedOut | NoCode | AccountDeleted

fun ERROR_MESSAGES :: "EmailCodeErrorReason \<Rightarrow> string" where
  "ERROR_MESSAGES InvalidEmail = ''the email address is not valid''"
| "ERROR_MESSAGES WrongCode = ''the code is not correct''"
| "ERROR_MESSAGES CodeLockedOut = ''too many wrong codes; ask for a new code later''"
| "ERROR_MESSAGES NoCode = ''no valid code for this address; ask for a new one''"
| "ERROR_MESSAGES AccountDeleted = ''this account is deleted''"

datatype email_error = CodeError EmailCodeErrorReason | StoreError auth_error | AppError string

text \<open>An integer from 1 to a limit, else an error of the class the caller names.\<close>

definition positiveInteger :: "jsnum \<Rightarrow> int \<Rightarrow> (string \<Rightarrow> js_error) \<Rightarrow> js_error + int" where
  "positiveInteger v most errorType =
     (if \<not> js_isSafeInteger v \<or> js_floor v < 1 \<or> js_floor v > most
      then Inl (errorType (if most = MAX_SAFE_INTEGER then ''must be a positive integer'' else ''must be an integer from 1 to the limit''))
      else Inr (js_floor v))"

record EmailCodeConfig =
  ttlMinutes :: int
  codeMaxAttempts :: int

definition emailCodeConfig :: "jsnum option \<Rightarrow> jsnum option \<Rightarrow> js_error + EmailCodeConfig" where
  "emailCodeConfig ttl most =
     andThen (positiveInteger (orElse ttl (js_int DEFAULT_CODE_TTL_MINUTES)) MAX_SAFE_INTEGER RangeErr) (\<lambda>t.
     andThen (positiveInteger (orElse most (js_int DEFAULT_CODE_MAX_ATTEMPTS)) MAX_SAFE_INTEGER RangeErr) (\<lambda>m.
       Inr \<lparr>ttlMinutes = t, codeMaxAttempts = m\<rparr>))"

text \<open>The date \<open>minutes\<close> after a date.\<close>

definition minutesAfter :: "jsdate \<Rightarrow> int \<Rightarrow> jsdate" where
  "minutesAfter d minutes = (case d of None \<Rightarrow> None | Some t \<Rightarrow> newDate (t + minutes * 60000))"

section \<open>Hashes and steps\<close>

definition hashCode :: "(units \<Rightarrow> units) \<Rightarrow> units \<Rightarrow> units \<Rightarrow> units" where
  "hashCode sha addr c = sha (EMAIL_CODE_PURPOSE @ 10 # addr @ 10 # c)"

definition boundSubject :: "(units \<Rightarrow> units) \<Rightarrow> units \<Rightarrow> units \<Rightarrow> units" where
  "boundSubject sha addr binding = sha (EMAIL_CODE_PURPOSE @ 10 # u ''binding'' @ 10 # addr @ 10 # binding)"

definition proofSubject :: "(units \<Rightarrow> units) \<Rightarrow> int \<Rightarrow> units \<Rightarrow> units" where
  "proofSubject sha uid addr = u (show_int uid) @ 58 # sha addr"

definition hashProof :: "(units \<Rightarrow> units) \<Rightarrow> int \<Rightarrow> units \<Rightarrow> units \<Rightarrow> units" where
  "hashProof sha uid addr c = sha (EMAIL_PROOF_PURPOSE @ 10 # u (show_int uid) @ 10 # addr @ 10 # c)"

definition requireEmail :: "jsval \<Rightarrow> email_error + units" where
  "requireEmail v = (case normalizeEmail v of None \<Rightarrow> Inl (CodeError InvalidEmail) | Some a \<Rightarrow> Inr a)"

definition refusalOf :: "ChallengeOutcome \<Rightarrow> EmailCodeErrorReason" where
  "refusalOf outcome = (if outcome = WrongGuess then WrongCode else if outcome = LockedOut then CodeLockedOut else NoCode)"

text \<open>An awaited step: its error ends the call, its result and the new state go on.\<close>

definition awaited :: "'s \<times> ('e + 'a) \<Rightarrow> ('e \<Rightarrow> email_error) \<Rightarrow> ('s \<Rightarrow> 'a \<Rightarrow> 's \<times> (email_error + 'b)) \<Rightarrow> 's \<times> (email_error + 'b)" where
  "awaited r err f = (case r of (s, Inl e) \<Rightarrow> (s, Inl (err e)) | (s, Inr x) \<Rightarrow> f s x)"

definition emailKey :: "units \<Rightarrow> jsdate \<Rightarrow> jsdate NewAuthKey" where
  "emailKey addr now = \<lparr>keyMethod = EMAIL_CODE_METHOD, subject = addr, email = Some addr, secret = None, provenAt = Some now\<rparr>"

text \<open>The user and key a matched code signs in.\<close>

definition signInKey :: "'s AuthStoreOps \<Rightarrow> units \<Rightarrow> jsdate \<Rightarrow> 's \<Rightarrow> 's \<times> (email_error + AuthUser \<times> AuthKey)" where
  "signInKey ops addr now s =
     (let existing = opFindKey ops s EMAIL_CODE_METHOD addr in
      case opOwner ops s addr of
        None \<Rightarrow> awaited (opCreateUserWithKey ops s (emailKey addr now)) StoreError (\<lambda>s r. (s, Inr r))
      | Some owner \<Rightarrow>
          (case opFindUser ops s (js_int owner) of
             None \<Rightarrow> (s, Inl (AppError ''the owner of a proven address is missing''))
           | Some usr \<Rightarrow>
               if deletedAt usr \<noteq> None then (s, Inl (CodeError AccountDeleted))
               else awaited
                 (case existing of
                    Some key \<Rightarrow> if userId key = owner then opProveKey ops s (js_int (keyId key)) now
                               else opAddKey ops s (js_int owner) (emailKey addr now)
                  | None \<Rightarrow> opAddKey ops s (js_int owner) (emailKey addr now)) StoreError
                 (\<lambda>s key. (s, Inr (usr, key)))))"

fun proveAll :: "'s AuthStoreOps \<Rightarrow> jsdate \<Rightarrow> AuthKey list \<Rightarrow> 's \<Rightarrow> 's \<times> (email_error + AuthKey list)" where
  "proveAll ops now [] s = (s, Inr [])"
| "proveAll ops now (k # ks) s =
     awaited (if provenAt k = None then opProveKey ops s (js_int (keyId k)) now else (s, Inr k)) StoreError (\<lambda>s key.
       awaited (proveAll ops now ks s) id (\<lambda>s keys. (s, Inr (key # keys))))"

definition proveFor :: "'s AuthStoreOps \<Rightarrow> int \<Rightarrow> units \<Rightarrow> jsdate \<Rightarrow> 's \<Rightarrow> 's \<times> (email_error + AuthKey list)" where
  "proveFor ops uid addr now s =
     (let owner = opOwner ops s addr in
      if owner \<noteq> None \<and> owner \<noteq> Some uid then (s, Inl (StoreError (AuthConflict EmailOwned)))
      else let carrying = filter (\<lambda>k. email k = Some addr) (opListKeys ops s (js_int uid)) in
        if carrying = []
        then awaited (opAddKey ops s (js_int uid) (emailKey addr now)) StoreError (\<lambda>s key. (s, Inr [key]))
        else proveAll ops now carrying s)"

section \<open>The provider\<close>

text \<open>\<open>issue\<close>: the challenge, then the mail; \<open>send\<close> may reject after the code is issued.\<close>

definition issueCode ::
  "'s AuthStoreOps \<Rightarrow> EmailCodeConfig \<Rightarrow> (units \<Rightarrow> units) \<Rightarrow> (units \<Rightarrow> units \<Rightarrow> email_error + unit) \<Rightarrow>
   units \<Rightarrow> units \<Rightarrow> units \<Rightarrow> int \<Rightarrow> 's \<Rightarrow> 's \<times> (email_error + unit)" where
  "issueCode ops cfg sha send addr subj c clock s =
     awaited (opIssue ops s \<lparr>purpose = EMAIL_CODE_PURPOSE, challengeFor = subj, secretHash = hashCode sha addr c,
                expiresAt = minutesAfter (newDate clock) (ttlMinutes cfg), issuedNow = newDate clock\<rparr>) StoreError (\<lambda>s _.
       (s, send addr c))"

definition requestCode ::
  "'s AuthStoreOps \<Rightarrow> EmailCodeConfig \<Rightarrow> (units \<Rightarrow> units) \<Rightarrow> (units \<Rightarrow> units \<Rightarrow> email_error + unit) \<Rightarrow>
   jsval \<Rightarrow> units \<Rightarrow> int \<Rightarrow> 's \<Rightarrow> 's \<times> (email_error + unit)" where
  "requestCode ops cfg sha send mail c clock s =
     (case requireEmail mail of Inl e \<Rightarrow> (s, Inl e) | Inr addr \<Rightarrow> issueCode ops cfg sha send addr addr c clock s)"

definition requestBoundCode ::
  "'s AuthStoreOps \<Rightarrow> EmailCodeConfig \<Rightarrow> (units \<Rightarrow> units) \<Rightarrow> (units \<Rightarrow> units \<Rightarrow> email_error + unit) \<Rightarrow>
   jsval \<Rightarrow> units \<Rightarrow> units \<Rightarrow> int \<Rightarrow> 's \<Rightarrow> 's \<times> (email_error + units)" where
  "requestBoundCode ops cfg sha send mail binding c clock s =
     (case requireEmail mail of Inl e \<Rightarrow> (s, Inl e)
      | Inr addr \<Rightarrow> awaited (issueCode ops cfg sha send addr (boundSubject sha addr binding) c clock s) id (\<lambda>s _. (s, Inr binding)))"

text \<open>One guess at a challenge: anything but a match is refused.\<close>

definition guessCode ::
  "'s AuthStoreOps \<Rightarrow> EmailCodeConfig \<Rightarrow> units \<Rightarrow> units \<Rightarrow> units \<Rightarrow> jsdate \<Rightarrow> 's \<Rightarrow> 's \<times> (email_error + unit)" where
  "guessCode ops cfg purp subj hash now s =
     awaited (opAttempt ops s \<lparr>guessPurpose = purp, guessFor = subj, guessHash = hash,
                maxAttempts = js_int (codeMaxAttempts cfg), guessNow = now\<rparr>) StoreError (\<lambda>s outcome.
       if outcome \<noteq> Matched then (s, Inl (CodeError (refusalOf outcome))) else (s, Inr ()))"

definition verifyCode ::
  "'s AuthStoreOps \<Rightarrow> EmailCodeConfig \<Rightarrow> (units \<Rightarrow> units) \<Rightarrow> (AuthUser \<Rightarrow> string + 'f) \<Rightarrow>
   (int \<Rightarrow> int \<Rightarrow> 'f \<Rightarrow> string + 'sess) \<Rightarrow> jsval \<Rightarrow> jsval \<Rightarrow> units option \<Rightarrow> int \<Rightarrow> 's \<Rightarrow>
   's \<times> (email_error + AuthUser \<times> AuthKey \<times> 'sess)" where
  "verifyCode ops cfg sha secondFactor newSession mail c binding clock s =
     (case requireEmail mail of Inl e \<Rightarrow> (s, Inl e)
      | Inr addr \<Rightarrow>
         (case c of
            StrV typed \<Rightarrow>
              awaited (guessCode ops cfg EMAIL_CODE_PURPOSE
                  (case binding of None \<Rightarrow> addr | Some b \<Rightarrow> boundSubject sha addr b)
                  (hashCode sha addr (trimUnits typed)) (newDate clock) s) id (\<lambda>s _.
                awaited (signInKey ops addr (newDate clock) s) id (\<lambda>s (usr, key).
                  awaited (s, andThen (secondFactor usr) (newSession (userNo usr) (keyId key))) AppError (\<lambda>s sess.
                    (s, Inr (usr, key, sess)))))
          | _ \<Rightarrow> (s, Inl (CodeError WrongCode))))"

definition liveUser :: "'s AuthStoreOps \<Rightarrow> jsnum \<Rightarrow> 's \<Rightarrow> email_error + AuthUser" where
  "liveUser ops uid s =
     (case opFindUser ops s uid of
        None \<Rightarrow> Inl (StoreError (JsError (RangeErr ''no auth user with id'')))
      | Some usr \<Rightarrow> if deletedAt usr \<noteq> None then Inl (CodeError AccountDeleted) else Inr usr)"

definition proveAddress ::
  "'s AuthStoreOps \<Rightarrow> EmailCodeConfig \<Rightarrow> (units \<Rightarrow> units) \<Rightarrow> jsnum \<Rightarrow> jsval \<Rightarrow> jsval \<Rightarrow> int \<Rightarrow> 's \<Rightarrow>
   's \<times> (email_error + AuthKey list)" where
  "proveAddress ops cfg sha uid mail c clock s =
     (case requireEmail mail of Inl e \<Rightarrow> (s, Inl e)
      | Inr addr \<Rightarrow>
         (case c of
            StrV typed \<Rightarrow>
              awaited (s, liveUser ops uid s) id (\<lambda>s usr.
              awaited (guessCode ops cfg EMAIL_CODE_PURPOSE addr (hashCode sha addr (trimUnits typed)) (newDate clock) s) id (\<lambda>s _.
                proveFor ops (userNo usr) addr (newDate clock) s))
          | _ \<Rightarrow> (s, Inl (CodeError WrongCode))))"

section \<open>Codes bound to a user\<close>

definition proofRequestCode ::
  "'s AuthStoreOps \<Rightarrow> EmailCodeConfig \<Rightarrow> (units \<Rightarrow> units) \<Rightarrow> (units \<Rightarrow> units \<Rightarrow> email_error + unit) \<Rightarrow>
   jsnum \<Rightarrow> jsval \<Rightarrow> units \<Rightarrow> int \<Rightarrow> 's \<Rightarrow> 's \<times> (email_error + unit)" where
  "proofRequestCode ops cfg sha send uid mail c clock s =
     (case requireEmail mail of Inl e \<Rightarrow> (s, Inl e)
      | Inr addr \<Rightarrow>
          awaited (s, liveUser ops uid s) id (\<lambda>s _.
          awaited (opIssue ops s \<lparr>purpose = EMAIL_PROOF_PURPOSE, challengeFor = proofSubject sha (js_floor uid) addr,
                secretHash = hashProof sha (js_floor uid) addr c,
                expiresAt = minutesAfter (newDate clock) (ttlMinutes cfg), issuedNow = newDate clock\<rparr>) StoreError (\<lambda>s _.
            (s, send addr c))))"

definition proofProveAddress ::
  "'s AuthStoreOps \<Rightarrow> EmailCodeConfig \<Rightarrow> (units \<Rightarrow> units) \<Rightarrow> jsnum \<Rightarrow> jsval \<Rightarrow> jsval \<Rightarrow> int \<Rightarrow> 's \<Rightarrow>
   's \<times> (email_error + AuthKey list)" where
  "proofProveAddress ops cfg sha uid mail c clock s =
     (case requireEmail mail of Inl e \<Rightarrow> (s, Inl e)
      | Inr addr \<Rightarrow>
         (case c of
            StrV typed \<Rightarrow>
              awaited (s, liveUser ops uid s) id (\<lambda>s usr.
              awaited (guessCode ops cfg EMAIL_PROOF_PURPOSE (proofSubject sha (userNo usr) addr)
                  (hashProof sha (userNo usr) addr (trimUnits typed)) (newDate clock) s) id (\<lambda>s _.
                proveFor ops (userNo usr) addr (newDate clock) s))
          | _ \<Rightarrow> (s, Inl (CodeError WrongCode))))"

section \<open>The contract of the store\<close>

definition sameAccounts :: "'s AuthStoreOps \<Rightarrow> 's \<Rightarrow> 's \<Rightarrow> bool" where
  "sameAccounts ops s s' \<longleftrightarrow> opOwner ops s' = opOwner ops s \<and> opFindUser ops s' = opFindUser ops s \<and>
     opFindKey ops s' = opFindKey ops s \<and> opListKeys ops s' = opListKeys ops s"

definition keepsOwners :: "'s AuthStoreOps \<Rightarrow> 's \<Rightarrow> 's \<Rightarrow> bool" where
  "keepsOwners ops s s' \<longleftrightarrow> (\<forall>a uid. opOwner ops s a = Some uid \<longrightarrow> opOwner ops s' a = Some uid)"

lemma sameAccounts_refl [simp]: "sameAccounts ops s s"
  by (simp add: sameAccounts_def)

lemma keepsOwners_refl [simp]: "keepsOwners ops s s"
  by (simp add: keepsOwners_def)

lemma keepsOwnersD: "keepsOwners ops s s' \<Longrightarrow> opOwner ops s a = Some uid \<Longrightarrow> opOwner ops s' a = Some uid"
  by (simp add: keepsOwners_def)

lemma awaited_cases:
  assumes "awaited r err f = (s2, x)"
  obtains (failed) e where "r = (s2, Inl e)" "x = Inl (err e)"
  | (went_on) s1 y where "r = (s1, Inr y)" "f s1 y = (s2, x)"
  using assms by (cases r; cases "snd r") (auto simp: awaited_def)

text \<open>\<open>challenge s p k\<close> is the challenge the store holds for a purpose and a subject.\<close>

locale auth_store =
  fixes ops :: "'s AuthStoreOps" and inv :: "'s \<Rightarrow> bool" and challenge :: "'s \<Rightarrow> units \<Rightarrow> units \<Rightarrow> ChallengeRow option"
  assumes user_no: "inv s \<Longrightarrow> opFindUser ops s v = Some usr \<Longrightarrow> js_int (userNo usr) = v"
    and create_refused: "opCreateUserWithKey ops s k = (s', Inl e) \<Longrightarrow> s' = s"
    and create_done: "inv s \<Longrightarrow> opCreateUserWithKey ops s k = (s', Inr (usr, key)) \<Longrightarrow>
        inv s' \<and> keepsOwners ops s s' \<and> opFindUser ops s (js_int (userNo usr)) = None \<and> deletedAt usr = None \<and>
        userId key = userNo usr \<and> (\<forall>a. provenEmail k = Some a \<longrightarrow> opOwner ops s' a = Some (userNo usr))"
    and add_refused: "opAddKey ops s uid k = (s', Inl e) \<Longrightarrow> s' = s"
    and add_done: "inv s \<Longrightarrow> opAddKey ops s uid k = (s', Inr key) \<Longrightarrow>
        inv s' \<and> keepsOwners ops s s' \<and> js_int (userId key) = uid \<and>
        (\<forall>a. provenEmail k = Some a \<longrightarrow> opOwner ops s' a = Some (userId key))"
    and prove_refused: "opProveKey ops s kid now = (s', Inl e) \<Longrightarrow> s' = s"
    and prove_done: "inv s \<Longrightarrow> opProveKey ops s kid now = (s', Inr key) \<Longrightarrow>
        inv s' \<and> keepsOwners ops s s' \<and> js_int (keyId key) = kid \<and> provenAt key \<noteq> None \<and>
        (\<exists>a. email key = Some a \<and> opOwner ops s' a = Some (userId key))"
    and prove_same: "inv s \<Longrightarrow> opProveKey ops s (js_int (keyId old)) now = (s', Inr key) \<Longrightarrow>
        opFindKey ops s m a = Some old \<or> old \<in> set (opListKeys ops s uid) \<Longrightarrow> userId key = userId old \<and> email key = email old"
    and listed: "old \<in> set (opListKeys ops s uid) \<Longrightarrow> js_int (userId old) = uid"
    and listed_owned: "inv s \<Longrightarrow> old \<in> set (opListKeys ops s uid) \<Longrightarrow> provenAt old \<noteq> None \<Longrightarrow> email old = Some a \<Longrightarrow>
        opOwner ops s a = Some (userId old)"
    and issue_done: "inv s \<Longrightarrow> opIssue ops s i = (s', r) \<Longrightarrow> inv s' \<and> sameAccounts ops s s'"
    and attempt_done: "inv s \<Longrightarrow> opAttempt ops s g = (s', outcome) \<Longrightarrow> inv s' \<and> sameAccounts ops s s'"
    and attempt_matched: "inv s \<Longrightarrow> opAttempt ops s g = (s', Inr Matched) \<Longrightarrow>
        \<exists>row t. challenge s (guessPurpose g) (guessFor g) = Some row \<and> rowHash row = guessHash g \<and> guessNow g = Some t \<and>
          t < rowExpiresAt row \<and> attempts row < js_floor (maxAttempts g) \<and> challenge s' (guessPurpose g) (guessFor g) = None"
begin

lemma guessCode_spec:
  assumes "inv s" "guessCode ops cfg p k h now s = (s', r)"
  shows "inv s' \<and> sameAccounts ops s s' \<and>
    (\<forall>x. r = Inr x \<longrightarrow> (\<exists>row t. challenge s p k = Some row \<and> rowHash row = h \<and> now = Some t \<and> t < rowExpiresAt row \<and>
       attempts row < codeMaxAttempts cfg \<and> challenge s' p k = None))"
  using assms(2) unfolding guessCode_def
proof (cases rule: awaited_cases)
  case (failed e)
  then show ?thesis using attempt_done [OF assms(1) failed(1)] by simp
next
  case (went_on s1 o1)
  then have s1: "s1 = s'" by (auto split: if_splits)
  show ?thesis
  proof (cases "o1 = Matched")
    case True
    then show ?thesis using attempt_matched [OF assms(1) went_on(1) [unfolded True]] attempt_done [OF assms(1) went_on(1)] s1
      by auto
  next
    case False
    then show ?thesis using attempt_done [OF assms(1) went_on(1)] went_on(2) s1 by auto
  qed
qed

lemma provenEmail_emailKey [simp]: "provenEmail (emailKey a now) = Some a"
  by (simp add: provenEmail_def emailKey_def)

text \<open>Who is signed in: the owner of the address, or a new user when nobody owns it.\<close>

lemma signInKey_spec:
  assumes "inv s" "signInKey ops a now s = (s', Inr (usr, key))"
  shows "inv s' \<and> keepsOwners ops s s' \<and> opOwner ops s' a = Some (userNo usr) \<and> userId key = userNo usr \<and> deletedAt usr = None \<and>
    (case opOwner ops s a of None \<Rightarrow> opFindUser ops s (js_int (userNo usr)) = None | Some owner \<Rightarrow> userNo usr = owner)"
proof (cases "opOwner ops s a")
  case None
  then have "opCreateUserWithKey ops s (emailKey a now) = (s', Inr (usr, key))"
    using assms(2) by (auto simp: signInKey_def elim!: awaited_cases)
  from create_done [OF assms(1) this] None show ?thesis by simp
next
  case (Some owner)
  then obtain usr' where usr': "opFindUser ops s (js_int owner) = Some usr'" "deletedAt usr' = None"
    using assms(2) by (auto simp: signInKey_def Let_def split: option.splits if_splits)
  let ?old = "opFindKey ops s EMAIL_CODE_METHOD a"
  let ?step = "case ?old of Some key \<Rightarrow> if userId key = owner then opProveKey ops s (js_int (keyId key)) now
       else opAddKey ops s (js_int owner) (emailKey a now)
     | None \<Rightarrow> opAddKey ops s (js_int owner) (emailKey a now)"
  have "awaited ?step StoreError (\<lambda>s key. (s, Inr (usr', key))) = (s', Inr (usr, key))"
    using assms(2) Some usr' by (simp add: signInKey_def Let_def)
  then have step: "?step = (s', Inr key)" and usr: "usr = usr'" by (auto elim!: awaited_cases)
  have no: "userNo usr = owner" using user_no [OF assms(1) usr'(1)] usr by simp
  have "inv s' \<and> keepsOwners ops s s' \<and> userId key = owner"
  proof (cases "\<exists>old. ?old = Some old \<and> userId old = owner")
    case True
    then obtain old where old: "?old = Some old" "userId old = owner" by blast
    then have p: "opProveKey ops s (js_int (keyId old)) now = (s', Inr key)" using step by simp
    show ?thesis using prove_done [OF assms(1) p] prove_same [OF assms(1) p disjI1 [OF old(1)]] old(2) by simp
  next
    case False
    then have p: "opAddKey ops s (js_int owner) (emailKey a now) = (s', Inr key)" using step by (auto split: option.splits)
    show ?thesis using add_done [OF assms(1) p] by simp
  qed
  then show ?thesis using Some no usr usr'(2) keepsOwnersD by auto
qed

lemma signInKey_refused: "signInKey ops a now s = (s', Inl e) \<Longrightarrow> s' = s"
  by (auto simp: signInKey_def Let_def split: option.splits if_splits elim!: awaited_cases
      dest: create_refused add_refused prove_refused)

text \<open>Proving an address for a user ends with that user owning it.\<close>

lemma keepsOwners_trans: "keepsOwners ops s t \<Longrightarrow> keepsOwners ops t v \<Longrightarrow> keepsOwners ops s v"
  by (simp add: keepsOwners_def)

lemma proveAll_keeps: "proveAll ops now ks s = (s', r) \<Longrightarrow> inv s \<Longrightarrow> inv s' \<and> keepsOwners ops s s'"
proof (induction ks arbitrary: s r)
  case (Cons k ks)
  let ?step = "if provenAt k = None then opProveKey ops s (js_int (keyId k)) now else (s, Inr k)"
  have one: "inv t \<and> keepsOwners ops s t" if "?step = (t, q)" for t q
    using that Cons.prems(2) by (cases q) (auto split: if_splits dest: prove_refused prove_done)
  have "awaited ?step StoreError (\<lambda>s key. awaited (proveAll ops now ks s) id (\<lambda>s keys. (s, Inr (key # keys)))) = (s', r)"
    using Cons.prems(1) by simp
  then show ?case
  proof (cases rule: awaited_cases)
    case (failed e)
    then show ?thesis using one by blast
  next
    case (went_on t key)
    have "\<exists>q. proveAll ops now ks t = (s', q)" using went_on(2) by (auto elim!: awaited_cases)
    then have "inv s' \<and> keepsOwners ops t s'" using Cons.IH one [OF went_on(1)] by blast
    then show ?thesis using keepsOwners_trans one [OF went_on(1)] by blast
  qed
qed simp

lemma proveFor_spec:
  assumes "inv s" "proveFor ops uid a now s = (s', Inr ks)"
  shows "inv s' \<and> keepsOwners ops s s' \<and> opOwner ops s' a = Some uid"
proof -
  let ?mine = "filter (\<lambda>k. email k = Some a) (opListKeys ops s (js_int uid))"
  show ?thesis
  proof (cases ?mine)
    case Nil
    then obtain key where add: "opAddKey ops s (js_int uid) (emailKey a now) = (s', Inr key)"
      using assms(2) by (auto simp: proveFor_def Let_def split: if_splits elim!: awaited_cases)
    show ?thesis using add_done [OF assms(1) add] by simp
  next
    case (Cons k rest)
    then have k: "k \<in> set (opListKeys ops s (js_int uid))" "email k = Some a"
      by (auto dest: filter_eq_ConsD)
    have uid: "userId k = uid" using listed [OF k(1)] by simp
    have "proveAll ops now (k # rest) s = (s', Inr ks)"
      using assms(2) Cons by (auto simp: proveFor_def Let_def split: if_splits)
    then have "awaited (if provenAt k = None then opProveKey ops s (js_int (keyId k)) now else (s, Inr k)) StoreError
        (\<lambda>s key. awaited (proveAll ops now rest s) id (\<lambda>s keys. (s, Inr (key # keys)))) = (s', Inr ks)" by simp
    then obtain t p where step: "(if provenAt k = None then opProveKey ops s (js_int (keyId k)) now else (s, Inr k)) = (t, Inr p)"
      and rest: "\<exists>q. proveAll ops now rest t = (s', q)" by (auto elim!: awaited_cases)
    have "inv t \<and> keepsOwners ops s t \<and> opOwner ops t a = Some uid"
    proof (cases "provenAt k")
      case None
      then have pr: "opProveKey ops s (js_int (keyId k)) now = (t, Inr p)" using step by simp
      show ?thesis using prove_done [OF assms(1) pr] prove_same [OF assms(1) pr disjI2 [OF k(1)]] k(2) uid by auto
    next
      case (Some d)
      then show ?thesis using step assms(1) listed_owned [OF assms(1) k(1) _ k(2)] uid by simp
    qed
    then show ?thesis using rest proveAll_keeps keepsOwners_trans keepsOwnersD by metis
  qed
qed

text \<open>Both ways to prove an address end with the live user of the session owning it.\<close>

lemma liveUser_Inr:
  assumes "inv s" "liveUser ops uid s = Inr usr"
  shows "js_int (userNo usr) = uid \<and> opFindUser ops s uid = Some usr \<and> deletedAt usr = None"
  using assms user_no by (auto simp: liveUser_def split: option.splits if_splits)

lemma address_proven:
  assumes "inv s" "awaited (s, liveUser ops uid s) id (\<lambda>s usr. awaited (guessCode ops cfg p (k usr) (h usr) now s) id (\<lambda>s _.
      proveFor ops (userNo usr) a now s)) = (s', Inr ks)"
  shows "\<exists>usr row. js_int (userNo usr) = uid \<and> opFindUser ops s uid = Some usr \<and> deletedAt usr = None \<and>
    challenge s p (k usr) = Some row \<and> rowHash row = h usr \<and> attempts row < codeMaxAttempts cfg \<and>
    opOwner ops s' a = Some (userNo usr) \<and> (opOwner ops s a = None \<or> opOwner ops s a = Some (userNo usr))"
proof -
  obtain usr s1 x where live: "liveUser ops uid s = Inr usr"
    and guess: "guessCode ops cfg p (k usr) (h usr) now s = (s1, Inr x)" and pr: "proveFor ops (userNo usr) a now s1 = (s', Inr ks)"
    using assms(2) by (auto elim!: awaited_cases)
  note g = guessCode_spec [OF assms(1) guess]
  have "opOwner ops s1 a = None \<or> opOwner ops s1 a = Some (userNo usr)"
    using pr by (auto simp: proveFor_def Let_def split: if_splits)
  moreover have "opOwner ops s1 = opOwner ops s" using g by (simp add: sameAccounts_def)
  ultimately show ?thesis
    using liveUser_Inr [OF assms(1) live] g proveFor_spec [OF conjunct1 [OF g] pr] by auto
qed

text \<open>A sign-in with a code: the stored live code was guessed, and its account owns the address.\<close>

lemma verify_signs_owner_in:
  assumes "inv s" "verifyCode ops cfg sha secondFactor newSession mail c binding clock s = (s', Inr (usr, key, sess))"
  shows "\<exists>a typed. normalizeEmail mail = Some a \<and> c = StrV typed \<and>
    (let k = (case binding of None \<Rightarrow> a | Some b \<Rightarrow> boundSubject sha a b) in
     (\<exists>row. challenge s EMAIL_CODE_PURPOSE k = Some row \<and> rowHash row = hashCode sha a (trimUnits typed) \<and>
        clock < rowExpiresAt row \<and> attempts row < codeMaxAttempts cfg)) \<and>
    opOwner ops s' a = Some (userNo usr) \<and> userId key = userNo usr \<and> deletedAt usr = None \<and>
    (case opOwner ops s a of None \<Rightarrow> opFindUser ops s (js_int (userNo usr)) = None | Some owner \<Rightarrow> userNo usr = owner) \<and>
    (\<forall>b uid. opOwner ops s b = Some uid \<longrightarrow> opOwner ops s' b = Some uid)"
proof -
  obtain a where a: "normalizeEmail mail = Some a"
    using assms(2) by (auto simp: verifyCode_def requireEmail_def split: option.splits)
  obtain typed where typed: "c = StrV typed"
    using assms(2) a by (auto simp: verifyCode_def requireEmail_def split: jsval.splits)
  let ?k = "case binding of None \<Rightarrow> a | Some b \<Rightarrow> boundSubject sha a b"
  have v: "awaited (guessCode ops cfg EMAIL_CODE_PURPOSE ?k (hashCode sha a (trimUnits typed)) (newDate clock) s) id (\<lambda>s _.
      awaited (signInKey ops a (newDate clock) s) id (\<lambda>s (usr, key).
        awaited (s, andThen (secondFactor usr) (newSession (userNo usr) (keyId key))) AppError (\<lambda>s sess.
          (s, Inr (usr, key, sess))))) = (s', Inr (usr, key, sess))"
    using assms(2) a typed by (simp add: verifyCode_def requireEmail_def)
  then obtain s1 x where g: "guessCode ops cfg EMAIL_CODE_PURPOSE ?k (hashCode sha a (trimUnits typed)) (newDate clock) s = (s1, Inr x)"
    and sign: "signInKey ops a (newDate clock) s1 = (s', Inr (usr, key))"
    by (auto elim!: awaited_cases split: prod.splits)
  note guess = guessCode_spec [OF assms(1) g]
  have t: "newDate clock = Some t \<Longrightarrow> t = clock" for t by (auto simp: newDate_def split: if_splits)
  have row: "\<exists>row. challenge s EMAIL_CODE_PURPOSE ?k = Some row \<and> rowHash row = hashCode sha a (trimUnits typed) \<and>
      clock < rowExpiresAt row \<and> attempts row < codeMaxAttempts cfg" using guess t by blast
  have "opOwner ops s1 = opOwner ops s" "opFindUser ops s1 = opFindUser ops s"
    using guess by (simp_all add: sameAccounts_def)
  then show ?thesis using signInKey_spec [OF conjunct1 [OF guess] sign] a typed row
    by (rule_tac exI [of _ a], rule_tac exI [of _ typed]) (simp add: Let_def keepsOwners_def split: option.splits)
qed

text \<open>A refusal, for whatever reason, leaves every account as it was.\<close>

lemma verify_refused:
  assumes "inv s" "verifyCode ops cfg sha secondFactor newSession mail c binding clock s = (s', Inl e)"
  shows "sameAccounts ops s s' \<or> (\<exists>m. e = AppError m)"
proof (cases "requireEmail mail")
  case (Inl e')
  then show ?thesis using assms(2) by (simp add: verifyCode_def)
next
  case (Inr a)
  show ?thesis
  proof (cases "\<exists>typed. c = StrV typed")
    case False
    then show ?thesis using assms(2) Inr by (cases c) (simp_all add: verifyCode_def)
  next
    case True
    then obtain typed where typed: "c = StrV typed" by blast
    let ?k = "case binding of None \<Rightarrow> a | Some b \<Rightarrow> boundSubject sha a b"
    have v: "awaited (guessCode ops cfg EMAIL_CODE_PURPOSE ?k (hashCode sha a (trimUnits typed)) (newDate clock) s) id (\<lambda>s _.
        awaited (signInKey ops a (newDate clock) s) id (\<lambda>s (usr, key).
          awaited (s, andThen (secondFactor usr) (newSession (userNo usr) (keyId key))) AppError (\<lambda>s sess.
            (s, Inr (usr, key, sess))))) = (s', Inl e)"
      using assms(2) Inr typed by (simp add: verifyCode_def)
    then show ?thesis
    proof (cases rule: awaited_cases)
      case (failed e')
      then show ?thesis using guessCode_spec [OF assms(1) failed(1)] by simp
    next
      case (went_on s1 x)
      note same = guessCode_spec [OF assms(1) went_on(1)]
      from went_on(2) show ?thesis
      proof (cases rule: awaited_cases)
        case (failed e')
        then show ?thesis using signInKey_refused [OF failed(1)] same by simp
      next
        case (went_on s2 y)
        then show ?thesis by (cases y) (auto elim!: awaited_cases)
      qed
    qed
  qed
qed

end

section \<open>The in-memory store keeps the contract\<close>

definition memChallenge :: "MemoryAuthStore \<Rightarrow> units \<Rightarrow> units \<Rightarrow> ChallengeRow option" where
  "memChallenge s p k = jm_get (challenges s) (challengeId p k)"

lemma memAuthOps_simps [simp]:
  "opFindUser (memAuthOps un kn) = findUser" "opCreateUserWithKey (memAuthOps un kn) s k = createUserWithKey un kn k s"
  "opAddKey (memAuthOps un kn) s uid k = addKey kn uid k s" "opFindKey (memAuthOps un kn) = findKey"
  "opListKeys (memAuthOps un kn) = listKeys" "opOwner (memAuthOps un kn) = findUserIdByProvenEmail"
  "opProveKey (memAuthOps un kn) s kid now = proveKey kid now s" "opIssue (memAuthOps un kn) s i = issueChallenge i s"
  "opAttempt (memAuthOps un kn) s g = attemptChallenge g s"
  by (simp_all add: memAuthOps_def)

lemma storeId_int: "isStoreId v \<Longrightarrow> js_int (js_floor v) = v"
  by (auto simp: isStoreId_def js_isSafeInteger_def elim!: js_isInteger_E)

text \<open>A call that is none of the owner's own deletions keeps every owner.\<close>

lemma step_keeps_owners:
  assumes "storeOk st" "\<And>uid. \<not> givesUp uid op" "fst (authStep op st) = st'"
  shows "storeOk st' \<and> keepsOwners (memAuthOps un kn) st st'"
  using storeOk_step [OF assms(1), of op] owner_step [OF assms(1) _ assms(2)] assms(3)
  by (auto simp: keepsOwners_def findUserIdByProvenEmail_def)

lemma only_challenges_same: "sameAccounts (memAuthOps un kn) st (st\<lparr>challenges := c\<rparr>)"
  by (auto simp: sameAccounts_def findUserIdByProvenEmail_def findUser_def findKey_def listKeys_def fun_eq_iff)

lemma insertKey_key:
  "insertKey now uid k st = (st', key) \<Longrightarrow> userId key = uid"
  "insertKey now uid k st = (st', key) \<Longrightarrow> provenEmail k = Some a \<Longrightarrow> jm_get (owners st') a = Some uid"
  by (auto simp: insertKey_def Let_def claimAddress_def NewAuthKey.defs)

lemma checked_proven: "checkNewKey k = Inr i \<Longrightarrow> provenEmail i = provenEmail k"
  by (auto simp: checkNewKey_def validNewKey_def provenEmail_def split: if_splits option.splits)

lemma create_done_mem:
  assumes ok: "storeOk s" and run: "createUserWithKey un kn k s = (s', Inr (usr, key))"
  shows "storeOk s' \<and> keepsOwners (memAuthOps un kn) s s' \<and> findUser s (js_int (userNo usr)) = None \<and> deletedAt usr = None \<and>
    userId key = userNo usr \<and> (\<forall>a. provenEmail k = Some a \<longrightarrow> findUserIdByProvenEmail s' a = Some (userNo usr))"
proof -
  obtain i where i: "checkNewKey k = Inr i" "assertInsertable s None i = Inr ()"
    using run by (auto simp: createUserWithKey_def guarded_def split: sum.splits)
  let ?user = "\<lparr>userNo = nextUserId s, userCreatedAt = un, deletedAt = None\<rparr>"
  let ?st = "s\<lparr>users := jm_set (nextUserId s) ?user (users s), nextUserId := nextUserId s + 1\<rparr>"
  have ins: "insertKey kn (nextUserId s) i ?st = (s', key)" and usr: "usr = ?user"
    using run i by (auto simp: createUserWithKey_def Let_def split: prod.splits)
  have "\<not> jm_has (users s) (nextUserId s)" using usersOkD(1) [of s "nextUserId s"] ok by (auto simp: storeOk_tables)
  then have "findUser s (js_int (nextUserId s)) = None" by (simp add: findUser_def jm_has_get)
  moreover have "fst (authStep (CreateUser un kn k) s) = s'" using run by simp
  ultimately show ?thesis
    using insertKey_key [OF ins] usr checked_proven [OF i(1)] step_keeps_owners [OF ok, of "CreateUser un kn k" s']
    by (simp add: givesUp_def findUserIdByProvenEmail_def)
qed

lemma add_done_mem:
  assumes ok: "storeOk s" and run: "addKey kn uid k s = (s', Inr key)"
  shows "storeOk s' \<and> keepsOwners (memAuthOps un kn) s s' \<and> js_int (userId key) = uid \<and>
    (\<forall>a. provenEmail k = Some a \<longrightarrow> findUserIdByProvenEmail s' a = Some (userId key))"
proof -
  obtain i where i: "checkNewKey k = Inr i" "isStoreId uid" "assertInsertable s (Some (js_floor uid)) i = Inr ()"
      "insertKey kn (js_floor uid) i s = (s', key)"
    using run by (auto simp: addKey_def guarded_def split: sum.splits if_splits prod.splits)
  moreover have "fst (authStep (AddKey kn uid k) s) = s'" using run by simp
  ultimately show ?thesis
    using insertKey_key [OF i(4)] checked_proven [OF i(1)] step_keeps_owners [OF ok, of "AddKey kn uid k" s'] storeId_int [OF i(2)]
    by (simp add: givesUp_def findUserIdByProvenEmail_def)
qed

lemma prove_run:
  assumes "proveKey kid now s = (s', Inr key)"
  shows "\<exists>t old e. now = Some t \<and> keyOf s kid = Some old \<and> email old = Some e \<and>
    key = old\<lparr>provenAt := Some (orElse (provenAt old) t), updatedAt := t\<rparr> \<and> jm_get (owners s') e = Some (userId old)"
  using assms
  by (auto simp: proveKey_def guarded_def checkDate_def Let_def claimAddress_def split: sum.splits option.splits)

lemma prove_done_mem:
  assumes ok: "storeOk s" and run: "proveKey kid now s = (s', Inr key)"
  shows "storeOk s' \<and> keepsOwners (memAuthOps un kn) s s' \<and> js_int (keyId key) = kid \<and> provenAt key \<noteq> None \<and>
    (\<exists>a. email key = Some a \<and> findUserIdByProvenEmail s' a = Some (userId key))"
proof -
  obtain t old e where old: "keyOf s kid = Some old" "email old = Some e"
      "key = old\<lparr>provenAt := Some (orElse (provenAt old) t), updatedAt := t\<rparr>" "jm_get (owners s') e = Some (userId old)"
    using prove_run [OF run] by blast
  have get: "jm_get (authKeys s) (js_floor kid) = Some old" and sid: "isStoreId kid"
    using old(1) by (simp_all add: keyOf_def split: if_splits)
  have "keyId old = js_floor kid"
    using keysOkD(1) [OF tablesOkD(3) get] ok by (simp add: storeOk_tables)
  moreover have "fst (authStep (ProveKey kid now) s) = s'" using run by simp
  ultimately show ?thesis
    using old step_keeps_owners [OF ok, of "ProveKey kid now" s'] storeId_int [OF sid]
    by (simp add: givesUp_def findUserIdByProvenEmail_def)
qed

lemma prove_same_mem:
  assumes ok: "storeOk s" and run: "proveKey (js_int (keyId old)) now s = (s', Inr key)"
    and old: "findKey s m a = Some old \<or> old \<in> set (listKeys s uid)"
  shows "userId key = userId old \<and> email key = email old"
proof -
  have A: "jm_ok (authKeys s)" using ok by (simp add: storeOk_def)
  have tab: "tablesOk s" using ok by (simp add: storeOk_tables)
  obtain i where i: "jm_get (authKeys s) i = Some old"
    using old findKeyIn_facts(2) [OF A, of m a old] jm_get_in [OF A] by (fastforce simp: findKey_def listKeys_def)
  then have "keyId old = i" using keysOkD(1) [OF tablesOkD(3) [OF tab] i] by simp
  then have "keyOf s (js_int (keyId old)) = Some k \<Longrightarrow> k = old" for k using i by (auto simp: keyOf_def split: if_splits)
  then show ?thesis using prove_run [OF run] by auto
qed

lemma attempt_matched_mem:
  assumes "attemptChallenge g s = (s', Inr Matched)"
  shows "\<exists>row t. memChallenge s (guessPurpose g) (guessFor g) = Some row \<and> rowHash row = guessHash g \<and> guessNow g = Some t \<and>
    t < rowExpiresAt row \<and> attempts row < js_floor (maxAttempts g) \<and> memChallenge s' (guessPurpose g) (guessFor g) = None"
  using assms unfolding attemptChallenge_def guarded_def
  by (auto simp: memChallenge_def checkAttemptChallenge_def Let_def split: sum.splits option.splits if_splits)

interpretation memAuth: auth_store "memAuthOps un kn" storeOk memChallenge for un kn
proof (unfold_locales, unfold memAuthOps_simps)
  fix s s' :: MemoryAuthStore and v usr e k key uid kid now old m a i r g outcome
  show "js_int (userNo usr) = v" if "storeOk s" "findUser s v = Some usr"
    using that usersOkD(2) [of s "js_floor v" usr] storeId_int [of v] by (auto simp: findUser_def storeOk_tables split: if_splits)
  show "s' = s" if "createUserWithKey un kn k s = (s', Inl e)"
    using that refused_changes_nothing [of "CreateUser un kn k" s s' e] by simp
  show "storeOk s' \<and> keepsOwners (memAuthOps un kn) s s' \<and> findUser s (js_int (userNo usr)) = None \<and> deletedAt usr = None \<and>
    userId key = userNo usr \<and> (\<forall>a. provenEmail k = Some a \<longrightarrow> findUserIdByProvenEmail s' a = Some (userNo usr))"
    if "storeOk s" "createUserWithKey un kn k s = (s', Inr (usr, key))" by (rule create_done_mem [OF that])
  show "s' = s" if "addKey kn uid k s = (s', Inl e)"
    using that refused_changes_nothing [of "AddKey kn uid k" s s' e] by simp
  show "storeOk s' \<and> keepsOwners (memAuthOps un kn) s s' \<and> js_int (userId key) = uid \<and>
    (\<forall>a. provenEmail k = Some a \<longrightarrow> findUserIdByProvenEmail s' a = Some (userId key))"
    if "storeOk s" "addKey kn uid k s = (s', Inr key)" by (rule add_done_mem [OF that])
  show "s' = s" if "proveKey kid now s = (s', Inl e)"
    using that refused_changes_nothing [of "ProveKey kid now" s s' e] by simp
  show "storeOk s' \<and> keepsOwners (memAuthOps un kn) s s' \<and> js_int (keyId key) = kid \<and> provenAt key \<noteq> None \<and>
    (\<exists>a. email key = Some a \<and> findUserIdByProvenEmail s' a = Some (userId key))"
    if "storeOk s" "proveKey kid now s = (s', Inr key)" by (rule prove_done_mem [OF that])
  show "userId key = userId old \<and> email key = email old"
    if "storeOk s" "proveKey (js_int (keyId old)) now s = (s', Inr key)" "findKey s m a = Some old \<or> old \<in> set (listKeys s uid)"
    by (rule prove_same_mem [OF that])
  show "js_int (userId old) = uid" if "old \<in> set (listKeys s uid)" using that by (simp add: listKeys_def)
  show "findUserIdByProvenEmail s a = Some (userId old)"
    if "storeOk s" "old \<in> set (listKeys s uid)" "provenAt old \<noteq> None" "email old = Some a"
    using that by (auto simp: storeOk_def list_all_iff listKeys_def findUserIdByProvenEmail_def)
  show "storeOk s' \<and> sameAccounts (memAuthOps un kn) s s'" if "storeOk s" "issueChallenge i s = (s', r)"
    using that challenges_only(1) [of i s] only_challenges_same storeOk_challenges by auto
  show "storeOk s' \<and> sameAccounts (memAuthOps un kn) s s'" if "storeOk s" "attemptChallenge g s = (s', outcome)"
    using that challenges_only(2) [of g s] only_challenges_same storeOk_challenges by auto
  show "\<exists>row t. memChallenge s (guessPurpose g) (guessFor g) = Some row \<and> rowHash row = guessHash g \<and> guessNow g = Some t \<and>
    t < rowExpiresAt row \<and> attempts row < js_floor (maxAttempts g) \<and> memChallenge s' (guessPurpose g) (guessFor g) = None"
    if "storeOk s" "attemptChallenge g s = (s', Inr Matched)" by (rule attempt_matched_mem [OF that(2)])
qed

section \<open>The right code\<close>

lemma ascii_chars: "list_all (\<lambda>c. c < 128) s \<Longrightarrow> chars s = map (\<lambda>c. [c]) s"
  by (induction s rule: chars.induct) auto

lemma ascii_storeText: "list_all (\<lambda>c. 0 < c \<and> c < 128) s \<Longrightarrow> 0 < length s \<Longrightarrow> length s \<le> n \<Longrightarrow> storeText n s"
  using ascii_chars [of s]
  by (auto simp: storeText_def isStoreText_def isWellFormed_def list_all_iff)

lemma addrChar_ascii: "addrChar c \<Longrightarrow> 0 < c \<and> c < 128"
  by (auto simp: addrChar_def isAtomChar_def isAlnumU_def)

lemma normal_subject:
  assumes "normalizeEmail mail = Some a"
  shows "storeText MAX_SUBJECT_LENGTH a" "normalizeEmail (StrV a) = Some a"
proof -
  have a: "isAddress a" "length a \<le> MAX_ADDR_SPEC_LENGTH" "parseBareAddress (StrV a) = Some a"
    using bare_facts assms unfolding normalizeEmail_def by blast+
  then have "list_all (\<lambda>c. 0 < c \<and> c < 128) a" using isAddress_chars addrChar_ascii by (auto simp: list_all_iff)
  then show "storeText MAX_SUBJECT_LENGTH a" using isAddress_ne [OF a(1)] a(2)
    by (intro ascii_storeText) (auto simp: MAX_SUBJECT_LENGTH_def MAX_ADDR_SPEC_LENGTH_def)
  show "normalizeEmail (StrV a) = Some a" using a(3) by (simp add: normalizeEmail_def)
qed

lemma purpose_ok: "storeText MAX_METHOD_LENGTH EMAIL_CODE_PURPOSE" "storeText MAX_METHOD_LENGTH EMAIL_CODE_METHOD"
  unfolding EMAIL_CODE_PURPOSE_def EMAIL_CODE_METHOD_def
  by (rule ascii_storeText; simp add: MAX_METHOD_LENGTH_def code_def)+

text \<open>What issuing leaves: the counter of a live challenge, and the new secret and expiry.\<close>

lemma issue_row:
  assumes "checkIssueChallenge v = Inr (expires, now)" "jm_ok (challenges s)"
  shows "\<exists>c n. issueChallenge v s = (s\<lparr>challenges := c\<rparr>, Inr ()) \<and> jm_ok c \<and>
    jm_get c (challengeId (purpose v) (challengeFor v)) = Some \<lparr>rowHash = secretHash v, attempts = n, rowExpiresAt = expires\<rparr> \<and>
    n = (case memChallenge s (purpose v) (challengeFor v) of None \<Rightarrow> 0
         | Some row \<Rightarrow> if rowExpiresAt row > now then attempts row else 0)"
  using assms
  by (auto simp: issueChallenge_def memChallenge_def Let_def jm_get_drop [OF assms(2)] split: option.split)

text \<open>The sign-in succeeds unless the owner is deleted or a key for the address carries another one.\<close>

definition signInPossible :: "MemoryAuthStore \<Rightarrow> units \<Rightarrow> bool" where
  "signInPossible s a \<longleftrightarrow>
     (case findKey s EMAIL_CODE_METHOD a of None \<Rightarrow> True
      | Some key \<Rightarrow> email key = Some a \<and> findKeyById s (js_int (keyId key)) = Some key) \<and>
     (case findUserIdByProvenEmail s a of None \<Rightarrow> True
      | Some owner \<Rightarrow> (case findUser s (js_int owner) of None \<Rightarrow> False | Some usr \<Rightarrow> deletedAt usr = None))"

lemma emailKey_checked:
  assumes "normalizeEmail mail = Some a" "now = Some t"
  shows "checkNewKey (emailKey a now) =
    Inr \<lparr>keyMethod = EMAIL_CODE_METHOD, subject = a, email = Some a, secret = None, provenAt = Some t\<rparr>"
  using normal_subject [OF assms(1)] purpose_ok assms(2)
  by (simp add: checkNewKey_def validNewKey_def emailKey_def)

lemma evictable:
  assumes ok: "storeOk s" and old: "findKey s m a = Some old" "email old = Some e" "findUserIdByProvenEmail s e = uid"
    "uid \<noteq> Some (userId old)"
  shows "provenAt old = None"
proof (rule ccontr)
  assume "provenAt old \<noteq> None"
  have tab: "tablesOk s" using ok by (simp add: storeOk_tables)
  obtain i where i: "jm_get (authKeys s) i = Some old"
    using findKeyIn_facts(2) [OF tablesOkD(1) [OF tab], of m a old] old(1) unfolding findKey_def by blast
  obtain f where "email old = Some f" "jm_get (owners s) f = Some (userId old)"
    using keysOkD(2) [OF tablesOkD(3) [OF tab] i \<open>provenAt old \<noteq> None\<close>] by blast
  then show False using old(2-4) by (simp add: findUserIdByProvenEmail_def)
qed

lemma insertable_emailKey:
  assumes ok: "storeOk s" and key: "case findKey s EMAIL_CODE_METHOD a of None \<Rightarrow> True | Some k \<Rightarrow> email k = Some a \<and> Some (userId k) \<noteq> uid"
    and own: "findUserIdByProvenEmail s a = uid"
    and k: "k = \<lparr>keyMethod = EMAIL_CODE_METHOD, subject = a, email = Some a, secret = None, provenAt = Some t\<rparr>"
  shows "assertInsertable s uid k = Inr ()"
proof -
  have pe: "provenEmail k = Some a" by (simp add: k provenEmail_def)
  have "assertOwnable s uid a = Inr ()" using own by (auto simp: assertOwnable_def findUserIdByProvenEmail_def split: option.split)
  moreover have "provenAt old = None \<and> email old = Some a \<and> Some (userId old) \<noteq> uid" if "findKey s EMAIL_CODE_METHOD a = Some old" for old
    using evictable [OF ok that _ own] key that by auto
  ultimately show ?thesis using pe unfolding assertInsertable_def
    by (auto simp: k findKey_def Let_def split: option.split)
qed

lemma signInKey_possible:
  assumes ok: "storeOk s" and mail: "normalizeEmail mail = Some a" and can: "signInPossible s a" and now: "now = Some t"
  shows "\<exists>s' usr key. signInKey (memAuthOps un kn) a now s = (s', Inr (usr, key)) \<and> challenges s' = challenges s"
proof -
  note checked = emailKey_checked [OF mail now]
  let ?k = "\<lparr>keyMethod = EMAIL_CODE_METHOD, subject = a, email = Some a, secret = None, provenAt = Some t\<rparr>"
  show ?thesis
  proof (cases "findUserIdByProvenEmail s a")
    case None
    have "assertInsertable s None ?k = Inr ()"
      using insertable_emailKey [OF ok _ None refl] can by (auto simp: signInPossible_def split: option.splits)
    then show ?thesis using None checked
      by (auto simp: signInKey_def createUserWithKey_def awaited_def Let_def case_prod_unfold)
  next
    case (Some owner)
    then obtain usr where usr: "findUser s (js_int owner) = Some usr" "deletedAt usr = None"
      using can by (auto simp: signInPossible_def split: option.splits)
    have sid: "isStoreId (js_int owner)" and has: "jm_has (users s) owner" using usr(1) by (auto simp: findUser_def jm_has_get split: if_splits)
    show ?thesis
    proof (cases "\<exists>old. findKey s EMAIL_CODE_METHOD a = Some old \<and> userId old = owner")
      case True
      then obtain old where old: "findKey s EMAIL_CODE_METHOD a = Some old" "userId old = owner" by blast
      then have "email old = Some a" "keyOf s (js_int (keyId old)) = Some old"
        using can by (simp_all add: signInPossible_def findKeyById_def)
      moreover have "assertOwnable s (Some owner) a = Inr ()" using Some by (simp add: assertOwnable_def findUserIdByProvenEmail_def)
      ultimately show ?thesis using Some usr old now
        by (simp add: signInKey_def proveKey_def checkDate_def awaited_def Let_def)
    next
      case False
      have ins: "assertInsertable s (Some owner) ?k = Inr ()"
        using insertable_emailKey [OF ok _ Some refl] can False by (auto simp: signInPossible_def split: option.splits)
      have "opAddKey (memAuthOps un kn) s (js_int owner) (emailKey a now) =
          (fst (insertKey kn owner ?k s), Inr (snd (insertKey kn owner ?k s)))"
        using checked ins sid has by (simp add: addKey_def Let_def case_prod_unfold)
      then show ?thesis using Some usr False
        by (auto simp: signInKey_def awaited_def split: option.split)
    qed
  qed
qed

lemma signInPossible_challenges: "signInPossible (s\<lparr>challenges := c\<rparr>) a = signInPossible s a"
  by (simp add: signInPossible_def findKey_def findKeyById_def keyOf_def findUser_def findUserIdByProvenEmail_def split: option.split)

lemma challenges_ok_step:
  assumes "jm_ok (challenges s)"
  shows "jm_ok (challenges (fst (authStep op s)))"
proof (cases op)
  case (IssueChallenge v)
  then show ?thesis using assms by (auto simp: issueChallenge_def guarded_def Let_def split: sum.split)
next
  case (AttemptChallenge v)
  then show ?thesis using assms by (auto simp: attemptChallenge_def guarded_def Let_def split: sum.split option.split)
next
  case (DeleteChallenges p k)
  have "jm_ok (filter (\<lambda>c. \<not> prefix (challengeId p k) (fst c)) (challenges s))" using assms by (rule distinct_map_filter)
  then show ?thesis using assms DeleteChallenges by (auto simp: deleteChallenges_def guarded_def split: sum.split)
qed (use assms challenges_untouched [of op s] in simp_all)

lemma challenges_ok_run: "jm_ok (challenges s) \<Longrightarrow> jm_ok (challenges (authRun ops s))"
  by (induction ops arbitrary: s) (simp_all add: challenges_ok_step)

lemma guess_live:
  assumes "checkAttemptChallenge g = Inr (most, now)"
    "memChallenge s (guessPurpose g) (guessFor g) = Some row" "now < rowExpiresAt row" "attempts row < most" "rowHash row = guessHash g"
  shows "attemptChallenge g s = (s\<lparr>challenges := jm_delete (challengeId (guessPurpose g) (guessFor g)) (challenges s)\<rparr>, Inr Matched)"
  using assms by (simp add: attemptChallenge_def memChallenge_def Let_def)

lemma guess_gone:
  assumes "checkAttemptChallenge g = Inr (most, now)" "memChallenge s (guessPurpose g) (guessFor g) = None"
  shows "attemptChallenge g s = (s, Inr Missing)"
  using assms by (simp add: attemptChallenge_def memChallenge_def Let_def)

text \<open>
  C28: The account a code signs in. Whenever \<open>verifyCode\<close> succeeds on a consistent store, the guess was the
  code of a live challenge for the address (and the binding), with guesses left; the user signed in owns
  the address afterwards, and it is the user who owned it before, or a new user when nobody did: never
  somebody who had only claimed it. The key belongs to that user, who is not deleted. No address changes
  hands: every address that had an owner before still has the same one.
\<close>
theorem code_signs_owner_in:
  assumes "storeOk s" "verifyCode (memAuthOps un kn) cfg sha secondFactor newSession mail c binding clock s = (s', Inr (usr, key, sess))"
  shows "\<exists>a typed. normalizeEmail mail = Some a \<and> c = StrV typed \<and>
    (let k = (case binding of None \<Rightarrow> a | Some b \<Rightarrow> boundSubject sha a b) in
     (\<exists>row. memChallenge s EMAIL_CODE_PURPOSE k = Some row \<and> rowHash row = hashCode sha a (trimUnits typed) \<and>
        clock < rowExpiresAt row \<and> attempts row < codeMaxAttempts cfg)) \<and>
    findUserIdByProvenEmail s' a = Some (userNo usr) \<and> userId key = userNo usr \<and> deletedAt usr = None \<and>
    (case findUserIdByProvenEmail s a of None \<Rightarrow> findUser s (js_int (userNo usr)) = None | Some owner \<Rightarrow> userNo usr = owner) \<and>
    (\<forall>b uid. findUserIdByProvenEmail s b = Some uid \<longrightarrow> findUserIdByProvenEmail s' b = Some uid)"
  using memAuth.verify_signs_owner_in [OF assms] unfolding memAuthOps_simps .

text \<open>
  C29: A refused code changes no account. Whatever \<open>verifyCode\<close> throws before the session is created, every
  user, key and owner the store answers with is what it was: a guess can only move its own counter.
\<close>
theorem refused_code_changes_nothing:
  assumes "storeOk s" "verifyCode (memAuthOps un kn) cfg sha secondFactor newSession mail c binding clock s = (s', Inl e)"
    "\<And>m. e \<noteq> AppError m"
  shows "findUserIdByProvenEmail s' = findUserIdByProvenEmail s \<and> findUser s' = findUser s \<and> findKey s' = findKey s \<and>
    listKeys s' = listKeys s"
  using memAuth.verify_refused [OF assms(1,2)] assms(3) by (auto simp: sameAccounts_def)

lemma right_code_run:
  assumes "normalizeEmail mail = Some a" "signInPossible (authRun ops newAuthStore) a"
    and "1 \<le> codeMaxAttempts cfg" "codeMaxAttempts cfg \<le> MAX_ID" "\<And>x. storeText MAX_SECRET_LENGTH (sha x)"
    and "trimUnits typed = c" "send a c = Inr ()" "\<And>v. secondFactor v = Inr f" "\<And>i j. newSession i j f = Inr sess"
    and "newDate t1 = Some t1" "minutesAfter (Some t1) (ttlMinutes cfg) = Some end'" "newDate t2 = Some t2" "t2 < end'"
      "newDate t3 = Some t3"
    and "case memChallenge (authRun ops newAuthStore) EMAIL_CODE_PURPOSE a of None \<Rightarrow> True
         | Some row \<Rightarrow> rowExpiresAt row \<le> t1 \<or> attempts row < codeMaxAttempts cfg"
  shows "\<exists>s1 s2 usr key. storeOk s1 \<and>
    requestCode (memAuthOps un kn) cfg sha send mail c t1 (authRun ops newAuthStore) = (s1, Inr ()) \<and>
    verifyCode (memAuthOps un kn) cfg sha secondFactor newSession mail (StrV typed) None t2 s1 = (s2, Inr (usr, key, sess)) \<and>
    verifyCode (memAuthOps un kn) cfg sha secondFactor newSession mail (StrV typed) None t3 s2 = (s2, Inl (CodeError NoCode))"
proof -
  let ?s = "authRun ops newAuthStore"
  have ok: "storeOk ?s" by (rule storeOk_run [OF newAuthStore_ok])
  have chs: "jm_ok (challenges ?s)" by (rule challenges_ok_run) (simp add: newAuthStore_def)
  note subj = normal_subject [OF assms(1)]
  let ?i = "\<lparr>purpose = EMAIL_CODE_PURPOSE, challengeFor = a, secretHash = hashCode sha a c,
      expiresAt = minutesAfter (newDate t1) (ttlMinutes cfg), issuedNow = newDate t1\<rparr>"
  have "checkIssueChallenge ?i = Inr (end', t1)"
    using assms(5,10,11) subj(1) purpose_ok(1) by (simp add: checkIssueChallenge_def hashCode_def)
  from issue_row [OF this chs] obtain m n where m: "issueChallenge ?i ?s = (?s\<lparr>challenges := m\<rparr>, Inr ())"
    "jm_get m (challengeId EMAIL_CODE_PURPOSE a) = Some \<lparr>rowHash = hashCode sha a c, attempts = n, rowExpiresAt = end'\<rparr>"
    "n = (case memChallenge ?s EMAIL_CODE_PURPOSE a of None \<Rightarrow> 0 | Some row \<Rightarrow> if rowExpiresAt row > t1 then attempts row else 0)"
    by auto
  have n: "n < codeMaxAttempts cfg" using assms(3,15) m(3) by (auto split: option.splits)
  let ?s1 = "?s\<lparr>challenges := m\<rparr>"
  have req: "requestCode (memAuthOps un kn) cfg sha send mail c t1 ?s = (?s1, Inr ())"
    using m(1) assms(1,7) by (simp add: requestCode_def requireEmail_def issueCode_def awaited_def)
  let ?g = "\<lambda>t. \<lparr>guessPurpose = EMAIL_CODE_PURPOSE, guessFor = a, guessHash = hashCode sha a c,
      maxAttempts = js_int (codeMaxAttempts cfg), guessNow = newDate t\<rparr>"
  have g: "checkAttemptChallenge (?g t) = Inr (codeMaxAttempts cfg, t)" if "newDate t = Some t" for t
    using that assms(3-5) subj(1) purpose_ok(1) by (simp add: checkAttemptChallenge_def hashCode_def)
  let ?s1' = "?s1\<lparr>challenges := jm_delete (challengeId EMAIL_CODE_PURPOSE a) m\<rparr>"
  have "attemptChallenge (?g t2) ?s1 = (?s1', Inr Matched)"
    using guess_live [OF g [OF assms(12)], of ?s1] m(2) assms(13) n by (simp add: memChallenge_def)
  then have guess: "guessCode (memAuthOps un kn) cfg EMAIL_CODE_PURPOSE a (hashCode sha a c) (newDate t2) ?s1 = (?s1', Inr ())"
    by (simp add: guessCode_def awaited_def)
  have "storeOk ?s1'" using ok storeOk_challenges [where st = ?s] by simp
  moreover have "signInPossible ?s1' a"
    using assms(2) signInPossible_challenges [where s = ?s] by simp
  ultimately obtain s2 usr key where s2: "signInKey (memAuthOps un kn) a (newDate t2) ?s1' = (s2, Inr (usr, key))"
      "challenges s2 = challenges ?s1'"
    using signInKey_possible [OF _ assms(1) _ assms(12)] by blast
  have v1: "verifyCode (memAuthOps un kn) cfg sha secondFactor newSession mail (StrV typed) None t2 ?s1 = (s2, Inr (usr, key, sess))"
    using guess s2(1) assms(1,6,8,9) by (simp add: verifyCode_def requireEmail_def awaited_def)
  have "attemptChallenge (?g t3) s2 = (s2, Inr Missing)"
    using guess_gone [OF g [OF assms(14)], of s2] s2(2) by (simp add: memChallenge_def)
  then have "verifyCode (memAuthOps un kn) cfg sha secondFactor newSession mail (StrV typed) None t3 s2 = (s2, Inl (CodeError NoCode))"
    using assms(1,6) by (simp add: verifyCode_def requireEmail_def awaited_def guessCode_def refusalOf_def)
  moreover have "storeOk ?s1" using ok storeOk_challenges [where st = ?s] by simp
  ultimately show ?thesis using req v1 by blast
qed

text \<open>
  C30: The right code signs in, once. From any state the store can reach, after \<open>requestCode\<close> mailed a code,
  \<open>verifyCode\<close> with that code (spaces around it allowed, no binding) before it expires succeeds, provided
  sign-in is possible for the address (\<open>signInPossible\<close>: its owner, if it has one, exists and is not deleted,
  and the email-code key stored for it, if there is one, is found by its number and still carries the
  address), guesses are left on a challenge that is still live, the configured number of guesses is in
  range, the hashes are texts the store takes, and the callbacks (mail, second factor, session) and dates do
  not fail. A second use is refused with \<open>no-code\<close>.
\<close>
theorem right_code_signs_in:
  assumes "normalizeEmail mail = Some a" "signInPossible (authRun ops newAuthStore) a"
    and "1 \<le> codeMaxAttempts cfg" "codeMaxAttempts cfg \<le> MAX_ID" "\<And>x. storeText MAX_SECRET_LENGTH (sha x)"
    and "trimUnits typed = c" "send a c = Inr ()" "\<And>v. secondFactor v = Inr f" "\<And>i j. newSession i j f = Inr sess"
    and "newDate t1 = Some t1" "minutesAfter (Some t1) (ttlMinutes cfg) = Some end'" "newDate t2 = Some t2" "t2 < end'"
      "newDate t3 = Some t3"
    and "case memChallenge (authRun ops newAuthStore) EMAIL_CODE_PURPOSE a of None \<Rightarrow> True
         | Some row \<Rightarrow> rowExpiresAt row \<le> t1 \<or> attempts row < codeMaxAttempts cfg"
  shows "\<exists>s1 s2 usr key.
    requestCode (memAuthOps un kn) cfg sha send mail c t1 (authRun ops newAuthStore) = (s1, Inr ()) \<and>
    verifyCode (memAuthOps un kn) cfg sha secondFactor newSession mail (StrV typed) None t2 s1 = (s2, Inr (usr, key, sess)) \<and>
    verifyCode (memAuthOps un kn) cfg sha secondFactor newSession mail (StrV typed) None t3 s2 = (s2, Inl (CodeError NoCode))"
  using right_code_run [where sha = sha and send = send and secondFactor = secondFactor and newSession = newSession and f = f and
      mail = mail and ops = ops and cfg = cfg and typed = typed, OF assms] by blast

text \<open>
  C31: Proving an address for a signed-in user. When \<open>proveAddress\<close> of the codes bound to a user succeeds, the
  user of the session exists and is not deleted, the guess was the code of that user's own challenge for
  the address, with guesses left, and the user owns the address afterwards, which nobody else owned before.
\<close>
theorem proven_for_session_user:
  assumes "storeOk s" "proofProveAddress (memAuthOps un kn) cfg sha uid mail (StrV typed) clock s = (s', Inr ks)"
  shows "\<exists>a usr row. normalizeEmail mail = Some a \<and> findUser s uid = Some usr \<and> js_int (userNo usr) = uid \<and> deletedAt usr = None \<and>
    memChallenge s EMAIL_PROOF_PURPOSE (proofSubject sha (userNo usr) a) = Some row \<and>
    rowHash row = hashProof sha (userNo usr) a (trimUnits typed) \<and> attempts row < codeMaxAttempts cfg \<and>
    findUserIdByProvenEmail s' a = Some (userNo usr) \<and> findUserIdByProvenEmail s a \<in> {None, Some (userNo usr)}"
proof -
  obtain a where a: "normalizeEmail mail = Some a"
    using assms(2) by (auto simp: proofProveAddress_def requireEmail_def split: option.splits)
  have "awaited (s, liveUser (memAuthOps un kn) uid s) id (\<lambda>s usr.
      awaited (guessCode (memAuthOps un kn) cfg EMAIL_PROOF_PURPOSE (proofSubject sha (userNo usr) a)
        (hashProof sha (userNo usr) a (trimUnits typed)) (newDate clock) s) id (\<lambda>s _.
      proveFor (memAuthOps un kn) (userNo usr) a (newDate clock) s)) = (s', Inr ks)"
    using assms(2) a by (simp add: proofProveAddress_def requireEmail_def)
  from memAuth.address_proven [where k = "\<lambda>v. proofSubject sha (userNo v) a" and
      h = "\<lambda>v. hashProof sha (userNo v) a (trimUnits typed)", OF assms(1) this]
  show ?thesis using a by auto
qed

section \<open>Concrete sign-ins\<close>

definition sampleConfig :: EmailCodeConfig where
  "sampleConfig = \<lparr>ttlMinutes = 10, codeMaxAttempts = 5\<rparr>"

definition sampleMail :: jsval where "sampleMail = StrV (u ''j@x.co'')"

lemma sample_mail: "normalizeEmail sampleMail = Some (u ''j@x.co'')"
  by (simp add: sampleMail_def normalizeEmail_def parseBareAddress_def trimUnits_def isSpace_def isAddress_def dotAtom_def
      dottedDomain_def domainLabel_def isAtomChar_def isAlnumU_def MAX_ADDR_SPEC_LENGTH_def MAX_LOCAL_PART_LENGTH_def lowerU_def code_def)

lemma sample_hypotheses:
  "signInPossible (authRun [] newAuthStore) (u ''j@x.co'')" "1 \<le> codeMaxAttempts sampleConfig" "codeMaxAttempts sampleConfig \<le> MAX_ID"
  "newDate 0 = Some 0" "minutesAfter (Some 0) (ttlMinutes sampleConfig) = Some 600000" "newDate 5 = Some 5" "(5 :: int) < 600000"
  "newDate 9 = Some 9" "trimUnits [32, 107] = [107]"
  "case memChallenge (authRun [] newAuthStore) EMAIL_CODE_PURPOSE (u ''j@x.co'') of None \<Rightarrow> True
     | Some row \<Rightarrow> rowExpiresAt row \<le> 0 \<or> attempts row < codeMaxAttempts sampleConfig"
  by (simp_all add: signInPossible_def newAuthStore_def findKey_def findKeyIn_def findUserIdByProvenEmail_def sampleConfig_def MAX_ID_def
      newDate_def minutesAfter_def trimUnits_def isSpace_def memChallenge_def del: u_Cons)

lemma sample_sha: "storeText MAX_SECRET_LENGTH ((\<lambda>x. u ''h'') x)"
  by (rule sample_text(3))

theorem right_code_signs_in_witness:
  "\<exists>s1 s2 usr key.
    requestCode (memAuthOps 0 0) sampleConfig (\<lambda>x. u ''h'') (\<lambda>a c. Inr ()) sampleMail [107] 0 (authRun [] newAuthStore) = (s1, Inr ()) \<and>
    verifyCode (memAuthOps 0 0) sampleConfig (\<lambda>x. u ''h'') (\<lambda>v. Inr ()) (\<lambda>i j f. Inr ()) sampleMail (StrV [32, 107]) None 5 s1
      = (s2, Inr (usr, key, ())) \<and>
    verifyCode (memAuthOps 0 0) sampleConfig (\<lambda>x. u ''h'') (\<lambda>v. Inr ()) (\<lambda>i j f. Inr ()) sampleMail (StrV [32, 107]) None 9 s2
      = (s2, Inl (CodeError NoCode))"
  by (rule right_code_signs_in [where send = "\<lambda>a c. Inr ()" and secondFactor = "\<lambda>v. Inr ()" and newSession = "\<lambda>i j f. Inr ()" and
      sha = "\<lambda>x. u ''h''" and f = "()" and sess = "()",
      OF sample_mail sample_hypotheses(1-3) sample_sha sample_hypotheses(9) refl refl refl sample_hypotheses(4-8,10)])

lemma sample_verified:
  "\<exists>s1 s2 usr key. storeOk s1 \<and>
    verifyCode (memAuthOps 0 0) sampleConfig (\<lambda>x. u ''h'') (\<lambda>v. Inr ()) (\<lambda>i j f. Inr ()) sampleMail (StrV [32, 107]) None 5 s1
      = (s2, Inr (usr, key, ()))"
  using right_code_run [where send = "\<lambda>a c. Inr ()" and secondFactor = "\<lambda>v. Inr ()" and newSession = "\<lambda>i j f. Inr ()" and
      sha = "\<lambda>x. u ''h''" and f = "()" and sess = "()",
      OF sample_mail sample_hypotheses(1-3) sample_sha sample_hypotheses(9) refl refl refl sample_hypotheses(4-8,10)] by blast

theorem code_signs_owner_in_witness:
  "\<exists>s s' usr key.
    verifyCode (memAuthOps 0 0) sampleConfig (\<lambda>x. u ''h'') (\<lambda>v. Inr ()) (\<lambda>i j f. Inr ()) sampleMail (StrV [32, 107]) None 5 s
      = (s', Inr (usr, key, ())) \<and> findUserIdByProvenEmail s' (u ''j@x.co'') = Some (userNo usr)"
proof -
  obtain s s' usr key where ok: "storeOk s" and v: "verifyCode (memAuthOps 0 0) sampleConfig (\<lambda>x. u ''h'') (\<lambda>v. Inr ())
      (\<lambda>i j f. Inr ()) sampleMail (StrV [32, 107]) None 5 s = (s', Inr (usr, key, ()))"
    using sample_verified by blast
  obtain a where "normalizeEmail sampleMail = Some a" "findUserIdByProvenEmail s' a = Some (userNo usr)"
    using code_signs_owner_in [OF ok v] by blast
  then have "findUserIdByProvenEmail s' (u ''j@x.co'') = Some (userNo usr)" using sample_mail by simp
  then show ?thesis using v by blast
qed

theorem refused_code_changes_nothing_witness:
  "case verifyCode (memAuthOps 0 0) sampleConfig (\<lambda>x. u ''h'') (\<lambda>v. Inr ()) (\<lambda>i j f. Inr ()) Null (StrV [107]) None 5 newAuthStore of
     (s', r) \<Rightarrow> r = (Inl (CodeError InvalidEmail) :: email_error + AuthUser \<times> AuthKey \<times> unit) \<and> findUser s' = findUser newAuthStore"
proof -
  have v: "verifyCode (memAuthOps 0 0) sampleConfig (\<lambda>x. u ''h'') (\<lambda>v. Inr ()) (\<lambda>i j f. Inr ()) Null (StrV [107]) None 5 newAuthStore
      = (newAuthStore, Inl (CodeError InvalidEmail) :: email_error + AuthUser \<times> AuthKey \<times> unit)"
    by (simp add: verifyCode_def requireEmail_def normalizeEmail_def parseBareAddress_def)
  from refused_code_changes_nothing [OF newAuthStore_ok v] show ?thesis unfolding v by simp
qed

definition sampleRow :: ChallengeRow where "sampleRow = \<lparr>rowHash = u ''h'', attempts = 0, rowExpiresAt = 900\<rparr>"

definition sampleProofStore :: "(units, ChallengeRow) jsmap \<Rightarrow> MemoryAuthStore" where
  "sampleProofStore c = (authRun [CreateUser 0 0 sampleKey] newAuthStore)\<lparr>challenges := c\<rparr>"

lemma sample_created:
  "authRun [CreateUser 0 0 sampleKey] newAuthStore = \<lparr>users = [(1, \<lparr>userNo = 1, userCreatedAt = 0, deletedAt = None\<rparr>)],
     authKeys = [(1, \<lparr>keyMethod = u ''p'', subject = u ''j@x.co'', email = Some (u ''j@x.co''), secret = None, provenAt = Some 5,
        keyId = 1, userId = 1, createdAt = 0, updatedAt = 0\<rparr>)],
     owners = [(u ''j@x.co'', 1)], challenges = [], nextUserId = 2, nextKeyId = 2\<rparr>"
  by (simp add: createUserWithKey_def sample_checked assertInsertable_def provenEmail_def assertOwnable_def newAuthStore_def
      findKeyIn_def insertKey_def claimAddress_def Let_def jm_set_def jm_drop_def NewAuthKey.defs del: u_Cons)

lemma sample_purpose: "storeText MAX_METHOD_LENGTH EMAIL_PROOF_PURPOSE"
  "storeText MAX_SUBJECT_LENGTH (proofSubject (\<lambda>x. u ''h'') 1 (u ''j@x.co''))"
  unfolding EMAIL_PROOF_PURPOSE_def proofSubject_def
  by (rule ascii_storeText; simp add: MAX_METHOD_LENGTH_def MAX_SUBJECT_LENGTH_def code_def show_int_def show_nat.simps digit_char_def)+

lemma sample_live: "liveUser (memAuthOps 0 0) (js_int 1) (sampleProofStore c) = Inr \<lparr>userNo = 1, userCreatedAt = 0, deletedAt = None\<rparr>"
proof -
  have "isStoreId (js_int 1)" by (simp add: isStoreId_def js_isSafeInteger_def MAX_ID_def MAX_SAFE_INTEGER_def)
  then show ?thesis by (simp add: liveUser_def findUser_def sampleProofStore_def sample_created del: u_Cons authRun_simps)
qed

lemma sample_proof_guess:
  "guessCode (memAuthOps 0 0) sampleConfig EMAIL_PROOF_PURPOSE (proofSubject (\<lambda>x. u ''h'') 1 (u ''j@x.co'')) (u ''h'') (Some 5)
     (sampleProofStore [(challengeId EMAIL_PROOF_PURPOSE (proofSubject (\<lambda>x. u ''h'') 1 (u ''j@x.co'')), sampleRow)])
   = (sampleProofStore [], Inr ())"
proof -
  let ?g = "\<lparr>guessPurpose = EMAIL_PROOF_PURPOSE, guessFor = proofSubject (\<lambda>x. u ''h'') 1 (u ''j@x.co''), guessHash = u ''h'',
      maxAttempts = js_int (codeMaxAttempts sampleConfig), guessNow = Some 5\<rparr>"
  have "checkAttemptChallenge ?g = Inr (5, 5)"
    using sample_purpose sample_text(3) by (simp add: checkAttemptChallenge_def sampleConfig_def MAX_ID_def del: u_Cons)
  then show ?thesis
    by (simp add: guessCode_def awaited_def attemptChallenge_def sampleProofStore_def sampleRow_def jm_delete_def del: u_Cons authRun_simps)
qed

lemma sample_proof_run:
  "proofProveAddress (memAuthOps 0 0) sampleConfig (\<lambda>x. u ''h'') (js_int 1) sampleMail (StrV [107]) 5
     (sampleProofStore [(challengeId EMAIL_PROOF_PURPOSE (proofSubject (\<lambda>x. u ''h'') 1 (u ''j@x.co'')), sampleRow)])
   = (sampleProofStore [], Inr (map snd (authKeys (sampleProofStore []))))"
proof -
  have keys: "proveFor (memAuthOps 0 0) 1 (u ''j@x.co'') (Some 5) (sampleProofStore []) =
      (sampleProofStore [], Inr (map snd (authKeys (sampleProofStore []))))"
    by (simp add: proveFor_def findUserIdByProvenEmail_def listKeys_def sampleProofStore_def sample_created awaited_def Let_def
        del: u_Cons authRun_simps)
  have hash: "hashProof (\<lambda>x. u ''h'') i a c = u ''h''" for i a c by (simp add: hashProof_def del: u_Cons)
  have due: "newDate 5 = Some 5" by (simp add: newDate_def)
  show ?thesis
    unfolding proofProveAddress_def requireEmail_def sample_mail option.case sum.case sample_live
    by (simp add: sample_proof_guess keys awaited_def hash due del: u_Cons authRun_simps)
qed

theorem proven_for_session_user_witness:
  "findUserIdByProvenEmail (sampleProofStore []) (u ''j@x.co'') = Some 1 \<and>
   normalizeEmail sampleMail = Some (u ''j@x.co'')"
proof -
  have "storeOk (sampleProofStore c)" for c
    unfolding sampleProofStore_def storeOk_challenges by (rule storeOk_run [OF newAuthStore_ok])
  from proven_for_session_user [OF this sample_proof_run] show ?thesis
    using sample_mail by auto
qed

end
