(* ===== verification/Tz.thy ===== *)
theory Tz
  imports Date Units
begin

text \<open>
  Time zones (\<open>time/tz.ts\<close>, \<open>time/formatter-cache.ts\<close>). What \<open>Intl\<close> prints for a zone is an argument, the record
  \<open>Intl\<close>; \<open>keepsTime\<close> (theory TzClock) says what it documents for a zone whose offset from UTC is a given function
  of the instant. On it, around offsets of whole minutes: \<open>resolveWallClock\<close> finds exactly the instants that read as a wall clock, both readings of
  an instant lead back to it, and stepping days in a zone is stepping the calendar.
\<close>

section \<open>Intl and its formatters\<close>

record Intl =
  zoneKnown :: "string \<Rightarrow> bool"
  localeKnown :: "string \<Rightarrow> bool"
  formatToParts :: "string \<Rightarrow> string \<Rightarrow> (string \<times> string) list \<Rightarrow> int \<Rightarrow> (string \<times> string) list"
  formatText :: "string \<Rightarrow> string \<Rightarrow> (string \<times> string) list \<Rightarrow> int \<Rightarrow> units"
  supportedZones :: "string list option"
  resolvedZone :: "string \<Rightarrow> string"
  compareEnglish :: "string \<Rightarrow> string \<Rightarrow> int"

datatype OptionSetName = LongDateTime | LongDate | TimeOfDay | ShortDateTime | IsoDateSet | ShortWeekday

fun optionSets :: "OptionSetName \<Rightarrow> (string \<times> string) list" where
  "optionSets LongDateTime =
     [(''weekday'', ''long''), (''day'', ''numeric''), (''month'', ''long''), (''year'', ''numeric''),
      (''hour'', ''2-digit''), (''minute'', ''2-digit''), (''hourCycle'', ''h23'')]"
| "optionSets LongDate = [(''weekday'', ''long''), (''day'', ''numeric''), (''month'', ''long''), (''year'', ''numeric'')]"
| "optionSets TimeOfDay = [(''hour'', ''2-digit''), (''minute'', ''2-digit''), (''hourCycle'', ''h23'')]"
| "optionSets ShortDateTime =
     [(''weekday'', ''short''), (''day'', ''numeric''), (''month'', ''short''),
      (''hour'', ''2-digit''), (''minute'', ''2-digit''), (''hourCycle'', ''h23'')]"
| "optionSets IsoDateSet = [(''year'', ''numeric''), (''month'', ''2-digit''), (''day'', ''2-digit'')]"
| "optionSets ShortWeekday = [(''weekday'', ''short'')]"

definition CANONICAL_LOCALE :: string where "CANONICAL_LOCALE = ''en-GB''"

definition FORMATTER_CACHE_LIMIT :: nat where "FORMATTER_CACHE_LIMIT = 500"

text \<open>One lookup in a formatter cache; \<open>built\<close> may throw, and then nothing is kept.\<close>

definition formatterCache :: "string \<Rightarrow> js_error + 'f \<Rightarrow> (string, 'f) jsmap \<Rightarrow> (string, 'f) jsmap \<times> (js_error + 'f)" where
  "formatterCache key built cache =
     (case jm_get cache key of
        Some f \<Rightarrow> (cache, Inr f)
      | None \<Rightarrow>
          let cleared = (if length cache \<ge> FORMATTER_CACHE_LIMIT then [] else cache)
          in case built of Inl e \<Rightarrow> (cleared, Inl e) | Inr f \<Rightarrow> (jm_set key f cleared, Inr f))"

text \<open>The formatter of an option set, applied: a wrong zone or locale throws, and so does an invalid date.\<close>

definition zonedFormatter :: "Intl \<Rightarrow> (string \<times> string) list \<Rightarrow> string \<Rightarrow> string \<Rightarrow> (int \<Rightarrow> 'a) \<Rightarrow> jsdate \<Rightarrow> js_error + 'a" where
  "zonedFormatter intl options tz locale apply d =
     (if \<not> localeKnown intl locale then Inl (RangeErr ''Incorrect locale information provided'')
      else if \<not> zoneKnown intl tz then Inl (RangeErr ''Invalid time zone specified'')
      else case d of None \<Rightarrow> Inl (RangeErr ''Invalid time value'') | Some t \<Rightarrow> Inr (apply t))"

definition partsOf :: "Intl \<Rightarrow> (string \<times> string) list \<Rightarrow> string \<Rightarrow> jsdate \<Rightarrow> js_error + (string \<times> string) list" where
  "partsOf intl options tz = zonedFormatter intl options tz CANONICAL_LOCALE (formatToParts intl CANONICAL_LOCALE tz options)"

definition textOf :: "Intl \<Rightarrow> OptionSetName \<Rightarrow> string \<Rightarrow> string \<Rightarrow> jsdate \<Rightarrow> js_error + units" where
  "textOf intl name tz locale = zonedFormatter intl (optionSets name) tz locale (formatText intl locale tz (optionSets name))"

definition requiredPart :: "(string \<times> string) list \<Rightarrow> string \<Rightarrow> js_error + string" where
  "requiredPart parts type =
     (case map_of parts type of None \<Rightarrow> Inl (PlainErr (''Intl did not produce a part: '' @ type)) | Some v \<Rightarrow> Inr v)"

definition isValidTimeZone :: "Intl \<Rightarrow> string \<Rightarrow> bool" where
  "isValidTimeZone intl tz = zoneKnown intl tz"

definition validTimeZoneOr :: "Intl \<Rightarrow> string option \<Rightarrow> string \<Rightarrow> string" where
  "validTimeZoneOr intl tz fallback =
     (case tz of None \<Rightarrow> fallback | Some z \<Rightarrow> if z \<noteq> [] \<and> isValidTimeZone intl z then z else fallback)"

definition isoDateInTz :: "Intl \<Rightarrow> jsdate \<Rightarrow> string \<Rightarrow> js_error + string" where
  "isoDateInTz intl instant tz =
     andThen (partsOf intl (optionSets IsoDateSet) tz instant) (\<lambda>parts.
     andThen (requiredPart parts ''year'') (\<lambda>year.
     andThen (requiredPart parts ''month'') (\<lambda>month.
     andThen (requiredPart parts ''day'') (\<lambda>day.
       Inr (padStart 4 (CHR ''0'') year @ ''-'' @ month @ ''-'' @ day)))))"

definition todayInTz :: "Intl \<Rightarrow> int \<Rightarrow> string \<Rightarrow> js_error + string" where
  "todayInTz intl now tz = isoDateInTz intl (newDate now) tz"

definition hhmmInTz :: "Intl \<Rightarrow> jsdate \<Rightarrow> string \<Rightarrow> js_error + string" where
  "hhmmInTz intl instant tz =
     andThen (partsOf intl (optionSets TimeOfDay) tz instant) (\<lambda>parts.
     andThen (requiredPart parts ''hour'') (\<lambda>hour.
     andThen (requiredPart parts ''minute'') (\<lambda>minute.
       Inr (hour @ '':'' @ minute))))"

section \<open>The offset and the wall clock of an instant\<close>

text \<open>A match of \<open>GMT([+-])(\d{1,2})(?::(\d{2}))?\<close> at the start of a text, in minutes.\<close>

definition gmtHere :: "string \<Rightarrow> int option" where
  "gmtHere s =
     (if take 3 s = ''GMT'' \<and> length s \<ge> 5 \<and> s ! 3 \<in> {CHR ''+'', CHR ''-''} \<and> isDigit (s ! 4) then
        let n = (if length s \<ge> 6 \<and> isDigit (s ! 5) then 2 else 1);
            hours = readNat (take n (drop 4 s)); r = drop (4 + n) s;
            minutes = (if length r \<ge> 3 \<and> r ! 0 = CHR '':'' \<and> isDigit (r ! 1) \<and> isDigit (r ! 2)
                       then readNat (take 2 (drop 1 r)) else 0)
        in Some ((if s ! 3 = CHR ''-'' then -1 else 1) * int (hours * 60 + minutes))
      else None)"

fun gmtSearch :: "string \<Rightarrow> int option" where
  "gmtSearch [] = None"
| "gmtSearch (c # s) = (case gmtHere (c # s) of Some m \<Rightarrow> Some m | None \<Rightarrow> gmtSearch s)"

definition offsetFormatter :: "(string \<times> string) list" where
  "offsetFormatter = [(''timeZoneName'', ''shortOffset'')]"

definition tzOffsetMinutes :: "Intl \<Rightarrow> jsdate \<Rightarrow> string \<Rightarrow> js_error + int" where
  "tzOffsetMinutes intl instant tz =
     andThen (partsOf intl offsetFormatter tz instant) (\<lambda>parts.
       Inr (orElse (gmtSearch (orElse (map_of parts ''timeZoneName'') ''GMT'')) 0))"

definition canonicalWallClockFormatter :: "(string \<times> string) list" where
  "canonicalWallClockFormatter =
     [(''year'', ''numeric''), (''month'', ''2-digit''), (''day'', ''2-digit''), (''hour'', ''2-digit''),
      (''minute'', ''2-digit''), (''hourCycle'', ''h23'')]"

definition canonicalWallClock :: "Intl \<Rightarrow> jsdate \<Rightarrow> string \<Rightarrow> js_error + string" where
  "canonicalWallClock intl instant tz =
     andThen (partsOf intl canonicalWallClockFormatter tz instant) (\<lambda>parts.
     andThen (requiredPart parts ''year'') (\<lambda>year.
     andThen (requiredPart parts ''month'') (\<lambda>month.
     andThen (requiredPart parts ''day'') (\<lambda>day.
     andThen (requiredPart parts ''hour'') (\<lambda>hour.
     andThen (requiredPart parts ''minute'') (\<lambda>minute.
       Inr (padStart 4 (CHR ''0'') year @ ''-'' @ month @ ''-'' @ day @ '' '' @ hour @ '':'' @ minute)))))))"

section \<open>Wall clocks to instants\<close>

record ScreenedCandidates =
  chosenMs :: int
  exactMs :: "int list"

definition hhmmPattern :: "string \<Rightarrow> bool" where
  "hhmmPattern s \<longleftrightarrow> length s = 5 \<and> s ! 2 = CHR '':'' \<and> list_all (\<lambda>i. isDigit (s ! i)) [0, 1, 3, 4]"

text \<open>The UTC instant whose fields are the requested ones, or the reason there is none.\<close>

definition naiveUtc :: "string \<Rightarrow> string \<Rightarrow> js_error + int" where
  "naiveUtc date time =
     (if \<not> isoDatePattern date \<or> \<not> hhmmPattern time
      then Inl (RangeErr ''Expected date as YYYY-MM-DD and time as HH:MM'')
      else let year = int (readNat (take 4 date)); month = int (readNat (take 2 (drop 5 date)));
               day = int (readNat (drop 8 date)); hour = int (readNat (take 2 time)); minute = int (readNat (drop 3 time))
        in case utcTime year (month - 1) day (hour * 3600000 + minute * 60000) of
          None \<Rightarrow> Inl (RangeErr ''Not a date and time'')
        | Some naive \<Rightarrow>
            if civilOfDay (naive div MS_PER_DAY) \<noteq> (year, month, day) \<or>
               naive div 3600000 mod 24 \<noteq> hour \<or> naive div 60000 mod 60 \<noteq> minute
            then Inl (RangeErr ''Not a real date and time'') else Inr naive)"

text \<open>\<open>naive - offset\<close> for each offset in use around it, without duplicates.\<close>

fun offsetCandidates :: "Intl \<Rightarrow> string \<Rightarrow> int \<Rightarrow> int list \<Rightarrow> int list \<Rightarrow> jsdate list \<Rightarrow> js_error + jsdate list" where
  "offsetCandidates intl tz naive [] seen candidates = Inr candidates"
| "offsetCandidates intl tz naive (probe # probes) seen candidates =
     andThen (tzOffsetMinutes intl (newDate probe) tz) (\<lambda>minutes.
       let offset = minutes * 60000 in
       if offset \<in> set seen then offsetCandidates intl tz naive probes seen candidates
       else offsetCandidates intl tz naive probes (offset # seen) (candidates @ [newDate (naive - offset)]))"

text \<open>The pass over the candidates: the earliest that is not before the request (\<open>None\<close> is Infinity), and the
  exact ones. A candidate that reads is a valid date.\<close>

fun screenLoop :: "Intl \<Rightarrow> string \<Rightarrow> string \<Rightarrow> jsdate list \<Rightarrow> int option \<Rightarrow> int list \<Rightarrow> js_error + (int option \<times> int list)" where
  "screenLoop intl tz requested [] earliest exact = Inr (earliest, exact)"
| "screenLoop intl tz requested (candidate # rest) earliest exact =
     andThen (canonicalWallClock intl candidate tz) (\<lambda>reading.
       if strLess reading requested then screenLoop intl tz requested rest earliest exact
       else let t = orElse candidate 0 in
         screenLoop intl tz requested rest (Some (case earliest of None \<Rightarrow> t | Some e \<Rightarrow> min e t))
           (if reading = requested then exact @ [t] else exact))"

definition screenCandidates :: "Intl \<Rightarrow> string \<Rightarrow> string \<Rightarrow> string \<Rightarrow> js_error + ScreenedCandidates" where
  "screenCandidates intl date time tz =
     andThen (naiveUtc date time) (\<lambda>naive.
     andThen (offsetCandidates intl tz naive [naive, naive - 86400000, naive + 86400000] [] []) (\<lambda>candidates.
     andThen (screenLoop intl tz (date @ '' '' @ padStart 5 (CHR ''0'') time) candidates None []) (\<lambda>(earliest, exact).
       case earliest of
         None \<Rightarrow> Inl (RangeErr ''No instant reads as the requested wall clock at minute resolution'')
       | Some e \<Rightarrow> Inr \<lparr>chosenMs = e, exactMs = (if length exact > 1 then sort exact else exact)\<rparr>)))"

definition zonedDateTime :: "Intl \<Rightarrow> string \<Rightarrow> string \<Rightarrow> string \<Rightarrow> js_error + jsdate" where
  "zonedDateTime intl date time tz = andThen (screenCandidates intl date time tz) (\<lambda>c. Inr (newDate (chosenMs c)))"

datatype WallClockKind = Unique | Gap | Overlap

record WallClockResolution =
  wallKind :: WallClockKind
  wallInstant :: jsdate
  wallLater :: "jsdate option"

definition resolveWallClock :: "Intl \<Rightarrow> string \<Rightarrow> string \<Rightarrow> string \<Rightarrow> js_error + WallClockResolution" where
  "resolveWallClock intl date time tz =
     andThen (screenCandidates intl date time tz) (\<lambda>c.
       let i = newDate (chosenMs c) in
       Inr (if length (exactMs c) = 0 then \<lparr>wallKind = Gap, wallInstant = i, wallLater = None\<rparr>
            else if length (exactMs c) = 1 then \<lparr>wallKind = Unique, wallInstant = i, wallLater = None\<rparr>
            else \<lparr>wallKind = Overlap, wallInstant = i, wallLater = Some (newDate (last (exactMs c)))\<rparr>))"

section \<open>Texts and steps\<close>

definition formatInstantLong :: "Intl \<Rightarrow> jsdate \<Rightarrow> string \<Rightarrow> string \<Rightarrow> js_error + units" where
  "formatInstantLong intl instant tz locale = textOf intl LongDateTime tz locale instant"

definition formatDateTimeLong :: "Intl \<Rightarrow> string \<Rightarrow> string \<Rightarrow> string \<Rightarrow> js_error + units" where
  "formatDateTimeLong intl date time tz =
     andThen (zonedDateTime intl date time tz) (\<lambda>i. formatInstantLong intl i tz CANONICAL_LOCALE)"

definition formatDateLong :: "Intl \<Rightarrow> string \<Rightarrow> string \<Rightarrow> js_error + units" where
  "formatDateLong intl date tz = andThen (zonedDateTime intl date ''12:00'' tz) (textOf intl LongDate tz CANONICAL_LOCALE)"

definition formatTimeOfDay :: "Intl \<Rightarrow> string \<Rightarrow> string \<Rightarrow> string \<Rightarrow> js_error + units" where
  "formatTimeOfDay intl date time tz = andThen (zonedDateTime intl date time tz) (textOf intl TimeOfDay tz CANONICAL_LOCALE)"

text \<open>The comma after the weekday goes: \<open>replace(/^([^,]+),/, "$1")\<close>.\<close>

definition formatInstantShort :: "Intl \<Rightarrow> jsdate \<Rightarrow> string \<Rightarrow> js_error + units" where
  "formatInstantShort intl instant tz =
     andThen (textOf intl ShortDateTime tz CANONICAL_LOCALE instant) (\<lambda>formatted.
       let h = takeWhile (\<lambda>c. c \<noteq> 44) formatted
       in Inr (if h \<noteq> [] then h @ drop (length h + 1) formatted else formatted))"

definition formatDateTimeShort :: "Intl \<Rightarrow> string \<Rightarrow> string \<Rightarrow> string \<Rightarrow> js_error + units" where
  "formatDateTimeShort intl date time tz = andThen (zonedDateTime intl date time tz) (\<lambda>i. formatInstantShort intl i tz)"

definition upperAscii :: "units \<Rightarrow> units" where
  "upperAscii = map (\<lambda>c. if 97 \<le> c \<and> c \<le> 122 then c - 32 else c)"

definition dayOfWeek :: "Intl \<Rightarrow> string \<Rightarrow> string \<Rightarrow> js_error + units" where
  "dayOfWeek intl date tz =
     andThen (andThen (zonedDateTime intl date ''12:00'' tz) (textOf intl ShortWeekday tz CANONICAL_LOCALE)) (\<lambda>s. Inr (upperAscii s))"

text \<open>\<open>setUTCDate\<close> with a shifted day adds whole UTC days.\<close>

definition addDays :: "Intl \<Rightarrow> string \<Rightarrow> int \<Rightarrow> string option \<Rightarrow> js_error + string" where
  "addDays intl date n tz =
     (case tz of
        None \<Rightarrow> andThen (parseIsoDate date) (\<lambda>ms. formatIsoDate (ms + n * 86400000))
      | Some z \<Rightarrow>
          andThen (zonedDateTime intl date ''12:00'' z) (\<lambda>noon.
            isoDateInTz intl (case noon of None \<Rightarrow> None | Some t \<Rightarrow> newDate (t + n * 86400000)) z))"

text \<open>\<open>%\<close> takes the sign of the dividend.\<close>

definition minToHHMM :: "int \<Rightarrow> string" where
  "minToHHMM minutes = pad2 (minutes div 60) @ '':'' @ pad2 (if minutes < 0 then - (- minutes mod 60) else minutes mod 60)"

section \<open>Names and labels\<close>

definition canonicalTimeZone :: "Intl \<Rightarrow> string \<Rightarrow> js_error + string" where
  "canonicalTimeZone intl tz =
     (case supportedZones intl of
        None \<Rightarrow> Inl (TypeErr ''Intl.supportedValuesOf is not a function'')
      | Some supported \<Rightarrow>
          if tz \<in> set supported then Inr tz
          else if \<not> zoneKnown intl tz then Inl (RangeErr ''Invalid time zone specified'')
          else let resolved = resolvedZone intl tz in
            Inr (if CHR ''/'' \<notin> set tz then resolved
                 else if map lowerChar resolved = map lowerChar tz then resolved else tz))"

definition canonicalValidTimeZoneOrNull :: "Intl \<Rightarrow> string option \<Rightarrow> js_error + string option" where
  "canonicalValidTimeZoneOrNull intl value =
     (case value of
        None \<Rightarrow> Inr None
      | Some v \<Rightarrow> if v = [] \<or> \<not> isValidTimeZone intl v then Inr None else andThen (canonicalTimeZone intl v) (\<lambda>z. Inr (Some z)))"

definition canonicalTimeZoneOr :: "Intl \<Rightarrow> string option \<Rightarrow> string \<Rightarrow> js_error + string" where
  "canonicalTimeZoneOr intl value fallback =
     andThen (canonicalValidTimeZoneOrNull intl value) (\<lambda>z. Inr (orElse z fallback))"

definition spaced :: "string \<Rightarrow> string" where
  "spaced = map (\<lambda>c. if c = CHR ''_'' then CHR '' '' else c)"

definition zoneCity :: "string \<Rightarrow> string" where
  "zoneCity tz = spaced (orElse (afterLast (CHR ''/'') tz) tz)"

definition offsetLabel :: "int \<Rightarrow> string \<Rightarrow> string" where
  "offsetLabel minutes label =
     (let sign = (if minutes < 0 then ''-'' else ''+''); abs = \<bar>minutes\<bar>; hours = abs div 60; rest = abs mod 60
      in if rest = 0 then label @ sign @ show_int hours else label @ sign @ show_int hours @ '':'' @ pad2 rest)"

definition zoneOffsetLabel :: "Intl \<Rightarrow> string \<Rightarrow> jsdate \<Rightarrow> string \<Rightarrow> js_error + string" where
  "zoneOffsetLabel intl tz instant label =
     (if isValidTimeZone intl tz then andThen (tzOffsetMinutes intl instant tz) (\<lambda>m. Inr (offsetLabel m label)) else Inr tz)"

record ZoneLabelParts =
  labelCity :: string
  labelArea :: string
  labelOffset :: string

definition joinZoneLabel :: "ZoneLabelParts \<Rightarrow> string" where
  "joinZoneLabel p =
     (if labelArea p \<noteq> [] then labelCity p @ '', '' @ labelArea p @ [CHR '' '', CHR 0xB7, CHR '' ''] @ labelOffset p
      else labelCity p @ [CHR '' '', CHR 0xB7, CHR '' ''] @ labelOffset p)"

definition zoneArea :: "string \<Rightarrow> string" where
  "zoneArea tz = (if CHR ''/'' \<in> set tz then takeWhile (\<lambda>c. c \<noteq> CHR ''/'') tz else [])"

definition zoneLabel :: "Intl \<Rightarrow> string \<Rightarrow> jsdate \<Rightarrow> string option \<Rightarrow> (ZoneLabelParts \<Rightarrow> string) option \<Rightarrow> js_error + string" where
  "zoneLabel intl tz instant label join =
     (if \<not> isValidTimeZone intl tz then Inr tz
      else andThen (zoneOffsetLabel intl tz instant (orElse label ''GMT'')) (\<lambda>offset.
        Inr (orElse join joinZoneLabel \<lparr>labelCity = zoneCity tz, labelArea = spaced (zoneArea tz), labelOffset = offset\<rparr>)))"

record TimeZoneOption =
  zoneValue :: string
  zoneTown :: string
  zoneRegion :: string
  offsetMinutes :: int
  offsetText :: string
  zoneText :: string
  searchText :: string

definition zoneOption :: "Intl \<Rightarrow> jsdate \<Rightarrow> string \<Rightarrow> string \<Rightarrow> js_error + TimeZoneOption" where
  "zoneOption intl instant label value =
     andThen (tzOffsetMinutes intl instant value) (\<lambda>minutes.
       let city = zoneCity value; area = zoneArea value; offset = offsetLabel minutes label
       in Inr \<lparr>zoneValue = value, zoneTown = city, zoneRegion = area, offsetMinutes = minutes, offsetText = offset,
                zoneText = city @ '', '' @ offset,
                searchText = map lowerChar (joinWith '' '' [spaced value, city, area, offset])\<rparr>)"

definition compareOptions :: "Intl \<Rightarrow> TimeZoneOption \<Rightarrow> TimeZoneOption \<Rightarrow> int" where
  "compareOptions intl a b =
     (if offsetMinutes a - offsetMinutes b \<noteq> 0 then offsetMinutes a - offsetMinutes b
      else compareEnglish intl (zoneTown a) (zoneTown b))"

definition runtimeTimeZones :: "Intl \<Rightarrow> string list" where
  "runtimeTimeZones intl =
     (let zones = orElse (supportedZones intl) [] in if ''UTC'' \<in> set zones then zones else ''UTC'' # zones)"

text \<open>\<open>new Set\<close> keeps the first of equal names.\<close>

definition timeZoneOptions :: "Intl \<Rightarrow> jsdate \<Rightarrow> string option \<Rightarrow> string list option \<Rightarrow> js_error + TimeZoneOption list" where
  "timeZoneOptions intl instant label zones =
     andThen (mapE (zoneOption intl instant (orElse label ''GMT''))
         (filter (isValidTimeZone intl) (rev (remdups (rev (orElse zones (runtimeTimeZones intl))))))) (\<lambda>rows.
       Inr (jsSort (compareOptions intl) rows))"

end
