(* ===== verification/TzClock.thy ===== *)
theory TzClock
  imports Tz
begin

text \<open>
  What the zone functions of \<open>Tz\<close> answer for a zone whose clock runs at a known offset from UTC: the wall
  clock of an instant, the instants of a wall clock, and the calendar steps in a zone.
\<close>

section \<open>What Intl prints for a zone\<close>

definition gmtName :: "int \<Rightarrow> string" where
  "gmtName m =
     (if m = 0 then ''GMT''
      else ''GMT'' @ (if m < 0 then ''-'' else ''+'') @ show_nat (nat (\<bar>m\<bar> div 60)) @
        (if \<bar>m\<bar> mod 60 = 0 then '''' else CHR '':'' # pad2 (\<bar>m\<bar> mod 60)))"

definition dayNo :: "int \<Rightarrow> int" where "dayNo l = l div MS_PER_DAY"
definition hourNo :: "int \<Rightarrow> int" where "hourNo l = l div 3600000 mod 24"
definition minuteNo :: "int \<Rightarrow> int" where "minuteNo l = l div 60000 mod 60"
definition hourText :: "int \<Rightarrow> string" where "hourText l = pad2 (hourNo l)"
definition minuteText :: "int \<Rightarrow> string" where "minuteText l = pad2 (minuteNo l)"

definition printsOffset :: "Intl \<Rightarrow> string \<Rightarrow> int \<Rightarrow> int \<Rightarrow> bool" where
  "printsOffset intl tz t m \<longleftrightarrow>
     map_of (formatToParts intl CANONICAL_LOCALE tz offsetFormatter t) ''timeZoneName'' = Some (gmtName m)"

text \<open>The fields printed for an instant whose local time, read as if it were UTC, is \<open>l\<close>.\<close>

definition printsClock :: "Intl \<Rightarrow> string \<Rightarrow> int \<Rightarrow> int \<Rightarrow> bool" where
  "printsClock intl tz t l \<longleftrightarrow>
     (case civilOfDay (dayNo l) of (y, m, d) \<Rightarrow>
        let part = (\<lambda>options. map_of (formatToParts intl CANONICAL_LOCALE tz options t)) in
        part (optionSets IsoDateSet) ''year'' = Some (show_int y) \<and>
        part (optionSets IsoDateSet) ''month'' = Some (pad2 m) \<and>
        part (optionSets IsoDateSet) ''day'' = Some (pad2 d) \<and>
        part (optionSets TimeOfDay) ''hour'' = Some (hourText l) \<and>
        part (optionSets TimeOfDay) ''minute'' = Some (minuteText l) \<and>
        part canonicalWallClockFormatter ''year'' = Some (show_int y) \<and>
        part canonicalWallClockFormatter ''month'' = Some (pad2 m) \<and>
        part canonicalWallClockFormatter ''day'' = Some (pad2 d) \<and>
        part canonicalWallClockFormatter ''hour'' = Some (hourText l) \<and>
        part canonicalWallClockFormatter ''minute'' = Some (minuteText l))"

text \<open>The zone is \<open>off t\<close> milliseconds east of UTC at instant \<open>t\<close>, less than a day. Intl prints the local
  clock for local years 1 to 9999 and, where the offset is in whole minutes, the offset. Of an offset with
  seconds (local mean time, before standard time came) it says nothing: what Intl prints there is not assumed.\<close>

definition keepsTime :: "Intl \<Rightarrow> string \<Rightarrow> (int \<Rightarrow> int) \<Rightarrow> bool" where
  "keepsTime intl tz off \<longleftrightarrow> zoneKnown intl tz \<and> localeKnown intl CANONICAL_LOCALE \<and>
     (\<forall>t. \<bar>off t\<bar> < MS_PER_DAY \<and> (off t mod 60000 = 0 \<longrightarrow> printsOffset intl tz t (off t div 60000)) \<and>
        (fst (civilOfDay (dayNo (t + off t))) \<in> {1..9999} \<longrightarrow> printsClock intl tz t (t + off t)))"

lemma keepsTimeD:
  assumes "keepsTime intl tz off"
  shows "zoneKnown intl tz" "localeKnown intl CANONICAL_LOCALE" "\<bar>off t\<bar> < MS_PER_DAY"
    "off t mod 60000 = 0 \<Longrightarrow> printsOffset intl tz t (off t div 60000)"
    "civilOfDay (dayNo (t + off t)) = (y, m, d) \<Longrightarrow> 1 \<le> y \<Longrightarrow> y \<le> 9999 \<Longrightarrow> printsClock intl tz t (t + off t)"
proof -
  show "zoneKnown intl tz" "localeKnown intl CANONICAL_LOCALE" "\<bar>off t\<bar> < MS_PER_DAY"
    "off t mod 60000 = 0 \<Longrightarrow> printsOffset intl tz t (off t div 60000)"
    using assms by (simp_all add: keepsTime_def)
  show "civilOfDay (dayNo (t + off t)) = (y, m, d) \<Longrightarrow> 1 \<le> y \<Longrightarrow> y \<le> 9999 \<Longrightarrow> printsClock intl tz t (t + off t)"
    using assms unfolding keepsTime_def by (metis atLeastAtMost_iff fst_conv)
qed

section \<open>Reading an instant\<close>

definition wallDate :: "int \<Rightarrow> string" where
  "wallDate l = (case civilOfDay (dayNo l) of (y, m, d) \<Rightarrow> dateText y m d)"

definition hhmmText :: "int \<Rightarrow> int \<Rightarrow> string" where "hhmmText h mi = pad2 h @ '':'' @ pad2 mi"

definition wallClock :: "int \<Rightarrow> string" where
  "wallClock l = wallDate l @ '' '' @ hourText l @ '':'' @ minuteText l"

definition localYear :: "int \<Rightarrow> int" where "localYear l = fst (civilOfDay (dayNo l))"

lemma pad_year: "0 \<le> y \<Longrightarrow> y \<le> 9999 \<Longrightarrow> padStart 4 (CHR ''0'') (show_int y) = paddedYear y"
  by (simp add: paddedYear_def)

lemma partsOf_ok:
  "zoneKnown intl tz \<Longrightarrow> localeKnown intl CANONICAL_LOCALE \<Longrightarrow>
   partsOf intl options tz (Some t) = Inr (formatToParts intl CANONICAL_LOCALE tz options t)"
  by (simp add: partsOf_def zonedFormatter_def)

lemma zone_readings:
  assumes "keepsTime intl tz off" "1 \<le> localYear (t + off t)" "localYear (t + off t) \<le> 9999"
  shows "isoDateInTz intl (Some t) tz = Inr (wallDate (t + off t))"
    "hhmmInTz intl (Some t) tz = Inr (hourText (t + off t) @ '':'' @ minuteText (t + off t))"
    "canonicalWallClock intl (Some t) tz = Inr (wallClock (t + off t))"
proof -
  obtain y m d where c: "civilOfDay (dayNo (t + off t)) = (y, m, d)" by (metis prod_cases3)
  have y: "1 \<le> y" "y \<le> 9999" using assms(2,3) c by (simp_all add: localYear_def)
  note k = keepsTimeD [OF assms(1)]
  note parts = k(5) [OF c y, unfolded printsClock_def c prod.case Let_def]
  note ok = partsOf_ok [OF k(1,2)]
  show "isoDateInTz intl (Some t) tz = Inr (wallDate (t + off t))"
    using parts pad_year [of y] y by (simp add: isoDateInTz_def ok requiredPart_def wallDate_def c dateText_def)
  show "hhmmInTz intl (Some t) tz = Inr (hourText (t + off t) @ '':'' @ minuteText (t + off t))"
    using parts by (simp add: hhmmInTz_def ok requiredPart_def)
  show "canonicalWallClock intl (Some t) tz = Inr (wallClock (t + off t))"
    using parts pad_year [of y] y
    by (simp add: canonicalWallClock_def ok requiredPart_def wallClock_def wallDate_def c dateText_def)
qed

text \<open>The printed offset reads back.\<close>

lemma gmtHere_name:
  assumes "0 < \<bar>m\<bar>" "\<bar>m\<bar> < 1440"
  shows "gmtHere (gmtName m) = Some m"
proof -
  let ?a = "\<bar>m\<bar>" and ?s = "if m < 0 then CHR ''-'' else CHR ''+''"
  define h r where "h = nat (?a div 60)" and "r = ?a mod 60"
  have hr: "h < 24" "0 \<le> r" "r < 60" "?a = 60 * int h + r" using assms by (auto simp: h_def r_def)
  define ds where "ds = (if h < 10 then [digit_char h] else [digit_char (h div 10), digit_char (h mod 10)])"
  have ds: "show_nat h = ds" "length ds \<in> {1, 2}" "\<forall>c \<in> set ds. isDigit c" "readNat ds = h"
  proof -
    have "h div 10 < 10" using hr(1) by linarith
    then show e: "show_nat h = ds" by (simp add: ds_def show_nat.simps [of h] show_nat.simps [of "h div 10"])
    show "length ds \<in> {1, 2}" by (simp add: ds_def)
    show "\<forall>c \<in> set ds. isDigit c" "readNat ds = h" using show_nat_digits [of _ h] readNat_show_nat [of h] e by auto
  qed
  obtain p q where pq: "pad2 r = [p, q]" "isDigit p" "isDigit q" "readNat [p, q] = nat r"
    using pad2_text [of r] hr by auto
  define tail where "tail = (if r = 0 then [] else [CHR '':'', p, q])"
  have name: "gmtName m = ''GMT'' @ ?s # ds @ tail"
    using assms ds(1) pq(1) by (auto simp: gmtName_def tail_def r_def h_def)
  have colon: "\<not> isDigit (CHR '':'')" by (simp add: isDigit_def code_def)
  consider a where "ds = [a]" "isDigit a" | a b where "ds = [a, b]" "isDigit a" "isDigit b"
    using ds(2,3) by (auto simp: length_Suc_conv numeral_2_eq_2)
  then have "gmtHere (gmtName m) = Some ((if m < 0 then -1 else 1) * (60 * int h + r))"
  proof cases
    case 1
    then show ?thesis unfolding name using pq ds(4) hr(2) colon by (auto simp: gmtHere_def tail_def Let_def)
  next
    case 2
    then show ?thesis unfolding name using pq ds(4) hr(2) colon by (auto simp: gmtHere_def tail_def Let_def)
  qed
  then show ?thesis using hr(4) by (auto split: if_splits)
qed

lemma tzOffset_reads:
  assumes "keepsTime intl tz off" "off t mod 60000 = 0"
  shows "tzOffsetMinutes intl (Some t) tz = Inr (off t div 60000)"
proof -
  note k = keepsTimeD [OF assms(1)]
  define m where "m = off t div 60000"
  have "off t = 60000 * m" using assms(2) mult_div_mod_eq [of 60000 "off t"] by (simp add: m_def)
  then have small: "\<bar>m\<bar> < 1440" using k(3) [of t] by (simp add: MS_PER_DAY_def)
  have "orElse (gmtSearch (gmtName m)) 0 = m"
  proof (cases "m = 0")
    case True
    then show ?thesis by (simp add: gmtName_def gmtHere_def)
  next
    case False
    have "gmtName m \<noteq> []" by (simp add: gmtName_def)
    then obtain c s where "gmtName m = c # s" by (cases "gmtName m") auto
    then show ?thesis using gmtHere_name [of m] small False by simp
  qed
  then show ?thesis
    using k(4) [of t] assms(2) by (simp add: tzOffsetMinutes_def partsOf_ok [OF k(1,2)] printsOffset_def m_def)
qed

section \<open>Wall clocks as texts and as times\<close>

definition minuteOf :: "int \<Rightarrow> int" where "minuteOf l = l div 60000"

lemma recombine: "60 * a + b = (x :: int) \<Longrightarrow> 24 * c + d = a \<Longrightarrow> x = c * 1440 + d * 60 + b"
  by simp

lemma minute_fields:
  shows "minuteOf l = dayNo l * 1440 + hourNo l * 60 + minuteNo l" "0 \<le> hourNo l" "hourNo l < 24" "0 \<le> minuteNo l" "minuteNo l < 60"
proof -
  have "l div 3600000 = l div 60000 div 60" "l div MS_PER_DAY = l div 60000 div 60 div 24"
    using zdiv_zmult2_eq [of 60 l 60000] zdiv_zmult2_eq [of 24 l 3600000] by (simp_all add: MS_PER_DAY_def)
  then show "minuteOf l = dayNo l * 1440 + hourNo l * 60 + minuteNo l"
    unfolding hourNo_def minuteNo_def minuteOf_def dayNo_def
    using recombine [OF mult_div_mod_eq [of 60 "l div 60000"] mult_div_mod_eq [of 24 "l div 60000 div 60"]] by simp
qed (simp_all add: hourNo_def minuteNo_def)

lemma fields_less:
  fixes n :: int
  assumes "0 \<le> h" "h < 24" "0 \<le> mi" "mi < 60" "0 \<le> h'" "h' < 24" "0 \<le> mi'" "mi' < 60"
  shows "(n < n' \<or> n = n' \<and> (h < h' \<or> h = h' \<and> mi < mi')) = (n * 1440 + h * 60 + mi < n' * 1440 + h' * 60 + mi')"
proof (cases n n' rule: linorder_cases)
  case less
  then have "n + 1 \<le> n'" by simp
  then have "(n + 1) * 1440 \<le> n' * 1440" by simp
  with less assms show ?thesis by auto
next
  case equal
  then show ?thesis using assms by (cases h h' rule: linorder_cases) auto
next
  case greater
  then have "n' + 1 \<le> n" by simp
  then have "(n' + 1) * 1440 \<le> n * 1440" by simp
  with greater assms show ?thesis by auto
qed

lemma strLess_wallClock:
  assumes "0 \<le> localYear k" "localYear k \<le> 9999" "0 \<le> localYear l" "localYear l \<le> 9999"
  shows "strLess (wallClock k) (wallClock l) \<longleftrightarrow> minuteOf k < minuteOf l"
proof -
  obtain y m d y' m' d' where c: "civilOfDay (dayNo k) = (y, m, d)" "civilOfDay (dayNo l) = (y', m', d')"
    by (metis prod_cases3)
  note ok = civilOfDay_ok [OF c(1)] civilOfDay_ok [OF c(2)]
  then have real: "realDate y m d" "realDate y' m' d'" using assms c by (simp_all add: realDate_def localYear_def)
  note f = minute_fields [of k] minute_fields [of l]
  have less: "strLess (dateText y m d) (dateText y' m' d') \<longleftrightarrow> dayNo k < dayNo l"
    "strLess (dateText y' m' d') (dateText y m d) \<longleftrightarrow> dayNo l < dayNo k"
    using strLess_dateText [OF real] strLess_dateText [OF real(2,1)] ok by simp_all
  have same: "dateText y m d = dateText y' m' d' \<longleftrightarrow> dayNo k = dayNo l"
  proof
    assume "dateText y m d = dateText y' m' d'"
    then show "dayNo k = dayNo l" using less by simp
  qed (use c in simp)
  have p: "length (dateText y m d) = length (dateText y' m' d')"
    "length (hourText k) = length (hourText l)" "hourText k = hourText l \<longleftrightarrow> hourNo k = hourNo l"
    "strLess (hourText k) (hourText l) \<longleftrightarrow> hourNo k < hourNo l"
    "strLess (minuteText k) (minuteText l) \<longleftrightarrow> minuteNo k < minuteNo l"
    using f realDate_facts(3) [OF real(1)] realDate_facts(3) [OF real(2)]
    by (simp_all add: hourText_def minuteText_def pad2_digits strLess_pad2 pad2_inj)
  have t: "wallClock k = dateText y m d @ '' '' @ hourText k @ '':'' @ minuteText k"
    "wallClock l = dateText y' m' d' @ '' '' @ hourText l @ '':'' @ minuteText l"
    by (simp_all add: wallClock_def wallDate_def c )
  show ?thesis
    unfolding t strLess_append [OF p(1)] strLess_same strLess_append [OF p(2)] less(1) same p(3,4,5) f(1) f(6)
    by (rule fields_less [OF f(2-5) f(7-10)])
qed

lemma wallClock_eq:
  assumes "0 \<le> localYear k" "localYear k \<le> 9999" "0 \<le> localYear l" "localYear l \<le> 9999"
  shows "wallClock k = wallClock l \<longleftrightarrow> minuteOf k = minuteOf l"
proof
  assume "wallClock k = wallClock l"
  then have "\<not> minuteOf k < minuteOf l" "\<not> minuteOf l < minuteOf k"
    using strLess_wallClock [OF assms] strLess_wallClock [OF assms(3,4,1,2)] by simp_all
  then show "minuteOf k = minuteOf l" by simp
next
  assume same: "minuteOf k = minuteOf l"
  have "x div 3600000 = minuteOf x div 60" "dayNo x = minuteOf x div 1440" for x
    using zdiv_zmult2_eq [of 60 x 60000] zdiv_zmult2_eq [of 1440 x 60000] by (simp_all add: MS_PER_DAY_def minuteOf_def dayNo_def)
  with same have "dayNo k = dayNo l" "hourNo k = hourNo l" "minuteNo k = minuteNo l"
    by (simp_all add: hourNo_def, simp add: minuteNo_def minuteOf_def)
  then show "wallClock k = wallClock l" by (simp add: wallClock_def wallDate_def hourText_def minuteText_def)
qed

definition wallTime :: "int \<Rightarrow> int \<Rightarrow> int \<Rightarrow> int \<Rightarrow> int \<Rightarrow> int" where
  "wallTime y m d h mi = MS_PER_DAY * dayFromCivil y m d + h * 3600000 + mi * 60000"

lemma wallTime_fields:
  assumes "0 \<le> h" "h < 24" "0 \<le> mi" "mi < 60"
  shows "dayNo (wallTime y m d h mi) = dayFromCivil y m d" "hourNo (wallTime y m d h mi) = h"
    "minuteNo (wallTime y m d h mi) = mi" "wallTime y m d h mi mod 60000 = 0"
proof -
  have n: "wallTime y m d h mi = 60000 * (1440 * dayFromCivil y m d + 60 * h + mi)"
    by (simp add: wallTime_def MS_PER_DAY_def)
  then show "wallTime y m d h mi mod 60000 = 0" by simp
  have minute: "minuteOf (wallTime y m d h mi) = 1440 * dayFromCivil y m d + 60 * h + mi" unfolding n minuteOf_def by simp
  have hour: "x div 3600000 = minuteOf x div 60" and day: "dayNo x = minuteOf x div 1440" for x
    using zdiv_zmult2_eq [of 60 x 60000] zdiv_zmult2_eq [of 1440 x 60000] by (simp_all add: MS_PER_DAY_def minuteOf_def dayNo_def)
  have sum: "1440 * dayFromCivil y m d + 60 * h + mi = 60 * (24 * dayFromCivil y m d + h) + mi" by simp
  show "minuteNo (wallTime y m d h mi) = mi" unfolding minuteNo_def minuteOf_def [symmetric] minute sum using assms
    by (simp only: mod_mult_self4 mod_pos_pos_trivial)
  have "(1440 * dayFromCivil y m d + 60 * h + mi) div 60 = 24 * dayFromCivil y m d + h" unfolding sum using assms
    by (simp add: div_pos_pos_trivial)
  then show "hourNo (wallTime y m d h mi) = h" unfolding hourNo_def hour minute using assms by (simp add: mod_pos_pos_trivial)
  show "dayNo (wallTime y m d h mi) = dayFromCivil y m d" unfolding day minute using assms by (simp add: div_pos_pos_trivial)
qed

lemma naiveUtc_run:
  assumes "realDate y m d" "100 \<le> y" "0 \<le> h" "h < 24" "0 \<le> mi" "mi < 60"
  shows "naiveUtc (dateText y m d) (hhmmText h mi) = Inr (wallTime y m d h mi)"
proof -
  let ?N = "wallTime y m d h mi"
  have v: "validCivil y m d" "y \<le> 9999" using assms by (simp_all add: realDate_def)
  note small = validCivil_small [OF v(1)]
  note facts = realDate_facts [OF assms(1)] and fields = wallTime_fields [OF assms(3-6), of y m d]
  obtain a b where h: "pad2 h = [a, b]" "isDigit a" "isDigit b" "readNat [a, b] = nat h" using pad2_text [of h] assms by auto
  obtain e f where mi: "pad2 mi = [e, f]" "isDigit e" "isDigit f" "readNat [e, f] = nat mi" using pad2_text [of mi] assms by auto
  have hm: "hhmmPattern (hhmmText h mi)" "readNat (take 2 (hhmmText h mi)) = nat h" "readNat (drop 3 (hhmmText h mi)) = nat mi"
    by (simp_all add: hhmmText_def hhmmPattern_def h mi)
  have day: "readNat (drop 8 (dateText y m d)) = nat d" using facts(3,6) by simp
  have time: "MS_PER_DAY * (dayFromCivil y m 1 + d - 1) + (h * 3600000 + mi * 60000) = ?N"
    by (simp add: wallTime_def dayFromCivil_def)
  have "\<bar>?N\<bar> \<le> MAX_TIME"
    using day_range [OF assms(1)] assms(3-6) by (simp add: wallTime_def MS_PER_DAY_def MAX_TIME_def)
  then have utc: "utcTime y (m - 1) d (h * 3600000 + mi * 60000) = Some ?N"
    using small assms(2) time by (simp add: utcTime_def Let_def div_pos_pos_trivial mod_pos_pos_trivial)
  have "civilOfDay (?N div MS_PER_DAY) = (y, m, d)" "?N div 3600000 mod 24 = h" "?N div 60000 mod 60 = mi"
    using fields civilOfDay_dayFromCivil [OF v(1)] by (simp_all add: dayNo_def hourNo_def minuteNo_def)
  then show ?thesis
    unfolding naiveUtc_def Let_def facts(4,5) day hm
    using facts(1) hm(1) utc small assms(2,3,5) by (simp del: utcTime_def)
qed

lemma near_year:
  assumes "validCivil y m d" "100 \<le> y" "y < 9999" "0 \<le> h" "h < 24" "0 \<le> mi" "mi < 60" "\<bar>x - wallTime y m d h mi\<bar> < 2 * MS_PER_DAY"
  shows "1 \<le> localYear x \<and> localYear x \<le> 9999"
proof -
  let ?n = "dayFromCivil y m d"
  obtain y' m' d' where c: "civilOfDay (dayNo x) = (y', m', d')" by (metis prod_cases3)
  then have v': "validCivil y' m' d'" "dayFromCivil y' m' d' = dayNo x" using civilOfDay_ok by blast+
  have x: "MS_PER_DAY * dayNo x \<le> x" "x < MS_PER_DAY * dayNo x + MS_PER_DAY"
    using mult_div_mod_eq [of MS_PER_DAY x] pos_mod_bound [of MS_PER_DAY x] pos_mod_sign [of MS_PER_DAY x]
    by (simp_all add: dayNo_def MS_PER_DAY_def)
  have "MS_PER_DAY * dayNo x < MS_PER_DAY * (?n + 4)" "MS_PER_DAY * (?n - 4) < MS_PER_DAY * dayNo x"
    using x assms(4-8) by (simp_all add: wallTime_def MS_PER_DAY_def abs_less_iff)
  then have near: "dayNo x < ?n + 4" "?n - 4 < dayNo x" by (simp_all add: MS_PER_DAY_def)
  have range: "dayFromYear 100 \<le> ?n" "?n < dayFromYear 9999"
    using civil_in_year [OF assms(1)] dayFromYear_mono [OF assms(2)] dayFromYear_mono [of "y + 1" 9999] assms(2,3) by simp_all
  have ends: "dayFromYear 100 = -683003" "dayFromYear 9999 = 2932532" "dayFromYear 1 = -719162" "dayFromYear 10000 = 2932897"
    by (simp_all add: dayFromYear_def)
  have "1 \<le> y'"
  proof (rule ccontr)
    assume "\<not> 1 \<le> y'"
    then have "dayFromYear (y' + 1) \<le> dayFromYear 1" using dayFromYear_mono [of "y' + 1" 1] by simp
    then show False using civil_in_year [OF v'(1)] v'(2) near range ends by simp
  qed
  moreover have "y' \<le> 9999"
  proof (rule ccontr)
    assume "\<not> y' \<le> 9999"
    then have "dayFromYear 10000 \<le> dayFromYear y'" using dayFromYear_mono [of 10000 y'] by simp
    then show False using civil_in_year [OF v'(1)] v'(2) near range ends by simp
  qed
  ultimately show ?thesis by (simp add: localYear_def c)
qed

section \<open>The candidates and their screening\<close>

fun earlier :: "int option \<Rightarrow> int \<Rightarrow> int option" where
  "earlier None t = Some t"
| "earlier (Some e) t = Some (min e t)"

lemma foldl_earlier_Some: "foldl earlier (Some e) ts = Some (Min (insert e (set ts)))"
proof (induction ts arbitrary: e)
  case (Cons t ts)
  have "Min (insert (min e t) (set ts)) = Min (insert e (insert t (set ts)))"
    by (cases "set ts = {}") (simp_all add: min.assoc)
  with Cons show ?case by simp
qed simp

lemma foldl_earlier: "foldl earlier None ts = (if ts = [] then None else Some (Min (set ts)))"
  by (cases ts) (simp_all add: foldl_earlier_Some)

lemma screenLoop_run:
  assumes "keepsTime intl tz off" "\<And>t. t \<in> set ts \<Longrightarrow> 1 \<le> localYear (t + off t) \<and> localYear (t + off t) \<le> 9999 \<and> (t + off t) mod 60000 = 0"
    and "1 \<le> localYear n" "localYear n \<le> 9999" "n mod 60000 = 0"
  shows "screenLoop intl tz (wallClock n) (map Some ts) e xs =
    Inr (foldl earlier e (filter (\<lambda>t. n \<le> t + off t) ts), xs @ filter (\<lambda>t. t + off t = n) ts)"
  using assms(2)
proof (induction ts arbitrary: e xs)
  case (Cons t ts)
  have t: "1 \<le> localYear (t + off t)" "localYear (t + off t) \<le> 9999" "(t + off t) mod 60000 = 0" using Cons.prems by simp_all
  have minutes: "60000 * minuteOf (t + off t) = t + off t" "60000 * minuteOf n = n"
    using t(3) assms(5) mult_div_mod_eq [of 60000 "t + off t"] mult_div_mod_eq [of 60000 n] by (simp_all add: minuteOf_def)
  have less: "strLess (wallClock (t + off t)) (wallClock n) \<longleftrightarrow> t + off t < n"
    "wallClock (t + off t) = wallClock n \<longleftrightarrow> t + off t = n"
    using strLess_wallClock [of "t + off t" n] wallClock_eq [of "t + off t" n] t assms(3,4) minutes by (simp_all, linarith+)
  have later: "earlier e t = Some (case e of None \<Rightarrow> t | Some e \<Rightarrow> min e t)" by (cases e) simp_all
  show ?case
    using Cons.IH Cons.prems by (simp add: zone_readings(3) [OF assms(1) t(1,2)] less later Let_def)
qed simp

lemma offsetCandidates_run:
  assumes "keepsTime intl tz off" "\<And>p. p \<in> set ps \<Longrightarrow> newDate p = Some p \<and> off p mod 60000 = 0"
  shows "\<exists>os. distinct os \<and> set os = off ` set ps - set seen \<and>
    offsetCandidates intl tz n ps seen cs = Inr (cs @ map (\<lambda>z. newDate (n - z)) os)"
  using assms(2)
proof (induction ps arbitrary: seen cs)
  case (Cons p ps)
  have whole: "off p mod 60000 = 0" using Cons.prems by simp
  then have "60000 * (off p div 60000) = off p" using mult_div_mod_eq [of 60000 "off p"] by simp
  then have offset: "off p div 60000 * 60000 = off p" by (simp add: mult.commute)
  have step: "offsetCandidates intl tz n (p # ps) seen cs =
      (if off p \<in> set seen then offsetCandidates intl tz n ps seen cs
       else offsetCandidates intl tz n ps (off p # seen) (cs @ [newDate (n - off p)]))"
    using Cons.prems by (simp add: tzOffset_reads [OF assms(1) whole] offset Let_def)
  show ?case
  proof (cases "off p \<in> set seen")
    case True
    obtain os where "distinct os" "set os = off ` set ps - set seen" "offsetCandidates intl tz n ps seen cs = Inr (cs @ map (\<lambda>z. newDate (n - z)) os)"
      using Cons by (metis list.set_intros(2))
    with True show ?thesis unfolding step by (intro exI [of _ os]) auto
  next
    case False
    obtain os where "distinct os" "set os = off ` set ps - set (off p # seen)"
      "offsetCandidates intl tz n ps (off p # seen) (cs @ [newDate (n - off p)]) = Inr ((cs @ [newDate (n - off p)]) @ map (\<lambda>z. newDate (n - z)) os)"
      using Cons by (metis list.set_intros(2))
    with False show ?thesis unfolding step by (intro exI [of _ "off p # os"]) auto
  qed
qed (auto intro: exI [of _ "[]"])

text \<open>The offset changes at most once between two instants.\<close>

definition oneChange :: "(int \<Rightarrow> int) \<Rightarrow> int \<Rightarrow> int \<Rightarrow> bool" where
  "oneChange off lo hi \<longleftrightarrow> (\<exists>c a b. \<forall>t \<in> {lo..hi}. off t = (if t < c then a else b))"

lemma oneChange_ends: "oneChange off lo hi \<Longrightarrow> lo \<le> t \<Longrightarrow> t \<le> hi \<Longrightarrow> off t = off lo \<or> off t = off hi"
proof -
  assume "oneChange off lo hi" "lo \<le> t" "t \<le> hi"
  then obtain c a b where "off lo = (if lo < c then a else b)" "off t = (if t < c then a else b)" "off hi = (if hi < c then a else b)"
    by (auto simp: oneChange_def)
  then show ?thesis using \<open>lo \<le> t\<close> \<open>t \<le> hi\<close> by (auto split: if_splits)
qed

definition readingAt :: "(int \<Rightarrow> int) \<Rightarrow> int \<Rightarrow> int set" where
  "readingAt off n = {t. t + off t = n}"

lemma change_cases:
  fixes off :: "int \<Rightarrow> int" and n k :: int
  defines "a \<equiv> off (n - k)" and "b \<equiv> off (n + k)"
  assumes small: "\<And>t. \<bar>off t\<bar> < k" and one: "oneChange off (n - k) (n + k)"
  shows "off n \<in> {a, b}" "readingAt off n \<subseteq> {n - a, n - b}"
    "n - b + off (n - b) < n \<or> n - b + off (n - b) = n \<or> n - a \<le> n - b \<and> n - a + off (n - a) = n"
    "n - a + off (n - a) < n \<and> n - b + off (n - b) = n \<or> n - a + off (n - a) = n \<or>
     n < n - a + off (n - a) \<and> (n - b + off (n - b) = n \<and> n - b < n - a \<or> n - b + off (n - b) < n)"
proof -
  obtain c x y where change: "\<And>t. n - k \<le> t \<Longrightarrow> t \<le> n + k \<Longrightarrow> off t = (if t < c then x else y)"
    using one by (auto simp: oneChange_def)
  have k: "0 < k" using small [of 0] by simp
  have ab: "a = (if n - k < c then x else y)" "b = (if n + k < c then x else y)" using change k by (simp_all add: a_def b_def)
  have near: "\<bar>t - n\<bar> < k \<Longrightarrow> off t = (if t < c then x else y)" for t using change by simp
  have near': "\<bar>t - n\<bar> < k \<Longrightarrow> off t = (if t < c then a else b)" for t
    using near [of t] ab by (auto split: if_splits)
  show "off n \<in> {a, b}" using near' [of n] k by simp
  show "readingAt off n \<subseteq> {n - a, n - b}"
  proof
    fix t assume "t \<in> readingAt off n"
    then have t: "t + off t = n" by (simp add: readingAt_def)
    then have "\<bar>t - n\<bar> < k" using small [of t] by (simp add: abs_less_iff)
    then have "off t = a \<or> off t = b" using near' by auto
    then show "t \<in> {n - a, n - b}" using t by auto
  qed
  have cand: "off (n - a) = (if n - a < c then a else b)" "off (n - b) = (if n - b < c then a else b)"
    using near' [of "n - a"] near' [of "n - b"] small [of "n - k"] small [of "n + k"] by (simp_all add: a_def b_def abs_less_iff)
  show "n - b + off (n - b) < n \<or> n - b + off (n - b) = n \<or> n - a \<le> n - b \<and> n - a + off (n - a) = n"
    "n - a + off (n - a) < n \<and> n - b + off (n - b) = n \<or> n - a + off (n - a) = n \<or>
     n < n - a + off (n - a) \<and> (n - b + off (n - b) = n \<and> n - b < n - a \<or> n - b + off (n - b) < n)"
    unfolding cand by (auto split: if_splits)
qed

text \<open>So the earliest candidate not before the request is the earliest instant that reads it, and when none
  does, the request read with the offset before the change, which is after the gap.\<close>

lemma two_candidates:
  fixes f :: "int \<Rightarrow> int"
  assumes "f q < n \<or> f q = n \<or> p \<le> q \<and> f p = n"
    and "f p < n \<and> f q = n \<or> f p = n \<or> n < f p \<and> (f q = n \<and> q < p \<or> f q < n)"
    and S: "S = {t \<in> {p, q}. f t = n}" and K: "K = {t \<in> {p, q}. n \<le> f t}"
  shows "S \<noteq> {} \<and> K \<noteq> {} \<and> Min K = Min S \<or> S = {} \<and> K = {p} \<and> n < f p"
proof -
  consider "f p < n" "f q = n" | "f p = n" "f q < n" | "f p = n" "f q = n" | "f p = n" "n < f q" "p \<le> q"
    | "n < f p" "f q = n" "q < p" | "n < f p" "f q < n"
    using assms(1,2) by linarith
  then show ?thesis
  proof cases
    case 1
    then have "S = {q}" "K = {q}" by (auto simp: S K)
    then show ?thesis by simp
  next
    case 2
    then have "S = {p}" "K = {p}" by (auto simp: S K)
    then show ?thesis by simp
  next
    case 3
    then have "S = {p, q}" "K = {p, q}" by (auto simp: S K)
    then show ?thesis by simp
  next
    case 4
    then have "S = {p}" "K = {p, q}" by (auto simp: S K)
    then show ?thesis using 4 by simp
  next
    case 5
    then have "S = {q}" "K = {p, q}" by (auto simp: S K)
    then show ?thesis using 5 by simp
  next
    case 6
    then have "S = {}" "K = {p}" by (auto simp: S K)
    then show ?thesis using 6 by simp
  qed
qed

lemma screened_candidates:
  fixes off :: "int \<Rightarrow> int" and n k :: int
  defines "T \<equiv> (\<lambda>z. n - z) ` {off n, off (n - k), off (n + k)}"
  defines "K \<equiv> {t \<in> T. n \<le> t + off t}" and "S \<equiv> readingAt off n"
  assumes "\<And>t. \<bar>off t\<bar> < k" "oneChange off (n - k) (n + k)"
  shows "K \<noteq> {}" "finite S" "{t \<in> T. t + off t = n} = S" "S \<noteq> {} \<Longrightarrow> Min K = Min S" "card S \<le> 2"
    "S = {} \<Longrightarrow> K = {n - off (n - k)} \<and> n < n - off (n - k) + off (n - off (n - k))"
proof -
  let ?a = "off (n - k)" and ?b = "off (n + k)"
  note ch = change_cases [of off k n, OF assms(4,5)]
  have T: "T = {n - ?a, n - ?b}" using ch(1) by (auto simp: T_def)
  have S: "S = {t \<in> {n - ?a, n - ?b}. t + off t = n}" using ch(2) by (auto simp: S_def readingAt_def)
  have K: "K = {t \<in> {n - ?a, n - ?b}. n \<le> t + off t}" by (simp add: K_def T)
  show "{t \<in> T. t + off t = n} = S" by (simp add: S T)
  show "finite S" by (simp add: S)
  have "S \<subseteq> {n - ?a, n - ?b}" by (auto simp: S)
  then have "card S \<le> card {n - ?a, n - ?b}" by (intro card_mono) auto
  then show "card S \<le> 2" by (rule order_trans) (simp add: card_insert_if)
  have two: "S \<noteq> {} \<and> K \<noteq> {} \<and> Min K = Min S \<or> S = {} \<and> K = {n - ?a} \<and> n < n - ?a + off (n - ?a)"
    by (rule two_candidates [where f = "\<lambda>t. t + off t", OF ch(3,4) S K])
  show "K \<noteq> {}" using two by blast
  show "Min K = Min S" if "S \<noteq> {}" using two that by blast
  show "K = {n - ?a} \<and> n < n - ?a + off (n - ?a)" if "S = {}" using two that by blast
qed

lemma sort_small: "distinct xs \<Longrightarrow> (if length xs > 1 then sort xs else xs) = sorted_list_of_set (set xs)" for xs :: "int list"
proof -
  assume d: "distinct xs"
  have "sort xs = xs" if "\<not> length xs > 1"
    using that by (cases xs) (auto simp: insort_key.simps split: list.splits)
  then show ?thesis using d by (simp add: sorted_list_of_set_sort_remdups distinct_remdups_id)
qed

lemma screen_run:
  assumes "keepsTime intl tz off" "realDate y m d" "100 \<le> y" "y < 9999" "0 \<le> h" "h < 24" "0 \<le> mi" "mi < 60"
    and n: "n = wallTime y m d h mi" and one: "oneChange off (n - MS_PER_DAY) (n + MS_PER_DAY)"
    and whole: "off (n - MS_PER_DAY) mod 60000 = 0" "off (n + MS_PER_DAY) mod 60000 = 0"
  defines "S \<equiv> readingAt off n"
  shows "screenCandidates intl (dateText y m d) (hhmmText h mi) tz =
      Inr \<lparr>chosenMs = (if S = {} then n - off (n - MS_PER_DAY) else Min S), exactMs = sorted_list_of_set S\<rparr>"
    "finite S" "card S \<le> 2" "S = {} \<Longrightarrow> n < n - off (n - MS_PER_DAY) + off (n - off (n - MS_PER_DAY))"
    "\<And>t. \<bar>t - n\<bar> \<le> MS_PER_DAY \<Longrightarrow> newDate t = Some t"
proof -
  have v: "validCivil y m d" using assms(2) by (simp add: realDate_def)
  note small = keepsTimeD(3) [OF assms(1)]
  note sc = screened_candidates [of off MS_PER_DAY n, OF small one, folded S_def]
  show "finite S" "card S \<le> 2" using sc by simp_all
  show "S = {} \<Longrightarrow> n < n - off (n - MS_PER_DAY) + off (n - off (n - MS_PER_DAY))" using sc(6) by simp
  show valid: "newDate t = Some t" if "\<bar>t - n\<bar> \<le> MS_PER_DAY" for t
    using that day_range [OF assms(2)] assms(5-8) by (simp add: n newDate_def wallTime_def MS_PER_DAY_def abs_le_iff)
  have minutes: "off t mod 60000 = 0" if "\<bar>t - n\<bar> \<le> MS_PER_DAY" for t
    using oneChange_ends [OF one, of t] whole that by (auto simp: abs_le_iff)
  have probes: "newDate p = Some p \<and> off p mod 60000 = 0" if "p \<in> set [n, n - 86400000, n + 86400000]" for p
    proof -
    have "\<bar>p - n\<bar> \<le> MS_PER_DAY" using that by (auto simp: MS_PER_DAY_def)
    then show ?thesis using valid minutes by blast
  qed
  obtain os where os: "distinct os" "set os = off ` set [n, n - 86400000, n + 86400000] - set []"
    and cands: "offsetCandidates intl tz n [n, n - 86400000, n + 86400000] [] [] = Inr ([] @ map (\<lambda>z. newDate (n - z)) os)"
    using offsetCandidates_run [OF assms(1) probes, where seen = "[]" and cs = "[]" and n = n] by blast
  define ts where "ts = map (\<lambda>z. n - z) os"
  have T: "set ts = (\<lambda>z. n - z) ` {off n, off (n - MS_PER_DAY), off (n + MS_PER_DAY)}" "distinct ts"
    using os by (auto simp: ts_def MS_PER_DAY_def distinct_map inj_on_def)
  have T_range: "\<bar>t - n\<bar> < MS_PER_DAY" if "t \<in> set ts" for t
    using that small [of n] small [of "n - MS_PER_DAY"] small [of "n + MS_PER_DAY"] unfolding T by (auto simp: abs_minus_commute)
  have cands': "offsetCandidates intl tz n [n, n - 86400000, n + 86400000] [] [] = Inr (map Some ts)"
  proof -
    have "newDate (n - z) = Some (n - z)" if "z \<in> set os" for z
      using valid [of "n - z"] T_range [of "n - z"] that by (simp add: ts_def)
    then have "map (\<lambda>z. newDate (n - z)) os = map Some ts" by (simp add: ts_def)
    then show ?thesis by (simp only: cands append_Nil)
  qed
  have year: "1 \<le> localYear x \<and> localYear x \<le> 9999" if "\<bar>x - n\<bar> < 2 * MS_PER_DAY" for x
    using near_year [OF v assms(3-8)] that n by blast
  have n0: "n mod 60000 = 0" "dayNo n = dayFromCivil y m d" "hourNo n = h" "minuteNo n = mi"
    using wallTime_fields [OF assms(5-8), of y m d] n by simp_all
  have readable: "1 \<le> localYear (t + off t) \<and> localYear (t + off t) \<le> 9999 \<and> (t + off t) mod 60000 = 0" if ts: "t \<in> set ts" for t
  proof -
    have "\<bar>t + off t - n\<bar> < 2 * MS_PER_DAY" using T_range [OF ts] small [of t] by linarith
    moreover have "(t + off t) mod 60000 = 0"
    proof -
      obtain z where z: "t = n - off z" "\<bar>z - n\<bar> \<le> MS_PER_DAY" using ts unfolding T(1) by (auto simp: MS_PER_DAY_def)
      have "(n - off z + off t) mod 60000 = 0" using n0(1) minutes [OF z(2)] minutes [OF less_imp_le [OF T_range [OF ts]]]
        by (metis add.right_neutral diff_zero mod_0 mod_add_eq mod_diff_eq)
      then show ?thesis using z by simp
    qed
    ultimately show ?thesis using year by blast
  qed
  have requested: "dateText y m d @ '' '' @ padStart 5 (CHR ''0'') (hhmmText h mi) = wallClock n"
    using n0 civilOfDay_dayFromCivil [OF v] pad2_digits(1) [of h] pad2_digits(1) [of mi] assms(5-8)
    by (simp add: wallClock_def wallDate_def hourText_def minuteText_def hhmmText_def padStart_def)
  have K: "set (filter (\<lambda>t. n \<le> t + off t) ts) = {t \<in> set ts. n \<le> t + off t}" by simp
  have S: "set (filter (\<lambda>t. t + off t = n) ts) = S" "distinct (filter (\<lambda>t. t + off t = n) ts)"
    using sc(3) T by simp_all
  have chosen: "Min {t \<in> set ts. n \<le> t + off t} = (if S = {} then n - off (n - MS_PER_DAY) else Min S)"
    using sc(4) sc(6) unfolding T(1) by simp
  have some: "filter (\<lambda>t. n \<le> t + off t) ts \<noteq> []" using sc(1) unfolding T(1) [symmetric] by (auto simp: filter_empty_conv)
  have "\<bar>n - n\<bar> < 2 * MS_PER_DAY" by (simp add: MS_PER_DAY_def)
  then have loop: "screenLoop intl tz (wallClock n) (map Some ts) None [] =
      Inr (foldl earlier None (filter (\<lambda>t. n \<le> t + off t) ts), [] @ filter (\<lambda>t. t + off t = n) ts)"
    using year n0(1) readable by (intro screenLoop_run [OF assms(1)]) blast+
  show "screenCandidates intl (dateText y m d) (hhmmText h mi) tz =
      Inr \<lparr>chosenMs = (if S = {} then n - off (n - MS_PER_DAY) else Min S), exactMs = sorted_list_of_set S\<rparr>"
    unfolding screenCandidates_def naiveUtc_run [OF assms(2,3,5-8)] andThen_simps n [symmetric] cands' requested loop prod.case
      foldl_earlier K chosen append_Nil sort_small [OF S(2)] S(1)
    using some by simp
qed

section \<open>The properties\<close>

text \<open>
  C32: Wall clocks resolve exactly. For a zone that keeps time as Intl documents, and a wall clock of the years
  100 to 9998 with one change of offset at most in the day before and the day after, from whole minutes to
  whole minutes (a historical offset with seconds is left out), \<open>resolveWallClock\<close> never throws, and tells the truth about the
  set of all instants at which the zone's clock reads it: it says Unique with the only one, Overlap with
  the earlier and the later of exactly two, and Gap when there is none, with the wall clock read at the
  offset before the change, which lies after the gap. \<open>zonedDateTime\<close> answers the same instant.
\<close>
theorem resolve_wall_clock_exact:
  assumes "keepsTime intl tz off" "realDate y m d" "100 \<le> y" "y < 9999" "0 \<le> h" "h < 24" "0 \<le> mi" "mi < 60"
    and n: "n = wallTime y m d h mi" and one: "oneChange off (n - MS_PER_DAY) (n + MS_PER_DAY)"
    and whole: "off (n - MS_PER_DAY) mod 60000 = 0" "off (n + MS_PER_DAY) mod 60000 = 0"
  shows "\<exists>r i. resolveWallClock intl (dateText y m d) (hhmmText h mi) tz = Inr r \<and>
    zonedDateTime intl (dateText y m d) (hhmmText h mi) tz = Inr (Some i) \<and> wallInstant r = Some i \<and>
    (case wallKind r of
       Unique \<Rightarrow> readingAt off n = {i} \<and> wallLater r = None
     | Overlap \<Rightarrow> \<exists>l. wallLater r = Some (Some l) \<and> i < l \<and> readingAt off n = {i, l}
     | Gap \<Rightarrow> readingAt off n = {} \<and> i = n - off (n - MS_PER_DAY) \<and> n < i + off i)"
proof -
  let ?S = "readingAt off n"
  note sc = screen_run [OF assms]
  have close: "newDate t = Some t" if "t \<in> ?S \<or> t = n - off (n - MS_PER_DAY)" for t
    using that sc(5) [of t] keepsTimeD(3) [OF assms(1), of t] keepsTimeD(3) [OF assms(1), of "n - MS_PER_DAY"]
    by (auto simp: readingAt_def)
  consider "?S = {}" | i where "?S = {i}" | i l where "?S = {i, l}" "i < l"
  proof -
    have "card ?S = 0 \<or> card ?S = 1 \<or> card ?S = 2" using sc(3) by linarith
    then show thesis using that sc(2) by (auto simp: card_1_singleton_iff card_2_iff insert_commute) (metis insert_commute linorder_neqE)
  qed
  then show ?thesis
  proof cases
    case 1
    then show ?thesis using sc(1,4) close by (simp add: resolveWallClock_def zonedDateTime_def)
  next
    case (2 i)
    then show ?thesis using sc(1) close by (simp add: resolveWallClock_def zonedDateTime_def)
  next
    case (3 i l)
    then have "sorted_list_of_set ?S = [i, l]" "Min ?S = i" by simp_all
    with 3 show ?thesis using sc(1) close by (simp add: resolveWallClock_def zonedDateTime_def)
  qed
qed

text \<open>
  The readings of an instant lead back to it. The date and the time \<open>isoDateInTz\<close> and \<open>hhmmInTz\<close> read off a
  whole minute of the years 100 to 9998 are accepted by \<open>zonedDateTime\<close>, whose answer has the same readings and
  is the first instant that does, so an earlier instant than asked for only in a repeated hour.
\<close>
theorem zoned_roundtrip:
  assumes zone: "keepsTime intl tz off" and "t mod 60000 = 0" "100 \<le> localYear (t + off t)" "localYear (t + off t) < 9999"
    and one: "oneChange off (t + off t - MS_PER_DAY) (t + off t + MS_PER_DAY)"
    and whole: "off (t + off t - MS_PER_DAY) mod 60000 = 0" "off (t + off t + MS_PER_DAY) mod 60000 = 0"
  shows "\<exists>date time i. isoDateInTz intl (Some t) tz = Inr date \<and> hhmmInTz intl (Some t) tz = Inr time \<and>
    zonedDateTime intl date time tz = Inr (Some i) \<and> isoDateInTz intl (Some i) tz = Inr date \<and> hhmmInTz intl (Some i) tz = Inr time \<and>
    (\<forall>j. j + off j = t + off t \<longrightarrow> i \<le> j)"
proof -
  define n where "n = t + off t"
  obtain y m d where c: "civilOfDay (dayNo n) = (y, m, d)" by (metis prod_cases3)
  have y: "100 \<le> y" "y < 9999" using assms(3,4) c by (simp_all add: localYear_def n_def)
  have real: "realDate y m d" using civilOfDay_ok [OF c] y by (simp add: realDate_def)
  define h mi where "h = hourNo n" and "mi = minuteNo n"
  have hm: "0 \<le> h" "h < 24" "0 \<le> mi" "mi < 60" using minute_fields [of n] by (simp_all add: h_def mi_def)
  have "off t mod 60000 = 0" using oneChange_ends [OF one, of t] whole keepsTimeD(3) [OF zone, of t] by (auto simp: abs_less_iff)
  then have "n mod 60000 = 0" using assms(2) by (metis add.right_neutral mod_0 mod_add_eq n_def)
  then have "n = 60000 * minuteOf n" using mult_div_mod_eq [of 60000 n] by (simp add: minuteOf_def)
  then have n: "n = wallTime y m d h mi"
    using minute_fields(1) [of n] civilOfDay_ok [OF c] by (simp add: wallTime_def MS_PER_DAY_def h_def mi_def)
  have texts: "wallDate n = dateText y m d" "hourText n @ '':'' @ minuteText n = hhmmText h mi"
    by (simp_all add: wallDate_def c hhmmText_def hourText_def minuteText_def h_def mi_def)
  have year: "1 \<le> localYear n" "localYear n \<le> 9999" using assms(3,4) by (simp_all add: n_def)
  have reads: "isoDateInTz intl (Some j) tz = Inr (dateText y m d) \<and> hhmmInTz intl (Some j) tz = Inr (hhmmText h mi)"
    if "j + off j = n" for j
    using zone_readings(1,2) [OF zone, of j] that year texts by simp
  note sc = screen_run [OF zone real y hm n one [folded n_def] whole [folded n_def]]
  let ?i = "Min (readingAt off n)"
  have ne: "t \<in> readingAt off n" by (simp add: readingAt_def n_def)
  then have i: "?i \<in> readingAt off n" and least: "j + off j = n \<Longrightarrow> ?i \<le> j" for j
    using sc(2) Min_in [OF sc(2)] Min_le [OF sc(2)] by (auto simp: readingAt_def)
  have "\<bar>?i - n\<bar> \<le> MS_PER_DAY" using i keepsTimeD(3) [OF zone, of ?i] by (simp add: readingAt_def)
  then have "zonedDateTime intl (dateText y m d) (hhmmText h mi) tz = Inr (Some ?i)"
    using sc(1) sc(5) ne by (auto simp: zonedDateTime_def)
  then show ?thesis using reads [of t] reads [of ?i] i least by (auto simp: readingAt_def n_def)
qed

text \<open>
  Steps in a zone are steps in the calendar. In a zone whose offsets are less than twelve hours apart,
  \<open>addDays\<close> with the zone answers the same date as without: the date that many days on, whatever clock
  changes lie between.
\<close>
theorem zone_days_step:
  assumes zone: "keepsTime intl tz off" and real: "realDate y m d" "100 \<le> y" "y < 9999"
    and one: "oneChange off (wallTime y m d 12 0 - MS_PER_DAY) (wallTime y m d 12 0 + MS_PER_DAY)"
    and whole: "off (wallTime y m d 12 0 - MS_PER_DAY) mod 60000 = 0" "off (wallTime y m d 12 0 + MS_PER_DAY) mod 60000 = 0"
    and steady: "\<And>s t. \<bar>off s - off t\<bar> < 43200000"
    and target: "realDate y' m' d'" "1 \<le> y'" "dayFromCivil y' m' d' = dayFromCivil y m d + k"
  shows "addDays intl (dateText y m d) k (Some tz) = Inr (dateText y' m' d') \<and>
    addDays intl (dateText y m d) k None = Inr (dateText y' m' d')"
proof -
  define n where "n = wallTime y m d 12 0"
  have noon: "0 \<le> (12 :: int)" "(12 :: int) < 24" "0 \<le> (0 :: int)" "(0 :: int) < 60" by simp_all
  note sc = screen_run [OF zone real noon n_def one [folded n_def] whole [folded n_def]]
  let ?S = "readingAt off n"
  define i where "i = (if ?S = {} then n - off (n - MS_PER_DAY) else Min ?S)"
  have "\<exists>s. i = n - off s"
  proof (cases "?S = {}")
    case False
    then have "i + off i = n" using Min_in [OF sc(2)] by (simp add: i_def readingAt_def)
    then show ?thesis by (intro exI [of _ i]) simp
  qed (auto simp: i_def)
  then obtain s where s: "i = n - off s" by blast
  have clock: "hhmmText 12 0 = ''12:00''" by code_simp
  have "newDate i = Some i" using sc(5) [of i] keepsTimeD(3) [OF zone, of s] s by simp
  then have at_noon: "zonedDateTime intl (dateText y m d) ''12:00'' tz = Inr (Some i)"
    using sc(1) by (simp add: zonedDateTime_def i_def flip: clock)
  define t where "t = i + k * 86400000"
  have n: "n = MS_PER_DAY * dayFromCivil y m d + 43200000" by (simp add: n_def wallTime_def)
  have reading: "t + off t = MS_PER_DAY * dayFromCivil y' m' d' + (43200000 + (off t - off s))"
    by (simp add: t_def s n target(3) MS_PER_DAY_def algebra_simps)
  have rest: "0 \<le> 43200000 + (off t - off s)" "43200000 + (off t - off s) < MS_PER_DAY"
    using steady [of t s] by (simp_all add: MS_PER_DAY_def abs_less_iff)
  have day: "dayNo (t + off t) = dayFromCivil y' m' d'"
    unfolding reading dayNo_def using rest by (simp add: div_pos_pos_trivial MS_PER_DAY_def)
  have civil: "civilOfDay (dayNo (t + off t)) = (y', m', d')"
    using day civilOfDay_dayFromCivil target(1) by (simp add: realDate_def)
  have "\<bar>t\<bar> \<le> 8640000000000000"
    using reading rest day_range [OF target(1)] keepsTimeD(3) [OF zone, of t] by (simp add: MS_PER_DAY_def)
  then have "newDate t = Some t" by (simp add: newDate_def)
  moreover have "isoDateInTz intl (Some t) tz = Inr (dateText y' m' d')"
    using zone_readings(1) [OF zone, of t] civil target(1,2) by (simp add: localYear_def wallDate_def realDate_def)
  ultimately have "addDays intl (dateText y m d) k (Some tz) = Inr (dateText y' m' d')"
    by (simp add: addDays_def at_noon t_def)
  moreover have "MS_PER_DAY * dayFromCivil y m d + k * 86400000 = MS_PER_DAY * dayFromCivil y' m' d'"
    by (simp add: target(3) MS_PER_DAY_def)
  then have "addDays intl (dateText y m d) k None = Inr (dateText y' m' d')"
    using parse_dateText [OF real(1)] format_midnight [OF target(1)] by (simp add: addDays_def)
  ultimately show ?thesis by blast
qed

text \<open>A cache of formatters never changes an answer and stays within its limit.\<close>

lemma formatterCache_transparent:
  assumes "\<And>key f. jm_get cache key = Some f \<Longrightarrow> built key = Inr f" "length cache \<le> FORMATTER_CACHE_LIMIT"
    and "formatterCache key (built key) cache = (cache', r)"
  shows "r = built key" "jm_get cache' key' = Some f \<Longrightarrow> built key' = Inr f" "length cache' \<le> FORMATTER_CACHE_LIMIT"
proof -
  define cleared where "cleared = (if length cache \<ge> FORMATTER_CACHE_LIMIT then [] else cache)"
  have "length (jm_set key g cleared) \<le> length cleared + 1" for g by (simp add: length_jm_set)
  moreover have "length cleared + 1 \<le> FORMATTER_CACHE_LIMIT" by (simp add: cleared_def FORMATTER_CACHE_LIMIT_def)
  ultimately have small: "length (jm_set key g cleared) \<le> FORMATTER_CACHE_LIMIT" "length cleared \<le> FORMATTER_CACHE_LIMIT" for g
    by (meson order_trans, simp add: cleared_def FORMATTER_CACHE_LIMIT_def)
  have run: "(cache', r) = (case jm_get cache key of Some f \<Rightarrow> (cache, Inr f)
      | None \<Rightarrow> (case built key of Inl e \<Rightarrow> (cleared, Inl e) | Inr f \<Rightarrow> (jm_set key f cleared, Inr f)))"
    using assms(3) unfolding formatterCache_def cleared_def Let_def by (rule sym)
  have old: "jm_get cleared key' = Some g \<Longrightarrow> built key' = Inr g" for key' g
    using assms(1) by (simp add: cleared_def split: if_splits)
  show "r = built key" "jm_get cache' key' = Some f \<Longrightarrow> built key' = Inr f" "length cache' \<le> FORMATTER_CACHE_LIMIT"
    using run assms(1,2) small old by (auto split: option.splits sum.splits if_splits)
qed

section \<open>A zone that changes its clock\<close>

text \<open>An Intl that prints one zone as documented.\<close>

definition printed :: "int \<Rightarrow> int \<Rightarrow> string \<Rightarrow> string" where
  "printed l minutes type =
     (case civilOfDay (dayNo l) of (y, m, d) \<Rightarrow>
        if type = ''year'' then show_int y else if type = ''month'' then pad2 m else if type = ''day'' then pad2 d
        else if type = ''hour'' then hourText l else if type = ''minute'' then minuteText l
        else if type = ''timeZoneName'' then gmtName minutes else [])"

definition zoneIntl :: "string \<Rightarrow> (int \<Rightarrow> int) \<Rightarrow> Intl" where
  "zoneIntl tz off = \<lparr>zoneKnown = (\<lambda>z. z = tz), localeKnown = (\<lambda>l. l = CANONICAL_LOCALE),
     formatToParts = (\<lambda>l z options t. map (\<lambda>(type, style). (type, printed (t + off t) (off t div 60000) type)) options),
     formatText = (\<lambda>l z options t. []), supportedZones = Some [tz], resolvedZone = id, compareEnglish = (\<lambda>a b. 0)\<rparr>"

lemma zoneIntl_keeps:
  assumes "\<And>t. \<bar>off t\<bar> < MS_PER_DAY"
  shows "keepsTime (zoneIntl tz off) tz off"
  using assms
  by (simp add: keepsTime_def zoneIntl_def printsOffset_def printsClock_def Let_def offsetFormatter_def canonicalWallClockFormatter_def
      printed_def split: prod.splits)

definition berlin :: "int \<Rightarrow> int" where "berlin t = (if t < 1774746000000 then 3600000 else 7200000)"

abbreviation "berlinIntl \<equiv> zoneIntl ''Europe/Berlin'' berlin"

lemma berlin_keeps: "keepsTime berlinIntl ''Europe/Berlin'' berlin"
  by (rule zoneIntl_keeps) (simp add: berlin_def MS_PER_DAY_def)

lemma berlin_one: "oneChange berlin lo hi" and berlin_whole: "berlin t mod 60000 = 0"
  unfolding oneChange_def berlin_def by (blast, simp)

theorem resolve_wall_clock_exact_witness:
  "\<exists>r i. resolveWallClock berlinIntl (dateText 2026 3 29) (hhmmText 2 30) ''Europe/Berlin'' = Inr r \<and> wallKind r = Gap \<and>
     wallInstant r = Some i \<and> i = 1774747800000"
proof -
  have real: "realDate 2026 3 29" by code_simp
  have n: "1774751400000 = wallTime 2026 3 29 2 30" by code_simp
  obtain r i where r: "resolveWallClock berlinIntl (dateText 2026 3 29) (hhmmText 2 30) ''Europe/Berlin'' = Inr r"
    "wallInstant r = Some i" and k: "case wallKind r of
       Unique \<Rightarrow> readingAt berlin 1774751400000 = {i} \<and> wallLater r = None
     | Overlap \<Rightarrow> \<exists>l. wallLater r = Some (Some l) \<and> i < l \<and> readingAt berlin 1774751400000 = {i, l}
     | Gap \<Rightarrow> readingAt berlin 1774751400000 = {} \<and> i = 1774751400000 - berlin (1774751400000 - MS_PER_DAY) \<and> 1774751400000 < i + berlin i"
    using resolve_wall_clock_exact [OF berlin_keeps real _ _ _ _ _ _ n berlin_one berlin_whole berlin_whole] by auto
  have "readingAt berlin 1774751400000 = {}" by (auto simp: readingAt_def berlin_def split: if_splits)
  with k have "wallKind r = Gap" "i = 1774747800000"
    by (auto simp: berlin_def MS_PER_DAY_def split: WallClockKind.splits)
  with r show ?thesis by blast
qed

theorem zoned_roundtrip_witness:
  "\<exists>date time i. isoDateInTz berlinIntl (Some 1774746000000) ''Europe/Berlin'' = Inr date \<and>
     hhmmInTz berlinIntl (Some 1774746000000) ''Europe/Berlin'' = Inr time \<and>
     zonedDateTime berlinIntl date time ''Europe/Berlin'' = Inr (Some i)"
proof -
  have "localYear (1774746000000 + berlin 1774746000000) = 2026" by code_simp
  then show ?thesis
    using zoned_roundtrip [OF berlin_keeps, of 1774746000000] berlin_one berlin_whole by auto
qed

theorem zone_days_step_witness:
  "addDays berlinIntl (dateText 2026 3 28) 2 (Some ''Europe/Berlin'') = Inr (dateText 2026 3 30)"
proof -
  have "realDate 2026 3 28" "realDate 2026 3 30" "dayFromCivil 2026 3 30 = dayFromCivil 2026 3 28 + 2" by code_simp+
  moreover have "\<bar>berlin s - berlin t\<bar> < 43200000" for s t by (simp add: berlin_def)
  ultimately show ?thesis using zone_days_step [OF berlin_keeps _ _ _ berlin_one berlin_whole berlin_whole] by simp
qed

end
