(* ===== verification/Period.thy ===== *)
theory Period
  imports TzClock
begin

text \<open>
  Labels of days and months (\<open>time/locale.ts\<close>) and calendar periods (\<open>time/period.ts\<close>): weeks and months as date
  ranges, stepping through them, the part of one that has passed. Shown: periods tile the calendar, steps
  add up, and the part that has passed ends today or with the period.
\<close>

section \<open>Labels\<close>

definition DEFAULT_LOCALE :: string where "DEFAULT_LOCALE = ''en-GB''"

text \<open>\<open>firstDay\<close> is what the runtime's week data says of a locale; \<open>None\<close> when it has none or rejects the tag.\<close>

definition localeFirstWeekday :: "(string \<Rightarrow> int option) \<Rightarrow> string \<Rightarrow> int" where
  "localeFirstWeekday firstDay locale =
     (case firstDay locale of None \<Rightarrow> 1 | Some d \<Rightarrow> if d \<ge> 1 \<and> d \<le> 7 then d else 1)"

text \<open>A formatter in UTC.\<close>

definition utcText :: "Intl \<Rightarrow> string \<Rightarrow> (string \<times> string) list \<Rightarrow> int \<Rightarrow> js_error + units" where
  "utcText intl locale options t =
     zonedFormatter intl options ''UTC'' locale (formatText intl locale ''UTC'' options) (newDate t)"

definition monthLabel :: "Intl \<Rightarrow> string \<Rightarrow> string \<Rightarrow> js_error + units" where
  "monthLabel intl date locale =
     andThen (andThen (startOfMonth date) parseIsoDate) (utcText intl locale [(''month'', ''long''), (''year'', ''numeric'')])"

definition dayLabel :: "Intl \<Rightarrow> string \<Rightarrow> string \<Rightarrow> js_error + units" where
  "dayLabel intl date locale =
     andThen (parseIsoDate date) (utcText intl locale [(''day'', ''numeric''), (''month'', ''long''), (''year'', ''numeric'')])"

definition shortDayLabel :: "Intl \<Rightarrow> string \<Rightarrow> string \<Rightarrow> js_error + units" where
  "shortDayLabel intl date locale =
     andThen (parseIsoDate date) (utcText intl locale [(''weekday'', ''short''), (''day'', ''numeric''), (''month'', ''short'')])"

text \<open>\<open>relative\<close> and \<open>upper\<close> are \<open>Intl.RelativeTimeFormat\<close> and \<open>toLocaleUpperCase\<close> in the locale. Two midnights
  are whole days apart, so the rounding of their difference has nothing to round.\<close>

definition relativeDayLabel ::
  "Intl \<Rightarrow> (string \<Rightarrow> int \<Rightarrow> units) \<Rightarrow> (string \<Rightarrow> units \<Rightarrow> units) \<Rightarrow> string \<Rightarrow> string \<Rightarrow> string \<Rightarrow> js_error + units" where
  "relativeDayLabel intl relative upper date today locale =
     andThen (parseIsoDate date) (\<lambda>a. andThen (parseIsoDate today) (\<lambda>b.
       let offset = (a - b) div 86400000 in
       if offset < -1 \<or> offset > 1 then shortDayLabel intl date locale
       else let word = relative locale offset in Inr (upper locale (take 1 word) @ drop 1 word)))"

record TwoLabels =
  shortLabel :: units
  longLabel :: units

definition twoLabels :: "Intl \<Rightarrow> string \<Rightarrow> string \<Rightarrow> int \<Rightarrow> js_error + TwoLabels" where
  "twoLabels intl locale field t =
     andThen (utcText intl locale [(field, ''short'')] t) (\<lambda>s.
     andThen (utcText intl locale [(field, ''long'')] t) (\<lambda>l. Inr \<lparr>shortLabel = s, longLabel = l\<rparr>))"

text \<open>The instants a weekday row formats: the days of the week from the locale's first, from 2024-01-01, a Monday.\<close>

definition weekdayInstants :: "int \<Rightarrow> int \<Rightarrow> int list" where
  "weekdayInstants monday first = map (\<lambda>index. monday + ((first - 1 + index) mod 7) * 86400000) [0, 1, 2, 3, 4, 5, 6]"

definition weekdayLabels :: "Intl \<Rightarrow> (string \<Rightarrow> int option) \<Rightarrow> string \<Rightarrow> js_error + TwoLabels list" where
  "weekdayLabels intl firstDay locale =
     andThen (parseIsoDate ''2024-01-01'') (\<lambda>monday.
       mapE (twoLabels intl locale ''weekday'') (weekdayInstants monday (localeFirstWeekday firstDay locale)))"

definition monthLabels :: "Intl \<Rightarrow> string \<Rightarrow> js_error + TwoLabels list" where
  "monthLabels intl locale =
     mapE (\<lambda>index. case utcTime 2024 index 1 0 of
         None \<Rightarrow> Inl (RangeErr ''Invalid time value'') | Some t \<Rightarrow> twoLabels intl locale ''month'' t)
       [0, 1, 2, 3, 4, 5, 6, 7, 8, 9, 10, 11]"

section \<open>Periods\<close>

datatype PeriodUnit = WeekUnit | MonthUnit | OtherUnit int

record Period = DateRange +
  periodUnit :: PeriodUnit

definition checkUnit :: "PeriodUnit \<Rightarrow> js_error + unit" where
  "checkUnit unit =
     (case unit of OtherUnit n \<Rightarrow> Inl (RangeErr (''Unknown period unit: '' @ show_int n)) | _ \<Rightarrow> Inr ())"

definition checkFirstWeekday :: "jsnum \<Rightarrow> js_error + unit" where
  "checkFirstWeekday first =
     (if \<not> js_isInteger first \<or> js_floor first < 1 \<or> js_floor first > 7
      then Inl (RangeErr ''firstWeekday must be a whole number from 1 to 7'') else Inr ())"

definition periodOf :: "Intl \<Rightarrow> PeriodUnit \<Rightarrow> string \<Rightarrow> jsnum option \<Rightarrow> js_error + Period" where
  "periodOf intl unit date first =
     andThen (checkUnit unit) (\<lambda>_.
       if unit = MonthUnit
       then andThen (startOfMonth date) (\<lambda>from. andThen (endOfMonth date) (\<lambda>to.
         Inr \<lparr>dFrom = from, dTo = to, periodUnit = unit\<rparr>))
       else let firstWeekday = orElse first (js_int 1) in
         andThen (checkFirstWeekday firstWeekday) (\<lambda>_.
         andThen (startOfWeek date (js_floor firstWeekday)) (\<lambda>from.
         andThen (addDays intl from 6 None) (\<lambda>to.
           Inr \<lparr>dFrom = from, dTo = to, periodUnit = unit\<rparr>))))"

definition currentPeriod :: "Intl \<Rightarrow> PeriodUnit \<Rightarrow> jsdate \<Rightarrow> string \<Rightarrow> jsnum option \<Rightarrow> js_error + Period" where
  "currentPeriod intl unit now timeZone first =
     andThen (isoDateInTz intl now timeZone) (\<lambda>date. periodOf intl unit date first)"

definition shiftPeriod :: "Intl \<Rightarrow> Period \<Rightarrow> jsnum \<Rightarrow> js_error + Period" where
  "shiftPeriod intl period steps =
     andThen (checkUnit (periodUnit period)) (\<lambda>_.
       if \<not> js_isSafeInteger steps then Inl (RangeErr ''steps must be a whole number'')
       else if periodUnit period = MonthUnit
       then andThen (shiftMonth (dFrom period) (js_floor steps)) (\<lambda>date. periodOf intl MonthUnit date None)
       else andThen (addDays intl (dFrom period) (js_floor steps * 7) None) (\<lambda>from.
         andThen (addDays intl from 6 None) (\<lambda>to.
           Inr \<lparr>dFrom = from, dTo = to, periodUnit = periodUnit period\<rparr>)))"

definition periodSoFar :: "Intl \<Rightarrow> Period \<Rightarrow> jsdate \<Rightarrow> string \<Rightarrow> js_error + Period option" where
  "periodSoFar intl period now timeZone =
     andThen (isoDateInTz intl now timeZone) (\<lambda>today.
     andThen (parseIsoDate today) (\<lambda>t.
     andThen (parseIsoDate (dFrom period)) (\<lambda>f.
       if t < f then Inr None
       else andThen (parseIsoDate (dTo period)) (\<lambda>e.
         if t \<ge> e then Inr (Some period) else Inr (Some (period\<lparr>dTo := today\<rparr>))))))"

definition samePartOf :: "Intl \<Rightarrow> Period \<Rightarrow> DateRange \<Rightarrow> js_error + Period" where
  "samePartOf intl other soFar =
     andThen (parseIsoDate (dTo soFar)) (\<lambda>t. andThen (parseIsoDate (dFrom soFar)) (\<lambda>f.
     andThen (addDays intl (dFrom other) ((t - f) div MS_PER_DAY) None) (\<lambda>to.
     andThen (parseIsoDate to) (\<lambda>a. andThen (parseIsoDate (dTo other)) (\<lambda>b.
       Inr (other\<lparr>dTo := (if a < b then to else dTo other)\<rparr>))))))"

text \<open>\<open>formatRange\<close> of a formatter in UTC is an argument.\<close>

definition periodLabel :: "Intl \<Rightarrow> (string \<Rightarrow> int \<Rightarrow> int \<Rightarrow> units) \<Rightarrow> Period \<Rightarrow> string \<Rightarrow> js_error + units" where
  "periodLabel intl formatRange period locale =
     andThen (checkUnit (periodUnit period)) (\<lambda>_.
       if periodUnit period = MonthUnit then monthLabel intl (dFrom period) locale
       else if \<not> localeKnown intl locale then Inl (RangeErr ''Incorrect locale information provided'')
       else andThen (parseIsoDate (dFrom period)) (\<lambda>f. andThen (parseIsoDate (dTo period)) (\<lambda>t.
         Inr (formatRange locale f t))))"

section \<open>Periods on day numbers\<close>

lemma addDays_plain:
  "inWindow n \<Longrightarrow> addDays intl (dayText n) k None = formatIsoDate (MS_PER_DAY * (n + k))"
  by (simp add: addDays_def parse_dayText MS_PER_DAY_def algebra_simps)

lemma addDays_Inr:
  assumes "inWindow n" "addDays intl (dayText n) k None = Inr s"
  shows "inWindow (n + k) \<and> s = dayText (n + k)"
  using assms format_outside [of "n + k"] format_dayText [of "n + k"] addDays_plain [OF assms(1), of intl k]
  by (cases "inWindow (n + k)") auto

lemma weekday_row: "i < 7 \<Longrightarrow> utcDay (weekdayInstants 1704067200000 first ! i) = (first + int i) mod 7"
proof -
  assume i: "i < 7"
  have "weekdayInstants 1704067200000 first ! i = 1704067200000 + ((first - 1 + int i) mod 7) * 86400000"
    using i by (simp add: weekdayInstants_def less_Suc_eq numeral_eq_Suc) (elim disjE; simp)
  also have "\<dots> = MS_PER_DAY * (19723 + (first - 1 + int i) mod 7)" by (simp add: MS_PER_DAY_def)
  finally have "utcDay (weekdayInstants 1704067200000 first ! i) = (19723 + (first - 1 + int i) mod 7 + 4) mod 7"
    by (simp add: utcDay_def weekdayOfDay_def MS_PER_DAY_def)
  also have "\<dots> = (19727 + (first - 1 + int i) mod 7) mod 7" by simp
  also have "\<dots> = (19727 + (first - 1 + int i)) mod 7" by (rule mod_add_right_eq)
  also have "19727 + (first - 1 + int i) = first + int i + 7 * 2818" by simp
  finally show ?thesis by (simp only: mod_mult_self2)
qed

lemma startOfWeek_Inr:
  assumes "startOfWeek date f = Inr s"
  obtains n b where "inWindow n" "date = dayText n" "inWindow b" "s = dayText b" "b \<le> n" "n \<le> b + 6"
    "weekdayOfDay b = f mod 7"
proof -
  obtain ms where "parseIsoDate date = Inr ms" using assms by (cases "parseIsoDate date") (auto simp: startOfWeek_def)
  then obtain n where n: "inWindow n" "date = dayText n" by (rule parse_day)
  let ?past = "(weekdayOfDay n - f mod 7 + 7) mod 7"
  have run: "formatIsoDate (MS_PER_DAY * (n - ?past)) = Inr s" using assms startOfWeek_day [OF n(1)] n(2) by simp
  then have w: "inWindow (n - ?past)" using format_outside by fastforce
  then have "s = dayText (n - ?past)" using run format_dayText by simp
  moreover have "weekdayOfDay (n - ?past) = f mod 7"
    using week_step [of "n + 4" f] by (simp add: weekdayOfDay_def algebra_simps)
  ultimately show thesis using that [OF n w] pos_mod_bound [of 7 "weekdayOfDay n - f mod 7 + 7"]
      pos_mod_sign [of 7 "weekdayOfDay n - f mod 7 + 7"] by simp
qed

text \<open>A period as the days it spans.\<close>

definition spans :: "Period \<Rightarrow> int \<Rightarrow> int \<Rightarrow> bool" where
  "spans p a b \<longleftrightarrow> inWindow a \<and> inWindow b \<and> dFrom p = dayText a \<and> dTo p = dayText b"

definition monthPeriod :: "int \<Rightarrow> Period" where
  "monthPeriod t = \<lparr>dFrom = dateText (t div 12) (t mod 12 + 1) 1,
     dTo = dateText (t div 12) (t mod 12 + 1) (monthLength (t div 12) (t mod 12 + 1)), periodUnit = MonthUnit\<rparr>"

lemma periodOf_month:
  assumes "realDate y m d" "t = 12 * y + (m - 1)"
  shows "if t < 119999 then periodOf intl MonthUnit (dateText y m d) first = Inr (monthPeriod t)
    else isl (periodOf intl MonthUnit (dateText y m d) first)"
proof -
  have m: "1 \<le> m" "m \<le> 12" "y \<le> 9999" using assms(1) validCivil_small by (auto simp: realDate_def)
  have t: "t div 12 = y" "t mod 12 + 1 = m" using m(1,2) assms(2) by auto
  have last: "t < 119999 \<longleftrightarrow> \<not> (y = 9999 \<and> m = 12)" using m assms(2) by auto
  have one: "''-01'' = ''-'' @ pad2 1" by code_simp
  have start: "startOfMonth (dateText y m d) = Inr (dateText y m 1)"
    unfolding startOfMonth_def dateText_roundtrip [OF assms(1)] realDate_facts(8) [OF assms(1)] by (simp add: dateText_def one)
  have run: "periodOf intl MonthUnit (dateText y m d) first = andThen (endOfMonth (dateText y m d)) (\<lambda>to.
      Inr \<lparr>dFrom = dateText y m 1, dTo = to, periodUnit = MonthUnit\<rparr>)"
    by (simp add: periodOf_def checkUnit_def start)
  show ?thesis
  proof (cases "t < 119999")
    case True
    then have "endOfMonth (dateText y m d) = Inr (dateText y m (monthLength y m))"
      using endOfMonth_run [OF assms(1)] last by simp
    then show ?thesis using True by (simp add: run monthPeriod_def t)
  next
    case False
    then have "isl (endOfMonth (dateText y m d))" using endOfMonth_run [OF assms(1)] last by simp
    then show ?thesis using False by (cases "endOfMonth (dateText y m d)") (simp_all add: run)
  qed
qed

lemma shiftPeriod_month:
  assumes "0 \<le> t" "t < 120000" "js_isSafeInteger (js_int k)"
  shows "if 0 \<le> t + k \<and> t + k < 119999 then shiftPeriod intl (monthPeriod t) (js_int k) = Inr (monthPeriod (t + k))
    else isl (shiftPeriod intl (monthPeriod t) (js_int k))"
proof -
  have e: "t + k = 12 * (t div 12) + (t mod 12 + 1 - 1) + k" by simp
  note shifted = shiftMonth_run [OF first_realDate [OF assms(1,2)] e]
  have run: "shiftPeriod intl (monthPeriod t) (js_int k) =
      andThen (shiftMonth (dateText (t div 12) (t mod 12 + 1) 1) k) (\<lambda>date. periodOf intl MonthUnit date None)"
    using assms(3) by (simp add: shiftPeriod_def checkUnit_def monthPeriod_def)
  show ?thesis
  proof (cases "0 \<le> t + k \<and> t + k < 120000")
    case True
    then have "t + k = 12 * ((t + k) div 12) + ((t + k) mod 12 + 1 - 1)" by simp
    from periodOf_month [OF first_realDate this, of intl None] True show ?thesis unfolding run shifted by simp
  next
    case False
    then show ?thesis unfolding run shifted by auto
  qed
qed

lemma monthPeriod_spans:
  assumes "0 \<le> t" "t < 120000"
  defines "y \<equiv> t div 12" and "m \<equiv> t mod 12 + 1"
  shows "spans (monthPeriod t) (dayFromCivil y m 1) (dayFromCivil y m (monthLength y m))"
    "t < 119999 \<Longrightarrow> dFrom (monthPeriod (t + 1)) = dayText (dayFromCivil y m (monthLength y m) + 1)"
proof -
  have m: "1 \<le> m" "m \<le> 12" using assms by auto
  have real: "realDate y m 1" unfolding y_def m_def by (rule first_realDate [OF assms(1,2)])
  then have last: "realDate y m (monthLength y m)" using m monthLength_bounds [OF m, of y] by (simp add: realDate_def validCivil_def)
  show "spans (monthPeriod t) (dayFromCivil y m 1) (dayFromCivil y m (monthLength y m))"
    using real last inWindow_civil dayText_civil
    by (simp add: spans_def monthPeriod_def y_def [symmetric] m_def [symmetric] realDate_def)
  assume "t < 119999"
  then have "realDate ((t + 1) div 12) ((t + 1) mod 12 + 1) 1" using assms by (intro first_realDate) auto
  then have civil: "dayText (dayFromCivil ((t + 1) div 12) ((t + 1) mod 12 + 1) 1) = dateText ((t + 1) div 12) ((t + 1) mod 12 + 1) 1"
    by (intro dayText_civil) (simp add: realDate_def)
  have "(t + 1) div 12 = (if m = 12 then y + 1 else y) \<and> (t + 1) mod 12 + 1 = (if m = 12 then 1 else m + 1)"
    unfolding y_def m_def by presburger
  then show "dFrom (monthPeriod (t + 1)) = dayText (dayFromCivil y m (monthLength y m) + 1)"
    using dayFromCivil_next_month [OF m, of y] civil by (simp add: monthPeriod_def split: if_splits)
qed

lemma spans_week:
  assumes "spans p a b" "periodUnit p = WeekUnit" "js_isSafeInteger (js_int k)"
  shows "shiftPeriod intl p (js_int k) =
    andThen (formatIsoDate (MS_PER_DAY * (a + k * 7))) (\<lambda>from.
    andThen (formatIsoDate (MS_PER_DAY * (a + k * 7 + 6))) (\<lambda>to. Inr \<lparr>dFrom = from, dTo = to, periodUnit = WeekUnit\<rparr>))"
proof (cases "inWindow (a + k * 7)")
  case True
  then show ?thesis using assms addDays_plain [of a intl "k * 7"] addDays_plain [OF True, of intl 6]
    by (simp add: shiftPeriod_def checkUnit_def spans_def format_dayText)
next
  case False
  then have "isl (formatIsoDate (MS_PER_DAY * (a + k * 7)))" by (rule format_outside)
  then show ?thesis using assms addDays_plain [of a intl "k * 7"]
    by (cases "formatIsoDate (MS_PER_DAY * (a + k * 7))") (auto simp: shiftPeriod_def checkUnit_def spans_def)
qed

lemma spans_unique:
  assumes "spans p a b" "periodUnit p = unit"
  shows "p = \<lparr>dFrom = dayText a, dTo = dayText b, periodUnit = unit\<rparr>"
  using assms by (cases p) (simp add: spans_def)

lemma periodOf_week:
  assumes "periodOf intl WeekUnit date first = Inr p"
  obtains n a where "inWindow n" "date = dayText n" "spans p a (a + 6)" "periodUnit p = WeekUnit" "a \<le> n" "n \<le> a + 6"
    "weekdayOfDay a = js_floor (orElse first (js_int 1)) mod 7"
proof -
  let ?f = "js_floor (orElse first (js_int 1))"
  obtain f t where r: "startOfWeek date ?f = Inr f" "addDays intl f 6 None = Inr t"
    "p = \<lparr>dFrom = f, dTo = t, periodUnit = WeekUnit\<rparr>"
    using assms by (auto simp: periodOf_def checkUnit_def Let_def andThen_Inr)
  obtain n a where a: "inWindow n" "date = dayText n" "inWindow a" "f = dayText a" "a \<le> n" "n \<le> a + 6"
    "weekdayOfDay a = ?f mod 7" using startOfWeek_Inr [OF r(1)] .
  have "inWindow (a + 6) \<and> t = dayText (a + 6)" using addDays_Inr [OF a(3)] r(2) a(4) by blast
  then show thesis using a r(3) by (intro that [of n a]) (simp_all add: spans_def)
qed

lemma shift_week:
  assumes "spans p a (a + 6)" "periodUnit p = WeekUnit" "js_isSafeInteger (js_int k)"
  shows "if inWindow (a + k * 7) \<and> inWindow (a + k * 7 + 6)
    then shiftPeriod intl p (js_int k) = Inr \<lparr>dFrom = dayText (a + k * 7), dTo = dayText (a + k * 7 + 6), periodUnit = WeekUnit\<rparr>
    else isl (shiftPeriod intl p (js_int k))"
  unfolding spans_week [OF assms]
  using format_dayText [of "a + k * 7"] format_dayText [of "a + k * 7 + 6"]
    format_outside [of "a + k * 7"] format_outside [of "a + k * 7 + 6"]
  by (cases "formatIsoDate (MS_PER_DAY * (a + k * 7))"; cases "formatIsoDate (MS_PER_DAY * (a + k * 7 + 6))") auto

text \<open>
  C33: Periods tile the calendar. A period holds the date it was made for; a week has seven days from the wanted
  weekday, a month its first to its last day. The next period starts the day after, a period shifted by
  whole steps keeps its unit, and two shifts are one shift by the sum, refused or not.
\<close>
theorem periods_tile:
  assumes "periodOf intl unit date first = Inr p"
  shows "\<exists>n a b. date = dayText n \<and> spans p a b \<and> a \<le> n \<and> n \<le> b \<and> periodUnit p = unit \<and>
    (case unit of
       WeekUnit \<Rightarrow> b = a + 6 \<and> weekdayOfDay a = js_floor (orElse first (js_int 1)) mod 7
     | MonthUnit \<Rightarrow> \<exists>y m. a = dayFromCivil y m 1 \<and> b = dayFromCivil y m (monthLength y m)
     | OtherUnit _ \<Rightarrow> False) \<and>
    (\<forall>q. shiftPeriod intl p (js_int 1) = Inr q \<longrightarrow> dFrom q = dayText (b + 1)) \<and>
    (\<forall>k q. js_isSafeInteger (js_int k) \<and> shiftPeriod intl p (js_int k) = Inr q \<longrightarrow> periodUnit q = unit \<and>
      (\<forall>j r. js_isSafeInteger (js_int j) \<and> js_isSafeInteger (js_int (k + j)) \<longrightarrow>
        (shiftPeriod intl q (js_int j) = Inr r \<longleftrightarrow> shiftPeriod intl p (js_int (k + j)) = Inr r)))"
proof (cases unit)
  case WeekUnit
  have one: "js_isSafeInteger (js_int 1)" by (simp add: js_isSafeInteger_def MAX_SAFE_INTEGER_def)
  obtain n a where a: "inWindow n" "date = dayText n" "spans p a (a + 6)" "periodUnit p = WeekUnit" "a \<le> n" "n \<le> a + 6"
    "weekdayOfDay a = js_floor (orElse first (js_int 1)) mod 7"
    using periodOf_week assms WeekUnit by blast
  have shift: "shiftPeriod intl p (js_int k) = Inr q \<longleftrightarrow> spans q (a + k * 7) (a + k * 7 + 6) \<and> periodUnit q = WeekUnit"
    if "js_isSafeInteger (js_int k)" for k q
    using shift_week [OF a(3,4) that, of intl] spans_unique [of q "a + k * 7" "a + k * 7 + 6" WeekUnit]
    by (auto simp: spans_def split: if_splits)
  have again: "shiftPeriod intl q (js_int j) = Inr r \<longleftrightarrow> spans r (a + (k + j) * 7) (a + (k + j) * 7 + 6) \<and> periodUnit r = WeekUnit"
    if "js_isSafeInteger (js_int j)" "spans q (a + k * 7) (a + k * 7 + 6)" "periodUnit q = WeekUnit" for k j q r
    using shift_week [OF that(2,3,1), of intl] spans_unique [of r "a + (k + j) * 7" "a + (k + j) * 7 + 6" WeekUnit]
    by (auto simp: spans_def algebra_simps split: if_splits)
  have "dFrom q = dayText (a + 7)" if "shiftPeriod intl p (js_int 1) = Inr q" for q
    using shift [OF one, of q] that by (simp add: spans_def)
  moreover have "periodUnit q = unit \<and> (\<forall>j r. js_isSafeInteger (js_int j) \<and> js_isSafeInteger (js_int (k + j)) \<longrightarrow>
      (shiftPeriod intl q (js_int j) = Inr r \<longleftrightarrow> shiftPeriod intl p (js_int (k + j)) = Inr r))"
    if k: "js_isSafeInteger (js_int k) \<and> shiftPeriod intl p (js_int k) = Inr q" for k q
  proof -
    have q: "spans q (a + k * 7) (a + k * 7 + 6)" "periodUnit q = WeekUnit" using shift [of k q] k by blast+
    then show ?thesis using WeekUnit again [OF _ q] shift by blast
  qed
  moreover have "a + 6 + 1 = a + 7" by simp
  ultimately show ?thesis
    using a WeekUnit by (intro exI [of _ n] exI [of _ a] exI [of _ "a + 6"]) (simp only: PeriodUnit.case simp_thms, blast)
next
  case MonthUnit
  then obtain f where "startOfMonth date = Inr f" using assms by (auto simp: periodOf_def checkUnit_def andThen_Inr)
  then obtain ms where "parseIsoDate date = Inr ms" by (auto simp: startOfMonth_def andThen_Inr)
  then obtain y m d where r: "realDate y m d" "date = dateText y m d" by (rule parse_Inr)
  have m: "1 \<le> m" "m \<le> 12" "0 \<le> y" "1 \<le> d" "d \<le> monthLength y m" "validCivil y m d"
    using r(1) by (simp_all add: realDate_def validCivil_def)
  define t where "t = 12 * y + (m - 1)"
  have t: "t div 12 = y" "t mod 12 + 1 = m" "0 \<le> t" using m unfolding t_def by auto
  have p: "p = monthPeriod t" "t < 119999"
    using periodOf_month [OF r(1) t_def, of intl first] assms r(2) MonthUnit by (auto split: if_splits)
  have month: "periodUnit (monthPeriod k) = MonthUnit" for k by (simp add: monthPeriod_def)
  have shift: "shiftPeriod intl (monthPeriod s) (js_int k) = Inr q \<longleftrightarrow> 0 \<le> s + k \<and> s + k < 119999 \<and> q = monthPeriod (s + k)"
    if "0 \<le> s" "s < 119999" "js_isSafeInteger (js_int k)" for s k q
    using shiftPeriod_month [of s k intl] that by (auto split: if_splits)
  have one: "js_isSafeInteger (js_int 1)" by (simp add: js_isSafeInteger_def MAX_SAFE_INTEGER_def)
  have spans: "spans p (dayFromCivil y m 1) (dayFromCivil y m (monthLength y m))"
    "dFrom (monthPeriod (t + 1)) = dayText (dayFromCivil y m (monthLength y m) + 1)"
    using monthPeriod_spans [of t] t p by simp_all
  have inside: "dayFromCivil y m 1 \<le> dayFromCivil y m d" "dayFromCivil y m d \<le> dayFromCivil y m (monthLength y m)"
    using m by (simp_all add: dayFromCivil_def)
  have "dFrom q = dayText (dayFromCivil y m (monthLength y m) + 1)" if "shiftPeriod intl p (js_int 1) = Inr q" for q
    using shift [OF t(3) p(2) one, of q] that spans(2) p(1) by simp
  moreover have "periodUnit q = unit \<and> (\<forall>j r. js_isSafeInteger (js_int j) \<and> js_isSafeInteger (js_int (k + j)) \<longrightarrow>
      (shiftPeriod intl q (js_int j) = Inr r \<longleftrightarrow> shiftPeriod intl p (js_int (k + j)) = Inr r))"
    if k: "js_isSafeInteger (js_int k) \<and> shiftPeriod intl p (js_int k) = Inr q" for k q
  proof -
    have q: "0 \<le> t + k" "t + k < 119999" "q = monthPeriod (t + k)" using shift [OF t(3) p(2), of k q] k p(1) by auto
    have "shiftPeriod intl q (js_int j) = Inr r \<longleftrightarrow> shiftPeriod intl p (js_int (k + j)) = Inr r"
      if "js_isSafeInteger (js_int j)" "js_isSafeInteger (js_int (k + j))" for j r
      unfolding q(3) p(1) shift [OF q(1,2) that(1)] shift [OF t(3) p(2) that(2)] by (simp only: add.assoc)
    then show ?thesis using q(3) month MonthUnit by simp
  qed
  moreover have "date = dayText (dayFromCivil y m d)" using r(2) dayText_civil [OF m(6)] by simp
  moreover have "periodUnit p = unit" using p(1) month MonthUnit by simp
  ultimately show ?thesis
    using spans(1) inside MonthUnit
    by - (rule exI [of _ "dayFromCivil y m d"], rule exI [of _ "dayFromCivil y m 1"],
        rule exI [of _ "dayFromCivil y m (monthLength y m)"], simp only: PeriodUnit.case simp_thms, blast)
next
  case (OtherUnit x)
  then show ?thesis using assms by (simp add: periodOf_def checkUnit_def)
qed

theorem periods_tile_witness:
  "\<exists>p. periodOf berlinIntl MonthUnit (dateText 2026 2 14) None = Inr p \<and> dFrom p = dateText 2026 2 1 \<and> dTo p = dateText 2026 2 28"
proof -
  have real: "realDate 2026 2 14" by code_simp
  have "periodOf berlinIntl MonthUnit (dateText 2026 2 14) None = Inr (monthPeriod 24313)"
    using periodOf_month [OF real, of 24313] by simp
  from periods_tile [OF this] obtain n a b y m where t: "dateText 2026 2 14 = dayText n" "spans (monthPeriod 24313) a b"
    by blast
  have "dFrom (monthPeriod 24313) = dateText 2026 2 1" "dTo (monthPeriod 24313) = dateText 2026 2 28"
    by (simp_all add: monthPeriod_def monthLength_def monthLengths_def leapYear_def)
  with \<open>periodOf berlinIntl MonthUnit (dateText 2026 2 14) None = Inr (monthPeriod 24313)\<close> show ?thesis by blast
qed

text \<open>What has passed of a period is the period up to today, all of it once it is over, and nothing before it starts.\<close>

lemma periodSoFar_spec:
  assumes zone: "keepsTime intl tz off" and p: "spans p a b" and year: "1 \<le> localYear (t + off t)" "localYear (t + off t) \<le> 9999"
  defines "today \<equiv> dayNo (t + off t)"
  shows "periodSoFar intl p (Some t) tz =
    Inr (if today < a then None else if b \<le> today then Some p else Some (p\<lparr>dTo := dayText today\<rparr>))"
proof -
  obtain y m d where c: "civilOfDay today = (y, m, d)" by (metis prod_cases3)
  have real: "realDate y m d" using civilOfDay_ok [OF c] year c by (simp add: realDate_def localYear_def today_def)
  have day: "inWindow today" "wallDate (t + off t) = dayText today"
    using inWindow_civil [of y m d] civilOfDay_ok [OF c] real by (simp_all add: wallDate_def dayText_def today_def)
  have order: "MS_PER_DAY * i < MS_PER_DAY * j \<longleftrightarrow> i < j" "MS_PER_DAY * j \<le> MS_PER_DAY * i \<longleftrightarrow> j \<le> i" for i j
    by (simp_all add: MS_PER_DAY_def)
  show ?thesis
    using p by (simp add: periodSoFar_def zone_readings(1) [OF zone year] day parse_dayText spans_def order)
qed

end
