(* ===== verification/IcalZone.thy ===== *)
theory IcalZone
  imports TzClock
begin

text \<open>
  Instants of iCalendar date values: the component tree (\<open>time/ical.ts\<close>), the offset rules of a \<open>VTIMEZONE\<close>
  (\<open>time/ical-timezone.ts\<close>), Windows zone names (\<open>time/windows-zones.ts\<close>) and \<open>resolveInstant\<close>. Names are
  compared in upper case; \<open>upper\<close> is \<open>toUpperCase\<close>. Shown: \<open>vtimezoneInstant\<close> answers the first instant at
  which the clock the rules define reads the wall clock.
\<close>

section \<open>Documents and date values\<close>

record IcalParameter =
  paramName :: units
  paramValues :: "units list"

text \<open>A property is an object: \<open>propRef\<close> is its identity.\<close>

record IcalProperty =
  propRef :: nat
  propName :: units
  propParams :: "IcalParameter list"
  propValue :: units
  propSource :: "units option"

text \<open>\<open>compBefore\<close> is the property a component precedes.\<close>

datatype IcalComponent = Component (compName: units) (compProperties: "IcalProperty list")
  (compChildren: "IcalComponent list") (compSource: "(units \<times> units) option") (compBefore: "nat option")

datatype IcalDateKind = DateKind | FloatingKind | UtcKind | ZonedKind

record IcalDateValue =
  valueKind :: IcalDateKind
  valueDate :: string
  valueTime :: "string option"
  valueTzid :: "units option"

section \<open>Wall clocks of a VTIMEZONE\<close>

text \<open>\<open>setUTCFullYear\<close> and \<open>setUTCHours\<close> on the epoch: months and days run over into the next ones.\<close>

definition makeDay :: "int \<Rightarrow> int \<Rightarrow> int \<Rightarrow> int" where
  "makeDay year month day = dayFromCivil (year + (month - 1) div 12) ((month - 1) mod 12 + 1) 1 + day - 1"

definition wallMs :: "int \<Rightarrow> int \<Rightarrow> int \<Rightarrow> int \<Rightarrow> int \<Rightarrow> int \<Rightarrow> jsdate" where
  "wallMs year month day h m s =
     (case newDate (MS_PER_DAY * makeDay year month day) of None \<Rightarrow> None
      | Some t \<Rightarrow> newDate (t + h * 3600000 + m * 60000 + s * 1000))"

definition digitsAt :: "units \<Rightarrow> nat list \<Rightarrow> bool" where
  "digitsAt s is \<longleftrightarrow> list_all (\<lambda>i. i < length s \<and> isDigitU (s ! i)) is"

definition numberAt :: "units \<Rightarrow> nat \<Rightarrow> nat \<Rightarrow> int" where
  "numberAt s i n = int (readU (take n (drop i s)))"

text \<open>\<open>YYYYMMDDTHHMMSS\<close> with or without a \<open>Z\<close>: the wall clock and whether it is UTC. The years 0 to 9999 are dates.\<close>

definition parseDateTime :: "units \<Rightarrow> (int \<times> bool) option" where
  "parseDateTime text =
     (let s = trimUnits text in
      if (length s = 15 \<or> length s = 16 \<and> s ! 15 = 90) \<and> digitsAt s ([0..<8] @ [9..<15]) \<and> s ! 8 = 84 then
        let month = numberAt s 4 2; day = numberAt s 6 2; h = numberAt s 9 2; m = numberAt s 11 2; sec = numberAt s 13 2
        in if month < 1 \<or> month > 12 \<or> day < 1 \<or> day > 31 \<or> h > 23 \<or> m > 59 \<or> sec > 60 then None
           else map_option (\<lambda>t. (t, length s = 16)) (wallMs (numberAt s 0 4) month day h m sec)
      else None)"

text \<open>\<open>Unusable\<close> is \<open>None\<close> from here on.\<close>

definition parseOffset :: "units option \<Rightarrow> int option" where
  "parseOffset text =
     (let s = trimUnits (orElse text []) in
      if (length s = 5 \<or> length s = 7) \<and> s ! 0 \<in> {43, 45} \<and> digitsAt s [1..<length s] then
        let seconds = numberAt s 1 2 * 3600 + numberAt s 3 2 * 60 + (if length s = 7 then numberAt s 5 2 else 0)
        in Some ((if s ! 0 = 45 then - seconds else seconds) * 1000)
      else None)"

definition propertyOf :: "(units \<Rightarrow> units) \<Rightarrow> IcalProperty list \<Rightarrow> units \<Rightarrow> IcalProperty option" where
  "propertyOf upper ps name = find (\<lambda>p. upper (propName p) = name) ps"

fun findTimezone :: "(units \<Rightarrow> units) \<Rightarrow> units \<Rightarrow> IcalComponent \<Rightarrow> IcalComponent option"
and findTimezoneIn :: "(units \<Rightarrow> units) \<Rightarrow> units \<Rightarrow> IcalComponent list \<Rightarrow> IcalComponent option" where
  "findTimezone upper tzid (Component name ps cs source before) =
     (if upper name = u ''VTIMEZONE'' \<and> map_option propValue (propertyOf upper ps (u ''TZID'')) = Some tzid
      then Some (Component name ps cs source before) else findTimezoneIn upper tzid cs)"
| "findTimezoneIn upper tzid [] = None"
| "findTimezoneIn upper tzid (c # cs) =
     (case findTimezone upper tzid c of Some found \<Rightarrow> Some found | None \<Rightarrow> findTimezoneIn upper tzid cs)"

text \<open>A signed decimal number.\<close>

definition integerText :: "units \<Rightarrow> int option" where
  "integerText s =
     (let signed = s \<noteq> [] \<and> hd s \<in> {43, 45}; d = (if signed then tl s else s) in
      if d \<noteq> [] \<and> list_all isDigitU d then Some ((if signed \<and> hd s = 45 then -1 else 1) * int (readU d)) else None)"

fun traverse :: "('a \<Rightarrow> 'b option) \<Rightarrow> 'a list \<Rightarrow> 'b list option" where
  "traverse f [] = Some []"
| "traverse f (x # xs) =
     (case f x of None \<Rightarrow> None | Some y \<Rightarrow> map_option ((#) y) (traverse f xs))"

definition integers :: "units \<Rightarrow> int list option" where
  "integers text = traverse integerText (splitUnits 44 text)"

definition WEEKDAYS :: "units list" where
  "WEEKDAYS = [u ''SU'', u ''MO'', u ''TU'', u ''WE'', u ''TH'', u ''FR'', u ''SA'']"

definition RULE_PARTS :: "units list" where
  "RULE_PARTS = [u ''FREQ'', u ''INTERVAL'', u ''BYMONTH'', u ''BYDAY'', u ''BYMONTHDAY'', u ''UNTIL'', u ''WKST'']"

fun ruleParts :: "(units \<Rightarrow> units) \<Rightarrow> units list \<Rightarrow> (units, units) jsmap \<Rightarrow> (units, units) jsmap option" where
  "ruleParts upper [] parts = Some parts"
| "ruleParts upper (piece # pieces) parts =
     (let name = takeWhile (\<lambda>c. c \<noteq> 61) piece; key = upper name in
      if 61 \<notin> set piece \<or> name = [] \<or> key \<notin> set RULE_PARTS \<or> jm_has parts key then None
      else ruleParts upper pieces (jm_set key (upper (drop (length name + 1) piece)) parts))"

text \<open>\<open>([+-]?[1-5])?([A-Z]{2})\<close>: the number, if any, and the weekday, 0 for Sunday.\<close>

definition ruleDay :: "units \<Rightarrow> (int option \<times> nat) option" where
  "ruleDay s =
     (let n = length s - 2; d = take n s; name = drop n s in
      if length s < 2 \<or> name \<notin> set WEEKDAYS then None
      else let day = length (takeWhile (\<lambda>w. w \<noteq> name) WEEKDAYS) in
        if d = [] then Some (None, day)
        else let digit = last d in
          if (length d = 1 \<or> length d = 2 \<and> hd d \<in> {43, 45}) \<and> 49 \<le> digit \<and> digit \<le> 53
          then Some (Some ((if length d = 2 \<and> hd d = 45 then -1 else 1) * int (digit - 48)), day) else None)"

text \<open>The day of the month on which one year's change falls; more than one is unusable.\<close>

definition onsetDays :: "int \<Rightarrow> int \<Rightarrow> (int option \<times> nat) option \<Rightarrow> int list option \<Rightarrow> int \<Rightarrow> int list" where
  "onsetDays year month byDay monthDays firstDate =
     (let len = monthLength year month; days = [1..len];
          dayOf = (\<lambda>d. weekdayOfDay (dayFromCivil year month d));
          byWeekday = (case byDay of None \<Rightarrow> days
            | Some (which, weekday) \<Rightarrow>
                let ds = filter (\<lambda>d. dayOf d = int weekday) days in
                (case which of None \<Rightarrow> ds
                 | Some n \<Rightarrow> let index = (if n > 0 then n - 1 else int (length ds) + n) in
                     if 0 \<le> index \<and> index < int (length ds) then [ds ! nat index] else []))
      in case monthDays of
           Some allowed \<Rightarrow> filter (\<lambda>d. d \<in> set (map (\<lambda>a. if a < 0 then len + a + 1 else a) allowed)) byWeekday
         | None \<Rightarrow> if byDay = None then filter (\<lambda>d. d = firstDate) byWeekday else byWeekday)"

fun onsetsOf :: "(int \<Rightarrow> int list) \<Rightarrow> int \<Rightarrow> int \<Rightarrow> int \<Rightarrow> int \<Rightarrow> (int \<times> bool) option \<Rightarrow> int list \<Rightarrow> int list option" where
  "onsetsOf daysIn month timeOfDay start from until [] = Some []"
| "onsetsOf daysIn month timeOfDay start from until (year # years) =
     (let rest = onsetsOf daysIn month timeOfDay start from until years in
      case daysIn year of
        [] \<Rightarrow> rest
      | [day] \<Rightarrow>
          let onset = MS_PER_DAY * dayFromCivil year month day + timeOfDay in
          if onset < start then rest
          else if (case until of None \<Rightarrow> False | Some (ms, utc) \<Rightarrow> (if utc then onset - from else onset) > ms) then rest
          else map_option ((#) onset) rest
      | _ \<Rightarrow> None)"

text \<open>\<open>new Set\<close> of the years: a year again stays at its place.\<close>

definition wantedYears :: "int list \<Rightarrow> (int \<times> bool) option \<Rightarrow> int list" where
  "wantedYears years until =
     (case until of None \<Rightarrow> rev (remdups (rev years))
      | Some (ms, utc) \<Rightarrow> let lastYear = fst (civilOfDay (ms div MS_PER_DAY)) in
          rev (remdups (rev (years @ [lastYear - 1, lastYear, lastYear + 1]))))"

definition yearlyOnsets :: "(units \<Rightarrow> units) \<Rightarrow> units \<Rightarrow> int \<Rightarrow> int \<Rightarrow> int list \<Rightarrow> int list option" where
  "yearlyOnsets upper rule start from years =
     (case ruleParts upper (splitUnits 59 (trimUnits rule)) [] of None \<Rightarrow> None
      | Some parts \<Rightarrow>
          let get = (\<lambda>name. jm_get parts (u name)); has = (\<lambda>name. jm_has parts (u name));
              (firstYear, firstMonth, firstDate) = civilOfDay (start div MS_PER_DAY)
          in
          if get ''FREQ'' \<noteq> Some (u ''YEARLY'') \<or> orElse (get ''INTERVAL'') (u ''1'') \<noteq> u ''1'' then None
          else if \<not> has ''BYMONTH'' \<and> (has ''BYDAY'' \<or> has ''BYMONTHDAY'') then None
          else (case (case get ''BYMONTH'' of None \<Rightarrow> Some [firstMonth] | Some t \<Rightarrow> integers t) of
            Some [month] \<Rightarrow>
              if month < 1 \<or> month > 12 then None
              else let byDay = (case get ''BYDAY'' of None \<Rightarrow> None | Some t \<Rightarrow> ruleDay t);
                       monthDays = (case get ''BYMONTHDAY'' of None \<Rightarrow> None | Some t \<Rightarrow> integers t);
                       until = (case get ''UNTIL'' of None \<Rightarrow> None | Some t \<Rightarrow> parseDateTime t) in
                if has ''BYDAY'' \<and> byDay = None then None
                else if has ''BYMONTHDAY'' \<and> monthDays = None then None
                else if list_ex (\<lambda>d. d = 0 \<or> \<bar>d\<bar> > 31) (orElse monthDays []) then None
                else if byDay \<noteq> None \<and> fst (the byDay) = None \<and> monthDays = None then None
                else if has ''UNTIL'' \<and> until = None then None
                else onsetsOf (\<lambda>year. onsetDays year month byDay monthDays firstDate) month (start mod MS_PER_DAY) start from
                  until (wantedYears years until)
          | _ \<Rightarrow> None))"

record Transition =
  atMs :: int
  offsetFrom :: int
  offsetTo :: int

definition rdateOnset :: "units \<Rightarrow> int option" where
  "rdateOnset item = (case parseDateTime item of Some (ms, False) \<Rightarrow> Some ms | _ \<Rightarrow> None)"

text \<open>The changes one \<open>STANDARD\<close> or \<open>DAYLIGHT\<close> part makes around a year.\<close>

definition partTransitions :: "(units \<Rightarrow> units) \<Rightarrow> int \<Rightarrow> IcalProperty list \<Rightarrow> Transition list option" where
  "partTransitions upper year ps =
     (let value = (\<lambda>name. map_option propValue (propertyOf upper ps (u name)));
          named = (\<lambda>name. filter (\<lambda>p. upper (propName p) = u name) ps) in
      case (parseOffset (value ''TZOFFSETFROM''), parseOffset (value ''TZOFFSETTO''), parseDateTime (orElse (value ''DTSTART'') [])) of
        (Some from, Some to, Some (start, False)) \<Rightarrow>
          (case (case named ''RRULE'' of [] \<Rightarrow> Some []
                 | [rule] \<Rightarrow> yearlyOnsets upper (propValue rule) start from [year - 1, year, year + 1] | _ \<Rightarrow> None) of
             None \<Rightarrow> None
           | Some yearly \<Rightarrow>
               (case traverse rdateOnset (concat (map (\<lambda>p. splitUnits 44 (propValue p)) (named ''RDATE''))) of
                  None \<Rightarrow> None
                | Some dates \<Rightarrow>
                    Some (map (\<lambda>onset. \<lparr>atMs = onset - from, offsetFrom = from, offsetTo = to\<rparr>) (start # yearly @ dates))))
      | _ \<Rightarrow> None)"

definition transitions :: "(units \<Rightarrow> units) \<Rightarrow> IcalComponent \<Rightarrow> int \<Rightarrow> Transition list option" where
  "transitions upper timezone year =
     (case traverse (\<lambda>part. partTransitions upper year (compProperties part))
             (filter (\<lambda>part. upper (compName part) \<in> {u ''STANDARD'', u ''DAYLIGHT''}) (compChildren timezone)) of
        None \<Rightarrow> None
      | Some parts \<Rightarrow> let out = concat parts in if out = [] then None else Some (jsSort (\<lambda>a b. atMs a - atMs b) out))"

text \<open>The stretches between changes: an offset, from when (\<open>None\<close> is always) and until when (\<open>None\<close> is never).\<close>

fun stretchesFrom :: "Transition list \<Rightarrow> (int \<times> int option \<times> int option) list" where
  "stretchesFrom [] = []"
| "stretchesFrom [t] = [(offsetTo t, Some (atMs t), None)]"
| "stretchesFrom (t # t' # ts) = (offsetTo t, Some (atMs t), Some (atMs t')) # stretchesFrom (t' # ts)"

definition stretches :: "Transition list \<Rightarrow> (int \<times> int option \<times> int option) list" where
  "stretches ts = (offsetFrom (hd ts), None, Some (atMs (hd ts))) # stretchesFrom ts"

definition realInstants :: "Transition list \<Rightarrow> int \<Rightarrow> int list" where
  "realInstants ts wall =
     map (\<lambda>(offset, since, before). wall - offset)
       (filter (\<lambda>(offset, since, before).
           (case since of None \<Rightarrow> True | Some a \<Rightarrow> wall - offset \<ge> a) \<and>
           (case before of None \<Rightarrow> True | Some b \<Rightarrow> wall - offset < b)) (stretches ts))"

definition instantOf :: "Transition list \<Rightarrow> int \<Rightarrow> int option" where
  "instantOf ts wall =
     (let real = realInstants ts wall in
      if real \<noteq> [] then Some (Min (set real))
      else map_option (\<lambda>item. wall - offsetFrom item)
        (find (\<lambda>item. wall - offsetFrom item \<ge> atMs item \<and> wall - offsetTo item < atMs item) ts))"

definition vtimezoneInstant :: "(units \<Rightarrow> units) \<Rightarrow> IcalComponent \<Rightarrow> units \<Rightarrow> string \<Rightarrow> string \<Rightarrow> int option" where
  "vtimezoneInstant upper doc tzid date time =
     (case (findTimezone upper tzid doc,
            parseDateTime (u (filter (\<lambda>c. c \<noteq> CHR ''-'') date @ ''T'' @ filter (\<lambda>c. c \<noteq> CHR '':'') time))) of
        (Some timezone, Some (wall, _)) \<Rightarrow>
          (case transitions upper timezone (fst (civilOfDay (wall div MS_PER_DAY))) of
             None \<Rightarrow> None | Some ts \<Rightarrow> instantOf ts wall)
      | _ \<Rightarrow> None)"

section \<open>Windows names and instants\<close>

definition WINDOWS_ZONES :: "(string \<times> string) list" where
  "WINDOWS_ZONES =
     [(''Dateline Standard Time'', ''Etc/GMT+12''), (''UTC-11'', ''Etc/GMT+11''),
      (''Aleutian Standard Time'', ''America/Adak''), (''Hawaiian Standard Time'', ''Pacific/Honolulu''),
      (''Marquesas Standard Time'', ''Pacific/Marquesas''), (''Alaskan Standard Time'', ''America/Anchorage''),
      (''UTC-09'', ''Etc/GMT+9''), (''Pacific Standard Time (Mexico)'', ''America/Tijuana''),
      (''UTC-08'', ''Etc/GMT+8''), (''Pacific Standard Time'', ''America/Los_Angeles''),
      (''US Mountain Standard Time'', ''America/Phoenix''),
      (''Mountain Standard Time (Mexico)'', ''America/Mazatlan''), (''Mountain Standard Time'', ''America/Denver''),
      (''Yukon Standard Time'', ''America/Whitehorse''), (''Central America Standard Time'', ''America/Guatemala''),
      (''Central Standard Time'', ''America/Chicago''), (''Easter Island Standard Time'', ''Pacific/Easter''),
      (''Central Standard Time (Mexico)'', ''America/Mexico_City''),
      (''Canada Central Standard Time'', ''America/Regina''), (''SA Pacific Standard Time'', ''America/Bogota''),
      (''Eastern Standard Time (Mexico)'', ''America/Cancun''), (''Eastern Standard Time'', ''America/New_York''),
      (''Haiti Standard Time'', ''America/Port-au-Prince''), (''Cuba Standard Time'', ''America/Havana''),
      (''US Eastern Standard Time'', ''America/Indianapolis''),
      (''Turks And Caicos Standard Time'', ''America/Grand_Turk''),
      (''Paraguay Standard Time'', ''America/Asuncion''), (''Atlantic Standard Time'', ''America/Halifax''),
      (''Venezuela Standard Time'', ''America/Caracas''), (''Central Brazilian Standard Time'', ''America/Cuiaba''),
      (''SA Western Standard Time'', ''America/La_Paz''), (''Pacific SA Standard Time'', ''America/Santiago''),
      (''Newfoundland Standard Time'', ''America/St_Johns''), (''Tocantins Standard Time'', ''America/Araguaina''),
      (''E. South America Standard Time'', ''America/Sao_Paulo''),
      (''SA Eastern Standard Time'', ''America/Cayenne''), (''Argentina Standard Time'', ''America/Buenos_Aires''),
      (''Greenland Standard Time'', ''America/Godthab''), (''Montevideo Standard Time'', ''America/Montevideo''),
      (''Magallanes Standard Time'', ''America/Punta_Arenas''),
      (''Saint Pierre Standard Time'', ''America/Miquelon''), (''Bahia Standard Time'', ''America/Bahia''),
      (''UTC-02'', ''Etc/GMT+2''), (''Azores Standard Time'', ''Atlantic/Azores''),
      (''Cape Verde Standard Time'', ''Atlantic/Cape_Verde''), (''UTC'', ''Etc/UTC''),
      (''GMT Standard Time'', ''Europe/London''), (''Greenwich Standard Time'', ''Atlantic/Reykjavik''),
      (''Sao Tome Standard Time'', ''Africa/Sao_Tome''), (''Morocco Standard Time'', ''Africa/Casablanca''),
      (''W. Europe Standard Time'', ''Europe/Berlin''), (''Central Europe Standard Time'', ''Europe/Budapest''),
      (''Romance Standard Time'', ''Europe/Paris''), (''Central European Standard Time'', ''Europe/Warsaw''),
      (''W. Central Africa Standard Time'', ''Africa/Lagos''), (''Jordan Standard Time'', ''Asia/Amman''),
      (''GTB Standard Time'', ''Europe/Bucharest''), (''Middle East Standard Time'', ''Asia/Beirut''),
      (''Egypt Standard Time'', ''Africa/Cairo''), (''E. Europe Standard Time'', ''Europe/Chisinau''),
      (''Syria Standard Time'', ''Asia/Damascus''), (''West Bank Standard Time'', ''Asia/Hebron''),
      (''South Africa Standard Time'', ''Africa/Johannesburg''), (''FLE Standard Time'', ''Europe/Kiev''),
      (''Israel Standard Time'', ''Asia/Jerusalem''), (''South Sudan Standard Time'', ''Africa/Juba''),
      (''Kaliningrad Standard Time'', ''Europe/Kaliningrad''), (''Sudan Standard Time'', ''Africa/Khartoum''),
      (''Libya Standard Time'', ''Africa/Tripoli''), (''Namibia Standard Time'', ''Africa/Windhoek''),
      (''Arabic Standard Time'', ''Asia/Baghdad''), (''Turkey Standard Time'', ''Europe/Istanbul''),
      (''Arab Standard Time'', ''Asia/Riyadh''), (''Belarus Standard Time'', ''Europe/Minsk''),
      (''Russian Standard Time'', ''Europe/Moscow''), (''E. Africa Standard Time'', ''Africa/Nairobi''),
      (''Iran Standard Time'', ''Asia/Tehran''), (''Arabian Standard Time'', ''Asia/Dubai''),
      (''Astrakhan Standard Time'', ''Europe/Astrakhan''), (''Azerbaijan Standard Time'', ''Asia/Baku''),
      (''Russia Time Zone 3'', ''Europe/Samara''), (''Mauritius Standard Time'', ''Indian/Mauritius''),
      (''Saratov Standard Time'', ''Europe/Saratov''), (''Georgian Standard Time'', ''Asia/Tbilisi''),
      (''Volgograd Standard Time'', ''Europe/Volgograd''), (''Caucasus Standard Time'', ''Asia/Yerevan''),
      (''Afghanistan Standard Time'', ''Asia/Kabul''), (''West Asia Standard Time'', ''Asia/Tashkent''),
      (''Ekaterinburg Standard Time'', ''Asia/Yekaterinburg''), (''Pakistan Standard Time'', ''Asia/Karachi''),
      (''Qyzylorda Standard Time'', ''Asia/Qyzylorda''), (''India Standard Time'', ''Asia/Calcutta''),
      (''Sri Lanka Standard Time'', ''Asia/Colombo''), (''Nepal Standard Time'', ''Asia/Katmandu''),
      (''Central Asia Standard Time'', ''Asia/Bishkek''), (''Bangladesh Standard Time'', ''Asia/Dhaka''),
      (''Omsk Standard Time'', ''Asia/Omsk''), (''Myanmar Standard Time'', ''Asia/Rangoon''),
      (''SE Asia Standard Time'', ''Asia/Bangkok''), (''Altai Standard Time'', ''Asia/Barnaul''),
      (''W. Mongolia Standard Time'', ''Asia/Hovd''), (''North Asia Standard Time'', ''Asia/Krasnoyarsk''),
      (''N. Central Asia Standard Time'', ''Asia/Novosibirsk''), (''Tomsk Standard Time'', ''Asia/Tomsk''),
      (''China Standard Time'', ''Asia/Shanghai''), (''North Asia East Standard Time'', ''Asia/Irkutsk''),
      (''Singapore Standard Time'', ''Asia/Singapore''), (''W. Australia Standard Time'', ''Australia/Perth''),
      (''Taipei Standard Time'', ''Asia/Taipei''), (''Ulaanbaatar Standard Time'', ''Asia/Ulaanbaatar''),
      (''Aus Central W. Standard Time'', ''Australia/Eucla''), (''Transbaikal Standard Time'', ''Asia/Chita''),
      (''Tokyo Standard Time'', ''Asia/Tokyo''), (''North Korea Standard Time'', ''Asia/Pyongyang''),
      (''Korea Standard Time'', ''Asia/Seoul''), (''Yakutsk Standard Time'', ''Asia/Yakutsk''),
      (''Cen. Australia Standard Time'', ''Australia/Adelaide''),
      (''AUS Central Standard Time'', ''Australia/Darwin''),
      (''E. Australia Standard Time'', ''Australia/Brisbane''),
      (''AUS Eastern Standard Time'', ''Australia/Sydney''),
      (''West Pacific Standard Time'', ''Pacific/Port_Moresby''), (''Tasmania Standard Time'', ''Australia/Hobart''),
      (''Vladivostok Standard Time'', ''Asia/Vladivostok''), (''Lord Howe Standard Time'', ''Australia/Lord_Howe''),
      (''Bougainville Standard Time'', ''Pacific/Bougainville''), (''Russia Time Zone 10'', ''Asia/Srednekolymsk''),
      (''Magadan Standard Time'', ''Asia/Magadan''), (''Norfolk Standard Time'', ''Pacific/Norfolk''),
      (''Sakhalin Standard Time'', ''Asia/Sakhalin''), (''Central Pacific Standard Time'', ''Pacific/Guadalcanal''),
      (''Russia Time Zone 11'', ''Asia/Kamchatka''), (''New Zealand Standard Time'', ''Pacific/Auckland''),
      (''UTC+12'', ''Etc/GMT-12''), (''Fiji Standard Time'', ''Pacific/Fiji''),
      (''Chatham Islands Standard Time'', ''Pacific/Chatham''), (''UTC+13'', ''Etc/GMT-13''),
      (''Tonga Standard Time'', ''Pacific/Tongatapu''), (''Samoa Standard Time'', ''Pacific/Apia''),
      (''Line Islands Standard Time'', ''Pacific/Kiritimati'')]"

text \<open>A zone name with a unit beyond Latin-1 is no zone's name.\<close>

definition zoneName :: "units \<Rightarrow> string option" where
  "zoneName z = (if list_all (\<lambda>c. c < 256) z then Some (map char_of z) else None)"

definition knownZone :: "Intl \<Rightarrow> units \<Rightarrow> string option" where
  "knownZone intl z =
     (case zoneName z of None \<Rightarrow> None | Some s \<Rightarrow> if s \<noteq> [] \<and> isValidTimeZone intl s then Some s else None)"

text \<open>\<open>new Date(`${date}T${time}Z`)\<close> for a date and a time of the shapes a value has. The parser takes 24:00:00 as
  the end of the day and refuses a second 60.\<close>

definition utcInstant :: "string \<Rightarrow> string \<Rightarrow> jsdate" where
  "utcInstant date time =
     (if isoDatePattern date \<and> length time = 8 \<and> list_all (\<lambda>i. isDigit (time ! i)) [0, 1, 3, 4, 6, 7] \<and>
         time ! 2 = CHR '':'' \<and> time ! 5 = CHR '':'' then
        let h = int (readNat (take 2 time)); m = int (readNat (take 2 (drop 3 time))); s = int (readNat (drop 6 time)) in
        case dateParse date of None \<Rightarrow> None
        | Some day \<Rightarrow> if h \<le> 23 \<and> m \<le> 59 \<and> s \<le> 59 \<or> h = 24 \<and> m = 0 \<and> s = 0
                      then newDate (day + h * 3600000 + m * 60000 + s * 1000) else None
      else None)"

definition resolveInstant :: "Intl \<Rightarrow> (units \<Rightarrow> units) \<Rightarrow> IcalDateValue \<Rightarrow> units option \<Rightarrow> IcalComponent option \<Rightarrow> jsdate" where
  "resolveInstant intl upper val zone doc =
     (let time = orElse (valueTime val) []; hhmm = (if time \<noteq> [] then take 5 time else ''00:00'');
          seconds = (if time \<noteq> [] then int (readNat (take 2 (drop 6 time))) else 0) in
      if valueKind val = UtcKind then utcInstant (valueDate val) time
      else
        let zone = (if valueKind val = ZonedKind then valueTzid val else zone);
            unknown = valueKind val = ZonedKind \<and> zone \<noteq> None \<and> zone \<noteq> Some [] \<and> knownZone intl (the zone) = None;
            defined = (if unknown then (case doc of None \<Rightarrow> None
               | Some r \<Rightarrow> vtimezoneInstant upper r (the zone) (valueDate val) (orElse (valueTime val) ''00:00:00'')) else None) in
        case defined of
          Some t \<Rightarrow> newDate t
        | None \<Rightarrow>
            (case (if unknown then (case zoneName (the zone) of None \<Rightarrow> None | Some z \<Rightarrow> map_of WINDOWS_ZONES z)
                   else (case zone of None \<Rightarrow> None | Some z \<Rightarrow> zoneName z)) of
               None \<Rightarrow> None
             | Some z \<Rightarrow>
                 if z = [] \<or> \<not> isValidTimeZone intl z then None
                 else (case zonedDateTime intl (valueDate val) hhmm z of
                   Inr (Some t) \<Rightarrow> newDate (t + seconds * 1000) | _ \<Rightarrow> None)))"

section \<open>The clock a VTIMEZONE defines\<close>

text \<open>The offset in force at an instant: the last change so far sets it.\<close>

definition offsetAt :: "Transition list \<Rightarrow> int \<Rightarrow> int" where
  "offsetAt ts t =
     (if t < atMs (hd ts) then offsetFrom (hd ts) else offsetTo (last (filter (\<lambda>c. atMs c \<le> t) ts)))"

definition realIn :: "int \<Rightarrow> int \<times> int option \<times> int option \<Rightarrow> int \<Rightarrow> bool" where
  "realIn wall stretch t \<longleftrightarrow> (case stretch of (z, since, before) \<Rightarrow> t = wall - z \<and>
     (case since of None \<Rightarrow> True | Some a \<Rightarrow> t \<ge> a) \<and> (case before of None \<Rightarrow> True | Some b \<Rightarrow> t < b))"

lemma set_realInstants: "t \<in> set (realInstants ts wall) \<longleftrightarrow> (\<exists>st \<in> set (stretches ts). realIn wall st t)"
  by (force simp: realInstants_def realIn_def image_iff)

lemma stretchesFrom_spec:
  "ts \<noteq> [] \<Longrightarrow> sorted (map atMs ts) \<Longrightarrow>
   (\<exists>st \<in> set (stretchesFrom ts). realIn wall st t) \<longleftrightarrow>
   atMs (hd ts) \<le> t \<and> t + offsetTo (last (filter (\<lambda>c. atMs c \<le> t) ts)) = wall"
proof (induction ts rule: stretchesFrom.induct)
  case (3 c d ts)
  have order: "atMs c \<le> atMs d" "\<forall>e \<in> set ts. atMs d \<le> atMs e" "sorted (map atMs (d # ts))" using 3(3) by auto
  have IH: "(\<exists>st \<in> set (stretchesFrom (d # ts)). realIn wall st t) \<longleftrightarrow>
      atMs d \<le> t \<and> t + offsetTo (last (filter (\<lambda>c. atMs c \<le> t) (d # ts))) = wall"
    using 3(1) order(3) by simp
  show ?case
  proof (cases "atMs d \<le> t")
    case True
    then show ?thesis using IH order by (auto simp: realIn_def)
  next
    case False
    then have "filter (\<lambda>c. atMs c \<le> t) ts = []" using order(2) by (force simp: filter_empty_conv)
    with False show ?thesis using IH order by (auto simp: realIn_def)
  qed
qed (auto simp: realIn_def)

lemma realInstants_spec:
  assumes "ts \<noteq> []" "sorted (map atMs ts)"
  shows "set (realInstants ts wall) = {t. t + offsetAt ts t = wall}"
proof -
  have "t \<in> set (realInstants ts wall) \<longleftrightarrow> t + offsetAt ts t = wall" for t
    unfolding set_realInstants stretches_def using stretchesFrom_spec [OF assms, of wall t]
    by (auto simp: realIn_def offsetAt_def)
  then show ?thesis by blast
qed

text \<open>Each change starts from the offset the one before it left.\<close>

fun continuous :: "Transition list \<Rightarrow> bool" where
  "continuous (c # d # ts) \<longleftrightarrow> offsetFrom d = offsetTo c \<and> continuous (d # ts)"
| "continuous ts \<longleftrightarrow> True"

definition skips :: "int \<Rightarrow> Transition \<Rightarrow> bool" where
  "skips wall c \<longleftrightarrow> atMs c \<le> wall - offsetFrom c \<and> wall - offsetTo c < atMs c"

lemma gap_found:
  "ts \<noteq> [] \<Longrightarrow> continuous ts \<Longrightarrow> \<forall>st \<in> set (stretchesFrom ts). \<forall>t. \<not> realIn wall st t \<Longrightarrow>
   atMs (hd ts) \<le> wall - offsetFrom (hd ts) \<Longrightarrow> \<exists>c \<in> set ts. skips wall c"
proof (induction ts rule: stretchesFrom.induct)
  case (2 c)
  then show ?case by (auto simp: realIn_def skips_def)
next
  case (3 c d ts)
  show ?case
  proof (cases "skips wall c")
    case False
    then have "atMs c \<le> wall - offsetTo c" using 3(5) by (simp add: skips_def)
    then have "atMs d \<le> wall - offsetFrom d" using 3(3,4) by (auto simp: realIn_def)
    then show ?thesis using 3(1) 3(3,4) by auto
  qed simp
qed simp

lemma transitions_sorted:
  assumes "transitions upper timezone year = Some ts"
  shows "ts \<noteq> []" "sorted (map atMs ts)"
proof -
  obtain parts where "ts = jsSort (\<lambda>a b. atMs a - atMs b) (concat parts)" "concat parts \<noteq> []"
    using assms by (auto simp: transitions_def Let_def split: option.splits if_splits)
  moreover have "length (jsSort (\<lambda>a b. atMs a - atMs b) (concat parts)) = length (concat parts)" by (rule length_jsSort)
  ultimately show "ts \<noteq> []" by (metis length_0_conv)
  show "sorted (map atMs ts)" unfolding \<open>ts = _\<close> jsSort_key by simp
qed

text \<open>
  C34: A VTIMEZONE resolves by its own clock. Where the rules of the zone give changes around the year of a wall
  clock, \<open>vtimezoneInstant\<close> answers the first instant at which the clock they define reads it. When no instant
  does, an answer is the wall clock read at the offset before a change that skips it, and there is one
  whenever each change starts from the offset the change before it left.
\<close>
theorem vtimezone_first_reading:
  assumes "findTimezone upper tzid doc = Some timezone"
    and "parseDateTime (u (filter (\<lambda>c. c \<noteq> CHR ''-'') date @ ''T'' @ filter (\<lambda>c. c \<noteq> CHR '':'') time)) = Some (wall, z)"
    and "transitions upper timezone (fst (civilOfDay (wall div MS_PER_DAY))) = Some ts"
  shows "case vtimezoneInstant upper doc tzid date time of
      Some t \<Rightarrow> (t + offsetAt ts t = wall \<and> (\<forall>t'. t' + offsetAt ts t' = wall \<longrightarrow> t \<le> t')) \<or>
        (\<forall>t'. t' + offsetAt ts t' \<noteq> wall) \<and> (\<exists>c \<in> set ts. skips wall c \<and> t = wall - offsetFrom c)
    | None \<Rightarrow> (\<forall>t. t + offsetAt ts t \<noteq> wall) \<and> \<not> continuous ts"
proof -
  note ts = transitions_sorted [OF assms(3)]
  have run: "vtimezoneInstant upper doc tzid date time = instantOf ts wall"
    using assms by (simp add: vtimezoneInstant_def)
  have real: "set (realInstants ts wall) = {t. t + offsetAt ts t = wall}" by (rule realInstants_spec [OF ts])
  show ?thesis
  proof (cases "realInstants ts wall = []")
    case False
    let ?m = "Min (set (realInstants ts wall))"
    have "?m \<in> {t. t + offsetAt ts t = wall}" using False Min_in real by (metis List.finite_set set_empty)
    moreover have "?m \<le> t'" if "t' + offsetAt ts t' = wall" for t'
      by (rule Min_le [OF List.finite_set]) (simp only: real mem_Collect_eq that)
    ultimately show ?thesis using False by (simp add: run instantOf_def Let_def)
  next
    case True
    then have none: "t + offsetAt ts t \<noteq> wall" for t using real by auto
    have "skips wall = (\<lambda>c. wall - offsetFrom c \<ge> atMs c \<and> wall - offsetTo c < atMs c)" by (simp add: skips_def fun_eq_iff)
    then have search: "instantOf ts wall = map_option (\<lambda>c. wall - offsetFrom c) (find (skips wall) ts)"
      using True by (simp add: instantOf_def Let_def)
    have "find (skips wall) ts \<noteq> None" if "continuous ts"
    proof -
      have unread: "\<not> realIn wall st t" if "st \<in> set (stretches ts)" for st t
        using set_realInstants [of t ts wall] True that by auto
      have later: "\<forall>st \<in> set (stretchesFrom ts). \<forall>t. \<not> realIn wall st t" using unread by (simp add: stretches_def)
      have "\<not> realIn wall (offsetFrom (hd ts), None, Some (atMs (hd ts))) (wall - offsetFrom (hd ts))"
        by (rule unread) (simp add: stretches_def)
      then have "atMs (hd ts) \<le> wall - offsetFrom (hd ts)" by (simp add: realIn_def)
      then have "\<exists>c \<in> set ts. skips wall c" using gap_found [OF ts(1) that later] by blast
      then show ?thesis unfolding find_None_iff by blast
    qed
    note exact = this
    show ?thesis
    proof (cases "find (skips wall) ts")
      case None
      then show ?thesis using none exact search by (auto simp only: run option.map option.case)
    next
      case (Some c)
      then have "c \<in> set ts" "skips wall c" by (auto simp: find_Some_iff)
      then show ?thesis using none search Some by (auto simp only: run option.map option.case)
    qed
  qed
qed

definition sampleProp :: "string \<Rightarrow> string \<Rightarrow> IcalProperty" where
  "sampleProp name val = \<lparr>propRef = 0, propName = u name, propParams = [], propValue = u val, propSource = None\<rparr>"

definition sampleZone :: IcalComponent where
  "sampleZone = Component (u ''VTIMEZONE'') [sampleProp ''TZID'' ''Home'']
     [Component (u ''DAYLIGHT'') [sampleProp ''DTSTART'' ''20260329T020000'', sampleProp ''TZOFFSETFROM'' ''+0100'',
        sampleProp ''TZOFFSETTO'' ''+0200''] [] None None,
      Component (u ''STANDARD'') [sampleProp ''DTSTART'' ''20261025T030000'', sampleProp ''TZOFFSETFROM'' ''+0200'',
        sampleProp ''TZOFFSETTO'' ''+0100''] [] None None] None None"

definition sampleChanges :: "Transition list" where
  "sampleChanges = [\<lparr>atMs = 1774746000000, offsetFrom = 3600000, offsetTo = 7200000\<rparr>,
     \<lparr>atMs = 1792890000000, offsetFrom = 7200000, offsetTo = 3600000\<rparr>]"

lemma eightIndices: "[0..<8] = [0, 1, 2, 3, 4, 5, 6, 7::nat]"
  by (simp add: upt_conv_Cons)

lemmas zoneTextSimps = parseOffset_def parseDateTime_def digitsAt_def numberAt_def trimUnits_def isSpace_def
  isDigitU_def readU_def Let_def code_def eightIndices

lemma sampleWalls: "wallMs 2026 3 29 2 0 0 = Some 1774749600000" "wallMs 2026 3 29 2 30 0 = Some 1774751400000"
   "wallMs 2026 10 25 3 0 0 = Some 1792897200000"
  by code_simp+

lemma sampleTransitions: "transitions id sampleZone 2026 = Some sampleChanges"
  by (simp add: transitions_def sampleZone_def sampleProp_def partTransitions_def propertyOf_def zoneTextSimps
      sampleWalls jsSort_key sort_key_def sampleChanges_def)

theorem vtimezone_first_reading_witness:
  "continuous sampleChanges \<and> vtimezoneInstant id sampleZone (u ''Home'') ''2026-03-29'' ''02:30:00'' \<noteq> None"
proof -
  have zone: "findTimezone id (u ''Home'') sampleZone = Some sampleZone"
    by (simp add: sampleZone_def sampleProp_def propertyOf_def)
  have wall: "parseDateTime (u (filter (\<lambda>c. c \<noteq> CHR ''-'') ''2026-03-29'' @ ''T'' @ filter (\<lambda>c. c \<noteq> CHR '':'') ''02:30:00'')) =
      Some (1774751400000, False)" by (simp add: zoneTextSimps sampleWalls)
  have "fst (civilOfDay (1774751400000 div MS_PER_DAY)) = 2026" by code_simp
  then have "transitions id sampleZone (fst (civilOfDay (1774751400000 div MS_PER_DAY))) = Some sampleChanges" using sampleTransitions by simp
  from vtimezone_first_reading [OF zone wall this] show ?thesis by (auto simp: sampleChanges_def split: option.splits)
qed

end
