(* ===== verification/RruleText.thy ===== *)
theory RruleText
  imports IcalZone
begin

text \<open>
  The text of repeat rules (\<open>time/rrule.ts\<close>): \<open>parseRrule\<close>, \<open>formatRrule\<close> and what they call. Numbers of the
  enumerations \<open>RruleWeekday\<close> stay numbers (Monday is 1), since the code computes with them; \<open>upper\<close> is
  \<open>toUpperCase\<close>. Shown: a parsed rule is well formed, and a well-formed rule is written and read back as
  itself.
\<close>

section \<open>Rules\<close>

datatype RruleFreq = Daily | Weekly | Monthly | Yearly

type_synonym RruleWeekday = int

record RruleDay =
  weekday :: RruleWeekday
  ordinal :: "int option"

record Rrule =
  freq :: RruleFreq
  interval :: int
  byDay :: "RruleDay list"
  byMonthDay :: "int list"
  byMonth :: "int list"
  ruleCount :: "int option"
  ruleUntil :: "IcalDateValue option"
  weekStart :: RruleWeekday

datatype RruleErrorCode = Malformed | Unsupported | InvalidStart | SearchLimit

record RruleError =
  rruleCode :: RruleErrorCode
  rrulePart :: "units option"
  rruleMessage :: units

definition rruleFail :: "RruleErrorCode \<Rightarrow> units \<Rightarrow> units option \<Rightarrow> RruleError + 'a" where
  "rruleFail c message part = Inl \<lparr>rruleCode = c, rrulePart = part, rruleMessage = message\<rparr>"

definition SUPPORTED_PARTS :: "units list" where
  "SUPPORTED_PARTS = [u ''FREQ'', u ''INTERVAL'', u ''BYDAY'', u ''BYMONTHDAY'', u ''BYMONTH'', u ''COUNT'', u ''UNTIL'', u ''WKST'']"

definition FREQ_BY_NAME :: "(units \<times> RruleFreq) list" where
  "FREQ_BY_NAME = [(u ''DAILY'', Daily), (u ''WEEKLY'', Weekly), (u ''MONTHLY'', Monthly), (u ''YEARLY'', Yearly)]"

definition FREQ_NOT_SUPPORTED :: "units list" where
  "FREQ_NOT_SUPPORTED = [u ''SECONDLY'', u ''MINUTELY'', u ''HOURLY'']"

definition WEEKDAY_BY_CODE :: "(units \<times> RruleWeekday) list" where
  "WEEKDAY_BY_CODE = [(u ''MO'', 1), (u ''TU'', 2), (u ''WE'', 3), (u ''TH'', 4), (u ''FR'', 5), (u ''SA'', 6), (u ''SU'', 7)]"

definition MAX_INTERVAL :: int where "MAX_INTERVAL = 100000"

definition MAX_COUNT :: int where "MAX_COUNT = 1000000"

section \<open>Reading\<close>

text \<open>A whole number of digits between two bounds, for one named part.\<close>

definition integerPart :: "units option \<Rightarrow> string \<Rightarrow> int \<Rightarrow> int \<Rightarrow> int \<Rightarrow> RruleError + int" where
  "integerPart raw name lo hi fallback =
     (case raw of None \<Rightarrow> Inr fallback
      | Some s \<Rightarrow>
          if s = [] \<or> \<not> list_all isDigitU s \<or> int (readU s) < lo \<or> int (readU s) > hi
          then rruleFail Malformed (u name @ u ''='' @ s @ u '' must be '' @ u (show_int lo) @ u '' to '' @ u (show_int hi)) (Some (u name))
          else Inr (int (readU s)))"

text \<open>\<open>[+-]?\d{1,2}\<close>, the sign only where it is allowed.\<close>

definition shortInt :: "bool \<Rightarrow> units \<Rightarrow> int option" where
  "shortInt signed s =
     (let sign = signed \<and> s \<noteq> [] \<and> hd s \<in> {43, 45}; d = (if sign then tl s else s) in
      if (length d = 1 \<or> length d = 2) \<and> list_all isDigitU d
      then Some ((if sign \<and> hd s = 45 then -1 else 1) * int (readU d)) else None)"

fun listLoop :: "string \<Rightarrow> int \<Rightarrow> int \<Rightarrow> bool \<Rightarrow> units list \<Rightarrow> int list \<Rightarrow> RruleError + int list" where
  "listLoop name lo hi signed [] out = Inr out"
| "listLoop name lo hi signed (item # items) out =
     (case shortInt signed item of
        Some v \<Rightarrow> if \<bar>v\<bar> < lo \<or> \<bar>v\<bar> > hi
          then rruleFail Malformed (u [CHR 34] @ item @ u [CHR 34] @ u '' is out of range for '' @ u name) (Some (u name))
          else listLoop name lo hi signed items (if v \<in> set out then out else out @ [v])
      | None \<Rightarrow> rruleFail Malformed (u [CHR 34] @ item @ u [CHR 34] @ u '' is out of range for '' @ u name) (Some (u name)))"

definition listPart :: "units option \<Rightarrow> string \<Rightarrow> int \<Rightarrow> int \<Rightarrow> bool \<Rightarrow> RruleError + int list" where
  "listPart raw name lo hi signed =
     (case raw of None \<Rightarrow> Inr [] | Some s \<Rightarrow> listLoop name lo hi signed (splitUnits 44 s) [])"

text \<open>One \<open>BYDAY\<close> entry: a weekday with an optional number.\<close>

definition byDayItem :: "units \<Rightarrow> RruleError + RruleDay" where
  "byDayItem item =
     (let n = length item - 2; number = take n item in
      case (if length item < 2 then None else map_of WEEKDAY_BY_CODE (upperAscii (drop n item))) of
        None \<Rightarrow> rruleFail Malformed (u [CHR 34] @ item @ u [CHR 34] @ u '' is not a BYDAY entry'') (Some (u ''BYDAY''))
      | Some day \<Rightarrow>
          if number = [] then Inr \<lparr>weekday = day, ordinal = None\<rparr>
          else (case shortInt True number of
                  None \<Rightarrow> rruleFail Malformed (u [CHR 34] @ item @ u [CHR 34] @ u '' is not a BYDAY entry'') (Some (u ''BYDAY''))
                | Some v \<Rightarrow>
                    if v = 0 \<or> \<bar>v\<bar> > 5
                    then rruleFail Malformed (u ''ordinal in '' @ u [CHR 34] @ item @ u [CHR 34] @ u '' is out of range'') (Some (u ''BYDAY''))
                    else Inr \<lparr>weekday = day, ordinal = Some v\<rparr>))"

text \<open>The digits of a text as characters.\<close>

definition latin :: "units \<Rightarrow> string" where
  "latin s = map char_of s"

text \<open>The date goes through \<open>setUTCFullYear\<close> and must come back unchanged.\<close>

definition parseUntil :: "units \<Rightarrow> IcalDateValue option" where
  "parseUntil s =
     (if (length s = 8 \<or> (length s = 15 \<or> length s = 16 \<and> s ! 15 \<in> {90, 122}) \<and> s ! 8 \<in> {84, 116} \<and> digitsAt s [9..<15]) \<and>
         digitsAt s [0..<8] then
        let y = numberAt s 0 4; mo = numberAt s 4 2; d = numberAt s 6 2;
            date = latin (take 4 s) @ ''-'' @ latin (take 2 (drop 4 s)) @ ''-'' @ latin (take 2 (drop 6 s)) in
        if civilOfDay (makeDay y mo d) \<noteq> (y, mo, d) then None
        else if length s = 8 then Some \<lparr>valueKind = DateKind, valueDate = date, valueTime = None, valueTzid = None\<rparr>
        else if numberAt s 9 2 > 23 \<or> numberAt s 11 2 > 59 \<or> numberAt s 13 2 > 59 then None
        else Some \<lparr>valueKind = (if length s = 16 then UtcKind else FloatingKind), valueDate = date,
          valueTime = Some (latin (take 2 (drop 9 s)) @ '':'' @ latin (take 2 (drop 11 s)) @ '':'' @ latin (take 2 (drop 13 s))),
          valueTzid = None\<rparr>
      else None)"

text \<open>The first loop: names in text order with their values.\<close>

fun namedParts :: "(units \<Rightarrow> units) \<Rightarrow> units list \<Rightarrow> (units, units) jsmap \<Rightarrow> RruleError + (units, units) jsmap" where
  "namedParts upper [] parts = Inr parts"
| "namedParts upper (piece # pieces) parts =
     (let before = takeWhile (\<lambda>c. c \<noteq> 61) piece; name = upper before in
      if 61 \<notin> set piece \<or> before = []
      then rruleFail Malformed (u [CHR 34] @ piece @ u [CHR 34] @ u '' is not NAME=VALUE'') None
      else if jm_has parts name then rruleFail Malformed (name @ u '' appears twice'') (Some name)
      else namedParts upper pieces (jm_set name (drop (length before + 1) piece) parts))"

text \<open>The second loop: the first part outside the subset is the one named.\<close>

fun supportedParts :: "(units \<Rightarrow> units) \<Rightarrow> (units, units) jsmap \<Rightarrow> RruleError + unit" where
  "supportedParts upper [] = Inr ()"
| "supportedParts upper ((name, raw) # rest) =
     (if name \<notin> set SUPPORTED_PARTS then rruleFail Unsupported (name @ u '' is not supported'') (Some name)
      else if name = u ''FREQ'' \<and> upper raw \<in> set FREQ_NOT_SUPPORTED
      then rruleFail Unsupported (u ''FREQ='' @ upper raw @ u '' is not supported'') (Some (u ''FREQ''))
      else supportedParts upper rest)"

text \<open>The combinations outside the subset.\<close>

definition combinationOk :: "RruleFreq \<Rightarrow> RruleDay list \<Rightarrow> int list \<Rightarrow> RruleError + unit" where
  "combinationOk f days monthDays =
     (if days \<noteq> [] \<and> f \<in> {Daily, Yearly}
      then rruleFail Unsupported (u ''BYDAY does not apply to DAILY or YEARLY'') (Some (u ''BYDAY''))
      else if f = Weekly \<and> list_ex (\<lambda>d. ordinal d \<noteq> None) days
      then rruleFail Unsupported (u ''BYDAY with a number needs FREQ=MONTHLY'') (Some (u ''BYDAY''))
      else if f = Weekly \<and> monthDays \<noteq> []
      then rruleFail Unsupported (u ''BYMONTHDAY does not apply to WEEKLY'') (Some (u ''BYMONTHDAY''))
      else Inr ())"

definition readFreq :: "(units \<Rightarrow> units) \<Rightarrow> units option \<Rightarrow> RruleError + RruleFreq" where
  "readFreq upper raw =
     (case raw of None \<Rightarrow> rruleFail Malformed (u ''FREQ is missing'') (Some (u ''FREQ''))
      | Some s \<Rightarrow>
          (case map_of FREQ_BY_NAME (upper s) of
             None \<Rightarrow> rruleFail Malformed (u ''FREQ='' @ upper s @ u '' is not a frequency'') (Some (u ''FREQ''))
           | Some f \<Rightarrow> Inr f))"

definition readWeekStart :: "(units \<Rightarrow> units) \<Rightarrow> units option \<Rightarrow> RruleError + RruleWeekday" where
  "readWeekStart upper raw =
     (case raw of None \<Rightarrow> Inr 1
      | Some s \<Rightarrow>
          (case map_of WEEKDAY_BY_CODE (upper s) of
             None \<Rightarrow> rruleFail Malformed (u ''bad WKST'') (Some (u ''WKST'')) | Some d \<Rightarrow> Inr d))"

definition readUntil :: "units option \<Rightarrow> int option \<Rightarrow> RruleError + IcalDateValue option" where
  "readUntil raw cnt =
     (case raw of None \<Rightarrow> Inr None
      | Some s \<Rightarrow>
          if cnt \<noteq> None then rruleFail Malformed (u ''COUNT and UNTIL together'') (Some (u ''UNTIL''))
          else (case parseUntil s of
                  None \<Rightarrow> rruleFail Malformed (u ''bad UNTIL'') (Some (u ''UNTIL'')) | Some v \<Rightarrow> Inr (Some v)))"

definition readByDay :: "units option \<Rightarrow> RruleError + RruleDay list" where
  "readByDay raw =
     andThen (case raw of None \<Rightarrow> Inr [] | Some s \<Rightarrow> mapE byDayItem (splitUnits 44 s)) (\<lambda>days.
       if raw \<noteq> None \<and> days = [] then rruleFail Malformed (u ''BYDAY is empty'') (Some (u ''BYDAY'')) else Inr days)"

definition readCount :: "units option \<Rightarrow> RruleError + int option" where
  "readCount raw =
     (if raw = None then Inr None else andThen (integerPart raw ''COUNT'' 1 MAX_COUNT 0) (\<lambda>n. Inr (Some n)))"

definition readRule :: "(units \<Rightarrow> units) \<Rightarrow> (units, units) jsmap \<Rightarrow> RruleError + Rrule" where
  "readRule upper parts =
     andThen (readFreq upper (jm_get parts (u ''FREQ''))) (\<lambda>f.
     andThen (integerPart (jm_get parts (u ''INTERVAL'')) ''INTERVAL'' 1 MAX_INTERVAL 1) (\<lambda>step.
     andThen (readCount (jm_get parts (u ''COUNT''))) (\<lambda>cnt.
     andThen (readWeekStart upper (jm_get parts (u ''WKST''))) (\<lambda>start.
     andThen (listPart (jm_get parts (u ''BYMONTH'')) ''BYMONTH'' 1 12 False) (\<lambda>months.
     andThen (listPart (jm_get parts (u ''BYMONTHDAY'')) ''BYMONTHDAY'' 1 31 True) (\<lambda>monthDays.
     andThen (readByDay (jm_get parts (u ''BYDAY''))) (\<lambda>days.
     andThen (combinationOk f days monthDays) (\<lambda>_.
     andThen (readUntil (jm_get parts (u ''UNTIL'')) cnt) (\<lambda>ending.
       Inr \<lparr>freq = f, interval = step, byDay = days, byMonthDay = monthDays, byMonth = months,
         ruleCount = cnt, ruleUntil = ending, weekStart = start\<rparr>)))))))))"

definition parseRrule :: "(units \<Rightarrow> units) \<Rightarrow> units \<Rightarrow> RruleError + Rrule" where
  "parseRrule upper s =
     (let trimmed = trimUnits s;
          body = (if upperAscii (take 6 trimmed) = u ''RRULE:'' then drop 6 trimmed else trimmed) in
      if body = [] then rruleFail Malformed (u ''empty rule'') None
      else andThen (namedParts upper (splitUnits 59 body) []) (\<lambda>parts.
           andThen (supportedParts upper parts) (\<lambda>_. readRule upper parts)))"

section \<open>Writing\<close>

definition WEEKDAY_CODES :: "units list" where
  "WEEKDAY_CODES = [u ''MO'', u ''TU'', u ''WE'', u ''TH'', u ''FR'', u ''SA'', u ''SU'']"

fun FREQ_NAMES :: "RruleFreq \<Rightarrow> units" where
  "FREQ_NAMES Daily = u ''DAILY''"
| "FREQ_NAMES Weekly = u ''WEEKLY''"
| "FREQ_NAMES Monthly = u ''MONTHLY''"
| "FREQ_NAMES Yearly = u ''YEARLY''"

definition weekdayCode :: "RruleWeekday \<Rightarrow> units" where
  "weekdayCode d = (if 1 \<le> d \<and> d \<le> 7 then WEEKDAY_CODES ! nat (d - 1) else [])"

definition untilText :: "IcalDateValue \<Rightarrow> units" where
  "untilText v =
     u (filter (\<lambda>c. c \<noteq> CHR ''-'') (valueDate v)) @
     (if valueKind v = DateKind then []
      else u (CHR ''T'' # filter (\<lambda>c. c \<noteq> CHR '':'') (orElse (valueTime v) ''00:00:00''))) @
     (if valueKind v = UtcKind then u ''Z'' else [])"

definition dayEntry :: "RruleDay \<Rightarrow> units" where
  "dayEntry d = (case ordinal d of None \<Rightarrow> [] | Some n \<Rightarrow> u (show_int n)) @ weekdayCode (weekday d)"

definition commaList :: "int list \<Rightarrow> units" where
  "commaList ns = joinUnits [44] (map (\<lambda>n. u (show_int n)) ns)"

text \<open>The parts in the order they are written.\<close>

definition ruleTexts :: "Rrule \<Rightarrow> units list" where
  "ruleTexts r =
     [u ''FREQ='' @ FREQ_NAMES (freq r)] @
     (if weekStart r \<noteq> 1 then [u ''WKST='' @ weekdayCode (weekStart r)] else []) @
     (case ruleUntil r of None \<Rightarrow> [] | Some v \<Rightarrow> [u ''UNTIL='' @ untilText v]) @
     (case ruleCount r of None \<Rightarrow> [] | Some n \<Rightarrow> [u ''COUNT='' @ u (show_int n)]) @
     [u ''INTERVAL='' @ u (show_int (interval r))] @
     (if byDay r \<noteq> [] then [u ''BYDAY='' @ joinUnits [44] (map dayEntry (byDay r))] else []) @
     (if byMonthDay r \<noteq> [] then [u ''BYMONTHDAY='' @ commaList (byMonthDay r)] else []) @
     (if byMonth r \<noteq> [] then [u ''BYMONTH='' @ commaList (byMonth r)] else [])"

definition formatRrule :: "(units \<Rightarrow> units) \<Rightarrow> Rrule \<Rightarrow> RruleError + units" where
  "formatRrule upper r =
     (if map_option valueKind (ruleUntil r) = Some ZonedKind
      then rruleFail Malformed (u ''UNTIL cannot carry a time zone'') (Some (u ''UNTIL''))
      else let s = joinUnits [59] (ruleTexts r) in andThen (parseRrule upper s) (\<lambda>_. Inr s))"


section \<open>Well-formed rules\<close>

definition dayEntryOk :: "RruleDay \<Rightarrow> bool" where
  "dayEntryOk d \<longleftrightarrow> 1 \<le> weekday d \<and> weekday d \<le> 7 \<and>
     (case ordinal d of None \<Rightarrow> True | Some n \<Rightarrow> n \<noteq> 0 \<and> \<bar>n\<bar> \<le> 5)"

definition clockText :: "string \<Rightarrow> bool" where
  "clockText t \<longleftrightarrow> (\<exists>h m s. t = h @ '':'' @ m @ '':'' @ s \<and>
     (\<forall>d \<in> {h, m, s}. length d = 2 \<and> (\<forall>c \<in> set d. isDigit c)) \<and> readNat h \<le> 23 \<and> readNat m \<le> 59 \<and> readNat s \<le> 59)"

definition untilOk :: "IcalDateValue \<Rightarrow> bool" where
  "untilOk v \<longleftrightarrow> (\<exists>y m d. realDate y m d \<and> valueDate v = dateText y m d) \<and> valueTzid v = None \<and>
     (if valueKind v = DateKind then valueTime v = None
      else valueKind v \<in> {FloatingKind, UtcKind} \<and> (\<exists>t. valueTime v = Some t \<and> clockText t))"

text \<open>What \<open>parseRrule\<close> promises of a rule.\<close>

definition ruleOk :: "Rrule \<Rightarrow> bool" where
  "ruleOk r \<longleftrightarrow> 1 \<le> interval r \<and> interval r \<le> MAX_INTERVAL \<and> 1 \<le> weekStart r \<and> weekStart r \<le> 7 \<and>
     (\<forall>d \<in> set (byDay r). dayEntryOk d) \<and> distinct (byMonthDay r) \<and> distinct (byMonth r) \<and>
     (\<forall>n \<in> set (byMonthDay r). n \<noteq> 0 \<and> \<bar>n\<bar> \<le> 31) \<and> (\<forall>n \<in> set (byMonth r). 1 \<le> n \<and> n \<le> 12) \<and>
     (case ruleCount r of None \<Rightarrow> True | Some n \<Rightarrow> 1 \<le> n \<and> n \<le> MAX_COUNT \<and> ruleUntil r = None) \<and>
     (case ruleUntil r of None \<Rightarrow> True | Some v \<Rightarrow> untilOk v) \<and>
     combinationOk (freq r) (byDay r) (byMonthDay r) = Inr ()"

definition uppercases :: "(units \<Rightarrow> units) \<Rightarrow> bool" where
  "uppercases upper \<longleftrightarrow> (\<forall>s. list_all (\<lambda>c. c < 128) s \<longrightarrow> upper s = upperAscii s)"

lemma rruleFail_not [simp]: "rruleFail c m p \<noteq> Inr x"
  by (simp add: rruleFail_def)

section \<open>What is read is well formed\<close>

lemma integerPart_range:
  "integerPart raw name lo hi fb = Inr n \<Longrightarrow> lo \<le> fb \<Longrightarrow> fb \<le> hi \<Longrightarrow> lo \<le> n \<and> n \<le> hi"
  by (auto simp: integerPart_def split: option.splits if_splits)

lemma listLoop_ok:
  "listLoop name lo hi signed items out = Inr ns \<Longrightarrow> distinct out \<Longrightarrow> \<forall>n \<in> set out. P n \<Longrightarrow>
   (\<And>v i. shortInt signed i = Some v \<Longrightarrow> lo \<le> \<bar>v\<bar> \<Longrightarrow> \<bar>v\<bar> \<le> hi \<Longrightarrow> P v) \<Longrightarrow> distinct ns \<and> (\<forall>n \<in> set ns. P n)"
proof (induction items arbitrary: out)
  case (Cons i items)
  obtain v where v: "shortInt signed i = Some v" "lo \<le> \<bar>v\<bar>" "\<bar>v\<bar> \<le> hi"
    using Cons.prems(1) by (auto split: option.splits if_splits)
  then have rest: "listLoop name lo hi signed items (if v \<in> set out then out else out @ [v]) = Inr ns" using Cons.prems(1) by simp
  show ?case by (rule Cons.IH [OF rest]) (use v Cons.prems in auto)
qed simp

lemma listPart_ok:
  "listPart raw name lo hi signed = Inr ns \<Longrightarrow>
   (\<And>v i. shortInt signed i = Some v \<Longrightarrow> lo \<le> \<bar>v\<bar> \<Longrightarrow> \<bar>v\<bar> \<le> hi \<Longrightarrow> P v) \<Longrightarrow> distinct ns \<and> (\<forall>n \<in> set ns. P n)"
proof (cases raw)
  case (Some t)
  assume "listPart raw name lo hi signed = Inr ns" and P: "\<And>v i. shortInt signed i = Some v \<Longrightarrow> lo \<le> \<bar>v\<bar> \<Longrightarrow> \<bar>v\<bar> \<le> hi \<Longrightarrow> P v"
  then have "listLoop name lo hi signed (splitUnits 44 t) [] = Inr ns" by (simp add: listPart_def Some)
  then show ?thesis by (rule listLoop_ok) (use P in auto)
qed (auto simp: listPart_def)

lemma weekday_range: "map_of WEEKDAY_BY_CODE s = Some d \<Longrightarrow> 1 \<le> d \<and> d \<le> 7"
  by (drule map_of_SomeD) (auto simp: WEEKDAY_BY_CODE_def)

lemma byDayItem_ok: "byDayItem i = Inr d \<Longrightarrow> dayEntryOk d"
  by (auto simp: byDayItem_def Let_def dayEntryOk_def dest: weekday_range split: option.splits if_splits)

lemma mapE_all: "mapE f xs = Inr ys \<Longrightarrow> (\<And>x y. f x = Inr y \<Longrightarrow> P y) \<Longrightarrow> \<forall>y \<in> set ys. P y"
  by (induction xs arbitrary: ys) (auto simp: andThen_Inr)

lemma readByDay_ok: "readByDay raw = Inr ds \<Longrightarrow> \<forall>d \<in> set ds. dayEntryOk d"
  by (auto simp: readByDay_def andThen_Inr split: option.splits if_splits dest: mapE_all [where P = dayEntryOk, OF _ byDayItem_ok])

lemma digitsAt_range: "a \<le> b \<Longrightarrow> digitsAt s [a..<b] \<longleftrightarrow> (a < b \<longrightarrow> b \<le> length s) \<and> list_all isDigitU (take (b - a) (drop a s))"
proof -
  assume "a \<le> b"
  have "(\<forall>i. a \<le> i \<and> i < b \<longrightarrow> i < length s \<and> isDigitU (s ! i)) \<longleftrightarrow>
      (a < b \<longrightarrow> b \<le> length s) \<and> (\<forall>k < min (b - a) (length s - a). isDigitU (s ! (a + k)))" (is "?l \<longleftrightarrow> ?r")
  proof
    assume l: ?l
    have "a < b \<longrightarrow> b \<le> length s"
    proof
      assume "a < b"
      then have "b - 1 < length s" using l [rule_format, of "b - 1"] by simp
      then show "b \<le> length s" by simp
    qed
    with l show ?r by auto
  next
    assume r: ?r
    show ?l
    proof (intro allI impI)
      fix i assume i: "a \<le> i \<and> i < b"
      then have "i < length s" using r by simp
      moreover have "i - a < min (b - a) (length s - a)" using i calculation by (simp add: diff_less_mono)
      then have "isDigitU (s ! (a + (i - a)))" using r by blast
      ultimately show "i < length s \<and> isDigitU (s ! i)" using i by simp
    qed
  qed
  moreover have "list_all isDigitU (take (b - a) (drop a s)) \<longleftrightarrow> (\<forall>k < min (b - a) (length s - a). isDigitU (s ! (a + k)))"
    by (auto simp: list_all_length)
  ultimately show ?thesis by (simp add: digitsAt_def list_all_iff Ball_def)
qed

lemma latin_u [simp]: "latin (u s) = s"
  by (simp add: latin_def u_def code_def comp_def)

lemma latin_digits:
  assumes "list_all isDigitU s"
  shows "u (latin s) = s" "\<forall>c \<in> set (latin s). isDigit c" "length (latin s) = length s" "readNat (latin s) = readU s"
proof -
  have small: "c < 256" if "c \<in> set s" for c using assms that by (auto simp: list_all_iff isDigitU_def)
  show u: "u (latin s) = s" using small by (simp add: u_def latin_def code_def list.map_comp map_idI)
  show "length (latin s) = length s" by (simp add: latin_def)
  show "readNat (latin s) = readU s" using readU_u [of "latin s"] u by simp
  show "\<forall>c \<in> set (latin s). isDigit c"
    using assms small by (auto simp: latin_def isDigit_def code_def list_all_iff isDigitU_def)
qed

lemma dateText_of_digits:
  assumes "realDate y m d" "length Y = 4" "length M = 2" "length D = 2"
    and "\<forall>c \<in> set (Y @ M @ D). isDigit c" "int (readNat Y) = y" "int (readNat M) = m" "int (readNat D) = d"
  shows "Y @ ''-'' @ M @ ''-'' @ D = dateText y m d"
proof -
  have small: "0 \<le> y" "y \<le> 9999" "0 \<le> m" "m < 100" "0 \<le> d" "d < 100"
    using assms(1) validCivil_small [of y m d] by (auto simp: realDate_def)
  have "Y = paddedYear y" "M = pad2 m" "D = pad2 d"
    using readNat_inj year_digits [OF small(1,2)] pad2_digits [OF small(3,4)] pad2_digits [OF small(5,6)] assms(2-)
    by (metis Un_iff nat_int set_append)+
  then show ?thesis by (simp add: dateText_def)
qed

lemma numberAt_int: "int (readU (take n (drop i s))) = numberAt s i n"
  by (simp add: numberAt_def)

lemma sub_digits:
  assumes "list_all isDigitU (take n (drop a s))" "a \<le> i" "i + k \<le> a + n"
  shows "list_all isDigitU (take k (drop i s))"
proof -
  have "take k (drop i s) = take k (drop (i - a) (take n (drop a s)))" using assms(2,3) by (simp add: take_drop)
  moreover have "set \<dots> \<subseteq> set (take n (drop a s))" by (meson set_drop_subset set_take_subset subset_trans)
  ultimately show ?thesis using assms(1) by (auto simp: list_all_iff)
qed

lemma parseUntil_ok:
  assumes "parseUntil s = Some v" shows "untilOk v"
proof -
  let ?Y = "latin (take 4 s)" and ?M = "latin (take 2 (drop 4 s))" and ?D = "latin (take 2 (drop 6 s))"
  let ?h = "latin (take 2 (drop 9 s))" and ?m = "latin (take 2 (drop 11 s))" and ?s = "latin (take 2 (drop 13 s))"
  have form: "length s = 8 \<or> (length s = 15 \<or> length s = 16) \<and> digitsAt s [9..<15]" "digitsAt s [0..<8]"
    and civil: "civilOfDay (makeDay (numberAt s 0 4) (numberAt s 4 2) (numberAt s 6 2)) = (numberAt s 0 4, numberAt s 4 2, numberAt s 6 2)"
    and v: "valueDate v = ?Y @ ''-'' @ ?M @ ''-'' @ ?D" "valueTzid v = None"
      "valueKind v = (if length s = 8 then DateKind else if length s = 16 then UtcKind else FloatingKind)"
      "valueTime v = (if length s = 8 then None else Some (?h @ '':'' @ ?m @ '':'' @ ?s))"
      "length s \<noteq> 8 \<Longrightarrow> numberAt s 9 2 \<le> 23 \<and> numberAt s 11 2 \<le> 59 \<and> numberAt s 13 2 \<le> 59"
    using assms by (auto simp: parseUntil_def Let_def split: if_splits)
  have len: "8 \<le> length s" using form(1) by auto
  have digits: "list_all isDigitU (take 8 (drop 0 s))" using form(2) by (simp add: digitsAt_range)
  note part = latin_digits [OF sub_digits [OF digits]]
  have "realDate (numberAt s 0 4) (numberAt s 4 2) (numberAt s 6 2)"
    using civilOfDay_ok [OF civil] readU_bound [OF sub_digits [OF digits, of 0 4]] len
    by (simp add: realDate_def numberAt_def)
  moreover have "?Y @ ''-'' @ ?M @ ''-'' @ ?D = dateText (numberAt s 0 4) (numberAt s 4 2) (numberAt s 6 2)"
    by (rule dateText_of_digits [OF calculation]) (use part [of 0 4] part [of 4 2] part [of 6 2] len in \<open>auto simp: numberAt_def\<close>)
  moreover have "clockText (?h @ '':'' @ ?m @ '':'' @ ?s)" if "length s \<noteq> 8"
  proof -
    have "digitsAt s [9..<15]" using form(1) that by blast
    from iffD1 [OF digitsAt_range this]
    have time: "list_all isDigitU (take 6 (drop 9 s))" "15 \<le> length s" by simp_all
    note p = latin_digits [OF sub_digits [OF time(1)]]
    show ?thesis unfolding clockText_def
      by (rule exI [of _ ?h], rule exI [of _ ?m], rule exI [of _ ?s])
        (use p [of 9 2] p [of 11 2] p [of 13 2] v(5) [OF that] time(2) in \<open>auto simp: numberAt_def\<close>)
  qed
  ultimately show ?thesis using v(1-4) unfolding untilOk_def by auto
qed

theorem parsed_rule_ok:
  assumes "parseRrule upper s = Inr r" shows "ruleOk r"
proof -
  obtain parts where "readRule upper parts = Inr r"
    using assms by (auto simp: parseRrule_def Let_def andThen_Inr split: if_splits)
  then obtain f step cnt start months monthDays days ending where
    r: "r = \<lparr>freq = f, interval = step, byDay = days, byMonthDay = monthDays, byMonth = months, ruleCount = cnt,
      ruleUntil = ending, weekStart = start\<rparr>"
    and step: "integerPart (jm_get parts (u ''INTERVAL'')) ''INTERVAL'' 1 MAX_INTERVAL 1 = Inr step"
    and cnt: "readCount (jm_get parts (u ''COUNT'')) = Inr cnt"
    and start: "readWeekStart upper (jm_get parts (u ''WKST'')) = Inr start"
    and months: "listPart (jm_get parts (u ''BYMONTH'')) ''BYMONTH'' 1 12 False = Inr months"
    and monthDays: "listPart (jm_get parts (u ''BYMONTHDAY'')) ''BYMONTHDAY'' 1 31 True = Inr monthDays"
    and days: "readByDay (jm_get parts (u ''BYDAY'')) = Inr days"
    and comb: "combinationOk f days monthDays = Inr ()"
    and ending: "readUntil (jm_get parts (u ''UNTIL'')) cnt = Inr ending"
    by (auto simp: readRule_def andThen_Inr)
  have i: "1 \<le> step \<and> step \<le> MAX_INTERVAL" using integerPart_range [OF step] by (simp add: MAX_INTERVAL_def)
  have c: "case cnt of None \<Rightarrow> True | Some n \<Rightarrow> 1 \<le> n \<and> n \<le> MAX_COUNT \<and> ending = None"
    using cnt ending
    by (auto simp: readCount_def readUntil_def andThen_Inr integerPart_def split: option.splits if_splits)
  have w: "1 \<le> start \<and> start \<le> 7"
    using start by (auto simp: readWeekStart_def dest: weekday_range split: option.splits)
  have positive: "0 \<le> v" if "shortInt False i = Some v" for i v using that by (auto simp: shortInt_def Let_def split: if_splits)
  have m: "distinct months \<and> (\<forall>n \<in> set months. 1 \<le> n \<and> n \<le> 12)"
    by (rule listPart_ok [OF months]) (auto dest: positive)
  have d: "distinct monthDays \<and> (\<forall>n \<in> set monthDays. n \<noteq> 0 \<and> \<bar>n\<bar> \<le> 31)"
    by (rule listPart_ok [OF monthDays]) auto
  have e: "case ending of None \<Rightarrow> True | Some v \<Rightarrow> untilOk v"
    using ending by (auto simp: readUntil_def dest: parseUntil_ok split: option.splits if_splits)
  show ?thesis using i c w m d e comb readByDay_ok [OF days] unfolding ruleOk_def r by (simp split: option.splits)
qed


section \<open>A written rule reads back\<close>

lemma splitUnits_join: "xs \<noteq> [] \<Longrightarrow> \<forall>x \<in> set xs. c \<notin> set x \<Longrightarrow> splitUnits c (joinUnits [c] xs) = xs"
  by (induction xs rule: induct_list012) auto

lemma set_joinUnits: "set (joinUnits sep xs) \<subseteq> set sep \<union> \<Union> (set ` set xs)"
  by (induction sep xs rule: joinUnits.induct) auto

text \<open>The units a rule is written with.\<close>

definition ruleUnit :: "nat \<Rightarrow> bool" where
  "ruleUnit c \<longleftrightarrow> c \<in> {43, 44, 45, 61} \<or> 48 \<le> c \<and> c \<le> 57 \<or> 65 \<le> c \<and> c \<le> 90"

lemma ruleUnit_facts: "ruleUnit c \<Longrightarrow> c \<noteq> 59 \<and> \<not> isSpace c \<and> c < 128"
  by (auto simp: ruleUnit_def isSpace_def)

lemma show_nat_units: "list_all isDigitU (u (show_nat n))"
  by (rule u_digits) (rule show_nat_allDigits)

lemma shown_int_units: "\<forall>c \<in> set (u (show_int n)). c = 45 \<or> isDigitU c"
  using show_nat_units by (auto simp: show_int_def list_all_iff code_def)

lemma shown_int_ruleUnit: "list_all ruleUnit (u (show_int n))" "44 \<notin> set (u (show_int n))"
  using shown_int_units [of n] by (auto simp: list_all_iff ruleUnit_def isDigitU_def)

lemma readU_show_nat [simp]: "readU (u (show_nat n)) = n"
  by (simp add: readU_u)

lemma u_show_ne [simp]: "u (show_nat n) \<noteq> []"
  by (metis length_0_conv length_u show_nat_ne)

lemma integerPart_shown:
  "lo \<le> n \<Longrightarrow> n \<le> hi \<Longrightarrow> 0 \<le> n \<Longrightarrow> integerPart (Some (u (show_int n))) name lo hi fb = Inr n"
  using show_nat_units by (simp add: integerPart_def show_int_def)

lemma hd_show_nat: "hd (u (show_nat n)) \<noteq> 43" "hd (u (show_nat n)) \<noteq> 45"
proof -
  have "isDigitU (hd (u (show_nat n)))" using show_nat_units [of n] by (simp add: list_all_iff)
  then show "hd (u (show_nat n)) \<noteq> 43" "hd (u (show_nat n)) \<noteq> 45" by (auto simp: isDigitU_def)
qed

lemma shortInt_shown:
  assumes "\<bar>v\<bar> \<le> 99" "signed \<or> 0 \<le> v" shows "shortInt signed (u (show_int v)) = Some v"
proof -
  have len: "length (show_nat k) = 1 \<or> length (show_nat k) = 2" if "k \<le> 99" for k
  proof -
    have "length (show_nat k) \<le> Suc 1" by (rule length_show_nat) (use that in simp)
    moreover have "length (show_nat k) \<noteq> 0" by simp
    ultimately show ?thesis by linarith
  qed
  show ?thesis
  proof (cases "v < 0")
    case True
    then show ?thesis using assms len [of "nat (- v)"] show_nat_units
      by (simp add: shortInt_def show_int_def code_def)
  next
    case False
    then show ?thesis using assms len [of "nat v"] show_nat_units hd_show_nat [of "nat v"]
      by (simp add: shortInt_def show_int_def)
  qed
qed

lemma listLoop_shown:
  "distinct (out @ ns) \<Longrightarrow> \<forall>n \<in> set ns. lo \<le> \<bar>n\<bar> \<and> \<bar>n\<bar> \<le> hi \<and> (signed \<or> 0 \<le> n) \<Longrightarrow> hi \<le> 99 \<Longrightarrow>
   listLoop name lo hi signed (map (\<lambda>n. u (show_int n)) ns) out = Inr (out @ ns)"
  by (induction ns arbitrary: out) (auto simp: shortInt_shown)

lemma listPart_shown:
  assumes "ns \<noteq> []" "distinct ns" "\<forall>n \<in> set ns. lo \<le> \<bar>n\<bar> \<and> \<bar>n\<bar> \<le> hi \<and> (signed \<or> 0 \<le> n)" "hi \<le> 99"
  shows "listPart (Some (commaList ns)) name lo hi signed = Inr ns"
proof -
  have "splitUnits 44 (commaList ns) = map (\<lambda>n. u (show_int n)) ns"
    unfolding commaList_def by (rule splitUnits_join) (use assms(1) shown_int_ruleUnit(2) in auto)
  then show ?thesis using listLoop_shown [of "[]" ns] assms by (simp add: listPart_def)
qed

lemma weekday_cases: "1 \<le> (d :: int) \<Longrightarrow> d \<le> 7 \<Longrightarrow> d = 1 \<or> d = 2 \<or> d = 3 \<or> d = 4 \<or> d = 5 \<or> d = 6 \<or> d = 7"
  by linarith

lemma weekdayCode_facts:
  assumes "1 \<le> d" "d \<le> 7"
  shows "length (weekdayCode d) = 2" "upperAscii (weekdayCode d) = weekdayCode d"
    "map_of WEEKDAY_BY_CODE (weekdayCode d) = Some d" "list_all ruleUnit (weekdayCode d)" "44 \<notin> set (weekdayCode d)"
  using weekday_cases [OF assms]
  by (auto simp: weekdayCode_def WEEKDAY_CODES_def WEEKDAY_BY_CODE_def upperAscii_def code_def ruleUnit_def)

lemma byDayItem_shown:
  assumes "dayEntryOk d" shows "byDayItem (dayEntry d) = Inr d"
proof -
  have day: "1 \<le> weekday d" "weekday d \<le> 7" using assms by (simp_all add: dayEntryOk_def)
  note w = weekdayCode_facts [OF day]
  show ?thesis
  proof (cases "ordinal d")
    case None
    then show ?thesis using w by (simp add: byDayItem_def dayEntry_def)
  next
    case (Some n)
    then have n: "n \<noteq> 0" "\<bar>n\<bar> \<le> 5" using assms by (simp_all add: dayEntryOk_def)
    have "u (show_int n) \<noteq> []" by (simp add: show_int_def)
    then show ?thesis using w n shortInt_shown [of n True] by (simp add: byDayItem_def dayEntry_def Some)
  qed
qed

lemma dayEntry_units: "dayEntryOk d \<Longrightarrow> list_all ruleUnit (dayEntry d) \<and> 44 \<notin> set (dayEntry d)"
  using weekdayCode_facts [of "weekday d"] shown_int_ruleUnit
  by (auto simp: dayEntryOk_def dayEntry_def split: option.splits)

lemma readByDay_shown:
  assumes "ds \<noteq> []" "\<forall>d \<in> set ds. dayEntryOk d"
  shows "readByDay (Some (joinUnits [44] (map dayEntry ds))) = Inr ds"
proof -
  have "splitUnits 44 (joinUnits [44] (map dayEntry ds)) = map dayEntry ds"
    by (rule splitUnits_join) (use assms dayEntry_units in auto)
  moreover have "mapE byDayItem (map dayEntry ds) = Inr ds"
    using assms(2) by (induction ds) (auto simp: byDayItem_shown)
  ultimately show ?thesis using assms(1) by (simp add: readByDay_def)
qed

lemma dateText_digits:
  assumes "realDate y m d"
  obtains Y M D where "dateText y m d = Y @ ''-'' @ M @ ''-'' @ D" "length Y = 4" "length M = 2" "length D = 2"
    "\<forall>c \<in> set (Y @ M @ D). isDigit c" "int (readNat Y) = y" "int (readNat M) = m" "int (readNat D) = d"
proof -
  have small: "0 \<le> y" "y \<le> 9999" "0 \<le> m" "m < 100" "0 \<le> d" "d < 100"
    using assms validCivil_small [of y m d] by (auto simp: realDate_def)
  show thesis
    by (rule that [of "paddedYear y" "pad2 m" "pad2 d"])
      (use year_digits [OF small(1,2)] pad2_digits [OF small(3,4)] pad2_digits [OF small(5,6)] small in \<open>auto simp: dateText_def\<close>)
qed

lemma no_mark: "\<forall>c \<in> set s. isDigit c \<Longrightarrow> filter (\<lambda>c. c \<noteq> CHR ''-'') s = s" "\<forall>c \<in> set s. isDigit c \<Longrightarrow> filter (\<lambda>c. c \<noteq> CHR '':'') s = s"
  by (auto simp: filter_id_conv isDigit_def code_def)

lemma digits_units: "\<forall>c \<in> set s. isDigit c \<Longrightarrow> list_all isDigitU (u s)"
  by (auto simp: u_def list_all_iff isDigit_def isDigitU_def)

lemma makeDay_civil: "validCivil y m d \<Longrightarrow> makeDay y m d = dayFromCivil y m d"
  by (auto simp: makeDay_def validCivil_def dayFromCivil_def monthOffset_simps)

lemma parseUntil_shown:
  assumes "untilOk v" shows "parseUntil (untilText v) = Some v" "list_all ruleUnit (untilText v)"
proof -
  obtain y m d where real: "realDate y m d" and date: "valueDate v = dateText y m d" using assms by (auto simp: untilOk_def)
  obtain Y M D where t: "dateText y m d = Y @ ''-'' @ M @ ''-'' @ D" "length Y = 4" "length M = 2" "length D = 2"
    "\<forall>c \<in> set (Y @ M @ D). isDigit c" "int (readNat Y) = y" "int (readNat M) = m" "int (readNat D) = d"
    by (rule dateText_digits [OF real])
  have dig: "list_all isDigitU (u Y)" "list_all isDigitU (u M)" "list_all isDigitU (u D)" using t(5) by (auto intro!: digits_units)
  have plain: "filter (\<lambda>c. c \<noteq> CHR ''-'') (valueDate v) = Y @ M @ D" using t(1,5) by (simp add: date no_mark)
  have civil: "civilOfDay (makeDay y m d) = (y, m, d)"
    using real civilOfDay_dayFromCivil by (simp add: realDate_def makeDay_civil)
  have ranged: "digitsAt s [0..<8] \<longleftrightarrow> 8 \<le> length s \<and> list_all isDigitU (take 8 s)"
    "digitsAt s [9..<15] \<longleftrightarrow> 15 \<le> length s \<and> list_all isDigitU (take 6 (drop 9 s))" for s
    using digitsAt_range [of 0 8 s] digitsAt_range [of 9 15 s] by auto
  have "parseUntil (untilText v) = Some v \<and> list_all ruleUnit (untilText v)"
  proof (cases "valueKind v = DateKind")
    case True
    then have rest: "valueTime v = None" "valueTzid v = None" using assms by (simp_all add: untilOk_def)
    have s: "untilText v = u Y @ u M @ u D" using True plain by (simp add: untilText_def)
    have "parseUntil (untilText v) = Some v" unfolding s parseUntil_def ranged
      using t(2,3,4) dig civil by (simp add: numberAt_def readU_u t(6,7,8) rest True date t(1))
    moreover have "list_all ruleUnit (untilText v)" using dig by (auto simp: s list_all_iff ruleUnit_def isDigitU_def)
    ultimately show ?thesis by simp
  next
    case False
    then obtain c where kind: "valueKind v \<in> {FloatingKind, UtcKind}" and rest: "valueTime v = Some c" "clockText c" "valueTzid v = None"
      using assms by (auto simp: untilOk_def)
    obtain H I S where c: "c = H @ '':'' @ I @ '':'' @ S" "length H = 2" "length I = 2" "length S = 2"
      "\<forall>d \<in> set H. isDigit d" "\<forall>d \<in> set I. isDigit d" "\<forall>d \<in> set S. isDigit d"
      "readNat H \<le> 23" "readNat I \<le> 59" "readNat S \<le> 59"
      using rest(2) by (auto simp: clockText_def)
    have digc: "list_all isDigitU (u H)" "list_all isDigitU (u I)" "list_all isDigitU (u S)" using c(5-7) by (auto intro!: digits_units)
    define z where "z = (if valueKind v = UtcKind then [90] else [] :: units)"
    have z: "u (if valueKind v = UtcKind then ''Z'' else '''') = z" by (simp add: z_def code_def)
    have s: "untilText v = u Y @ u M @ u D @ 84 # u H @ u I @ u S @ z"
      using False plain z by (simp add: untilText_def rest c(1) no_mark c(5-7) z_def code_def)
    let ?v = "\<lparr>valueKind = valueKind v, valueDate = Y @ ''-'' @ M @ ''-'' @ D, valueTime = Some (H @ '':'' @ I @ '':'' @ S), valueTzid = None\<rparr>"
    have "parseUntil (untilText v) = Some ?v" unfolding s parseUntil_def ranged
      using t(2,3,4) dig civil c(2-10) digc kind
      by (auto simp: numberAt_def readU_u t(6,7,8) z_def nth_append)
    moreover have "?v = v" by (rule IcalDateValue.equality) (simp_all add: date t(1) rest c(1))
    ultimately have "parseUntil (untilText v) = Some v" by simp
    moreover have "list_all ruleUnit (untilText v)" using dig digc by (auto simp: s z_def list_all_iff ruleUnit_def isDigitU_def)
    ultimately show ?thesis by simp
  qed
  then show "parseUntil (untilText v) = Some v" "list_all ruleUnit (untilText v)" by simp_all
qed

text \<open>A written rule as names and values.\<close>

definition rulePairs :: "Rrule \<Rightarrow> (units \<times> units) list" where
  "rulePairs r =
     [(u ''FREQ'', FREQ_NAMES (freq r))] @
     (if weekStart r \<noteq> 1 then [(u ''WKST'', weekdayCode (weekStart r))] else []) @
     (case ruleUntil r of None \<Rightarrow> [] | Some v \<Rightarrow> [(u ''UNTIL'', untilText v)]) @
     (case ruleCount r of None \<Rightarrow> [] | Some n \<Rightarrow> [(u ''COUNT'', u (show_int n))]) @
     [(u ''INTERVAL'', u (show_int (interval r)))] @
     (if byDay r \<noteq> [] then [(u ''BYDAY'', joinUnits [44] (map dayEntry (byDay r)))] else []) @
     (if byMonthDay r \<noteq> [] then [(u ''BYMONTHDAY'', commaList (byMonthDay r))] else []) @
     (if byMonth r \<noteq> [] then [(u ''BYMONTH'', commaList (byMonth r))] else [])"

lemma ruleTexts_parts: "ruleTexts r = map (\<lambda>(n, v). n @ 61 # v) (rulePairs r)"
  by (auto simp: ruleTexts_def rulePairs_def code_def split: option.splits)

lemma rulePairs_names: "distinct (map fst (rulePairs r))" "set (map fst (rulePairs r)) \<subseteq> set SUPPORTED_PARTS"
  by (auto simp: rulePairs_def SUPPORTED_PARTS_def code_def split: option.splits)

lemma supported_upper: "n \<in> set SUPPORTED_PARTS \<Longrightarrow> upperAscii n = n \<and> list_all ruleUnit n \<and> n \<noteq> [] \<and> 61 \<notin> set n"
  by (auto simp: SUPPORTED_PARTS_def upperAscii_def code_def ruleUnit_def)

lemma upper_plain: "uppercases upper \<Longrightarrow> list_all ruleUnit s \<Longrightarrow> upper s = upperAscii s"
  using ruleUnit_facts by (auto simp: uppercases_def list_all_iff)

lemma namedParts_shown:
  "\<forall>(n, v) \<in> set ps. upper n = n \<and> n \<noteq> [] \<and> 61 \<notin> set n \<Longrightarrow> distinct (map fst (acc @ ps)) \<Longrightarrow>
   namedParts upper (map (\<lambda>(n, v). n @ 61 # v) ps) acc = Inr (acc @ ps)"
proof (induction ps arbitrary: acc)
  case (Cons p ps)
  obtain n v where p: "p = (n, v)" by force
  have new: "\<not> jm_has acc n" "jm_set n v acc = acc @ [(n, v)]"
  proof -
    show n: "\<not> jm_has acc n" using Cons.prems(2) by (auto simp: jm_has_def p)
    have "n \<notin> fst ` set m \<Longrightarrow> AList.update n v m = m @ [(n, v)]" for m by (induction m) auto
    with n show "jm_set n v acc = acc @ [(n, v)]" by (auto simp: jm_has_def jm_set_def)
  qed
  have "takeWhile (\<lambda>c. c \<noteq> 61) (n @ 61 # v) = n" using Cons.prems(1) by (auto simp: p takeWhile_append)
  then show ?case using Cons.IH [of "acc @ [(n, v)]"] Cons.prems new by (simp add: p)
qed simp

lemma joinUnits_all: "list_all P sep \<Longrightarrow> \<forall>x \<in> set xs. list_all P x \<Longrightarrow> list_all P (joinUnits sep xs)"
  by (induction sep xs rule: joinUnits.induct) auto

lemma rulePairs_values: "ruleOk r \<Longrightarrow> \<forall>(n, v) \<in> set (rulePairs r). list_all ruleUnit v"
proof -
  assume ok: "ruleOk r"
  have comma: "list_all ruleUnit (commaList ns)" for ns
    unfolding commaList_def by (rule joinUnits_all) (use shown_int_ruleUnit(1) in \<open>simp_all add: ruleUnit_def\<close>)
  have days: "list_all ruleUnit (joinUnits [44] (map dayEntry (byDay r)))"
    by (rule joinUnits_all) (use ok dayEntry_units in \<open>simp_all add: ruleUnit_def ruleOk_def\<close>)
  have freqs: "list_all ruleUnit (FREQ_NAMES f)" for f by (cases f) (simp_all add: ruleUnit_def code_def)
  have week: "list_all ruleUnit (weekdayCode (weekStart r))" using weekdayCode_facts(4) ok by (simp add: ruleOk_def)
  have ending: "list_all ruleUnit (untilText v)" if "ruleUntil r = Some v" for v
    using ok that parseUntil_shown(2) [of v] by (simp add: ruleOk_def)
  show ?thesis using week ending comma days freqs shown_int_ruleUnit(1)
    by (cases "ruleUntil r"; cases "ruleCount r") (auto simp: rulePairs_def)
qed

lemma parts_of_rule:
  "jm_get (rulePairs r) (u ''FREQ'') = Some (FREQ_NAMES (freq r))"
  "jm_get (rulePairs r) (u ''INTERVAL'') = Some (u (show_int (interval r)))"
  "jm_get (rulePairs r) (u ''COUNT'') = map_option (\<lambda>n. u (show_int n)) (ruleCount r)"
  "jm_get (rulePairs r) (u ''WKST'') = (if weekStart r = 1 then None else Some (weekdayCode (weekStart r)))"
  "jm_get (rulePairs r) (u ''UNTIL'') = map_option untilText (ruleUntil r)"
  "jm_get (rulePairs r) (u ''BYDAY'') = (if byDay r = [] then None else Some (joinUnits [44] (map dayEntry (byDay r))))"
  "jm_get (rulePairs r) (u ''BYMONTHDAY'') = (if byMonthDay r = [] then None else Some (commaList (byMonthDay r)))"
  "jm_get (rulePairs r) (u ''BYMONTH'') = (if byMonth r = [] then None else Some (commaList (byMonth r)))"
  unfolding rulePairs_def by (auto simp: jm_get_def map_add_def map_of_append code_def split: option.splits)

lemma readRule_shown:
  assumes "ruleOk r" "uppercases upper" shows "readRule upper (rulePairs r) = Inr r"
proof -
  have freqU: "upper (FREQ_NAMES f) = FREQ_NAMES f" "map_of FREQ_BY_NAME (FREQ_NAMES f) = Some f" for f
    using upper_plain [OF assms(2), of "FREQ_NAMES f"]
    by (cases f; simp add: ruleUnit_def code_def upperAscii_def FREQ_BY_NAME_def)+
  have week: "1 \<le> weekStart r" "weekStart r \<le> 7" using assms(1) by (simp_all add: ruleOk_def)
  have weekU: "upper (weekdayCode (weekStart r)) = weekdayCode (weekStart r)"
    using upper_plain [OF assms(2)] weekdayCode_facts [OF week] by simp
  have f: "readFreq upper (Some (FREQ_NAMES (freq r))) = Inr (freq r)" by (simp add: readFreq_def freqU)
  have i: "integerPart (Some (u (show_int (interval r)))) ''INTERVAL'' 1 MAX_INTERVAL 1 = Inr (interval r)"
    by (rule integerPart_shown) (use assms(1) in \<open>auto simp: ruleOk_def\<close>)
  have c: "readCount (map_option (\<lambda>n. u (show_int n)) (ruleCount r)) = Inr (ruleCount r)"
    using assms(1) by (auto simp: readCount_def ruleOk_def integerPart_shown split: option.splits)
  have w: "readWeekStart upper (if weekStart r = 1 then None else Some (weekdayCode (weekStart r))) = Inr (weekStart r)"
    using weekdayCode_facts(3) [OF week] by (simp add: readWeekStart_def weekU)
  have m: "listPart (if byMonth r = [] then None else Some (commaList (byMonth r))) ''BYMONTH'' 1 12 False = Inr (byMonth r)"
  proof (cases "byMonth r = []")
    case False
    have "\<forall>n \<in> set (byMonth r). 1 \<le> \<bar>n\<bar> \<and> \<bar>n\<bar> \<le> 12 \<and> (False \<or> 0 \<le> n)" using assms(1) by (auto simp: ruleOk_def)
    with False show ?thesis using assms(1) listPart_shown [of "byMonth r" 1 12 False] by (simp add: ruleOk_def)
  qed (simp add: listPart_def)
  have d: "listPart (if byMonthDay r = [] then None else Some (commaList (byMonthDay r))) ''BYMONTHDAY'' 1 31 True = Inr (byMonthDay r)"
  proof (cases "byMonthDay r = []")
    case False
    have "\<forall>n \<in> set (byMonthDay r). 1 \<le> \<bar>n\<bar> \<and> \<bar>n\<bar> \<le> 31 \<and> (True \<or> 0 \<le> n)" using assms(1) by (auto simp: ruleOk_def)
    with False show ?thesis using assms(1) listPart_shown [of "byMonthDay r" 1 31 True] by (simp add: ruleOk_def)
  qed (simp add: listPart_def)
  have b: "readByDay (if byDay r = [] then None else Some (joinUnits [44] (map dayEntry (byDay r)))) = Inr (byDay r)"
    using assms(1) readByDay_shown [of "byDay r"] by (auto simp: ruleOk_def readByDay_def)
  have e: "readUntil (map_option untilText (ruleUntil r)) (ruleCount r) = Inr (ruleUntil r)"
    using assms(1) parseUntil_shown(1) by (auto simp: readUntil_def ruleOk_def split: option.splits)
  have k: "combinationOk (freq r) (byDay r) (byMonthDay r) = Inr ()" using assms(1) by (simp add: ruleOk_def)
  show ?thesis unfolding readRule_def parts_of_rule f i c w m d b andThen_simps k e by simp
qed

lemma supportedParts_shown:
  "set (map fst ps) \<subseteq> set SUPPORTED_PARTS \<Longrightarrow> \<forall>v. (u ''FREQ'', v) \<in> set ps \<longrightarrow> upper v \<notin> set FREQ_NOT_SUPPORTED \<Longrightarrow>
   supportedParts upper ps = Inr ()"
  by (induction ps) auto

lemma parse_written:
  assumes "ruleOk r" "uppercases upper" shows "parseRrule upper (joinUnits [59] (ruleTexts r)) = Inr r"
proof -
  let ?s = "joinUnits [59] (ruleTexts r)"
  have names: "upper n = n \<and> n \<noteq> [] \<and> 61 \<notin> set n" "list_all ruleUnit n" if "(n, v) \<in> set (rulePairs r)" for n v
    using rulePairs_names(2) [of r] supported_upper [of n] upper_plain [OF assms(2), of n] that by (force)+
  have units: "list_all ruleUnit t" if "t \<in> set (ruleTexts r)" for t
    using that rulePairs_values [OF assms(1)] names by (force simp: ruleTexts_parts ruleUnit_def)
  have ne: "ruleTexts r \<noteq> []" by (simp add: ruleTexts_def)
  have split: "splitUnits 59 ?s = ruleTexts r"
    by (rule splitUnits_join [OF ne]) (use units ruleUnit_facts in \<open>force simp: list_all_iff\<close>)
  obtain rest where s: "?s = u ''FREQ='' @ rest"
    by (cases "ruleTexts r" rule: list.exhaust; cases "tl (ruleTexts r)") (auto simp: ruleTexts_def split: if_splits option.splits)
  have "\<not> isSpace c" if "c \<in> set ?s" for c
    using subsetD [OF set_joinUnits that] units ruleUnit_facts by (force simp: list_all_iff isSpace_def)
  then have trim: "trimUnits ?s = ?s" by (intro trimUnits_id) auto
  have prefix: "upperAscii (take 6 ?s) \<noteq> u ''RRULE:''" by (simp add: s upperAscii_def code_def)
  have named: "namedParts upper (ruleTexts r) [] = Inr (rulePairs r)"
    unfolding ruleTexts_parts using namedParts_shown [of "rulePairs r" upper "[]"] names(1) rulePairs_names(1) [of r] by auto
  have "v = FREQ_NAMES (freq r)" if "(u ''FREQ'', v) \<in> set (rulePairs r)" for v
    using that by (auto simp: rulePairs_def code_def split: if_splits option.splits)
  moreover have "upper (FREQ_NAMES f) \<notin> set FREQ_NOT_SUPPORTED" for f
    using upper_plain [OF assms(2), of "FREQ_NAMES f"]
    by (cases f; simp add: FREQ_NOT_SUPPORTED_def ruleUnit_def upperAscii_def code_def)
  ultimately have supported: "supportedParts upper (rulePairs r) = Inr ()"
    by (intro supportedParts_shown rulePairs_names) auto
  have "?s \<noteq> []" by (simp add: s)
  then show ?thesis
    unfolding parseRrule_def Let_def trim if_not_P [OF prefix] split named using supported readRule_shown [OF assms] by simp
qed

text \<open>
  C35: A repeat rule survives being written. Whatever text a rule was read from, \<open>formatRrule\<close> writes it and
  \<open>parseRrule\<close> reads the written text back as the same rule.
\<close>
theorem rrule_roundtrip:
  assumes "uppercases upper" "parseRrule upper s = Inr r"
  shows "\<exists>t. formatRrule upper r = Inr t \<and> parseRrule upper t = Inr r"
proof -
  have ok: "ruleOk r" by (rule parsed_rule_ok [OF assms(2)])
  then have "map_option valueKind (ruleUntil r) \<noteq> Some ZonedKind"
    by (auto simp: ruleOk_def untilOk_def split: option.splits if_splits)
  then show ?thesis using parse_written [OF ok assms(1)] by (simp add: formatRrule_def)
qed

theorem rrule_roundtrip_witness:
  "\<exists>r t. parseRrule upperAscii (u ''RRULE:FREQ=WEEKLY;BYDAY=MO'') = Inr r \<and> formatRrule upperAscii r = Inr t \<and> parseRrule upperAscii t = Inr r"
proof -
  let ?r = "\<lparr>freq = Weekly, interval = 1, byDay = [\<lparr>weekday = 1, ordinal = None\<rparr>], byMonthDay = [], byMonth = [],
    ruleCount = None, ruleUntil = None, weekStart = 1\<rparr>"
  have up: "uppercases upperAscii" by (simp add: uppercases_def)
  have "parseRrule upperAscii (u ''RRULE:FREQ=WEEKLY;BYDAY=MO'') = Inr ?r"
    by (simp add: parseRrule_def readRule_def trimUnits_def isSpace_def upperAscii_def code_def jm_has_def jm_set_def SUPPORTED_PARTS_def
      FREQ_NOT_SUPPORTED_def readFreq_def FREQ_BY_NAME_def integerPart_def readCount_def readWeekStart_def listPart_def readByDay_def
      byDayItem_def WEEKDAY_BY_CODE_def combinationOk_def readUntil_def)
  with rrule_roundtrip [OF up this] show ?thesis by blast
qed

end
