(* ===== verification/RruleDays.thy ===== *)
theory RruleDays
  imports RruleText
begin

text \<open>
  The days a repeat rule selects (\<open>time/rrule.ts\<close>): day arithmetic, the candidate days of one period, the
  series opened on a start value, the walk through it, \<open>nextOccurrence\<close> and \<open>occurrencesBetween\<close>. A number
  that may be NaN is an option. The walk need not end for an interval below 1, so it is a partial function.
\<close>

section \<open>Day arithmetic\<close>

definition FIRST_DAY :: int where "FIRST_DAY = -719162"

definition LAST_DAY :: int where "LAST_DAY = 2932896"

definition SEARCH_LIMIT :: nat where "SEARCH_LIMIT = 100000"

definition toDays :: "int \<Rightarrow> int \<Rightarrow> int \<Rightarrow> int option" where
  "toDays year month day = map_option (\<lambda>t. t div MS_PER_DAY) (wallMs year month day 0 0 0)"

definition fromDays :: "int \<Rightarrow> (int \<times> int \<times> int) option" where
  "fromDays days = map_option (\<lambda>t. civilOfDay (t div MS_PER_DAY)) (newDate (days * MS_PER_DAY))"

definition weekdayOf :: "int \<Rightarrow> RruleWeekday" where
  "weekdayOf days = (days + 3) mod 7 + 1"

definition daysInMonthOf :: "int \<Rightarrow> int \<Rightarrow> int option" where
  "daysInMonthOf year month =
     (case (toDays (if month = 12 then year + 1 else year) (if month = 12 then 1 else month + 1) 1, toDays year month 1) of
        (Some b, Some a) \<Rightarrow> Some (b - a) | _ \<Rightarrow> None)"

definition isoDate :: "int \<Rightarrow> string option" where
  "isoDate days =
     (if days < FIRST_DAY \<or> days > LAST_DAY then None
      else case formatIsoDate (days * MS_PER_DAY) of Inr s \<Rightarrow> Some s | Inl _ \<Rightarrow> None)"

definition dayNumber :: "string \<Rightarrow> int option" where
  "dayNumber date = (case parseIsoDate date of Inr ms \<Rightarrow> Some (ms div MS_PER_DAY) | Inl _ \<Rightarrow> None)"

section \<open>Candidate days of one period\<close>

text \<open>A day of the month named by \<open>BYMONTHDAY\<close>; a negative one counts from the end.\<close>

definition namesDay :: "int option \<Rightarrow> int \<Rightarrow> int \<Rightarrow> bool" where
  "namesDay len day n = ((if n > 0 then Some n else map_option (\<lambda>l. l + n + 1) len) = Some day)"

definition dayMatches :: "Rrule \<Rightarrow> int \<Rightarrow> bool" where
  "dayMatches rule days =
     (if byMonth rule = [] \<and> byMonthDay rule = [] then True
      else case fromDays days of None \<Rightarrow> False
      | Some (year, month, day) \<Rightarrow>
          let len = daysInMonthOf year month in
          if byMonth rule \<noteq> [] \<and> month \<notin> set (byMonth rule) then False
          else if byMonthDay rule \<noteq> [] \<and> \<not> list_ex (namesDay len day) (byMonthDay rule) then False
          else True)"

definition weekdayMatches :: "RruleDay \<Rightarrow> int \<Rightarrow> int \<Rightarrow> int \<Rightarrow> bool" where
  "weekdayMatches entry day len days =
     (if weekdayOf days \<noteq> weekday entry then False
      else case ordinal entry of None \<Rightarrow> True
      | Some n \<Rightarrow> if n > 0 then (day + 6) div 7 = n else (len - day + 1 + 6) div 7 = - n)"

text \<open>Past the time range the length is NaN and nothing matches.\<close>

definition monthDays :: "Rrule \<Rightarrow> int \<Rightarrow> int \<Rightarrow> int \<Rightarrow> int list" where
  "monthDays rule year month startDay =
     (case (daysInMonthOf year month, toDays year month 1) of
        (Some len, Some first) \<Rightarrow>
          if byMonthDay rule = [] \<and> byDay rule = [] then (if startDay \<le> len then [first + startDay - 1] else [])
          else map (\<lambda>day. first + day - 1)
            (filter (\<lambda>day. (byMonthDay rule = [] \<or> list_ex (namesDay (Some len) day) (byMonthDay rule)) \<and>
                (byDay rule = [] \<or> list_ex (\<lambda>entry. weekdayMatches entry day len (first + day - 1)) (byDay rule)))
              [1..len])
      | _ \<Rightarrow> [])"

definition clipsMonthEnd :: "Rrule \<Rightarrow> bool" where
  "clipsMonthEnd rule \<longleftrightarrow> freq rule = Monthly \<and> byDay rule = [] \<and> byMonth rule = [] \<and>
     (byMonthDay rule = [] \<or> length (byMonthDay rule) = 1 \<and> hd (byMonthDay rule) > 0)"

text \<open>A NaN day is left out: the walk keeps the days from the start on.\<close>

definition clippedMonthDays :: "Rrule \<Rightarrow> int \<times> int \<times> int \<Rightarrow> int \<Rightarrow> int \<Rightarrow> int \<Rightarrow> int list" where
  "clippedMonthDays rule start k year month =
     (case start of (startYear, startMonth, startDay) \<Rightarrow>
        let anchor = (case byMonthDay rule of [] \<Rightarrow> startDay | n # _ \<Rightarrow> n); len = daysInMonthOf year month in
        if k > 0 then
          (case len of None \<Rightarrow> []
           | Some l \<Rightarrow> (case toDays year month (min anchor l) of None \<Rightarrow> [] | Some d \<Rightarrow> [d]))
        else if (case len of None \<Rightarrow> False | Some l \<Rightarrow> min anchor l = startDay)
        then (case toDays year month startDay of None \<Rightarrow> [] | Some d \<Rightarrow> [d])
        else
          let later = startYear * 12 + startMonth - 1 + interval rule;
              laterLength = daysInMonthOf (later div 12) (later mod 12 + 1) in
          if anchor > startDay \<and> (case len of None \<Rightarrow> False | Some l \<Rightarrow> anchor \<le> l) \<and>
             (case laterLength of None \<Rightarrow> False | Some l \<Rightarrow> anchor \<le> l)
          then (case toDays year month anchor of None \<Rightarrow> [] | Some d \<Rightarrow> [d]) else [])"

text \<open>The day numbers period \<open>k\<close> selects. A weekday of a rule is between 1 and 7.\<close>

definition periodDays :: "Rrule \<Rightarrow> int \<Rightarrow> int \<Rightarrow> bool \<Rightarrow> int list" where
  "periodDays rule startDays k clip =
     (case fromDays startDays of None \<Rightarrow> []
      | Some (startYear, startMonth, startDay) \<Rightarrow>
          (case freq rule of
             Daily \<Rightarrow> let days = startDays + k * interval rule in if dayMatches rule days then [days] else []
           | Weekly \<Rightarrow>
               let startOfWeek = startDays - (weekdayOf startDays - weekStart rule + 7) mod 7;
                   weekdays = (if byDay rule \<noteq> [] then map weekday (byDay rule) else [weekdayOf startDays]);
                   base = startOfWeek + 7 * interval rule * k
               in filter (\<lambda>days. byMonth rule = [] \<or>
                      (case fromDays days of None \<Rightarrow> False | Some (_, month, _) \<Rightarrow> month \<in> set (byMonth rule)))
                    (jsSort (\<lambda>a b. a - b) (map (\<lambda>w. base + (w - weekStart rule + 7) mod 7) weekdays))
           | Monthly \<Rightarrow>
               let index = startYear * 12 + startMonth - 1 + k * interval rule; year = index div 12; month = index mod 12 + 1 in
               if byMonth rule \<noteq> [] \<and> month \<notin> set (byMonth rule) then []
               else if clip \<and> clipsMonthEnd rule then clippedMonthDays rule (startYear, startMonth, startDay) k year month
               else monthDays rule year month startDay
           | Yearly \<Rightarrow>
               let year = startYear + k * interval rule;
                   months = (if byMonth rule \<noteq> [] then jsSort (\<lambda>a b. a - b) (byMonth rule)
                             else if byMonthDay rule \<noteq> [] then [1..12] else [startMonth])
               in concat (map (\<lambda>month. monthDays rule year month startDay) months)))"

text \<open>A period safely before the one holding \<open>refDays\<close>. Both days are dates.\<close>

definition firstPeriod :: "Rrule \<Rightarrow> int \<Rightarrow> int \<Rightarrow> int" where
  "firstPeriod rule startDays refDays =
     (if refDays \<le> startDays then 0
      else case (fromDays startDays, fromDays refDays) of
        (Some (startYear, startMonth, _), Some (refYear, refMonth, _)) \<Rightarrow>
          max 0 (case freq rule of
            Daily \<Rightarrow> (refDays - startDays) div interval rule
          | Weekly \<Rightarrow> (refDays - startDays) div (7 * interval rule)
          | Monthly \<Rightarrow> (refYear * 12 + refMonth - startYear * 12 - startMonth) div interval rule
          | Yearly \<Rightarrow> (refYear - startYear) div interval rule)
      | _ \<Rightarrow> 0)"

section \<open>Series\<close>

datatype RruleMonthEnd = Clip | Skip

record SeriesOptions =
  optStart :: IcalDateValue
  optTimeZone :: "units option"
  optMonthEnd :: "RruleMonthEnd option"

text \<open>What \<open>openSeries\<close> has checked; its closures are the operations below.\<close>

record Series =
  seriesRule :: Rrule
  seriesStart :: IcalDateValue
  seriesZone :: units
  zoneText :: string
  startDays :: int
  seriesClip :: bool

definition clockPattern :: "string \<Rightarrow> bool" where
  "clockPattern t \<longleftrightarrow> length t = 8 \<and> t ! 2 = CHR '':'' \<and> t ! 5 = CHR '':'' \<and> list_all (\<lambda>i. isDigit (t ! i)) [0, 1, 3, 4, 6, 7]"

definition dateOnly :: "IcalDateValue \<Rightarrow> bool" where
  "dateOnly start \<longleftrightarrow> valueKind start = DateKind"

definition startShape :: "IcalDateValue \<Rightarrow> bool" where
  "startShape start \<longleftrightarrow> isoDatePattern (valueDate start) \<and>
     (if dateOnly start then valueTime start = None else clockPattern (orElse (valueTime start) [])) \<and>
     (valueKind start = ZonedKind) = (valueTzid start \<noteq> None)"

definition openSeries :: "Intl \<Rightarrow> Rrule \<Rightarrow> SeriesOptions \<Rightarrow> RruleError + Series" where
  "openSeries intl rule options =
     (let start = optStart options;
          zone = (if valueKind start = ZonedKind then orElse (valueTzid start) [] else orElse (optTimeZone options) (u ''UTC'')) in
      if \<not> startShape start then rruleFail InvalidStart (u ''start is not a well-formed value'') None
      else case (if zone = [] then None else knownZone intl zone) of
        None \<Rightarrow> rruleFail InvalidStart (u ''unknown time zone or invalid instant'') None
      | Some name \<Rightarrow>
          (case dayNumber (valueDate start) of
             Some days \<Rightarrow>
               if isoDate days = None then rruleFail InvalidStart (u (valueDate start) @ u '' is not a calendar date'') None
               else Inr \<lparr>seriesRule = rule, seriesStart = start, seriesZone = zone, zoneText = name, startDays = days,
                 seriesClip = (orElse (optMonthEnd options) Clip = Clip)\<rparr>
           | None \<Rightarrow> rruleFail InvalidStart (u (valueDate start) @ u '' is not a calendar date'') None))"

text \<open>\<open>make\<close>: the start on another date.\<close>

definition makeValue :: "Series \<Rightarrow> string \<Rightarrow> IcalDateValue" where
  "makeValue s date = (seriesStart s)\<lparr>valueDate := date\<rparr>"

text \<open>Without a document no name is compared, so no \<open>toUpperCase\<close> is needed.\<close>

definition seriesInstant :: "Intl \<Rightarrow> Series \<Rightarrow> string \<Rightarrow> int option" where
  "seriesInstant intl s date =
     (if dateOnly (seriesStart s) then None else resolveInstant intl id (makeValue s date) (Some (seriesZone s)) None)"

definition withinUntil :: "Intl \<Rightarrow> Series \<Rightarrow> string \<Rightarrow> int \<Rightarrow> bool" where
  "withinUntil intl s date days =
     (case ruleUntil (seriesRule s) of None \<Rightarrow> True
      | Some limit \<Rightarrow>
          if valueKind limit = UtcKind then
            (if (case dayNumber (valueDate limit) of None \<Rightarrow> False | Some n \<Rightarrow> days + 2 \<le> n) then True
             else case (resolveInstant intl id (makeValue s date) (Some (seriesZone s)) None, resolveInstant intl id limit None None) of
               (Some instant, Some end) \<Rightarrow> instant \<le> end | _ \<Rightarrow> False)
          else \<not> strLess (valueDate limit @ ''T'' @ orElse (valueTime limit) ''23:59:59'')
                 (date @ ''T'' @ orElse (valueTime (seriesStart s)) ''00:00:00''))"

datatype WalkStatus = Found | Ended | LimitReached

type_synonym 's visitor = "'s \<Rightarrow> string \<Rightarrow> int \<Rightarrow> 's \<times> bool"

text \<open>The inner loop over the days of a period.\<close>

fun visitDays :: "Intl \<Rightarrow> Series \<Rightarrow> 's visitor \<Rightarrow> int list \<Rightarrow> int \<Rightarrow> 's \<Rightarrow> 's \<times> int \<times> WalkStatus option" where
  "visitDays intl s visit [] seen st = (st, seen, None)"
| "visitDays intl s visit (day # days) seen st =
     (case isoDate day of None \<Rightarrow> (st, seen, Some Ended)
      | Some date \<Rightarrow>
          if (case ruleCount (seriesRule s) of None \<Rightarrow> False | Some n \<Rightarrow> seen + 1 > n) then (st, seen + 1, Some Ended)
          else if \<not> withinUntil intl s date day then (st, seen + 1, Some Ended)
          else (case visit st date day of
                  (st', stop) \<Rightarrow> if stop then (st', seen + 1, Some Found) else visitDays intl s visit days (seen + 1) st'))"

definition seriesDays :: "Series \<Rightarrow> int \<Rightarrow> int list" where
  "seriesDays s k = filter (\<lambda>day. day \<ge> startDays s) (periodDays (seriesRule s) (startDays s) k (seriesClip s))"

partial_function (option) walkLoop :: "Intl \<Rightarrow> Series \<Rightarrow> 's visitor \<Rightarrow> int \<Rightarrow> int \<Rightarrow> nat \<Rightarrow> 's \<Rightarrow> ('s \<times> WalkStatus) option" where
  "walkLoop intl s visit k seen emptyRun st =
     (if emptyRun \<ge> SEARCH_LIMIT then Some (st, LimitReached)
      else case visitDays intl s visit (seriesDays s k) seen st of
        (st', seen', status) \<Rightarrow>
          (case status of
             Some e \<Rightarrow> Some (st', e)
           | None \<Rightarrow> walkLoop intl s visit (k + 1) seen' (if seriesDays s k = [] then emptyRun + 1 else 0) st'))"

definition walk :: "Intl \<Rightarrow> Series \<Rightarrow> int \<Rightarrow> 's visitor \<Rightarrow> 's \<Rightarrow> ('s \<times> WalkStatus) option" where
  "walk intl s refDays visit st =
     walkLoop intl s visit (if ruleCount (seriesRule s) = None then firstPeriod (seriesRule s) (startDays s) refDays else 0) 0 0 st"

definition searchLimit :: "RruleError + 'a" where
  "searchLimit = rruleFail SearchLimit (u ''no occurrence found in 100000 periods in a row'') None"

section \<open>Searches\<close>

definition nextVisit :: "Intl \<Rightarrow> Series \<Rightarrow> int \<Rightarrow> string \<Rightarrow> int \<Rightarrow> IcalDateValue option visitor" where
  "nextVisit intl s refDays afterDate after found date day =
     (if day < refDays then (found, False)
      else let isAfter = (if dateOnly (seriesStart s) then strLess afterDate date
             else (case seriesInstant intl s date of None \<Rightarrow> False | Some t \<Rightarrow> t > after))
           in (if isAfter then Some (makeValue s date) else found, isAfter))"

text \<open>The outer option is the search not returning; a thrown error is \<open>Inl\<close>.\<close>

definition nextOccurrence :: "Intl \<Rightarrow> Rrule \<Rightarrow> SeriesOptions \<Rightarrow> jsdate \<Rightarrow> (js_error + (RruleError + IcalDateValue option)) option" where
  "nextOccurrence intl rule options after =
     (case openSeries intl rule options of
        Inl e \<Rightarrow> Some (Inr (Inl e))
      | Inr s \<Rightarrow>
          (case after of
             None \<Rightarrow> Some (Inr (rruleFail InvalidStart (u ''unknown time zone or invalid instant'') None))
           | Some t \<Rightarrow>
               (case isoDateInTz intl after (zoneText s) of
                  Inl e \<Rightarrow> Some (Inl e)
                | Inr afterDate \<Rightarrow>
                    (case dayNumber afterDate of
                       None \<Rightarrow> Some (Inr (Inr None))
                     | Some afterDays \<Rightarrow>
                         map_option (\<lambda>(found, status). Inr (if status = LimitReached then searchLimit else Inr found))
                           (walk intl s (afterDays - 2) (nextVisit intl s (afterDays - 2) afterDate t) None)))))"

definition RANGE_LIMIT :: jsnum where "RANGE_LIMIT = Fin 1000"

definition rangeVisit ::
  "Intl \<Rightarrow> Series \<Rightarrow> int \<Rightarrow> int \<Rightarrow> string \<Rightarrow> string \<Rightarrow> int \<Rightarrow> int \<Rightarrow> int \<Rightarrow> (IcalDateValue list \<times> bool) visitor" where
  "rangeVisit intl s firstDay lastDay fromDate toDate fromT toT limit st date day =
     (let keep = (if int (length (fst st)) = limit then ((fst st, True), True) else ((fst st @ [makeValue s date], snd st), False)) in
      if day < firstDay - 2 then (st, False)
      else if day > lastDay + 2 then (st, True)
      else if dateOnly (seriesStart s) then
        (if strLess toDate date then (st, True) else if strLess date fromDate then (st, False) else keep)
      else if day < firstDay + 2 \<or> day > lastDay - 2 then
        (case seriesInstant intl s date of
           None \<Rightarrow> (st, False)
         | Some t \<Rightarrow> if t > toT then (st, True) else if t < fromT then (st, False) else keep)
      else keep)"

definition occurrencesBetween ::
  "Intl \<Rightarrow> Rrule \<Rightarrow> SeriesOptions \<Rightarrow> jsdate \<Rightarrow> jsdate \<Rightarrow> jsnum option \<Rightarrow>
   (js_error + (RruleError + IcalDateValue list)) option" where
  "occurrencesBetween intl rule options fromD toD maxCount =
     (let limit = orElse maxCount RANGE_LIMIT in
      if \<not> js_isInteger limit \<or> js_less limit (Fin 1)
      then Some (Inl (RangeErr ''limit must be a positive integer''))
      else case openSeries intl rule options of
        Inl e \<Rightarrow> Some (Inr (Inl e))
      | Inr s \<Rightarrow>
          (case (fromD, toD) of
             (Some fromT, Some toT) \<Rightarrow>
               if toT < fromT then Some (Inr (Inr []))
               else
                 (case (isoDateInTz intl fromD (zoneText s), isoDateInTz intl toD (zoneText s)) of
                    (Inr fromDate, Inr toDate) \<Rightarrow>
                      (case dayNumber fromDate of
                         None \<Rightarrow> Some (Inr (Inr []))
                       | Some firstDay \<Rightarrow>
                           let lastDay = orElse (dayNumber toDate) LAST_DAY in
                           map_option (\<lambda>((found, tooMany), status).
                               Inr (if tooMany then rruleFail SearchLimit (u ''more than '' @ u (show_int (js_floor limit)) @ u '' occurrences in the range'') None
                                    else if status = LimitReached then searchLimit else Inr found))
                             (walk intl s (firstDay - 2)
                               (rangeVisit intl s firstDay lastDay fromDate toDate fromT toT (js_floor limit)) ([], False)))
                  | (Inl e, _) \<Rightarrow> Some (Inl e)
                  | (Inr _, Inl e) \<Rightarrow> Some (Inl e))
           | _ \<Rightarrow> Some (Inr (rruleFail InvalidStart (u ''unknown time zone or invalid instant'') None))))"

end
