(* ===== verification/RruleProofs.thy ===== *)
theory RruleProofs
  imports RruleDays
begin

text \<open>
  The searches of \<open>time/rrule.ts\<close> against the days a rule selects: the periods of a rule follow one another
  without overlap, skipping ahead loses nothing, the walk returns, and the searches answer exactly the
  selected days.
\<close>

section \<open>Days and months\<close>

lemma toDays_civil: "toDays y m d = Some n \<Longrightarrow> 1 \<le> m \<Longrightarrow> m \<le> 12 \<Longrightarrow> n = dayFromCivil y m d"
proof -
  assume t: "toDays y m d = Some n" and m: "1 \<le> m" "m \<le> 12"
  have "makeDay y m d = dayFromCivil y m d" using m by (simp add: makeDay_def dayFromCivil_def)
  then show ?thesis using t by (auto simp: toDays_def wallMs_def newDate_def MS_PER_DAY_def split: option.splits if_splits)
qed

lemma dayFromCivil_day: "dayFromCivil y m d = dayFromCivil y m 1 + d - 1"
  by (simp add: dayFromCivil_def)

lemma daysInMonth_civil: "daysInMonthOf y m = Some l \<Longrightarrow> 1 \<le> m \<Longrightarrow> m \<le> 12 \<Longrightarrow> l = monthLength y m"
  using dayFromCivil_next_month [of m y] dayFromCivil_day [of y m "monthLength y m"]
  by (auto simp: daysInMonthOf_def split: option.splits if_splits dest!: toDays_civil)

lemma fromDays_civil: "fromDays n = Some c \<Longrightarrow> c = civilOfDay n"
  by (auto simp: fromDays_def newDate_def MS_PER_DAY_def split: if_splits)

definition inYears :: "int \<Rightarrow> bool" where
  "inYears n \<longleftrightarrow> FIRST_DAY \<le> n \<and> n \<le> LAST_DAY"

lemma inYears_window: "inYears n \<Longrightarrow> inWindow n"
  by (simp add: inYears_def inWindow_def FIRST_DAY_def LAST_DAY_def)

lemma fromDays_inYears: "inWindow n \<Longrightarrow> fromDays n = Some (civilOfDay n)"
  by (auto simp: fromDays_def newDate_def MS_PER_DAY_def inWindow_def)

lemma isoDate_dayText: "isoDate n = (if inYears n then Some (dayText n) else None)"
  using format_dayText [of n] inYears_window [of n] by (auto simp: isoDate_def inYears_def mult.commute)

lemma dayNumber_dayText: "inWindow n \<Longrightarrow> dayNumber (dayText n) = Some n"
  by (simp add: dayNumber_def parse_dayText MS_PER_DAY_def)

text \<open>The first day of the month with a running number: \<open>12 * year + month - 1\<close>.\<close>

definition monthStart :: "int \<Rightarrow> int" where
  "monthStart i = dayFromCivil (i div 12) (i mod 12 + 1) 1"

lemma month_of_index: "1 \<le> i mod 12 + 1" "i mod 12 + 1 \<le> (12 :: int)"
  using pos_mod_bound [of 12 i] by simp_all

lemma month_next:
  "(i + 1) div 12 = i div 12 + (if i mod 12 = 11 then 1 else 0 :: int)" "(i + 1) mod 12 = (if i mod 12 = 11 then 0 else i mod 12 + 1 :: int)"
proof -
  have "i = 12 * (i div 12) + i mod 12" "0 \<le> i mod 12" "i mod 12 < 12" by simp_all
  then obtain q r where i: "i = 12 * q + r" "0 \<le> r" "r < 12" by blast
  have d: "i div 12 = q" "i mod 12 = r" using i by (auto intro: int_div_pos_eq int_mod_pos_eq)
  show "(i + 1) div 12 = i div 12 + (if i mod 12 = 11 then 1 else 0)"
    unfolding d by (rule int_div_pos_eq [where r = "if r = 11 then 0 else r + 1"]) (use i in auto)
  show "(i + 1) mod 12 = (if i mod 12 = 11 then 0 else i mod 12 + 1)"
    unfolding d by (rule int_mod_pos_eq [where q = "if r = 11 then q + 1 else q"]) (use i in auto)
qed

lemma monthStart_step: "monthStart (i + 1) = monthStart i + monthLength (i div 12) (i mod 12 + 1)"
proof (cases "i mod 12 = 11")
  case True
  then have "(i + 1) div 12 = i div 12 + 1" "(i + 1) mod 12 = 0" using month_next [of i] by simp_all
  then show ?thesis using True dayFromCivil_next_month [of 12 "i div 12"] dayFromCivil_day [of "i div 12" 12 "monthLength (i div 12) 12"]
    by (simp add: monthStart_def)
next
  case False
  then have "(i + 1) div 12 = i div 12" "(i + 1) mod 12 = i mod 12 + 1" using month_next [of i] by simp_all
  then show ?thesis using False dayFromCivil_next_month [of "i mod 12 + 1" "i div 12"] month_of_index [of i]
      dayFromCivil_day [of "i div 12" "i mod 12 + 1" "monthLength (i div 12) (i mod 12 + 1)"]
    by (simp add: monthStart_def)
qed

lemma monthStart_less: "i < j \<Longrightarrow> monthStart i + monthLength (i div 12) (i mod 12 + 1) \<le> monthStart j"
proof (induction "nat (j - i)" arbitrary: j)
  case (Suc n)
  show ?case
  proof (cases "j = i + 1")
    case False
    then have "monthStart i + monthLength (i div 12) (i mod 12 + 1) \<le> monthStart (j - 1)" using Suc by auto
    moreover have "monthStart (j - 1) \<le> monthStart j"
      using monthStart_step [of "j - 1"] monthLength_bounds [OF month_of_index, of "(j - 1) div 12" "j - 1"] by simp
    ultimately show ?thesis by simp
  qed (simp add: monthStart_step)
qed simp

lemma monthStart_mono: "i \<le> j \<Longrightarrow> monthStart i \<le> monthStart j"
  using monthStart_less [of i j] monthLength_bounds [OF month_of_index, of "i div 12" i] by (cases "i = j") auto

lemma monthStart_civil: "1 \<le> m \<Longrightarrow> m \<le> 12 \<Longrightarrow> monthStart (y * 12 + m - 1) = dayFromCivil y m 1"
proof -
  assume m: "1 \<le> m" "m \<le> 12"
  have "(y * 12 + m - 1) div 12 = y" "(y * 12 + m - 1) mod 12 = m - 1" using m by presburger+
  then show ?thesis by (simp add: monthStart_def)
qed


section \<open>Periods follow one another\<close>

text \<open>Where period \<open>k\<close> begins.\<close>

definition periodStart :: "Rrule \<Rightarrow> int \<Rightarrow> int \<Rightarrow> int" where
  "periodStart r s k =
     (case civilOfDay s of (y, m, d) \<Rightarrow>
        (case freq r of
           Daily \<Rightarrow> s + k * interval r
         | Weekly \<Rightarrow> s - (weekdayOf s - weekStart r + 7) mod 7 + 7 * interval r * k
         | Monthly \<Rightarrow> monthStart (y * 12 + m - 1 + k * interval r)
         | Yearly \<Rightarrow> dayFromYear (y + k * interval r)))"

lemma periodStart_step:
  assumes "1 \<le> interval r" shows "periodStart r s k + 1 \<le> periodStart r s (k + 1)"
proof -
  obtain y m d where c: "civilOfDay s = (y, m, d)" by (metis prod_cases3)
  have after: "(k + 1) * interval r = k * interval r + interval r" "7 * interval r * (k + 1) = 7 * interval r * k + 7 * interval r"
    by (simp_all add: algebra_simps)
  show ?thesis
  proof (cases "freq r")
    case Monthly
    let ?i = "y * 12 + m - 1 + k * interval r"
    have "monthStart ?i + monthLength (?i div 12) (?i mod 12 + 1) \<le> monthStart (?i + interval r)"
      by (rule monthStart_less) (use assms in simp)
    then show ?thesis using monthLength_bounds [OF month_of_index, of "?i div 12" ?i]
      by (simp add: periodStart_def c Monthly after add.assoc)
  next
    case Yearly
    then show ?thesis using assms dayFromYear_mono [of "y + k * interval r" "y + k * interval r + interval r"]
      by (simp add: periodStart_def c after add.assoc)
  qed (use assms in \<open>simp_all add: periodStart_def c after\<close>)
qed

lemma periodStart_mono: "1 \<le> interval r \<Longrightarrow> j \<le> k \<Longrightarrow> periodStart r s j + (k - j) \<le> periodStart r s k"
proof (induction "nat (k - j)" arbitrary: k)
  case (Suc n)
  then have "periodStart r s j + (k - 1 - j) \<le> periodStart r s (k - 1)" by auto
  then show ?case using periodStart_step [of r s "k - 1"] Suc.prems by simp
qed simp

lemma monthDays_range:
  assumes "d \<in> set (monthDays r y m day)" "1 \<le> m" "m \<le> 12" "1 \<le> day"
  shows "dayFromCivil y m 1 \<le> d \<and> d < dayFromCivil y m 1 + monthLength y m"
proof -
  obtain len first where l: "daysInMonthOf y m = Some len" "toDays y m 1 = Some first"
    using assms(1) by (cases "daysInMonthOf y m"; cases "toDays y m 1") (auto simp: monthDays_def)
  then have "len = monthLength y m" "first = dayFromCivil y m 1" using daysInMonth_civil toDays_civil assms(2,3) by auto
  then show ?thesis using assms(1,4) l by (auto simp: monthDays_def split: if_splits)
qed

lemma monthDays_sorted: "sorted_wrt (<) (monthDays r y m day)"
proof -
  have "sorted_wrt (<) (map (\<lambda>d. a + d - 1) (filter P [1..n]))" for a n P
    by (simp add: sorted_wrt_map sorted_wrt_filter sorted_wrt_upto)
  then show ?thesis by (simp add: monthDays_def split: option.split)
qed

lemma clipped_range:
  assumes "d \<in> set (clippedMonthDays r (y, m, day) k y' m')" "1 \<le> m'" "m' \<le> 12" "1 \<le> day" "clipsMonthEnd r"
  shows "dayFromCivil y' m' 1 \<le> d \<and> d < dayFromCivil y' m' 1 + monthLength y' m'"
proof -
  define anchor where "anchor = (case byMonthDay r of [] \<Rightarrow> day | n # _ \<Rightarrow> n)"
  have pos: "1 \<le> anchor" using assms(4,5) by (auto simp: anchor_def clipsMonthEnd_def split: list.split)
  have one: "dayFromCivil y' m' 1 \<le> e \<and> e < dayFromCivil y' m' 1 + monthLength y' m'"
    if "toDays y' m' a = Some e" "1 \<le> a" "a \<le> monthLength y' m'" for a e
    using toDays_civil [OF that(1) assms(2,3)] that(2,3) dayFromCivil_day [of y' m' a] by simp
  obtain l where l: "daysInMonthOf y' m' = Some l"
    using assms(1) by (cases "daysInMonthOf y' m'") (auto simp: clippedMonthDays_def Let_def split: if_splits option.splits)
  have len: "l = monthLength y' m'" using daysInMonth_civil [OF l assms(2,3)] .
  have long: "1 \<le> l" using monthLength_bounds [of m' y'] assms(2,3) len by simp
  define good where "good a = (case toDays y' m' a of None \<Rightarrow> [] | Some e \<Rightarrow> [e])" for a
  have in_good: "1 \<le> a \<Longrightarrow> a \<le> monthLength y' m' \<Longrightarrow> d \<in> set (good a) \<Longrightarrow> ?thesis" for a
    using one [of a d] by (auto simp: good_def split: option.splits)
  have "d \<in> set (good (min anchor l)) \<or> min anchor l = day \<and> d \<in> set (good day) \<or> anchor \<le> l \<and> d \<in> set (good anchor)"
    using assms(1) unfolding clippedMonthDays_def Let_def l good_def [symmetric]
    by (auto simp: anchor_def split: if_splits)
  then show ?thesis using in_good [of "min anchor l"] in_good [of day] in_good [of anchor] pos long assms(4) len by auto
qed

lemma clipped_length: "length (clippedMonthDays r start k y m) \<le> 1"
  by (auto simp: clippedMonthDays_def Let_def split: prod.split option.split)


text \<open>The days of a period lie between its start and the start of the next one.\<close>

lemma weekly_offset: "1 \<le> w \<Longrightarrow> w \<le> (7 :: int) \<Longrightarrow> 1 \<le> b \<Longrightarrow> b \<le> 7 \<Longrightarrow> 0 \<le> (w - b + 7) mod 7 \<and> (w - b + 7) mod 7 < 7"
  by simp

lemma weekdayOf_range: "1 \<le> weekdayOf n \<and> weekdayOf n \<le> 7"
  using pos_mod_bound [of 7 "n + 3"] by (simp add: weekdayOf_def)

lemma months_of_rule:
  assumes "ruleOk r" "1 \<le> m" "m \<le> 12"
    and "month \<in> set (if byMonth r \<noteq> [] then jsSort (\<lambda>a b. a - b) (byMonth r) else if byMonthDay r \<noteq> [] then [1..12] else [m])"
  shows "1 \<le> month \<and> month \<le> 12"
  using assms by (auto simp: ruleOk_def split: if_splits)

lemma between: "a \<le> d \<and> d < a + l \<Longrightarrow> a + l \<le> b \<Longrightarrow> a \<le> d \<and> d < (b :: int)"
  by simp

lemma period_range:
  assumes ok: "ruleOk r" and s: "inWindow s" and k: "0 \<le> k" and d: "d \<in> set (periodDays r s k clip)"
  shows "periodStart r s k \<le> d \<and> d < periodStart r s (k + 1)"
proof -
  obtain y m day where c: "civilOfDay s = (y, m, day)" by (metis prod_cases3)
  have civil: "1 \<le> m" "m \<le> 12" "1 \<le> day" "day \<le> monthLength y m" "dayFromCivil y m day = s"
    using civilOfDay_ok [OF c] by (auto simp: validCivil_def)
  have i: "1 \<le> interval r" using ok by (simp add: ruleOk_def)
  note days = d [unfolded periodDays_def fromDays_inYears [OF s] c option.case prod.case]
  show ?thesis
  proof (cases "freq r")
    case Daily
    then show ?thesis using days i by (auto simp: periodStart_def c Let_def distrib_right split: if_splits)
  next
    case Weekly
    let ?base = "s - (weekdayOf s - weekStart r + 7) mod 7 + 7 * interval r * k"
    obtain w where w: "d = ?base + (w - weekStart r + 7) mod 7" using days Weekly by (auto simp: Let_def split: if_splits)
    have "0 \<le> (w - weekStart r + 7) mod 7" "(w - weekStart r + 7) mod 7 < 7" by simp_all
    moreover have "7 * interval r * (k + 1) = 7 * interval r * k + 7 * interval r" by (simp add: algebra_simps)
    ultimately show ?thesis using i unfolding w periodStart_def c Weekly by simp
  next
    case Monthly
    let ?i = "y * 12 + m - 1 + k * interval r"
    have step: "y * 12 + m - 1 + (k + 1) * interval r = ?i + interval r" by (simp add: algebra_simps)
    have "monthStart ?i \<le> d \<and> d < monthStart ?i + monthLength (?i div 12) (?i mod 12 + 1)" unfolding monthStart_def
      using days Monthly monthDays_range [OF _ month_of_index, of d r "?i div 12" ?i day] civil(3)
        clipped_range [OF _ month_of_index, of d r y m day k "?i div 12" ?i]
      by (auto simp: Let_def split: if_splits)
    moreover have "monthStart ?i + monthLength (?i div 12) (?i mod 12 + 1) \<le> monthStart (?i + interval r)"
      by (rule monthStart_less) (use i in simp)
    ultimately show ?thesis
      unfolding periodStart_def c Monthly prod.case RruleFreq.case step by (rule between)
  next
    case Yearly
    let ?y = "y + k * interval r"
    obtain month where month: "d \<in> set (monthDays r ?y month day)" "1 \<le> month" "month \<le> 12"
      using days [unfolded Yearly RruleFreq.case Let_def set_concat set_map] months_of_rule [OF ok civil(1,2)] by blast
    have "dayFromCivil ?y month 1 \<le> d \<and> d < dayFromCivil ?y month 1 + monthLength ?y month"
      using monthDays_range [OF month civil(3)] .
    moreover have "validCivil ?y month 1" "validCivil ?y month (monthLength ?y month)"
      using month monthLength_bounds [of month ?y] by (auto simp: validCivil_def)
    ultimately have "dayFromYear ?y \<le> d \<and> d < dayFromYear (?y + 1)"
      using civil_in_year [of ?y month 1] civil_in_year [of ?y month "monthLength ?y month"]
        dayFromCivil_day [of ?y month "monthLength ?y month"] by auto
    moreover have "dayFromYear (?y + 1) \<le> dayFromYear (?y + interval r)"
      using dayFromYear_mono [of "?y + 1" "?y + interval r"] i by simp
    moreover have "y + (k + 1) * interval r = ?y + interval r" by (simp add: algebra_simps)
    ultimately show ?thesis by (simp add: periodStart_def c Yearly add.assoc)
  qed
qed

lemma firstPeriod_range:
  assumes "ruleOk r" "inWindow s" "inWindow ref \<or> ref \<le> s"
  shows "0 \<le> firstPeriod r s ref \<and> (0 < firstPeriod r s ref \<longrightarrow> periodStart r s (firstPeriod r s ref) \<le> ref)"
proof (cases "ref \<le> s")
  case False
  then have w: "inWindow ref" "s < ref" using assms(3) by auto
  obtain y m d where c: "civilOfDay s = (y, m, d)" by (metis prod_cases3)
  obtain y' m' d' where c': "civilOfDay ref = (y', m', d')" by (metis prod_cases3)
  have v: "validCivil y m d" "validCivil y' m' d'" "dayFromCivil y' m' d' = ref" using civilOfDay_ok [OF c] civilOfDay_ok [OF c'] by auto
  have i: "1 \<le> interval r" using assms(1) by (simp add: ruleOk_def)
  have quotient: "a div interval r * interval r \<le> a" for a using i by (simp add: minus_mod_eq_div_mult [symmetric])
  have f: "firstPeriod r s ref = max 0 (case freq r of Daily \<Rightarrow> (ref - s) div interval r | Weekly \<Rightarrow> (ref - s) div (7 * interval r)
      | Monthly \<Rightarrow> (y' * 12 + m' - y * 12 - m) div interval r | Yearly \<Rightarrow> (y' - y) div interval r)"
    using False by (simp add: firstPeriod_def fromDays_inYears assms(2) w c c')
  have "periodStart r s (firstPeriod r s ref) \<le> ref" if pos: "0 < firstPeriod r s ref"
  proof (cases "freq r")
    case Daily
    then show ?thesis using quotient [of "ref - s"] f pos by (simp add: periodStart_def c)
  next
    case Weekly
    have "(ref - s) div (7 * interval r) * (7 * interval r) \<le> ref - s" using i by (simp add: minus_mod_eq_div_mult [symmetric])
    then show ?thesis using Weekly f pos by (simp add: periodStart_def c mult.commute [of "7 * interval r"])
  next
    case Monthly
    let ?n = "firstPeriod r s ref"
    have "?n * interval r \<le> y' * 12 + m' - y * 12 - m" using quotient [of "y' * 12 + m' - y * 12 - m"] f pos Monthly by simp
    then have "monthStart (y * 12 + m - 1 + ?n * interval r) \<le> monthStart (y' * 12 + m' - 1)" by (intro monthStart_mono) simp
    also have "\<dots> \<le> ref" using monthStart_civil [of m' y'] v dayFromCivil_day [of y' m' d'] by (simp add: validCivil_def)
    finally show ?thesis by (simp add: periodStart_def c Monthly)
  next
    case Yearly
    let ?n = "firstPeriod r s ref"
    have "?n * interval r \<le> y' - y" using quotient [of "y' - y"] f pos Yearly by simp
    then have "dayFromYear (y + ?n * interval r) \<le> dayFromYear y'" using dayFromYear_mono [of "y + ?n * interval r" y'] by simp
    then show ?thesis using civil_in_year [OF v(2)] v(3) by (simp add: periodStart_def c Yearly)
  qed
  then show ?thesis using f by simp
qed (simp add: firstPeriod_def)


text \<open>A rule lists a day once unless a weekly one names a weekday twice.\<close>

definition plainDays :: "Rrule \<Rightarrow> bool" where
  "plainDays r \<longleftrightarrow> freq r \<noteq> Weekly \<or> distinct (map weekday (byDay r))"

lemma sorted_concat:
  "\<forall>x \<in> set xs. sorted_wrt P (f x) \<Longrightarrow> sorted_wrt (\<lambda>x y. \<forall>a \<in> set (f x). \<forall>b \<in> set (f y). P a b) xs \<Longrightarrow>
   sorted_wrt P (concat (map f xs))"
  by (induction xs) (auto simp: sorted_wrt_append)

lemma sorted_strict: "sorted_wrt (<) (xs :: int list) \<longleftrightarrow> sorted xs \<and> distinct xs"
  by (auto simp: strict_sorted_iff)

lemma yearly_sorted:
  assumes "sorted_wrt (<) months" "\<forall>m \<in> set months. 1 \<le> m \<and> m \<le> 12" "1 \<le> day"
  shows "sorted_wrt (<) (concat (map (\<lambda>m. monthDays r y m day) months))"
proof (rule sorted_concat)
  show "sorted_wrt (\<lambda>m m'. \<forall>a \<in> set (monthDays r y m day). \<forall>b \<in> set (monthDays r y m' day). a < b) months"
  proof (rule sorted_wrt_mono_rel [OF _ assms(1)], intro ballI)
    fix m m' a b assume m: "m \<in> set months" "m' \<in> set months" "m < m'" and a: "a \<in> set (monthDays r y m day)" and b: "b \<in> set (monthDays r y m' day)"
    have "a < dayFromCivil y m 1 + monthLength y m" "dayFromCivil y m' 1 \<le> b"
      using monthDays_range [OF a] monthDays_range [OF b] assms(2,3) m by auto
    then show "a < b" using monthOffset_mono [of m m' y] m assms(2) by (simp add: dayFromCivil_def)
  qed
qed (simp add: monthDays_sorted)

lemma weekday_shift_inj:
  assumes "1 \<le> (a :: int)" "a \<le> 7" "1 \<le> b" "b \<le> 7" "(a - w + 7) mod 7 = (b - w + 7) mod 7" shows "a = b"
proof -
  have "((a - w + 7) - (b - w + 7)) mod 7 = 0" using assms(5) by (simp add: mod_eq_dvd_iff)
  then have "(a - b) mod 7 = 0" by (simp add: algebra_simps)
  then obtain q where "a - b = 7 * q" by (auto simp: mod_eq_0_iff_dvd dvd_def)
  with assms(1-4) show ?thesis by presburger
qed

lemma period_sorted:
  assumes ok: "ruleOk r" and s: "inWindow s"
  shows "sorted (periodDays r s k clip)" "plainDays r \<Longrightarrow> distinct (periodDays r s k clip)"
proof -
  obtain y m day where c: "civilOfDay s = (y, m, day)" by (metis prod_cases3)
  have civil: "1 \<le> m" "m \<le> 12" "1 \<le> day" using civilOfDay_ok [OF c] by (auto simp: validCivil_def)
  note unfold = periodDays_def fromDays_inYears [OF s] c option.case prod.case
  have "sorted (periodDays r s k clip) \<and> (plainDays r \<longrightarrow> distinct (periodDays r s k clip))"
  proof (cases "freq r")
    case Daily
    then show ?thesis unfolding unfold by (simp add: Let_def)
  next
    case Weekly
    define ds where "ds = (if byDay r \<noteq> [] then map weekday (byDay r) else [weekdayOf s])"
    define shift where "shift w = s - (weekdayOf s - weekStart r + 7) mod 7 + 7 * interval r * k + (w - weekStart r + 7) mod 7" for w
    have range: "1 \<le> w \<and> w \<le> 7" if "w \<in> set ds" for w
      using that ok weekdayOf_range [of s] by (auto simp: ds_def ruleOk_def dayEntryOk_def split: if_splits)
    have p: "\<exists>P. periodDays r s k clip = filter P (sort (map shift ds))"
      unfolding unfold Weekly RruleFreq.case Let_def jsSort_key [of "\<lambda>a. a"] ds_def shift_def by (rule exI, rule refl)
    have "distinct (map shift ds)" if "plainDays r"
    proof -
      have "distinct ds" using that Weekly by (simp add: plainDays_def ds_def)
      moreover have "inj_on shift (set ds)" using weekday_shift_inj range by (auto simp: inj_on_def shift_def)
      ultimately show ?thesis by (simp add: distinct_map)
    qed
    then show ?thesis using p by (auto simp: sorted_wrt_filter)
  next
    case Monthly
    have one: "length xs \<le> 1 \<Longrightarrow> sorted xs \<and> distinct xs" for xs :: "int list" by (cases xs) auto
    show ?thesis unfolding unfold Monthly
      using monthDays_sorted one [OF clipped_length] by (simp add: Let_def strict_sorted_iff)
  next
    case Yearly
    let ?months = "if byMonth r \<noteq> [] then jsSort (\<lambda>a b. a - b) (byMonth r) else if byMonthDay r \<noteq> [] then [1..12] else [m]"
    have "sorted_wrt (<) ?months"
      using ok jsSort_key [of "\<lambda>a. a" "byMonth r"] by (auto simp: sorted_strict ruleOk_def)
    then have "sorted_wrt (<) (concat (map (\<lambda>month. monthDays r (y + k * interval r) month day) ?months))"
      by (rule yearly_sorted) (use months_of_rule [OF ok civil(1,2)] civil(3) in blast)+
    then show ?thesis unfolding unfold Yearly RruleFreq.case Let_def sorted_strict by blast
  qed
  then show "sorted (periodDays r s k clip)" "plainDays r \<Longrightarrow> distinct (periodDays r s k clip)" by auto
qed


section \<open>The walk\<close>

definition seriesOk :: "Series \<Rightarrow> bool" where
  "seriesOk s \<longleftrightarrow> ruleOk (seriesRule s) \<and> inYears (startDays s)"

text \<open>The days of \<open>n\<close> periods from \<open>k\<close> on.\<close>

fun allDays :: "Series \<Rightarrow> int \<Rightarrow> nat \<Rightarrow> int list" where
  "allDays s k 0 = []"
| "allDays s k (Suc n) = seriesDays s k @ allDays s (k + 1) n"

abbreviation startOf :: "Series \<Rightarrow> int \<Rightarrow> int" where
  "startOf s k \<equiv> periodStart (seriesRule s) (startDays s) k"

lemma seriesDays_range:
  "seriesOk s \<Longrightarrow> 0 \<le> k \<Longrightarrow> d \<in> set (seriesDays s k) \<Longrightarrow> startOf s k \<le> d \<and> d < startOf s (k + 1) \<and> startDays s \<le> d"
  using period_range [OF _ inYears_window, of "seriesRule s" "startDays s" k d "seriesClip s"]
  by (simp add: seriesOk_def seriesDays_def)

lemma seriesDays_sorted:
  "seriesOk s \<Longrightarrow> sorted (seriesDays s k)" "seriesOk s \<Longrightarrow> plainDays (seriesRule s) \<Longrightarrow> distinct (seriesDays s k)"
  using period_sorted [OF _ inYears_window, of "seriesRule s" "startDays s" k "seriesClip s"]
  by (simp_all add: seriesOk_def seriesDays_def sorted_wrt_filter)

lemma startOf_mono: "seriesOk s \<Longrightarrow> j \<le> k \<Longrightarrow> startOf s j + (k - j) \<le> startOf s k"
  by (rule periodStart_mono) (simp_all add: seriesOk_def ruleOk_def)

lemma set_allDays: "d \<in> set (allDays s k n) \<longleftrightarrow> (\<exists>i < n. d \<in> set (seriesDays s (k + int i)))"
proof (induction n arbitrary: k)
  case (Suc n)
  have "(\<exists>i < Suc n. d \<in> set (seriesDays s (k + int i))) \<longleftrightarrow>
      d \<in> set (seriesDays s k) \<or> (\<exists>i < n. d \<in> set (seriesDays s (k + 1 + int i)))"
    by (auto simp: less_Suc_eq_0_disj add.assoc)
  then show ?case using Suc by simp
qed simp

lemma allDays_range:
  assumes "seriesOk s" "0 \<le> k" "d \<in> set (allDays s k n)" shows "startOf s k \<le> d \<and> d < startOf s (k + int n)"
proof -
  obtain i where i: "i < n" "d \<in> set (seriesDays s (k + int i))" using assms(3) by (auto simp: set_allDays)
  then have "startOf s (k + int i) \<le> d" "d < startOf s (k + int i + 1)" using seriesDays_range [OF assms(1), of "k + int i" d] assms(2) by auto
  then show ?thesis
    using startOf_mono [OF assms(1), of k "k + int i"] startOf_mono [OF assms(1), of "k + int i + 1" "k + int n"] i by auto
qed

lemma allDays_sorted:
  assumes "seriesOk s" "0 \<le> k"
  shows "sorted (allDays s k n)" "plainDays (seriesRule s) \<Longrightarrow> distinct (allDays s k n)"
proof -
  have "sorted (allDays s k n) \<and> (plainDays (seriesRule s) \<longrightarrow> distinct (allDays s k n))" using assms(2)
  proof (induction n arbitrary: k)
    case (Suc n)
    have "a < b" if "a \<in> set (seriesDays s k)" "b \<in> set (allDays s (k + 1) n)" for a b
      using seriesDays_range [OF assms(1) Suc.prems that(1)] allDays_range [OF assms(1) _ that(2)] Suc.prems by simp
    then show ?case using Suc seriesDays_sorted [OF assms(1), of k] by (fastforce simp: sorted_append less_imp_le)
  qed simp
  then show "sorted (allDays s k n)" "plainDays (seriesRule s) \<Longrightarrow> distinct (allDays s k n)" by auto
qed

lemma allDays_append: "allDays s k (m + n) = allDays s k m @ allDays s (k + int m) n"
  by (induction m arbitrary: k) (simp_all add: add.assoc)

lemma visitDays_append:
  "visitDays intl s visit (xs @ ys) seen st =
     (case visitDays intl s visit xs seen st of
        (st', seen', None) \<Rightarrow> visitDays intl s visit ys seen' st' | r \<Rightarrow> r)"
  by (induction xs arbitrary: seen st) (simp_all split: option.splits prod.splits)

text \<open>The last \<open>SEARCH_LIMIT\<close> of \<open>n\<close> periods from \<open>k\<close> on selected nothing.\<close>

definition barren :: "Series \<Rightarrow> int \<Rightarrow> nat \<Rightarrow> nat \<Rightarrow> bool" where
  "barren s k n gap \<longleftrightarrow> allDays s k n = [] \<and> gap + n = SEARCH_LIMIT \<or>
     (\<exists>m. m + SEARCH_LIMIT = n \<and> allDays s (k + int m) SEARCH_LIMIT = [])"

definition runOf :: "Intl \<Rightarrow> Series \<Rightarrow> 's visitor \<Rightarrow> int \<Rightarrow> int \<Rightarrow> nat \<Rightarrow> 's \<Rightarrow> nat \<Rightarrow> ('s \<times> WalkStatus) \<Rightarrow> bool" where
  "runOf intl s visit k seen gap st n r \<longleftrightarrow>
     (case visitDays intl s visit (allDays s k n) seen st of
        (st', _, Some e) \<Rightarrow> r = (st', e)
      | (st', _, None) \<Rightarrow> r = (st', LimitReached) \<and> barren s k n gap)"

definition walkMeasure :: "Series \<Rightarrow> int \<Rightarrow> nat \<Rightarrow> nat" where
  "walkMeasure s k gap = nat (LAST_DAY + 1 - startOf s k) * (SEARCH_LIMIT + 1) + (SEARCH_LIMIT - gap)"

lemma walkMeasure_step:
  assumes ok: "seriesOk s" and k: "0 \<le> k" and gap: "gap < SEARCH_LIMIT"
    and dated: "seriesDays s k \<noteq> [] \<Longrightarrow> hd (seriesDays s k) \<le> LAST_DAY"
  shows "walkMeasure s (k + 1) (if seriesDays s k = [] then gap + 1 else 0) < walkMeasure s k gap"
proof -
  let ?m = "\<lambda>k. nat (LAST_DAY + 1 - startOf s k)"
  have up: "startOf s k + 1 \<le> startOf s (k + 1)" using startOf_mono [OF ok, of k "k + 1"] by simp
  show ?thesis
  proof (cases "seriesDays s k = []")
    case True
    have "?m (k + 1) * (SEARCH_LIMIT + 1) \<le> ?m k * (SEARCH_LIMIT + 1)" using up by (intro mult_le_mono1) simp
    then show ?thesis unfolding walkMeasure_def using True gap by (intro add_le_less_mono) auto
  next
    case False
    have "startOf s k \<le> hd (seriesDays s k)" using seriesDays_range [OF ok k] False by simp
    then have "Suc (?m (k + 1)) \<le> ?m k" using up dated [OF False] by linarith
    then have "Suc (?m (k + 1)) * (SEARCH_LIMIT + 1) \<le> ?m k * (SEARCH_LIMIT + 1)" by (rule mult_le_mono1)
    then show ?thesis using False by (simp add: walkMeasure_def)
  qed
qed

lemma barren_Suc:
  assumes "barren s (k + 1) n (if seriesDays s k = [] then gap + 1 else 0)" shows "barren s k (Suc n) gap"
proof (cases "allDays s (k + 1) n = [] \<and> (if seriesDays s k = [] then gap + 1 else 0) + n = SEARCH_LIMIT")
  case True
  show ?thesis
  proof (cases "seriesDays s k = []")
    case False
    then have "allDays s (k + int 1) SEARCH_LIMIT = []" "1 + SEARCH_LIMIT = Suc n" using True by auto
    then show ?thesis unfolding barren_def by blast
  qed (use True in \<open>simp add: barren_def\<close>)
next
  case False
  then obtain m where "m + SEARCH_LIMIT = n" "allDays s (k + 1 + int m) SEARCH_LIMIT = []" using assms unfolding barren_def by blast
  then have "Suc m + SEARCH_LIMIT = Suc n" "allDays s (k + int (Suc m)) SEARCH_LIMIT = []" by (simp_all add: add.assoc)
  then show ?thesis unfolding barren_def by blast
qed

lemma walk_run:
  assumes ok: "seriesOk s" and k: "0 \<le> k" and gap: "gap \<le> SEARCH_LIMIT"
  shows "\<exists>r n. walkLoop intl s visit k seen gap st = Some r \<and> runOf intl s visit k seen gap st n r"
  using k gap
proof (induction "walkMeasure s k gap" arbitrary: k seen gap st rule: less_induct)
  case less
  note step = walkLoop.simps [of intl s visit k seen gap st]
  obtain st' seen' status where v: "visitDays intl s visit (seriesDays s k) seen st = (st', seen', status)" by (metis prod_cases3)
  consider "gap = SEARCH_LIMIT" | x where "gap < SEARCH_LIMIT" "status = Some x" | "gap < SEARCH_LIMIT" "status = None"
    by (metis le_neq_implies_less less.prems(2) not_None_eq)
  then show ?case
  proof cases
    case 1
    then have "runOf intl s visit k seen gap st 0 (st, LimitReached)" by (simp add: runOf_def barren_def)
    with 1 step show ?thesis by auto
  next
    case 2
    then have "runOf intl s visit k seen gap st 1 (st', x)" using v by (simp add: runOf_def)
    moreover have "walkLoop intl s visit k seen gap st = Some (st', x)" using step 2 v by simp
    ultimately show ?thesis by blast
  next
    case 3
    let ?gap = "if seriesDays s k = [] then gap + 1 else 0"
    have "hd (seriesDays s k) \<le> LAST_DAY" if "seriesDays s k \<noteq> []"
      using v 3 that by (cases "seriesDays s k") (auto simp: isoDate_dayText inYears_def split: option.splits if_splits)
    then have smaller: "walkMeasure s (k + 1) ?gap < walkMeasure s k gap" by (rule walkMeasure_step [OF ok less.prems(1) 3(1)])
    have "0 \<le> k + 1" "?gap \<le> SEARCH_LIMIT" using less.prems(1) 3(1) by auto
    from less.hyps [OF smaller this, of seen' st'] obtain r n where
      r: "walkLoop intl s visit (k + 1) seen' ?gap st' = Some r" "runOf intl s visit (k + 1) seen' ?gap st' n r" by blast
    have "walkLoop intl s visit k seen gap st = Some r" using step v 3 r(1) by simp
    moreover have "runOf intl s visit k seen gap st (Suc n) r"
      using r(2) v 3 barren_Suc [of s k n gap] by (auto simp: runOf_def visitDays_append split: option.splits prod.splits)
    ultimately show ?thesis by blast
  qed
qed


section \<open>The days of a series\<close>

definition occursOn :: "Series \<Rightarrow> int \<Rightarrow> bool" where
  "occursOn s d \<longleftrightarrow> (\<exists>i. d \<in> set (seriesDays s (int i)))"

text \<open>The days of the series: those the rule selects up to the year 9999, \<open>UNTIL\<close> and \<open>COUNT\<close>.\<close>

definition selects :: "Intl \<Rightarrow> Series \<Rightarrow> int \<Rightarrow> bool" where
  "selects intl s d \<longleftrightarrow> occursOn s d \<and> inYears d \<and> withinUntil intl s (dayText d) d \<and>
     (case ruleCount (seriesRule s) of None \<Rightarrow> True | Some n \<Rightarrow> int (card {e. occursOn s e \<and> e < d}) < n)"

definition admitted :: "Intl \<Rightarrow> Series \<Rightarrow> int \<Rightarrow> int \<Rightarrow> bool" where
  "admitted intl s d seen \<longleftrightarrow> inYears d \<and> withinUntil intl s (dayText d) d \<and>
     (case ruleCount (seriesRule s) of None \<Rightarrow> True | Some n \<Rightarrow> seen + 1 \<le> n)"

text \<open>The walk ends where it admits a day no more, if \<open>UNTIL\<close> closes the series for good.\<close>

definition untilCloses :: "Intl \<Rightarrow> Series \<Rightarrow> bool" where
  "untilCloses intl s \<longleftrightarrow> (\<forall>d e. inYears d \<and> inYears e \<and> d \<le> e \<and> withinUntil intl s (dayText e) e \<longrightarrow> withinUntil intl s (dayText d) d)"

lemma visitDays_Cons:
  "visitDays intl s visit (d # ds) seen st =
     (if \<not> inYears d then (st, seen, Some Ended)
      else if \<not> admitted intl s d seen then (st, seen + 1, Some Ended)
      else case visit st (dayText d) d of
        (st', stop) \<Rightarrow> if stop then (st', seen + 1, Some Found) else visitDays intl s visit ds (seen + 1) st')"
  by (auto simp: isoDate_dayText admitted_def split: option.splits)

definition firstAt :: "int list \<Rightarrow> int \<Rightarrow> (int \<Rightarrow> bool) \<Rightarrow> (int \<Rightarrow> int \<Rightarrow> bool) \<Rightarrow> bool" where
  "firstAt xs seen P Q \<longleftrightarrow> (\<exists>ys d zs. xs = ys @ d # zs \<and> (\<forall>y \<in> set ys. \<not> P y) \<and> Q d (seen + int (length ys)))"

lemma firstAt_here: "Q x seen \<Longrightarrow> firstAt (x # xs) seen P Q"
  unfolding firstAt_def by (rule exI [of _ "[]"]) simp

lemma firstAt_later: "\<not> P x \<Longrightarrow> firstAt xs (seen + 1) P Q \<Longrightarrow> firstAt (x # xs) seen P Q"
proof -
  assume x: "\<not> P x" and "firstAt xs (seen + 1) P Q"
  then obtain ys d zs where "xs = ys @ d # zs" "\<forall>y \<in> set ys. \<not> P y" "Q d (seen + 1 + int (length ys))"
    by (auto simp: firstAt_def)
  with x show ?thesis unfolding firstAt_def
    by (intro exI [of _ "x # ys"] exI [of _ d] exI [of _ zs]) (simp add: algebra_simps)
qed

lemma visit_first:
  assumes "\<And>st d. inYears d \<Longrightarrow> visit st (dayText d) d = (if P d then (Some (makeValue s (dayText d)), True) else (st, False))"
  shows "case visitDays intl s visit xs seen None of (st', _, status) \<Rightarrow>
    (case status of
       None \<Rightarrow> st' = None \<and> (\<forall>y \<in> set xs. \<not> P y)
     | Some e \<Rightarrow>
         e = Found \<and> firstAt xs seen P (\<lambda>d n. P d \<and> st' = Some (makeValue s (dayText d)) \<and> admitted intl s d n) \<or>
         e = Ended \<and> st' = None \<and> firstAt xs seen P (\<lambda>d n. \<not> admitted intl s d n))"
proof (induction xs arbitrary: seen)
  case (Cons x xs)
  show ?case
  proof (cases "admitted intl s x seen")
    case False
    then have "\<exists>c. visitDays intl s visit (x # xs) seen None = (None, c, Some Ended)" unfolding visitDays_Cons by simp
    then show ?thesis using False by (auto intro: firstAt_here)
  next
    case True
    then have x: "inYears x" by (simp add: admitted_def)
    show ?thesis
    proof (cases "P x")
      case True
      then have "\<exists>c. visitDays intl s visit (x # xs) seen None = (Some (makeValue s (dayText x)), c, Some Found)"
        using assms [OF x] \<open>admitted intl s x seen\<close> x unfolding visitDays_Cons by simp
      then show ?thesis using True \<open>admitted intl s x seen\<close> by (auto intro: firstAt_here)
    next
      case False
      then have run: "visitDays intl s visit (x # xs) seen None = visitDays intl s visit xs (seen + 1) None"
        using assms [OF x] \<open>admitted intl s x seen\<close> x unfolding visitDays_Cons by simp
      show ?thesis using Cons.IH [of "seen + 1"] False unfolding run
        by (auto intro: firstAt_later split: option.splits prod.splits)
    qed
  qed
qed simp

section \<open>The next occurrence\<close>

lemma occursOn_allDays: "occursOn s d \<longleftrightarrow> (\<exists>n. d \<in> set (allDays s 0 n))"
  unfolding occursOn_def set_allDays by auto

text \<open>The days before one that is on the list are the earlier ones of the series.\<close>

lemma days_before:
  assumes ok: "seriesOk s" and plain: "plainDays (seriesRule s)" and split: "allDays s 0 n = ys @ d # zs"
  shows "{e. occursOn s e \<and> e < d} = set ys" "card (set ys) = length ys"
proof -
  have sorted: "sorted (ys @ d # zs)" "distinct (ys @ d # zs)"
    using allDays_sorted [OF ok, of 0 n] plain unfolding split by auto
  show "card (set ys) = length ys" using sorted(2) by (simp add: distinct_card)
  have d: "d < startOf s (int n)" using allDays_range [OF ok, of 0 d n] unfolding split by simp
  show "{e. occursOn s e \<and> e < d} = set ys"
  proof (intro equalityI subsetI)
    fix e assume "e \<in> {e. occursOn s e \<and> e < d}"
    then obtain i where i: "e \<in> set (seriesDays s (int i))" "e < d" by (auto simp: occursOn_def)
    have "i < n"
    proof (rule ccontr)
      assume "\<not> i < n"
      then have "startOf s (int n) \<le> startOf s (int i)" using startOf_mono [OF ok, of "int n" "int i"] by simp
      then show False using seriesDays_range [OF ok _ i(1)] i(2) d by simp
    qed
    then have "e \<in> set (allDays s 0 n)" using i(1) by (auto simp: set_allDays)
    then show "e \<in> set ys" using i(2) sorted(1) by (auto simp: split sorted_append)
  next
    fix e assume e: "e \<in> set ys"
    then have "occursOn s e" unfolding occursOn_allDays using split by (metis Un_iff set_append)
    moreover have "e \<le> d" "e \<noteq> d" using e sorted by (auto simp: sorted_append)
    ultimately show "e \<in> {e. occursOn s e \<and> e < d}" by simp
  qed
qed


definition countedOnce :: "Rrule \<Rightarrow> bool" where
  "countedOnce r \<longleftrightarrow> ruleCount r = None \<or> plainDays r"

definition walkFrom :: "Series \<Rightarrow> int \<Rightarrow> int" where
  "walkFrom s ref = (if ruleCount (seriesRule s) = None then firstPeriod (seriesRule s) (startDays s) ref else 0)"

lemma walkFrom_skips:
  assumes ok: "seriesOk s" and ref: "inWindow ref \<or> ref \<le> startDays s"
  shows "0 \<le> walkFrom s ref"
    and "occursOn s e \<Longrightarrow> ref \<le> e \<Longrightarrow> e \<in> set (allDays s (walkFrom s ref) n) \<or> startOf s (walkFrom s ref + int n) \<le> e"
proof -
  have f: "0 \<le> walkFrom s ref" "0 < walkFrom s ref \<Longrightarrow> startOf s (walkFrom s ref) \<le> ref"
    using firstPeriod_range [OF _ inYears_window ref] ok by (auto simp: seriesOk_def walkFrom_def)
  show "0 \<le> walkFrom s ref" by (rule f(1))
  assume "occursOn s e" "ref \<le> e"
  then obtain i where i: "e \<in> set (seriesDays s (int i))" by (auto simp: occursOn_def)
  have range: "startOf s (int i) \<le> e" "e < startOf s (int i + 1)" using seriesDays_range [OF ok _ i] by auto
  have "walkFrom s ref \<le> int i"
  proof (rule ccontr)
    assume "\<not> walkFrom s ref \<le> int i"
    then have "startOf s (int i + 1) \<le> ref" using startOf_mono [OF ok, of "int i + 1" "walkFrom s ref"] f(2) by simp
    with range \<open>ref \<le> e\<close> show False by simp
  qed
  then obtain j where j: "int i = walkFrom s ref + int j" by (metis zle_iff_zadd)
  show "e \<in> set (allDays s (walkFrom s ref) n) \<or> startOf s (walkFrom s ref + int n) \<le> e"
  proof (cases "j < n")
    case True
    then show ?thesis using i j by (auto simp: set_allDays)
  next
    case False
    then have "startOf s (walkFrom s ref + int n) \<le> startOf s (int i)" using startOf_mono [OF ok, of "walkFrom s ref + int n" "int i"] j by simp
    with range show ?thesis by simp
  qed
qed

lemma occursOn_start: "seriesOk s \<Longrightarrow> occursOn s e \<Longrightarrow> startDays s \<le> e"
  unfolding occursOn_def using seriesDays_range [of s "int i" e for i] by auto

lemma finite_before: "seriesOk s \<Longrightarrow> finite {e. occursOn s e \<and> e < d}"
  by (rule finite_subset [of _ "{startDays s..<d}"]) (auto dest: occursOn_start)

lemma walked_occurs:
  assumes "seriesOk s" "inWindow ref \<or> ref \<le> startDays s" "d \<in> set (allDays s (walkFrom s ref) n)" shows "occursOn s d"
proof -
  obtain i where i: "d \<in> set (seriesDays s (walkFrom s ref + int i))" using assms(3) by (auto simp: set_allDays)
  obtain j where "walkFrom s ref = int j" using walkFrom_skips(1) [OF assms(1,2)] by (metis zero_le_imp_eq_int)
  with i have "d \<in> set (seriesDays s (int (j + i)))" by simp
  then show ?thesis unfolding occursOn_def by blast
qed

text \<open>Past a day that is not admitted the series has no day.\<close>

lemma selects_admitted:
  assumes ok: "seriesOk s" and c: "countedOnce (seriesRule s)" and close: "untilCloses intl s"
    and ref: "inWindow ref \<or> ref \<le> startDays s"
    and split: "allDays s (walkFrom s ref) n = ys @ d # zs" and e: "selects intl s e" "d \<le> e"
  shows "admitted intl s d (int (length ys))"
proof -
  have d: "occursOn s d" by (rule walked_occurs [OF ok ref, of d n]) (simp add: split)
  have e': "inYears e" "withinUntil intl s (dayText e) e" using e(1) by (auto simp: selects_def)
  have in_years: "inYears d" using occursOn_start [OF ok d] ok e' e(2) by (auto simp: inYears_def seriesOk_def)
  then have "withinUntil intl s (dayText d) d" using close e' e(2) unfolding untilCloses_def by blast
  moreover have "int (length ys) + 1 \<le> m" if m: "ruleCount (seriesRule s) = Some m" for m
  proof -
    have zero: "walkFrom s ref = 0" using m by (simp add: walkFrom_def)
    have plain: "plainDays (seriesRule s)" using c m by (simp add: countedOnce_def)
    have "card {x. occursOn s x \<and> x < d} \<le> card {x. occursOn s x \<and> x < e}"
      by (rule card_mono [OF finite_before [OF ok]]) (use e(2) in auto)
    moreover have "int (card {x. occursOn s x \<and> x < e}) < m" using e(1) m by (simp add: selects_def)
    ultimately show ?thesis using days_before [OF ok plain split [unfolded zero]] by simp
  qed
  ultimately show ?thesis using in_years by (simp add: admitted_def split: option.split)
qed

lemma admitted_selects:
  assumes ok: "seriesOk s" and c: "countedOnce (seriesRule s)" and ref: "inWindow ref \<or> ref \<le> startDays s"
    and split: "allDays s (walkFrom s ref) n = ys @ d # zs" and a: "admitted intl s d (int (length ys))"
  shows "selects intl s d"
proof -
  have d: "occursOn s d" by (rule walked_occurs [OF ok ref, of d n]) (simp add: split)
  have "int (card {e. occursOn s e \<and> e < d}) < m" if m: "ruleCount (seriesRule s) = Some m" for m
  proof -
    have zero: "walkFrom s ref = 0" using m by (simp add: walkFrom_def)
    have plain: "plainDays (seriesRule s)" using c m by (simp add: countedOnce_def)
    show ?thesis using days_before [OF ok plain split [unfolded zero]] a m by (simp add: admitted_def)
  qed
  then show ?thesis using d a by (simp add: selects_def admitted_def split: option.splits)
qed

text \<open>What a search for the first day with a property finds.\<close>

definition firstSelected :: "Intl \<Rightarrow> Series \<Rightarrow> (int \<Rightarrow> bool) \<Rightarrow> IcalDateValue option \<times> WalkStatus \<Rightarrow> bool" where
  "firstSelected intl s P r \<longleftrightarrow>
     (case r of (found, status) \<Rightarrow>
        (case status of
           Found \<Rightarrow> \<exists>d. found = Some (makeValue s (dayText d)) \<and> selects intl s d \<and> P d \<and> (\<forall>e. selects intl s e \<and> P e \<longrightarrow> d \<le> e)
         | Ended \<Rightarrow> found = None \<and> (\<forall>e. selects intl s e \<longrightarrow> \<not> P e)
         | LimitReached \<Rightarrow> \<exists>k \<ge> 0. allDays s k SEARCH_LIMIT = [] \<and> (\<forall>e. selects intl s e \<and> P e \<longrightarrow> startOf s (k + int SEARCH_LIMIT) \<le> e)))"

lemma search_first:
  assumes ok: "seriesOk s" and c: "countedOnce (seriesRule s)" and close: "untilCloses intl s"
    and ref: "inWindow ref \<or> ref \<le> startDays s"
    and P: "\<And>d. occursOn s d \<Longrightarrow> P d \<Longrightarrow> ref \<le> d"
    and visit: "\<And>st d. inYears d \<Longrightarrow> visit st (dayText d) d = (if ref \<le> d \<and> P d then (Some (makeValue s (dayText d)), True) else (st, False))"
  shows "\<exists>r. walk intl s ref visit None = Some r \<and> firstSelected intl s P r"
proof -
  let ?k = "walkFrom s ref"
  note k = walkFrom_skips(1) [OF ok ref]
  obtain r n where r: "walk intl s ref visit None = Some r" "runOf intl s visit ?k 0 0 None n r"
    using walk_run [OF ok k le0, of intl visit 0 None] unfolding walk_def walkFrom_def by blast
  obtain found count status where v: "visitDays intl s visit (allDays s ?k n) 0 None = (found, count, status)" by (metis prod_cases3)
  note first = visit_first [where P = "\<lambda>d. ref \<le> d \<and> P d" and s = s and intl = intl and visit = visit and xs = "allDays s ?k n" and seen = 0, OF visit, unfolded v prod.case]
  have ordered: "d \<le> e" if split: "allDays s ?k n = ys @ d # zs" and e: "selects intl s e" "P e"
      and none: "\<forall>y \<in> set ys. \<not> (ref \<le> y \<and> P y)" for ys d zs e
  proof -
    have "occursOn s e" "ref \<le> e" using e P by (auto simp: selects_def)
    from walkFrom_skips(2) [OF ok ref this, of n] show ?thesis
    proof
      assume "e \<in> set (allDays s ?k n)"
      then have "e \<in> set (d # zs)" using none e(2) \<open>ref \<le> e\<close> by (auto simp: split)
      then show ?thesis using allDays_sorted(1) [OF ok k, of n] by (auto simp: split sorted_append)
    next
      assume "startOf s (?k + int n) \<le> e"
      then show ?thesis using allDays_range [OF ok k, of d n] by (simp add: split)
    qed
  qed
  have "firstSelected intl s P r"
  proof (cases status)
    case (Some x)
    then have rx: "r = (found, x)" using r(2) v by (simp add: runOf_def)
    show ?thesis
    proof (cases "x = Found")
      case True
      then obtain ys d zs where "allDays s ?k n = ys @ d # zs" "\<forall>y \<in> set ys. \<not> (ref \<le> y \<and> P y)" "P d"
        "found = Some (makeValue s (dayText d))" "admitted intl s d (int (length ys))"
        using first Some by (auto simp: firstAt_def)
      then show ?thesis using True admitted_selects [OF ok c ref] ordered by (auto simp: firstSelected_def rx)
    next
      case False
      then obtain ys d zs where d: "allDays s ?k n = ys @ d # zs" "\<forall>y \<in> set ys. \<not> (ref \<le> y \<and> P y)"
        and x: "x = Ended" "found = None" and "\<not> admitted intl s d (int (length ys))"
        using first Some by (auto simp: firstAt_def)
      then have "\<not> P e" if "selects intl s e" for e
        using selects_admitted [OF ok c close ref d(1) that] ordered [OF d(1) that _ d(2)] by blast
      then show ?thesis using x by (simp add: firstSelected_def rx)
    qed
  next
    case None
    then have none: "\<forall>y \<in> set (allDays s ?k n). \<not> (ref \<le> y \<and> P y)" and rx: "r = (None, LimitReached)" "barren s ?k n 0"
      using first r(2) v by (auto simp: runOf_def)
    obtain m where m: "m + SEARCH_LIMIT = n" "allDays s (?k + int m) SEARCH_LIMIT = []"
    proof (cases "allDays s ?k n = [] \<and> n = SEARCH_LIMIT")
      case True
      then show ?thesis using that [of 0] by auto
    next
      case False
      then show ?thesis using rx(2) that by (auto simp: barren_def)
    qed
    have "startOf s (?k + int m + int SEARCH_LIMIT) \<le> e" if "selects intl s e" "P e" for e
    proof -
      have "occursOn s e" "ref \<le> e" using that P by (auto simp: selects_def)
      from walkFrom_skips(2) [OF ok ref this, of n] none that(2) \<open>ref \<le> e\<close> show ?thesis by (auto simp: m(1) [symmetric] add.assoc)
    qed
    then show ?thesis using m(2) k by (auto simp: firstSelected_def rx intro!: exI [of _ "?k + int m"])
  qed
  with r(1) show ?thesis by blast
qed


section \<open>Series of dates\<close>

lemma opened:
  assumes "openSeries intl r options = Inr s" "ruleOk r"
  shows "seriesOk s" "seriesRule s = r" "seriesStart s = optStart options" "startShape (optStart options)"
    "valueDate (optStart options) = dayText (startDays s)"
proof -
  obtain n name where n: "dayNumber (valueDate (optStart options)) = Some n" "isoDate n \<noteq> None"
    and s: "seriesRule s = r" "seriesStart s = optStart options" "startDays s = n" and shape: "startShape (optStart options)"
    using assms(1) by (auto simp: openSeries_def Let_def split: if_splits option.splits)
  have "inYears n" using n(2) by (auto simp: isoDate_dayText split: if_splits)
  then show "seriesOk s" using s assms(2) by (simp add: seriesOk_def)
  show "seriesRule s = r" "seriesStart s = optStart options" "startShape (optStart options)" by (fact s shape)+
  obtain ms where ms: "parseIsoDate (valueDate (optStart options)) = Inr ms" "n = ms div MS_PER_DAY"
    using n(1) by (auto simp: dayNumber_def split: sum.splits)
  from parse_day [OF ms(1)] show "valueDate (optStart options) = dayText (startDays s)"
    using ms(2) s(3) by (metis MS_PER_DAY_def nonzero_mult_div_cancel_left zero_neq_numeral)
qed

lemma dayNumber_Some: "dayNumber date = Some a \<Longrightarrow> date = dayText a \<and> inWindow a"
  unfolding dayNumber_def
  by (auto split: sum.splits elim!: parse_day simp: MS_PER_DAY_def)

text \<open>For dates, an \<open>UNTIL\<close> that is a date or a floating time is a last day.\<close>

lemma date_untilCloses:
  assumes "ruleOk (seriesRule s)" "dateOnly (seriesStart s)" "startShape (seriesStart s)"
    "map_option valueKind (ruleUntil (seriesRule s)) \<noteq> Some UtcKind"
  shows "untilCloses intl s"
proof (cases "ruleUntil (seriesRule s)")
  case (Some v)
  then have v: "untilOk v" "valueKind v \<noteq> UtcKind" using assms(1,4) by (auto simp: ruleOk_def)
  then obtain y m d where "realDate y m d" "valueDate v = dateText y m d" by (auto simp: untilOk_def)
  then have n: "valueDate v = dayText (dayFromCivil y m d)" "inWindow (dayFromCivil y m d)"
    using dayText_civil inWindow_civil by (auto simp: realDate_def)
  define n where "n = dayFromCivil y m d"
  define tail where "tail = strLess (''T'' @ orElse (valueTime v) ''23:59:59'') (''T'' @ orElse (valueTime (seriesStart s)) ''00:00:00'')"
  have "withinUntil intl s (dayText d) d \<longleftrightarrow> \<not> (n < d \<or> n = d \<and> tail)" if "inYears d" for d
  proof -
    have w: "inWindow d" "inWindow n" using that inYears_window n(2) by (auto simp: n_def)
    have len: "length (dayText n) = length (dayText d)"
      using window_date [OF w(1)] window_date [OF w(2)] realDate_facts(3) by metis
    show ?thesis using v(2) strLess_append [OF len] strLess_dayText [OF w(2,1)] dayText_inj [OF w(2,1)]
      by (simp add: withinUntil_def Some n(1) n_def [symmetric] tail_def)
  qed
  then show ?thesis unfolding untilCloses_def by force
qed (simp add: untilCloses_def withinUntil_def)

text \<open>
  C36: The next occurrence of an all-day task is the first day after the moment. Take a rule whose \<open>UNTIL\<close>, if it
  has one, is not in UTC, and which lists no weekday twice if it has a \<open>COUNT\<close> (\<open>countedOnce\<close>); a task that
  starts on a plain date, without a time of day, and that \<open>openSeries\<close> accepts; and a moment whose date in the
  zone lies in the years 1 to 9999. Then \<open>nextOccurrence\<close> returns. An occurrence it answers is the first day of
  the series after the date of the moment; it answers \<open>null\<close> only when the series has no later day; and it
  fails only with the search limit, only when a hundred thousand periods in a row select nothing and no day
  of the series after the moment comes before their end. Skipping ahead loses nothing. Nothing is said of
  starts with a time of day, whose next occurrence may be later on the same date.
\<close>
theorem next_occurrence_first:
  assumes rule: "ruleOk r" "countedOnce r" and started: "openSeries intl r options = Inr s" "dateOnly (optStart options)"
    and until: "map_option valueKind (ruleUntil r) \<noteq> Some UtcKind"
    and after: "isoDateInTz intl (Some t) (zoneText s) = Inr afterDate" "dayNumber afterDate = Some a"
  shows "\<exists>res. nextOccurrence intl r options (Some t) = Some (Inr res) \<and>
    (case res of
       Inr (Some v) \<Rightarrow> \<exists>d. v = makeValue s (dayText d) \<and> selects intl s d \<and> a < d \<and> (\<forall>e. selects intl s e \<and> a < e \<longrightarrow> d \<le> e)
     | Inr None \<Rightarrow> \<forall>e. selects intl s e \<longrightarrow> e \<le> a
     | Inl e \<Rightarrow> rruleCode e = SearchLimit \<and> (\<exists>k \<ge> 0. allDays s k SEARCH_LIMIT = [] \<and>
         (\<forall>e. selects intl s e \<and> a < e \<longrightarrow> startOf s (k + int SEARCH_LIMIT) \<le> e)))"
proof -
  note o = opened [OF started(1) rule(1)]
  have a: "afterDate = dayText a" "inWindow a" using dayNumber_Some [OF after(2)] by auto
  have close: "untilCloses intl s" by (rule date_untilCloses) (use o rule(1) started(2) until in simp_all)
  have ref: "inWindow (a - 2) \<or> a - 2 \<le> startDays s" using a(2) o(1) by (auto simp: inWindow_def seriesOk_def inYears_def FIRST_DAY_def)
  have visit: "nextVisit intl s (a - 2) afterDate t st (dayText d) d =
      (if a - 2 \<le> d \<and> a < d then (Some (makeValue s (dayText d)), True) else (st, False))" if "inYears d" for st d
    using strLess_dayText [OF a(2) inYears_window [OF that]] started(2) by (simp add: nextVisit_def a(1) o(3))
  obtain found status where r: "walk intl s (a - 2) (nextVisit intl s (a - 2) afterDate t) None = Some (found, status)"
    "firstSelected intl s (\<lambda>d. a < d) (found, status)"
    using search_first [OF o(1) _ close ref, of "\<lambda>d. a < d" "nextVisit intl s (a - 2) afterDate t", OF _ _ visit] rule(2) o(2) by auto
  have "nextOccurrence intl r options (Some t) = Some (Inr (if status = LimitReached then searchLimit else Inr found))"
    by (simp add: nextOccurrence_def started(1) after r(1))
  then show ?thesis using r(2)
    by (cases status) (auto simp: firstSelected_def searchLimit_def rruleFail_def not_less)
qed


section \<open>Occurrences in a range\<close>







lemma filter_range: "\<forall>y \<in> set ys. y \<le> (g :: int) \<Longrightarrow> filter (\<lambda>d. f \<le> d) ys = filter (\<lambda>d. f \<le> d \<and> d \<le> g) ys"
  by (rule filter_cong) auto






section \<open>A range that ends after the year 9999\<close>

lemma visit_unchanged:
  "(\<And>d. d \<in> set xs \<Longrightarrow> inYears d \<Longrightarrow> fst (visit st (dayText d) d) = st) \<Longrightarrow> fst (visitDays intl s visit xs seen st) = st"
proof (induction xs arbitrary: seen)
  case (Cons x xs)
  show ?case
  proof (cases "admitted intl s x seen")
    case True
    then have x: "inYears x" by (simp add: admitted_def)
    obtain stop where "visit st (dayText x) x = (st, stop)" using Cons.prems [of x] x by (cases "visit st (dayText x) x") auto
    then show ?thesis using Cons True x unfolding visitDays_Cons by simp
  qed (simp add: visitDays_Cons del: visitDays.simps)
qed simp

lemma after_five_digits:
  assumes "inYears d" "dayFromCivil 2000 1 1 \<le> d" shows "strLess (''1'' @ rest) (dayText d)"
proof -
  obtain y m day where c: "realDate y m day" "dayFromCivil y m day = d" "dayText d = dateText y m day"
    using window_date [OF inYears_window [OF assms(1)]] by metis
  have "validCivil 2000 1 1" by code_simp
  then have "2000 \<le> y" using dayFromCivil_less [of y m day 2000 1 1] c assms(2) by (auto simp: realDate_def)
  moreover have "0 \<le> y" "y \<le> 9999" using c(1) by (simp_all add: realDate_def)
  then obtain a b e f where t: "paddedYear y = [a, b, e, f]" "isDigit a" "isDigit b" "isDigit e" "isDigit f" "readNat [a, b, e, f] = nat y"
    by (rule year_text)
  moreover have "readNat [b, e, f] < 10 ^ length [b, e, f]" by (rule readNat_bound) (use t in simp)
  ultimately have "2 \<le> digitVal a" by (auto simp: readNat_Cons [of a])
  then have "code (CHR ''1'') < code a" by (simp add: digitVal_def code_def)
  then show ?thesis by (simp add: c(3) dateText_def t(1))
qed

text \<open>
  A range to a moment of the years 10000 to 19999 comes back empty for an all-day task of this age. Take a
  task that starts on a plain date in the year 2000 or later, and a range whose last date has no day number
  and a text that begins with the digit 1, as the five-digit years 10000 to 19999 have. That text compares below
  every date from the year 2000 on, so \<open>occurrencesBetween\<close> lists nothing (or fails with the search limit),
  although it means to read such an end as 31 December 9999. An end whose text begins with a digit above 1 is
  not covered: it compares above the dates that begin with a lower digit.
\<close>
theorem occurrences_far_end_empty:
  assumes rule: "ruleOk r" and started: "openSeries intl r options = Inr s" "dateOnly (optStart options)"
    and range: "isoDateInTz intl (Some ft) (zoneText s) = Inr fromDate" "dayNumber fromDate = Some f"
      "isoDateInTz intl (Some gt) (zoneText s) = Inr toDate" "dayNumber toDate = None" "ft \<le> gt"
    and digits: "toDate = CHR ''1'' # rest" and recent: "dayFromCivil 2000 1 1 \<le> startDays s" and limit: "1 \<le> m"
  shows "\<exists>res. occurrencesBetween intl r options (Some ft) (Some gt) (Some (js_int m)) = Some (Inr res) \<and>
    (case res of Inr vs \<Rightarrow> vs = [] | Inl e \<Rightarrow> rruleCode e = SearchLimit)"
proof -
  note o = opened [OF started(1) rule]
  let ?visit = "rangeVisit intl s f LAST_DAY fromDate toDate ft gt m"
  have dateStart: "dateOnly (seriesStart s)" using started(2) o(3) by simp
  have f: "inWindow f" using dayNumber_Some [OF range(2)] by simp
  then have ref: "inWindow (f - 2) \<or> f - 2 \<le> startDays s" using o(1) by (auto simp: inWindow_def seriesOk_def inYears_def FIRST_DAY_def)
  obtain st status n where w: "walk intl s (f - 2) ?visit ([], False) = Some (st, status)"
    "runOf intl s ?visit (walkFrom s (f - 2)) 0 0 ([], False) n (st, status)"
    using walk_run [OF o(1) walkFrom_skips(1) [OF o(1) ref] le0, of intl ?visit 0 "([], False)"]
    unfolding walk_def walkFrom_def by auto
  have "startDays s \<le> d" if "d \<in> set (allDays s (walkFrom s (f - 2)) n)" for d
    using occursOn_start [OF o(1) walked_occurs [OF o(1) ref that]] .
  then have "fst (visitDays intl s ?visit (allDays s (walkFrom s (f - 2)) n) 0 ([], False)) = ([], False)"
    using recent after_five_digits [of _ rest] by (intro visit_unchanged) (force simp: rangeVisit_def Let_def dateStart digits)
  then have "st = ([], False)" using w(2) by (auto simp: runOf_def split: prod.splits option.splits)
  then show ?thesis using limit range(5) w(1)
    by (simp add: occurrencesBetween_def started(1) range(1-4) Let_def searchLimit_def rruleFail_def)
qed

section \<open>A weekly task\<close>

definition weeklyRule :: Rrule where
  "weeklyRule = \<lparr>freq = Weekly, interval = 1, byDay = [\<lparr>weekday = 1, ordinal = None\<rparr>], byMonthDay = [], byMonth = [],
     ruleCount = None, ruleUntil = None, weekStart = 1\<rparr>"

definition mondayTask :: SeriesOptions where
  "mondayTask = \<lparr>optStart = \<lparr>valueKind = DateKind, valueDate = dayText 20458, valueTime = None, valueTzid = None\<rparr>,
     optTimeZone = None, optMonthEnd = None\<rparr>"

abbreviation "utcIntl \<equiv> zoneIntl ''UTC'' (\<lambda>_. 0)"

lemma utc_keeps: "keepsTime utcIntl ''UTC'' (\<lambda>_. 0)"
  by (rule zoneIntl_keeps) (simp add: MS_PER_DAY_def)

lemma weeklyRule_ok: "ruleOk weeklyRule" "plainDays weeklyRule" "countedOnce weeklyRule" "ruleUntil weeklyRule = None"
  by (simp_all add: ruleOk_def weeklyRule_def MAX_INTERVAL_def dayEntryOk_def combinationOk_def plainDays_def countedOnce_def)

definition mondaySeries :: Series where
  "mondaySeries = \<lparr>seriesRule = weeklyRule, seriesStart = optStart mondayTask, seriesZone = u ''UTC'', zoneText = ''UTC'',
     startDays = 20458, seriesClip = True\<rparr>"

lemma zoneName_u: "zoneName (u s) = Some s"
proof -
  have "list_all (\<lambda>c. c < 256) (u s)" by (simp add: u_def code_def list_all_iff)
  then show ?thesis by (simp add: zoneName_def u_def code_def comp_def)
qed

lemma mondaySeries_opens: "openSeries utcIntl weeklyRule mondayTask = Inr mondaySeries" "dateOnly (optStart mondayTask)"
proof -
  have "knownZone utcIntl (u ''UTC'') = Some ''UTC''"
    unfolding knownZone_def zoneName_u by (simp add: isValidTimeZone_def zoneIntl_def)
  moreover have w: "inWindow 20458" "inYears 20458" by (simp_all add: inWindow_def inYears_def FIRST_DAY_def LAST_DAY_def)
  moreover have "isoDatePattern (dayText 20458)" by code_simp
  ultimately show "openSeries utcIntl weeklyRule mondayTask = Inr mondaySeries" "dateOnly (optStart mondayTask)"
    using dayNumber_dayText [OF w(1)]
    by (simp_all add: openSeries_def mondayTask_def startShape_def dateOnly_def Let_def isoDate_dayText mondaySeries_def)
qed

lemma utc_date: "localYear t = 2026 \<Longrightarrow> isoDateInTz utcIntl (Some t) ''UTC'' = Inr (wallDate t)"
  using zone_readings(1) [OF utc_keeps, of t] by simp

lemma sampleDates:
  "isoDateInTz utcIntl (Some 1767916800000) (zoneText mondaySeries) = Inr (dayText 20462)"
  "isoDateInTz utcIntl (Some 1769904000000) (zoneText mondaySeries) = Inr (dayText 20485)"
  "dayNumber (dayText 20462) = Some 20462" "dayNumber (dayText 20485) = Some 20485"
proof -
  have "localYear 1767916800000 = 2026" "localYear 1769904000000 = 2026"
    "wallDate 1767916800000 = dayText 20462" "wallDate 1769904000000 = dayText 20485" by code_simp+
  then show "isoDateInTz utcIntl (Some 1767916800000) (zoneText mondaySeries) = Inr (dayText 20462)"
    "isoDateInTz utcIntl (Some 1769904000000) (zoneText mondaySeries) = Inr (dayText 20485)"
    using utc_date by (simp_all add: mondaySeries_def)
  show "dayNumber (dayText 20462) = Some 20462" "dayNumber (dayText 20485) = Some 20485"
    by (rule dayNumber_dayText, simp add: inWindow_def)+
qed

lemma year_10000: "isoDateInTz utcIntl (Some 253402300800000) ''UTC'' = Inr ''10000-01-01''"
proof -
  have "dayNo 253402300800000 = dayFromCivil 10000 1 1" "validCivil 10000 1 1"
    by (simp_all add: dayNo_def MS_PER_DAY_def dayFromCivil_def dayFromYear_def monthOffset_simps monthLength_simps validCivil_def)
  then have c: "civilOfDay (dayNo 253402300800000) = (10000, 1, 1)" using civilOfDay_dayFromCivil by simp
  have "show_nat (10 * n) = show_nat n @ ''0''" if "0 < n" for n
    using that by (subst show_nat.simps) (simp add: digit_char_def char_of_def bit_0)
  note ten = this [of 1000] this [of 100] this [of 10] this [of 1]
  have one: "show_nat 1 = ''1''" by (subst show_nat.simps) (simp add: digit_char_def char_of_def bit_0 bit_Suc bit_1_iff)
  then have "show_nat 10000 = ''10000''" using ten by simp
  note n = this and one' = one [unfolded One_nat_def]
  show ?thesis unfolding isoDateInTz_def partsOf_ok [OF keepsTimeD(1,2) [OF utc_keeps]]
    by (simp add: requiredPart_def zoneIntl_def printed_def c n one' padStart_def show_int_def pad2_def)
qed

theorem next_occurrence_first_witness:
  "\<exists>res. nextOccurrence utcIntl weeklyRule mondayTask (Some 1767916800000) = Some (Inr res)"
  using next_occurrence_first [OF weeklyRule_ok(1,3) mondaySeries_opens _ sampleDates(1,3)] weeklyRule_ok(4) by auto


theorem occurrences_far_end_empty_witness:
  "\<exists>res. occurrencesBetween utcIntl weeklyRule mondayTask (Some 1767916800000) (Some 253402300800000) (Some (js_int 10)) = Some (Inr res) \<and>
    (case res of Inr vs \<Rightarrow> vs = [] | Inl e \<Rightarrow> rruleCode e = SearchLimit)"
proof -
  have far: "isoDateInTz utcIntl (Some 253402300800000) (zoneText mondaySeries) = Inr ''10000-01-01''"
    using year_10000 by (simp add: mondaySeries_def)
  have "dayNumber ''10000-01-01'' = None" by code_simp
  moreover have "dayFromCivil 2000 1 1 \<le> startDays mondaySeries" by code_simp
  ultimately show ?thesis
    using occurrences_far_end_empty [OF weeklyRule_ok(1) mondaySeries_opens sampleDates(1,3) far, of "''0000-01-01''" 10] by simp
qed

end
