(* ===== verification/Quota.thy ===== *)
theory Quota
  imports JsonValue
begin

text \<open>
  Budgets of business work (\<open>server/quota.ts\<close>). An async method is a program of store calls (\<open>prog\<close>): each
  \<open>await\<close> on the store is one atomic call whose answer, or the error it rejects with, picks the rest. The
  schemas of arktype are an argument (\<open>quotaSchemas\<close>); \<open>schemasDocumented\<close> says what they accept. The clock
  is read once per call, so its reading is an argument of the call. Theory QuotaRun runs many calls at once.
\<close>

section \<open>Types\<close>

datatype QuotaDecision = Allowed | Exhausted | Unavailable

datatype QuotaPrincipalKind = UserPrincipal | SessionPrincipal

datatype QuotaErrorCode = NoPrincipal | InvalidCount | InvalidPolicyLimit | SessionPrincipalNotAllowed | InvalidReservedAt

text \<open>What a call rejects with: an error of the module, or whatever the store rejected with.\<close>

datatype quotaError = QuotaErr QuotaErrorCode string | StoreErr js_error

record QuotaPrincipal =
  principalKind :: QuotaPrincipalKind
  principalId :: units

record QuotaState =
  qDecision :: QuotaDecision
  qUsed :: int
  qLimit :: int
  qRemaining :: int
  qWindowSeconds :: int
  qMetered :: bool
  qReservedAt :: "int option"

text \<open>The policy as configuration writes it: the numbers are unchecked. \<open>sessions\<close> is its pool limit.\<close>

record QuotaPolicy =
  policyLimit :: jsnum
  policyWindow :: "jsnum option"
  policyBypass :: "bool option"
  policySessions :: "jsnum option"

record QuotaKey =
  keyPrincipal :: units
  keyWindow :: units

record QuotaReservation =
  granted :: bool
  reservedUsed :: int

text \<open>The validators arktype builds from the schemas.\<close>

record quotaSchemas =
  policyAllows :: "QuotaPolicy \<Rightarrow> bool"
  limitAllows :: "jsnum \<Rightarrow> bool"
  sessionsAllows :: "jsnum option \<Rightarrow> bool"
  countAllows :: "jsnum \<Rightarrow> bool"

definition POLICY_LIMIT_MESSAGE :: string where
  "POLICY_LIMIT_MESSAGE = ''QuotaPolicy.limit must be a non-negative safe integer''"
definition POLICY_WINDOW_MESSAGE :: string where
  "POLICY_WINDOW_MESSAGE = ''QuotaPolicy.windowSeconds must be a positive safe integer when set''"
definition POLICY_SESSION_POOL_MESSAGE :: string where
  "POLICY_SESSION_POOL_MESSAGE = ''QuotaPolicy.sessions.poolLimit must be a non-negative safe integer''"
definition NO_PRINCIPAL_MESSAGE :: string where
  "NO_PRINCIPAL_MESSAGE = ''A userId or a sessionId is required''"
definition INVALID_COUNT_MESSAGE :: string where
  "INVALID_COUNT_MESSAGE = ''count must be an integer between 1 and 1000000''"
definition STORE_PORT_MESSAGE :: string where
  "STORE_PORT_MESSAGE = ''QuotaStore must provide read, increment, reserve and release functions''"
definition SESSION_PRINCIPAL_MESSAGE :: string where
  "SESSION_PRINCIPAL_MESSAGE = ''QuotaPolicy.sessions must be set to meter a session principal''"
definition INVALID_RESERVED_AT_MESSAGE :: string where
  "INVALID_RESERVED_AT_MESSAGE = ''options.reservedAt must be a non-negative integer''"

section \<open>Store calls\<close>

datatype 'r prog =
    Done 'r
  | ReadQ QuotaKey "js_error + int \<Rightarrow> 'r prog"
  | IncrementQ QuotaKey int "js_error + int \<Rightarrow> 'r prog"
  | ReserveQ QuotaKey int int "js_error + QuotaReservation \<Rightarrow> 'r prog"
  | ReleaseQ QuotaKey int "js_error + int \<Rightarrow> 'r prog"

record 's quotaStore =
  readOp :: "QuotaKey \<Rightarrow> 's \<Rightarrow> 's \<times> (js_error + int)"
  incrementOp :: "QuotaKey \<Rightarrow> int \<Rightarrow> 's \<Rightarrow> 's \<times> (js_error + int)"
  reserveOp :: "QuotaKey \<Rightarrow> int \<Rightarrow> int \<Rightarrow> 's \<Rightarrow> 's \<times> (js_error + QuotaReservation)"
  releaseOp :: "QuotaKey \<Rightarrow> int \<Rightarrow> 's \<Rightarrow> 's \<times> (js_error + int)"

text \<open>One store call of a running program, and a program run with nothing in between.\<close>

fun callStep :: "'s quotaStore \<Rightarrow> 's \<Rightarrow> 'r prog \<Rightarrow> 's \<times> 'r prog" where
  "callStep ops s (Done r) = (s, Done r)"
| "callStep ops s (ReadQ k f) = (case readOp ops k s of (t, a) \<Rightarrow> (t, f a))"
| "callStep ops s (IncrementQ k n f) = (case incrementOp ops k n s of (t, a) \<Rightarrow> (t, f a))"
| "callStep ops s (ReserveQ k n l f) = (case reserveOp ops k n l s of (t, a) \<Rightarrow> (t, f a))"
| "callStep ops s (ReleaseQ k n f) = (case releaseOp ops k n s of (t, a) \<Rightarrow> (t, f a))"

primrec runProg :: "'s quotaStore \<Rightarrow> 'r prog \<Rightarrow> 's \<Rightarrow> 's \<times> 'r" where
  "runProg ops (Done r) = (\<lambda>s. (s, r))"
| "runProg ops (ReadQ k f) = (\<lambda>s. runProg ops (f (snd (readOp ops k s))) (fst (readOp ops k s)))"
| "runProg ops (IncrementQ k n f) = (\<lambda>s. runProg ops (f (snd (incrementOp ops k n s))) (fst (incrementOp ops k n s)))"
| "runProg ops (ReserveQ k n l f) = (\<lambda>s. runProg ops (f (snd (reserveOp ops k n l s))) (fst (reserveOp ops k n l s)))"
| "runProg ops (ReleaseQ k n f) = (\<lambda>s. runProg ops (f (snd (releaseOp ops k n s))) (fst (releaseOp ops k n s)))"

text \<open>An answered answer: a rejection ends the method.\<close>

definition answered :: "('a \<Rightarrow> (quotaError + 'r) prog) \<Rightarrow> js_error + 'a \<Rightarrow> (quotaError + 'r) prog" where
  "answered f a = (case a of Inl e \<Rightarrow> Done (Inl (StoreErr e)) | Inr x \<Rightarrow> f x)"

lemma answered_simps [simp]: "answered f (Inl e) = Done (Inl (StoreErr e))" "answered f (Inr x) = f x"
  by (simp_all add: answered_def)

section \<open>Principals and keys\<close>

definition quotaStatusCode :: "QuotaDecision \<Rightarrow> int" where
  "quotaStatusCode d = (case d of Allowed \<Rightarrow> 200 | Exhausted \<Rightarrow> 429 | Unavailable \<Rightarrow> 503)"

definition trimmedId :: "jsval \<Rightarrow> units" where
  "trimmedId v = (case v of StrV s \<Rightarrow> trimUnits s | _ \<Rightarrow> [])"

definition resolveQuotaPrincipal :: "jsval \<Rightarrow> jsval \<Rightarrow> quotaError + QuotaPrincipal" where
  "resolveQuotaPrincipal inputUserId inputSessionId =
     (let uid = trimmedId inputUserId; sid = trimmedId inputSessionId in
      if uid \<noteq> [] then Inr \<lparr>principalKind = UserPrincipal, principalId = uid\<rparr>
      else if sid \<noteq> [] then Inr \<lparr>principalKind = SessionPrincipal, principalId = sid\<rparr>
      else Inl (QuotaErr NoPrincipal NO_PRINCIPAL_MESSAGE))"

text \<open>\<open>Math.floor(nowMs / (windowSeconds * 1000))\<close> is exact for the times of a \<open>Date\<close>.\<close>

definition windowText :: "int \<Rightarrow> int \<Rightarrow> units" where
  "windowText windowSeconds nowMs =
     (if windowSeconds > 0 then u (''w'' @ show_int (nowMs div (windowSeconds * 1000))) else u ''all'')"

definition quotaKey :: "QuotaPrincipal \<Rightarrow> int \<Rightarrow> int \<Rightarrow> QuotaKey" where
  "quotaKey p windowSeconds nowMs =
     \<lparr>keyPrincipal = (if principalKind p = UserPrincipal then u ''user'' else u ''session'') @ u '':'' @ principalId p,
      keyWindow = windowText windowSeconds nowMs\<rparr>"

definition SESSION_POOL_PRINCIPAL :: units where "SESSION_POOL_PRINCIPAL = u ''session-pool''"

definition sessionPoolKey :: "int \<Rightarrow> int \<Rightarrow> QuotaKey" where
  "sessionPoolKey windowSeconds nowMs =
     \<lparr>keyPrincipal = SESSION_POOL_PRINCIPAL, keyWindow = windowText windowSeconds nowMs\<rparr>"

section \<open>Configuration\<close>

definition isStorePort :: "jsval \<Rightarrow> bool" where
  "isStorePort v \<longleftrightarrow> field (u ''read'') v = FunV \<and> field (u ''increment'') v = FunV \<and>
     field (u ''reserve'') v = FunV \<and> field (u ''release'') v = FunV"

definition assertQuotaConfig :: "quotaSchemas \<Rightarrow> QuotaPolicy \<Rightarrow> jsval \<Rightarrow> quotaError + unit" where
  "assertQuotaConfig ark policy store =
     (if \<not> policyAllows ark policy then
        (if \<not> limitAllows ark (policyLimit policy) then Inl (QuotaErr InvalidPolicyLimit POLICY_LIMIT_MESSAGE)
         else if \<not> sessionsAllows ark (policySessions policy)
         then Inl (QuotaErr InvalidPolicyLimit POLICY_SESSION_POOL_MESSAGE)
         else Inl (QuotaErr InvalidPolicyLimit POLICY_WINDOW_MESSAGE))
      else if \<not> isStorePort store then Inl (QuotaErr InvalidPolicyLimit STORE_PORT_MESSAGE)
      else Inr ())"

text \<open>What \<open>createQuotaMeter\<close> closes over. The checked numbers are integers.\<close>

record QuotaMeter =
  meterSchemas :: quotaSchemas
  meteredResourceAvailable :: bool
  bypassWithOwnKey :: bool
  windowSeconds :: int
  limit :: int
  sessions :: "int option"

definition createQuotaMeter :: "quotaSchemas \<Rightarrow> QuotaPolicy \<Rightarrow> jsval \<Rightarrow> bool \<Rightarrow> quotaError + QuotaMeter" where
  "createQuotaMeter ark policy store available =
     andThen (assertQuotaConfig ark policy store) (\<lambda>_.
       Inr \<lparr>meterSchemas = ark, meteredResourceAvailable = available,
         bypassWithOwnKey = (policyBypass policy \<noteq> Some False),
         windowSeconds = js_floor (orElse (policyWindow policy) (js_int 0)), limit = js_floor (policyLimit policy),
         sessions = map_option js_floor (policySessions policy)\<rparr>)"

section \<open>The meter\<close>

definition sessionPoolLimit :: "QuotaMeter \<Rightarrow> int" where
  "sessionPoolLimit m = orElse (sessions m) 0"

definition meterKey :: "QuotaMeter \<Rightarrow> QuotaPrincipal \<Rightarrow> int \<Rightarrow> QuotaKey" where
  "meterKey m p nowMs = quotaKey p (windowSeconds m) nowMs"

definition poolKeyAt :: "QuotaMeter \<Rightarrow> int \<Rightarrow> QuotaKey" where
  "poolKeyAt m nowMs = sessionPoolKey (windowSeconds m) nowMs"

definition isSession :: "QuotaPrincipal \<Rightarrow> bool" where
  "isSession p \<longleftrightarrow> principalKind p = SessionPrincipal"

definition assertPrincipalAllowed :: "QuotaMeter \<Rightarrow> QuotaPrincipal \<Rightarrow> quotaError + unit" where
  "assertPrincipalAllowed m p =
     (if isSession p \<and> sessions m = None then Inl (QuotaErr SessionPrincipalNotAllowed SESSION_PRINCIPAL_MESSAGE) else Inr ())"

definition stateOf :: "QuotaMeter \<Rightarrow> QuotaDecision \<Rightarrow> int \<Rightarrow> bool \<Rightarrow> QuotaState" where
  "stateOf m decision used metered =
     \<lparr>qDecision = decision, qUsed = used, qLimit = limit m, qRemaining = max 0 (limit m - used),
      qWindowSeconds = windowSeconds m, qMetered = metered, qReservedAt = None\<rparr>"

definition unavailable :: "QuotaMeter \<Rightarrow> QuotaState" where
  "unavailable m = \<lparr>qDecision = Unavailable, qUsed = 0, qLimit = 0, qRemaining = 0, qWindowSeconds = windowSeconds m,
     qMetered = False, qReservedAt = None\<rparr>"

definition ownKeyState :: "QuotaMeter \<Rightarrow> QuotaState" where
  "ownKeyState m = \<lparr>qDecision = Allowed, qUsed = 0, qLimit = limit m, qRemaining = limit m, qWindowSeconds = windowSeconds m,
     qMetered = False, qReservedAt = None\<rparr>"

definition assertCount :: "QuotaMeter \<Rightarrow> jsnum \<Rightarrow> quotaError + int" where
  "assertCount m count =
     (if countAllows (meterSchemas m) count then Inr (js_floor count) else Inl (QuotaErr InvalidCount INVALID_COUNT_MESSAGE))"

definition assertReservedAt :: "jsnum \<Rightarrow> quotaError + int" where
  "assertReservedAt reservedAt =
     (if \<not> js_isInteger reservedAt \<or> js_less reservedAt (js_int 0)
      then Inl (QuotaErr InvalidReservedAt INVALID_RESERVED_AT_MESSAGE) else Inr (js_floor reservedAt))"

definition clampReservedAt :: "int \<Rightarrow> int \<Rightarrow> int" where
  "clampReservedAt reservedAt actualNow = min reservedAt actualNow"

definition decisionFor :: "QuotaMeter \<Rightarrow> int \<Rightarrow> QuotaDecision" where
  "decisionFor m used = (if used < limit m then Allowed else Exhausted)"

type_synonym stateProg = "(quotaError + QuotaState) prog"

definition readState :: "QuotaMeter \<Rightarrow> QuotaPrincipal \<Rightarrow> int \<Rightarrow> stateProg" where
  "readState m p nowMs =
     ReadQ (meterKey m p nowMs) (answered (\<lambda>used.
       if decisionFor m used = Allowed \<and> isSession p
       then ReadQ (poolKeyAt m nowMs) (answered (\<lambda>pooled.
              Done (Inr (stateOf m (if pooled \<ge> sessionPoolLimit m then Exhausted else decisionFor m used) used True))))
       else Done (Inr (stateOf m (decisionFor m used) used True))))"

text \<open>Whatever the refund of a pool unit answers, the method goes on.\<close>

definition releasePoolQuietly :: "QuotaMeter \<Rightarrow> int \<Rightarrow> int \<Rightarrow> stateProg \<Rightarrow> stateProg" where
  "releasePoolQuietly m nowMs count rest = ReleaseQ (poolKeyAt m nowMs) count (\<lambda>_. rest)"

text \<open>A guard that throws makes the method reject.\<close>

definition checkedThen :: "quotaError + 'a \<Rightarrow> ('a \<Rightarrow> stateProg) \<Rightarrow> stateProg" where
  "checkedThen g rest = (case g of Inl e \<Rightarrow> Done (Inl e) | Inr x \<Rightarrow> rest x)"

definition quotaCheck :: "QuotaMeter \<Rightarrow> QuotaPrincipal \<Rightarrow> bool \<Rightarrow> int \<Rightarrow> stateProg" where
  "quotaCheck m p hasOwnKey nowMs =
     checkedThen (assertPrincipalAllowed m p) (\<lambda>_.
       if \<not> meteredResourceAvailable m then Done (Inr (unavailable m))
       else if hasOwnKey \<and> bypassWithOwnKey m then Done (Inr (ownKeyState m))
       else readState m p nowMs)"

text \<open>The second half of \<open>reserve\<close>: the own counter, the pool unit given back when it was not granted.\<close>

definition reserveOwn :: "QuotaMeter \<Rightarrow> QuotaPrincipal \<Rightarrow> int \<Rightarrow> int \<Rightarrow> bool \<Rightarrow> stateProg" where
  "reserveOwn m p count nowMs pooled =
     ReserveQ (meterKey m p nowMs) count (limit m) (\<lambda>answer. case answer of
       Inl error \<Rightarrow>
         let failed = Done (Inl (StoreErr error)) in
         if pooled then releasePoolQuietly m nowMs count failed else failed
     | Inr own \<Rightarrow>
         let result = Done (Inr (stateOf m (if granted own then Allowed else Exhausted) (reservedUsed own) True
                          \<lparr>qReservedAt := Some nowMs\<rparr>)) in
         if \<not> granted own \<and> pooled then releasePoolQuietly m nowMs count result else result)"

definition quotaReserve :: "QuotaMeter \<Rightarrow> QuotaPrincipal \<Rightarrow> jsnum \<Rightarrow> bool \<Rightarrow> int \<Rightarrow> stateProg" where
  "quotaReserve m p count hasOwnKey nowMs =
     checkedThen (assertPrincipalAllowed m p) (\<lambda>_. checkedThen (assertCount m count) (\<lambda>n.
       if \<not> meteredResourceAvailable m then Done (Inr (unavailable m))
       else if hasOwnKey \<and> bypassWithOwnKey m then Done (Inr (ownKeyState m))
       else if isSession p then
         ReserveQ (poolKeyAt m nowMs) n (sessionPoolLimit m) (answered (\<lambda>pool.
           if \<not> granted pool
           then ReadQ (meterKey m p nowMs) (answered (\<lambda>used.
                  Done (Inr (stateOf m Exhausted used True \<lparr>qReservedAt := Some nowMs\<rparr>))))
           else reserveOwn m p n nowMs True))
       else reserveOwn m p n nowMs False))"

text \<open>The end of \<open>release\<close>: with \<open>reservedAt\<close> the state of the current window is read.\<close>

definition releasedState :: "QuotaMeter \<Rightarrow> QuotaPrincipal \<Rightarrow> jsnum option \<Rightarrow> int \<Rightarrow> int \<Rightarrow> stateProg" where
  "releasedState m p reservedAt actualNow used =
     (if reservedAt \<noteq> None then readState m p actualNow else Done (Inr (stateOf m (decisionFor m used) used True)))"

definition quotaRelease :: "QuotaMeter \<Rightarrow> QuotaPrincipal \<Rightarrow> jsnum \<Rightarrow> bool \<Rightarrow> jsnum option \<Rightarrow> int \<Rightarrow> stateProg" where
  "quotaRelease m p count hasOwnKey reservedAt actualNow =
     checkedThen (assertPrincipalAllowed m p) (\<lambda>_. checkedThen (assertCount m count) (\<lambda>n.
       if \<not> meteredResourceAvailable m then Done (Inr (unavailable m))
       else if hasOwnKey \<and> bypassWithOwnKey m then Done (Inr (ownKeyState m))
       else checkedThen (case reservedAt of None \<Rightarrow> Inr actualNow
                     | Some t \<Rightarrow> andThen (assertReservedAt t) (\<lambda>t. Inr (clampReservedAt t actualNow))) (\<lambda>refundAt.
         ReleaseQ (meterKey m p refundAt) n (answered (\<lambda>used.
           if isSession p
           then ReleaseQ (poolKeyAt m refundAt) n (answered (\<lambda>_. releasedState m p reservedAt actualNow used))
           else releasedState m p reservedAt actualNow used)))))"

definition quotaRecord :: "QuotaMeter \<Rightarrow> QuotaPrincipal \<Rightarrow> jsnum \<Rightarrow> int \<Rightarrow> stateProg" where
  "quotaRecord m p count nowMs =
     checkedThen (assertPrincipalAllowed m p) (\<lambda>_. checkedThen (assertCount m count) (\<lambda>n.
       if \<not> meteredResourceAvailable m then Done (Inr (unavailable m))
       else let own = IncrementQ (meterKey m p nowMs) n (answered (\<lambda>used. Done (Inr (stateOf m (decisionFor m used) used True)))) in
         if isSession p then IncrementQ (poolKeyAt m nowMs) n (answered (\<lambda>_. own)) else own))"

definition quotaGet :: "QuotaMeter \<Rightarrow> QuotaPrincipal \<Rightarrow> int \<Rightarrow> stateProg" where
  "quotaGet m p nowMs =
     checkedThen (assertPrincipalAllowed m p) (\<lambda>_.
       if \<not> meteredResourceAvailable m then Done (Inr (unavailable m)) else readState m p nowMs)"

section \<open>A store\<close>

text \<open>
  The statements the module documents for a SQL store, one per operation, on a table of counters. A row that
  is not there counts as 0.
\<close>

type_synonym quotaTable = "(QuotaKey, int) jsmap"

definition tableUsed :: "quotaTable \<Rightarrow> QuotaKey \<Rightarrow> int" where
  "tableUsed tab k = orElse (jm_get tab k) 0"

definition tableIncrement :: "QuotaKey \<Rightarrow> int \<Rightarrow> quotaTable \<Rightarrow> quotaTable \<times> int" where
  "tableIncrement k count tab = (jm_set k (tableUsed tab k + count) tab, tableUsed tab k + count)"

definition tableReserve :: "QuotaKey \<Rightarrow> int \<Rightarrow> int \<Rightarrow> quotaTable \<Rightarrow> quotaTable \<times> QuotaReservation" where
  "tableReserve k count bound tab =
     (let used = tableUsed tab k in
      if used + count > bound then (tab, \<lparr>granted = False, reservedUsed = used\<rparr>)
      else (jm_set k (used + count) tab, \<lparr>granted = True, reservedUsed = used + count\<rparr>))"

definition tableRelease :: "QuotaKey \<Rightarrow> int \<Rightarrow> quotaTable \<Rightarrow> quotaTable \<times> int" where
  "tableRelease k count tab =
     (let n = max 0 (tableUsed tab k - count) in (jm_set k n tab, n))"

text \<open>A connection that may fail: before the statement ran, or after it ran and before its answer came.\<close>

datatype quotaFault = Answers | FailsBefore | FailsAfter

type_synonym faultyTable = "quotaTable \<times> quotaFault list"

definition overWire :: "(quotaTable \<Rightarrow> quotaTable \<times> 'a) \<Rightarrow> faultyTable \<Rightarrow> faultyTable \<times> (js_error + 'a)" where
  "overWire stmt s =
     (case s of (tab, faults) \<Rightarrow>
      case faults of
        [] \<Rightarrow> ((fst (stmt tab), []), Inr (snd (stmt tab)))
      | Answers # r \<Rightarrow> ((fst (stmt tab), r), Inr (snd (stmt tab)))
      | FailsBefore # r \<Rightarrow> ((tab, r), Inl (PlainErr ''store unavailable''))
      | FailsAfter # r \<Rightarrow> ((fst (stmt tab), r), Inl (PlainErr ''store unavailable'')))"

definition faultyStore :: "faultyTable quotaStore" where
  "faultyStore = \<lparr>readOp = \<lambda>k. overWire (\<lambda>tab. (tab, tableUsed tab k)), incrementOp = \<lambda>k n. overWire (tableIncrement k n),
     reserveOp = \<lambda>k n l. overWire (tableReserve k n l), releaseOp = \<lambda>k n. overWire (tableRelease k n)\<rparr>"

end
