(* ===== verification/QuotaRun.thy ===== *)
theory QuotaRun
  imports Quota
begin

text \<open>
  Many calls of one meter at once, over one store. A step starts a call, runs one store call of a running
  method, or settles a finished one; the store may reject any call, before or after its effect. The proof
  carries for each running program the units it still answers for (\<open>safe\<close>); locale \<open>quota_store\<close> is what
  the meter relies on, interpreted on the statements the module documents behind a connection that fails.
\<close>

section \<open>Many callers\<close>

datatype quotaCall = ReserveCall QuotaPrincipal jsnum bool | OtherCall

text \<open>
  A caller whose \<open>reserve\<close> was allowed holds its units until it starts the one \<open>release\<close>, with the same
  options and the \<open>reservedAt\<close> it was given.
\<close>

datatype quotaTask = Running quotaCall stateProg | Holding QuotaPrincipal jsnum bool int | Over

fun settled :: "quotaCall \<Rightarrow> quotaError + QuotaState \<Rightarrow> quotaTask" where
  "settled (ReserveCall p count own) (Inr st) =
     (case (qDecision st, qReservedAt st) of (Allowed, Some t) \<Rightarrow> Holding p count own t | _ \<Rightarrow> Over)"
| "settled _ _ = Over"

inductive quotaStep :: "QuotaMeter \<Rightarrow> 's quotaStore \<Rightarrow> 's \<times> quotaTask list \<Rightarrow> 's \<times> quotaTask list \<Rightarrow> bool" for m ops where
  startReserve: "quotaStep m ops (s, ts) (s, ts @ [Running (ReserveCall p count own) (quotaReserve m p count own now)])"
| startRecord: "quotaStep m ops (s, ts) (s, ts @ [Running OtherCall (quotaRecord m p count now)])"
| startCheck: "quotaStep m ops (s, ts) (s, ts @ [Running OtherCall (quotaCheck m p own now)])"
| startGet: "quotaStep m ops (s, ts) (s, ts @ [Running OtherCall (quotaGet m p now)])"
| startRelease: "i < length ts \<Longrightarrow> ts ! i = Holding p count own t \<Longrightarrow>
    windowText (windowSeconds m) (min t now) = windowText (windowSeconds m) t \<Longrightarrow>
    quotaStep m ops (s, ts) (s, ts[i := Running OtherCall (quotaRelease m p count own (Some (js_int t)) now)])"
| storeCall: "i < length ts \<Longrightarrow> ts ! i = Running c prog \<Longrightarrow> callStep ops s prog = (s', prog') \<Longrightarrow>
    quotaStep m ops (s, ts) (s', ts[i := Running c prog'])"
| settle: "i < length ts \<Longrightarrow> ts ! i = Running c (Done r) \<Longrightarrow> quotaStep m ops (s, ts) (s, ts[i := settled c r])"

text \<open>The units held in one window by the principals of a kind.\<close>

fun unitsOf :: "QuotaMeter \<Rightarrow> (QuotaPrincipal \<Rightarrow> bool) \<Rightarrow> units \<Rightarrow> quotaTask \<Rightarrow> int" where
  "unitsOf m P w (Holding p count own t) = (if P p \<and> windowText (windowSeconds m) t = w then js_floor count else 0)"
| "unitsOf m P w _ = 0"

definition unitsHeld :: "QuotaMeter \<Rightarrow> (QuotaPrincipal \<Rightarrow> bool) \<Rightarrow> units \<Rightarrow> quotaTask list \<Rightarrow> int" where
  "unitsHeld m P w ts = sum_list (map (unitsOf m P w) ts)"

section \<open>What the schemas accept\<close>

definition policyDocumented :: "QuotaPolicy \<Rightarrow> bool" where
  "policyDocumented p \<longleftrightarrow>
     js_isInteger (policyLimit p) \<and> \<not> js_less (policyLimit p) (js_int 0) \<and>
     (case policySessions p of None \<Rightarrow> True | Some n \<Rightarrow> js_isInteger n \<and> \<not> js_less n (js_int 0)) \<and>
     (case policyWindow p of None \<Rightarrow> True | Some n \<Rightarrow> js_isInteger n \<and> js_less (js_int 0) n)"

definition schemasDocumented :: "quotaSchemas \<Rightarrow> bool" where
  "schemasDocumented ark \<longleftrightarrow> (\<forall>p. policyAllows ark p \<longrightarrow> policyDocumented p) \<and>
     (\<forall>n. countAllows ark n \<longleftrightarrow> js_isInteger n \<and> js_le (js_int 1) n \<and> js_le n (js_int 1000000))"

definition meterOk :: "QuotaMeter \<Rightarrow> bool" where
  "meterOk m \<longleftrightarrow> 0 \<le> limit m \<and> 0 \<le> sessionPoolLimit m \<and> 0 \<le> windowSeconds m \<and> schemasDocumented (meterSchemas m)"

lemma createQuotaMeter_ok:
  assumes "schemasDocumented ark" "createQuotaMeter ark policy port available = Inr m"
  shows "meterOk m"
proof -
  have allowed: "policyAllows ark policy" and m: "meterSchemas m = ark" "limit m = js_floor (policyLimit policy)"
    "sessions m = map_option js_floor (policySessions policy)"
    "windowSeconds m = js_floor (orElse (policyWindow policy) (js_int 0))"
    using assms(2) by (auto simp: createQuotaMeter_def assertQuotaConfig_def andThen_Inr split: if_splits)
  have nonneg: "0 \<le> js_floor n" if "js_isInteger n" "\<not> js_less n (js_int 0)" for n
    using that by (elim js_isInteger_E) auto
  have pos: "0 \<le> js_floor n" if "js_isInteger n" "js_less (js_int 0) n" for n
    using that by (elim js_isInteger_E) auto
  have "policyDocumented policy" using assms(1) allowed by (simp add: schemasDocumented_def)
  then have "0 \<le> limit m" "0 \<le> sessionPoolLimit m" "0 \<le> windowSeconds m"
    using nonneg pos unfolding policyDocumented_def sessionPoolLimit_def m by (auto split: option.splits)
  then show ?thesis using assms(1) m(1) by (simp add: meterOk_def)
qed

lemma assertCount_Inr: "meterOk m \<Longrightarrow> assertCount m count = Inr n \<Longrightarrow> n = js_floor count \<and> 1 \<le> n"
  by (auto simp: assertCount_def meterOk_def schemasDocumented_def split: if_splits elim!: js_isInteger_E)

section \<open>Counters have one owner\<close>

lemma poolKey_not_own: "poolKeyAt m t \<noteq> meterKey m p t'"
proof -
  have "58 \<in> set (keyPrincipal (meterKey m p t'))" "58 \<notin> set (keyPrincipal (poolKeyAt m t))"
    by (simp_all add: meterKey_def quotaKey_def poolKeyAt_def sessionPoolKey_def SESSION_POOL_PRINCIPAL_def u_def code_def)
  then show ?thesis by metis
qed

lemma meterKey_eq: "meterKey m p t = meterKey m q t' \<longleftrightarrow>
    p = q \<and> windowText (windowSeconds m) t = windowText (windowSeconds m) t'"
  by (cases p; cases q; cases "principalKind p"; cases "principalKind q")
    (auto simp: meterKey_def quotaKey_def u_def code_def)

lemma poolKey_eq: "poolKeyAt m t = poolKeyAt m t' \<longleftrightarrow>
    windowText (windowSeconds m) t = windowText (windowSeconds m) t'"
  by (simp add: poolKeyAt_def sessionPoolKey_def)

section \<open>The units a program answers for\<close>

type_synonym credit = "QuotaKey \<Rightarrow> int"

text \<open>
  A program that starts with credit \<open>c\<close> keeps to it: a granted reservation under the budget of its key adds to
  the credit, a refund must be covered by it, and the result is justified by the credit left.
\<close>

primrec safe :: "'r prog \<Rightarrow> credit \<Rightarrow> ('r \<Rightarrow> credit \<Rightarrow> bool) \<Rightarrow> credit \<Rightarrow> bool" where
  "safe (Done r) = (\<lambda>L Q c. Q r c)"
| "safe (ReadQ k f) = (\<lambda>L Q c. \<forall>a. safe (f a) L Q c)"
| "safe (IncrementQ k n f) = (\<lambda>L Q c. 0 \<le> n \<and> (\<forall>a. safe (f a) L Q c))"
| "safe (ReserveQ k n l f) = (\<lambda>L Q c. 0 \<le> n \<and> l = L k \<and>
     (\<forall>a. safe (f a) L Q (case a of Inr r \<Rightarrow> if granted r then c(k := c k + n) else c | Inl e \<Rightarrow> c)))"
| "safe (ReleaseQ k n f) = (\<lambda>L Q c. 0 \<le> n \<and> n \<le> c k \<and> (\<forall>a. safe (f a) L Q (c(k := c k - n))))"

definition budgetOf :: "QuotaMeter \<Rightarrow> credit" where
  "budgetOf m k = (if keyPrincipal k = SESSION_POOL_PRINCIPAL then sessionPoolLimit m else limit m)"

definition creditOf :: "QuotaMeter \<Rightarrow> QuotaPrincipal \<Rightarrow> int \<Rightarrow> int \<Rightarrow> credit" where
  "creditOf m p n t k = (if k = meterKey m p t then n else 0) + (if isSession p \<and> k = poolKeyAt m t then n else 0)"

lemma budgetOf_keys [simp]: "budgetOf m (meterKey m p t) = limit m" "budgetOf m (poolKeyAt m t) = sessionPoolLimit m"
proof -
  have "keyPrincipal (meterKey m p t) \<noteq> SESSION_POOL_PRINCIPAL"
    using poolKey_not_own [of m t p t] by (auto simp: meterKey_def quotaKey_def poolKeyAt_def sessionPoolKey_def)
  then show "budgetOf m (meterKey m p t) = limit m" "budgetOf m (poolKeyAt m t) = sessionPoolLimit m"
    by (simp_all add: budgetOf_def poolKeyAt_def sessionPoolKey_def)
qed

text \<open>A program of reads, or one that never touches the store, keeps any credit.\<close>

lemma safe_readState: "(\<And>r. Q r c) \<Longrightarrow> safe (readState m p t) L Q c"
  by (auto simp: readState_def answered_def split: sum.split)

lemma safe_checkedThen: "(\<And>e. g = Inl e \<Longrightarrow> Q (Inl e) c) \<Longrightarrow> (\<And>x. g = Inr x \<Longrightarrow> safe (f x) L Q c) \<Longrightarrow> safe (checkedThen g f) L Q c"
  by (auto simp: checkedThen_def split: sum.split)

definition noClaim :: "'r \<Rightarrow> credit \<Rightarrow> bool" where "noClaim r c \<longleftrightarrow> True"

lemma noClaim [simp]: "noClaim r c" by (simp add: noClaim_def)

lemma safe_quotaCheck: "safe (quotaCheck m p own t) L noClaim c"
  unfolding quotaCheck_def by (intro safe_checkedThen) (simp_all add: safe_readState)

lemma safe_quotaGet: "safe (quotaGet m p t) L noClaim c"
  unfolding quotaGet_def by (intro safe_checkedThen) (simp_all add: safe_readState)

lemma safe_quotaRecord: "meterOk m \<Longrightarrow> safe (quotaRecord m p count t) L noClaim c"
  unfolding quotaRecord_def by (intro safe_checkedThen) (auto simp: Let_def answered_def split: sum.split dest: assertCount_Inr)

text \<open>The result of \<open>reserve\<close> claims units only when it was allowed with a reading of the clock.\<close>

definition claims :: "QuotaMeter \<Rightarrow> QuotaPrincipal \<Rightarrow> jsnum \<Rightarrow> quotaError + QuotaState \<Rightarrow> credit \<Rightarrow> bool" where
  "claims m p count r c \<longleftrightarrow>
     (\<forall>st t. r = Inr st \<longrightarrow> qDecision st = Allowed \<longrightarrow> qReservedAt st = Some t \<longrightarrow>
        1 \<le> js_floor count \<and> c = creditOf m p (js_floor count) t)"

lemma safe_reserveOwn:
  assumes "1 \<le> js_floor count" "\<forall>k. c k = (if pooled \<and> k = poolKeyAt m t then js_floor count else 0)" "pooled = isSession p"
  shows "safe (reserveOwn m p (js_floor count) t pooled) (budgetOf m) (claims m p count) c"
proof -
  have "c(meterKey m p t := js_floor count) = creditOf m p (js_floor count) t"
    using assms(2,3) poolKey_not_own [of m t p t] by (auto simp: creditOf_def fun_eq_iff)
  moreover have "c (meterKey m p t) = 0" using assms(2) poolKey_not_own [of m t p t] by auto
  ultimately show ?thesis using assms
    by (auto simp: reserveOwn_def releasePoolQuietly_def claims_def stateOf_def Let_def split: sum.split)
qed

lemma safe_quotaReserve:
  assumes "meterOk m"
  shows "safe (quotaReserve m p count own t) (budgetOf m) (claims m p count) (\<lambda>_. 0)"
  unfolding quotaReserve_def
proof (intro safe_checkedThen)
  fix n :: int assume "assertCount m count = Inr n"
  from assertCount_Inr [OF assms this] have n: "n = js_floor count" "1 \<le> js_floor count" by auto
  have "safe (reserveOwn m p n t True) (budgetOf m) (claims m p count) ((\<lambda>_. 0)(poolKeyAt m t := n))" if "isSession p"
    unfolding n(1) by (rule safe_reserveOwn) (use n that in auto)
  moreover have "safe (reserveOwn m p n t False) (budgetOf m) (claims m p count) (\<lambda>_. 0)" if "\<not> isSession p"
    unfolding n(1) by (rule safe_reserveOwn) (use n that in auto)
  ultimately show "safe (if \<not> meteredResourceAvailable m then Done (Inr (unavailable m))
      else if own \<and> bypassWithOwnKey m then Done (Inr (ownKeyState m))
      else if isSession p then ReserveQ (poolKeyAt m t) n (sessionPoolLimit m) (answered (\<lambda>pool.
           if \<not> granted pool
           then ReadQ (meterKey m p t) (answered (\<lambda>used. Done (Inr (stateOf m Exhausted used True \<lparr>qReservedAt := Some t\<rparr>))))
           else reserveOwn m p n t True))
      else reserveOwn m p n t False) (budgetOf m) (claims m p count) (\<lambda>_. 0)"
    using n by (auto simp: claims_def unavailable_def ownKeyState_def stateOf_def answered_def split: sum.split)
qed (simp_all add: claims_def)

lemma safe_quotaRelease:
  assumes "meterOk m" "windowText (windowSeconds m) (min t now) = windowText (windowSeconds m) t"
  shows "safe (quotaRelease m p count own (Some (js_int t)) now) L noClaim (creditOf m p (js_floor count) t)"
  unfolding quotaRelease_def
proof (intro safe_checkedThen)
  fix n :: int assume "assertCount m count = Inr n"
  from assertCount_Inr [OF assms(1) this] have n: "n = js_floor count" "1 \<le> n" by auto
  have keys: "meterKey m p (min t now) = meterKey m p t" "poolKeyAt m (min t now) = poolKeyAt m t"
    using assms(2) by (simp_all add: meterKey_eq poolKey_eq)
  have c: "creditOf m p n t (meterKey m p t) = n" "isSession p \<Longrightarrow> creditOf m p n t (poolKeyAt m t) = n"
    "poolKeyAt m t \<noteq> meterKey m p t"
    using poolKey_not_own [of m t p t] by (auto simp: creditOf_def)
  then show "safe (if \<not> meteredResourceAvailable m then Done (Inr (unavailable m))
      else if own \<and> bypassWithOwnKey m then Done (Inr (ownKeyState m))
      else checkedThen (case Some (js_int t) of None \<Rightarrow> Inr now
          | Some t \<Rightarrow> andThen (assertReservedAt t) (\<lambda>t. Inr (clampReservedAt t now))) (\<lambda>refundAt.
         ReleaseQ (meterKey m p refundAt) n (answered (\<lambda>used.
           if isSession p
           then ReleaseQ (poolKeyAt m refundAt) n (answered (\<lambda>_. releasedState m p (Some (js_int t)) now used))
           else releasedState m p (Some (js_int t)) now used)))) L noClaim (creditOf m p (js_floor count) t)"
    using n keys
    by (auto simp: assertReservedAt_def clampReservedAt_def releasedState_def checkedThen_def answered_def
        intro!: safe_readState split: sum.split)
qed simp_all

section \<open>The invariant of a store with many callers\<close>

lemma sum_list_swap:
  "i < length xs \<Longrightarrow> sum_list (map f (xs[i := x])) = sum_list (map f xs) - f (xs ! i) + (f x :: int)"
  by (induction xs arbitrary: i) (auto simp: nth_Cons split: nat.splits)

lemma list_all2_swap: "list_all2 R xs ys \<Longrightarrow> i < length xs \<Longrightarrow> R x y \<Longrightarrow> list_all2 R (xs[i := x]) (ys[i := y])"
  by (simp add: list_all2_update_cong)

lemma nth_le_sum_list:
  "i < length cs \<Longrightarrow> (\<forall>c \<in> set cs. 0 \<le> f c) \<Longrightarrow> f (cs ! i) \<le> sum_list (map f cs :: int list)"
proof (induction cs arbitrary: i)
  case (Cons c cs)
  moreover have "0 \<le> sum_list (map f cs)" using Cons.prems(2) by (intro sum_list_nonneg) auto
  ultimately show ?case by (cases i) fastforce+
qed simp

lemma list_all2_setD: "list_all2 R xs ys \<Longrightarrow> y \<in> set ys \<Longrightarrow> \<exists>x \<in> set xs. R x y"
  by (auto simp: in_set_conv_nth list_all2_conv_all_nth) (metis nth_mem)

text \<open>What a settled task is allowed to hold.\<close>

fun justified :: "QuotaMeter \<Rightarrow> quotaTask \<Rightarrow> credit \<Rightarrow> bool" where
  "justified m (Running (ReserveCall p count own) prog) c = safe prog (budgetOf m) (claims m p count) c"
| "justified m (Running OtherCall prog) c = safe prog (budgetOf m) noClaim c"
| "justified m (Holding p count own t) c = (1 \<le> js_floor count \<and> c = creditOf m p (js_floor count) t)"
| "justified m Over c = True"

definition covered :: "QuotaMeter \<Rightarrow> quotaTask \<Rightarrow> credit \<Rightarrow> bool" where
  "covered m task c \<longleftrightarrow> justified m task c \<and> (\<forall>k. 0 \<le> c k)"

lemma covered_settled: "covered m (Running c (Done r)) cr \<Longrightarrow> covered m (settled c r) cr"
  by (cases c; cases r) (auto simp: covered_def claims_def split: QuotaDecision.splits option.splits)

locale quota_store =
  fixes ops :: "'s quotaStore" and counter :: "'s \<Rightarrow> credit"
  assumes read_law: "readOp ops k s = (t, a) \<Longrightarrow> counter t = counter s \<and> (\<forall>v. a = Inr v \<longrightarrow> v = counter s k)"
    and increment_law: "incrementOp ops k n s = (t, a) \<Longrightarrow>
      counter t = (counter s)(k := counter s k + n) \<and> a \<in> {Inl e |e. True} \<union> {Inr (counter s k + n)} \<or>
      counter t = counter s \<and> (\<exists>e. a = Inl e)"
    and reserve_law: "reserveOp ops k n l s = (t, b) \<Longrightarrow>
      (if counter s k + n \<le> l then
         counter t = (counter s)(k := counter s k + n) \<and>
           b \<in> {Inl e |e. True} \<union> {Inr \<lparr>granted = True, reservedUsed = counter s k + n\<rparr>} \<or>
         counter t = counter s \<and> (\<exists>e. b = Inl e)
       else counter t = counter s \<and> b \<in> {Inl e |e. True} \<union> {Inr \<lparr>granted = False, reservedUsed = counter s k\<rparr>})"
    and release_law: "releaseOp ops k n s = (t, a) \<Longrightarrow>
      counter t = (counter s)(k := max 0 (counter s k - n)) \<and> a \<in> {Inl e |e. True} \<union> {Inr (max 0 (counter s k - n))} \<or>
      counter t = counter s \<and> (\<exists>e. a = Inl e)"
begin

text \<open>One store call keeps the counters above what all programs answer for, and that within the budgets.\<close>

lemma call_keeps:
  assumes "callStep ops s prog = (t, prog')" "safe prog L Q c" "\<forall>k. 0 \<le> c k"
    and "\<forall>k. 0 \<le> others k \<and> others k + c k \<le> counter s k \<and> others k + c k \<le> L k"
  shows "\<exists>c'. safe prog' L Q c' \<and> (\<forall>k. 0 \<le> c' k) \<and>
    (\<forall>k. others k + c' k \<le> counter t k \<and> others k + c' k \<le> L k)"
proof (cases prog)
  case (Done r)
  then show ?thesis using assms by auto
next
  case (ReadQ k f)
  obtain a where "readOp ops k s = (t, a)" "prog' = f a" using assms(1) ReadQ by (auto split: prod.splits)
  then show ?thesis using assms(2-4) ReadQ read_law by (intro exI [of _ c]) auto
next
  case (IncrementQ k n f)
  obtain a where a: "incrementOp ops k n s = (t, a)" "prog' = f a" using assms(1) IncrementQ by (auto split: prod.splits)
  have "0 \<le> n" using assms(2) IncrementQ by simp
  then have "counter s j \<le> counter t j" for j using increment_law [OF a(1)] by auto
  then show ?thesis using assms(2-4) IncrementQ a(2) by (intro exI [of _ c]) (auto intro: order_trans)
next
  case (ReserveQ k n l f)
  obtain a where a: "reserveOp ops k n l s = (t, a)" "prog' = f a" using assms(1) ReserveQ by (auto split: prod.splits)
  let ?c = "case a of Inr r \<Rightarrow> if granted r then c(k := c k + n) else c | Inl e \<Rightarrow> c"
  have n: "0 \<le> n" "l = L k" "safe prog' L Q ?c" using assms(2) ReserveQ a(2) by auto
  have "others j + ?c j \<le> counter t j \<and> others j + ?c j \<le> L j" for j
    using reserve_law [OF a(1)] assms(4) [rule_format, of j] n(1,2) by (auto split: if_splits sum.splits)
  then show ?thesis using n assms(3) by (intro exI [of _ ?c]) (auto split: sum.splits)
next
  case (ReleaseQ k n f)
  obtain a where a: "releaseOp ops k n s = (t, a)" "prog' = f a" using assms(1) ReleaseQ by (auto split: prod.splits)
  have n: "0 \<le> n" "n \<le> c k" "safe prog' L Q (c(k := c k - n))" using assms(2) ReleaseQ a(2) by auto
  have "others j + (c(k := c k - n)) j \<le> counter t j \<and> others j + (c(k := c k - n)) j \<le> L j" for j
    using release_law [OF a(1)] assms(4) [rule_format, of j] n(1,2) by (auto simp: max_def)
  then show ?thesis using n assms(3) by (intro exI [of _ "c(k := c k - n)"]) auto
qed

definition worldOk :: "QuotaMeter \<Rightarrow> 's \<times> quotaTask list \<Rightarrow> bool" where
  "worldOk m w \<longleftrightarrow> (case w of (s, ts) \<Rightarrow> \<exists>cs. list_all2 (covered m) ts cs \<and>
     (\<forall>k. sum_list (map (\<lambda>c. c k) cs) \<le> counter s k \<and> sum_list (map (\<lambda>c. c k) cs) \<le> budgetOf m k))"

lemma worldOk_start: "worldOk m (s, ts) \<Longrightarrow> covered m task (\<lambda>_. 0) \<Longrightarrow> worldOk m (s, ts @ [task])"
  unfolding worldOk_def
  by (clarsimp, rule_tac x = "cs @ [\<lambda>_. 0]" in exI) (auto simp: list_all2_appendI)

lemma worldOk_swap:
  assumes "list_all2 (covered m) ts cs" "i < length ts" "covered m task c'"
    and "\<forall>k. sum_list (map (\<lambda>c. c k) cs) - (cs ! i) k + c' k \<le> counter s k \<and>
      sum_list (map (\<lambda>c. c k) cs) - (cs ! i) k + c' k \<le> budgetOf m k"
  shows "worldOk m (s, ts[i := task])"
proof -
  have "i < length cs" using assms(1,2) by (simp add: list_all2_lengthD)
  then show ?thesis using assms(3,4) list_all2_swap [where R = "covered m", OF assms(1,2,3)]
    unfolding worldOk_def by (auto simp: sum_list_swap intro!: exI [of _ "cs[i := c']"])
qed

lemma step_keeps_world:
  assumes "quotaStep m ops w w'" "worldOk m w" "meterOk m"
  shows "worldOk m w'"
  using assms(1,2)
proof (cases rule: quotaStep.cases)
  case (startRelease i ts p count own t now s)
  obtain cs where cs: "list_all2 (covered m) ts cs"
    "\<forall>k. sum_list (map (\<lambda>c. c k) cs) \<le> counter s k \<and> sum_list (map (\<lambda>c. c k) cs) \<le> budgetOf m k"
    using assms(2) startRelease(1) by (auto simp: worldOk_def)
  have "covered m (Holding p count own t) (cs ! i)"
    using list_all2_nthD [OF cs(1) startRelease(3)] startRelease(4) by simp
  then have "cs ! i = creditOf m p (js_floor count) t" "\<forall>k. 0 \<le> (cs ! i) k"
    unfolding covered_def by (simp, blast)
  then have "covered m (Running OtherCall (quotaRelease m p count own (Some (js_int t)) now)) (cs ! i)"
    using safe_quotaRelease [OF assms(3) startRelease(5)] by (simp add: covered_def)
  then show ?thesis unfolding startRelease(2) using worldOk_swap [OF cs(1) startRelease(3)] cs(2) by simp
next
  case (storeCall i ts c prog s s' prog')
  obtain cs where cs: "list_all2 (covered m) ts cs"
    "\<forall>k. sum_list (map (\<lambda>c. c k) cs) \<le> counter s k \<and> sum_list (map (\<lambda>c. c k) cs) \<le> budgetOf m k"
    using assms(2) storeCall(1) by (auto simp: worldOk_def)
  have i: "i < length cs" using cs(1) storeCall(3) by (simp add: list_all2_lengthD)
  have old: "covered m (Running c prog) (cs ! i)"
    using list_all2_nthD [OF cs(1) storeCall(3)] storeCall(4) by simp
  let ?others = "\<lambda>k. sum_list (map (\<lambda>c. c k) cs) - (cs ! i) k"
  have others: "\<forall>k. 0 \<le> ?others k \<and> ?others k + (cs ! i) k \<le> counter s k \<and> ?others k + (cs ! i) k \<le> budgetOf m k"
    using cs(2) nth_le_sum_list [OF i, of "\<lambda>c. c _"] list_all2_setD [OF cs(1)] by (auto simp: covered_def)
  have "\<exists>c'. covered m (Running c prog') c' \<and> (\<forall>k. ?others k + c' k \<le> counter s' k \<and> ?others k + c' k \<le> budgetOf m k)"
    using call_keeps [OF storeCall(5) _ _ others] old by (cases c) (auto simp: covered_def)
  then show ?thesis unfolding storeCall(2) using worldOk_swap [OF cs(1) storeCall(3)] by auto
next
  case (settle i ts c r s)
  obtain cs where cs: "list_all2 (covered m) ts cs"
    "\<forall>k. sum_list (map (\<lambda>c. c k) cs) \<le> counter s k \<and> sum_list (map (\<lambda>c. c k) cs) \<le> budgetOf m k"
    using assms(2) settle(1) by (auto simp: worldOk_def)
  have "covered m (settled c r) (cs ! i)"
    using covered_settled list_all2_nthD [OF cs(1) settle(3)] settle(4) by metis
  then show ?thesis unfolding settle(2) using worldOk_swap [OF cs(1) settle(3)] cs(2) by simp
qed (use assms(3) worldOk_start in \<open>simp_all add: covered_def safe_quotaReserve safe_quotaRecord safe_quotaCheck safe_quotaGet\<close>)

text \<open>Every task that holds units is answered for, so the budgets bound what is held.\<close>

lemma held_bounds:
  assumes "worldOk m (s, ts)"
  shows "unitsHeld m (\<lambda>q. q = p) (windowText (windowSeconds m) t) ts \<le> limit m"
    and "unitsHeld m isSession (windowText (windowSeconds m) t) ts \<le> sessionPoolLimit m"
proof -
  let ?w = "windowText (windowSeconds m) t"
  obtain cs where cs: "list_all2 (covered m) ts cs" "\<forall>k. sum_list (map (\<lambda>c. c k) cs) \<le> budgetOf m k"
    using assms by (auto simp: worldOk_def)
  have own: "unitsOf m (\<lambda>q. q = p) ?w task \<le> c (meterKey m p t)"
    and pool: "unitsOf m isSession ?w task \<le> c (poolKeyAt m t)" if "covered m task c" for task c
    using that poolKey_not_own [of m _ p t] poolKey_not_own [of m t]
    by (cases task; auto simp: covered_def creditOf_def meterKey_eq poolKey_eq)+
  have "sum_list (map (unitsOf m (\<lambda>q. q = p) ?w) ts) \<le> sum_list (map (\<lambda>c. c (meterKey m p t)) cs)"
    "sum_list (map (unitsOf m isSession ?w) ts) \<le> sum_list (map (\<lambda>c. c (poolKeyAt m t)) cs)"
    using cs(1) by (induction rule: list_all2_induct) (auto dest: own pool)
  then show "unitsHeld m (\<lambda>q. q = p) ?w ts \<le> limit m" "unitsHeld m isSession ?w ts \<le> sessionPoolLimit m"
    using cs(2) [rule_format, of "meterKey m p t"] cs(2) [rule_format, of "poolKeyAt m t"]
    unfolding unitsHeld_def by simp_all
qed

lemma budgets_kept:
  assumes "(quotaStep m ops)\<^sup>*\<^sup>* (s0, []) (s, ts)" "meterOk m" "\<forall>k. 0 \<le> counter s0 k"
  shows "worldOk m (s, ts)"
proof -
  have "worldOk m (s0, [])" using assms(2,3) by (auto simp: worldOk_def budgetOf_def meterOk_def)
  with assms(1) show ?thesis by (induction rule: rtranclp_induct) (auto intro: step_keeps_world [OF _ _ assms(2)])
qed

end

section \<open>The documented statements behind a failing connection\<close>

definition tableCounter :: "faultyTable \<Rightarrow> credit" where "tableCounter s = tableUsed (fst s)"

lemma tableUsed_set [simp]: "tableUsed (jm_set k v tab) = (tableUsed tab)(k := v)"
  by (auto simp: tableUsed_def fun_eq_iff)

lemmas table_defs = faultyStore_def overWire_def tableCounter_def tableIncrement_def tableReserve_def tableRelease_def Let_def

interpretation faulty: quota_store faultyStore tableCounter
  by unfold_locales (auto simp: table_defs split: if_splits list.splits quotaFault.splits prod.splits)

section \<open>Properties\<close>

text \<open>
  C39: No interleaving hands out more than the budget. Whatever calls of one meter run at once over one store,
  in whatever order their store calls land and whichever of them the store rejects, before or after its effect:
  the units one principal holds in one window are at most \<open>limit\<close>, and the units all sessions hold together
  in it at most the pool's limit. A caller holds what an allowed \<open>reserve\<close> took until it starts the one
  \<open>release\<close> with its \<open>reservedAt\<close>, at a clock that has not stepped back into an earlier window.
\<close>
theorem quota_never_overspent:
  assumes "schemasDocumented ark" "createQuotaMeter ark policy port available = Inr m"
    and "(quotaStep m faultyStore)\<^sup>*\<^sup>* ((tab, faults), []) (s, ts)" "\<forall>k. 0 \<le> tableUsed tab k"
  shows "unitsHeld m (\<lambda>q. q = p) (windowText (windowSeconds m) t) ts \<le> limit m \<and>
    unitsHeld m isSession (windowText (windowSeconds m) t) ts \<le> sessionPoolLimit m"
proof -
  have "faulty.worldOk m (s, ts)"
    using faulty.budgets_kept [OF assms(3) createQuotaMeter_ok [OF assms(1,2)]] assms(4) by (simp add: tableCounter_def)
  then show ?thesis using faulty.held_bounds by blast
qed

lemma tableUsed_at: "tableUsed ((jm_set k v tab)) j = (if j = k then v else tableUsed tab j)"
  by simp

lemmas quietly = quotaReserve_def quotaRelease_def quotaCheck_def reserveOwn_def releasePoolQuietly_def releasedState_def
  readState_def checkedThen_def answered_def stateOf_def table_defs

definition fits :: "QuotaMeter \<Rightarrow> QuotaPrincipal \<Rightarrow> int \<Rightarrow> int \<Rightarrow> quotaTable \<Rightarrow> bool" where
  "fits m p n now tab \<longleftrightarrow> tableUsed tab (meterKey m p now) + n \<le> limit m \<and>
     (isSession p \<longrightarrow> tableUsed tab (poolKeyAt m now) + n \<le> sessionPoolLimit m)"

definition metersFor :: "QuotaMeter \<Rightarrow> QuotaPrincipal \<Rightarrow> bool \<Rightarrow> bool" where
  "metersFor m p own \<longleftrightarrow> meteredResourceAvailable m \<and> \<not> (own \<and> bypassWithOwnKey m) \<and> (isSession p \<longrightarrow> sessions m \<noteq> None)"

lemma guards_pass:
  assumes "meterOk m" "metersFor m p own" "1 \<le> n" "n \<le> 1000000"
  shows "assertPrincipalAllowed m p = Inr ()" "assertCount m (js_int n) = Inr n"
    "meteredResourceAvailable m" "(own \<and> bypassWithOwnKey m) = False"
  using assms by (auto simp: assertPrincipalAllowed_def assertCount_def metersFor_def meterOk_def schemasDocumented_def)

text \<open>
  A reservation takes all its units or none. With no other call in between and a store that answers, \<open>reserve\<close>
  is allowed exactly when the units fit the budget of the principal and, for a session, the shared pool; then
  both counters rise by the units and no other does, and otherwise no counter changes, the pool's included.
\<close>
theorem quota_reserve_exact:
  assumes "schemasDocumented ark" "createQuotaMeter ark policy port available = Inr m" "metersFor m p own"
    and "1 \<le> n" "n \<le> 1000000" "\<forall>k. 0 \<le> tableUsed tab k"
  shows "\<exists>tab' st. runProg faultyStore (quotaReserve m p (js_int n) own now) (tab, []) = ((tab', []), Inr st) \<and>
    qDecision st = (if fits m p n now tab then Allowed else Exhausted) \<and> qReservedAt st = Some now \<and>
    (\<forall>k. tableUsed tab' k = tableUsed tab k + (if fits m p n now tab then creditOf m p n now k else 0)) \<and>
    qUsed st = tableUsed tab' (meterKey m p now)"
  using poolKey_not_own [of m now p now] assms(6)
  by (auto simp: quietly guards_pass [OF createQuotaMeter_ok [OF assms(1,2)] assms(3-5)] fits_def creditOf_def)

text \<open>The same reservation when the store rejects the call on the own counter: the pool gets its units back.\<close>

lemma reserve_own_rejected:
  assumes "meterOk m" "metersFor m p own" "1 \<le> n" "n \<le> 1000000" "\<forall>k. 0 \<le> tableUsed tab k" "isSession p"
    and "tableUsed tab (poolKeyAt m now) + n \<le> sessionPoolLimit m"
  shows "\<exists>tab' e. runProg faultyStore (quotaReserve m p (js_int n) own now) (tab, [Answers, FailsBefore]) = ((tab', []), Inl (StoreErr e)) \<and>
    tableUsed tab' = tableUsed tab"
  using poolKey_not_own [of m now p now] assms(5-7)
  by (auto simp: quietly guards_pass [OF assms(1-4)] fun_eq_iff)

text \<open>
  C40: A refund undoes its reservation. \<open>release\<close> with the \<open>reservedAt\<close> of an allowed \<open>reserve\<close>, at any later
  moment, puts every counter back to where it was, and the state it returns is the one \<open>check\<close> then answers,
  in whatever window the clock is by then.
\<close>
theorem quota_refund_restores:
  assumes "schemasDocumented ark" "createQuotaMeter ark policy port available = Inr m" "metersFor m p own"
    and "1 \<le> n" "n \<le> 1000000" "\<forall>k. 0 \<le> tableUsed tab k" "0 \<le> t" "t \<le> later"
    and "runProg faultyStore (quotaReserve m p (js_int n) own t) (tab, []) = ((tab', []), Inr st)" "qDecision st = Allowed"
  shows "\<exists>tab''. runProg faultyStore (quotaRelease m p (js_int n) own (map_option js_int (qReservedAt st)) later) (tab', []) =
      ((tab'', []), snd (runProg faultyStore (quotaCheck m p own later) (tab'', []))) \<and>
    tableUsed tab'' = tableUsed tab"
proof -
  note pass = guards_pass [OF createQuotaMeter_ok [OF assms(1,2)] assms(3-5)]
  have st: "qReservedAt st = Some t" "\<And>k. tableUsed tab' k = tableUsed tab k + creditOf m p n t k"
    using assms(9,10) poolKey_not_own [of m t p t]
    by (auto simp: quietly pass creditOf_def split: if_splits)
  have own: "tableUsed tab' (meterKey m p t) = tableUsed tab (meterKey m p t) + n"
    and pool: "isSession p \<Longrightarrow> tableUsed tab' (poolKeyAt m t) = tableUsed tab (poolKeyAt m t) + n"
    using st(2) poolKey_not_own [of m t p t] by (auto simp: creditOf_def)
  let ?own = "jm_set (meterKey m p t) (tableUsed tab (meterKey m p t)) tab'"
  let ?tab = "if isSession p then jm_set (poolKeyAt m t) (tableUsed tab (poolKeyAt m t)) ?own else ?own"
  have "tableUsed ?tab = tableUsed tab" using st(2) by (auto simp: creditOf_def fun_eq_iff)
  moreover have "runProg faultyStore (quotaRelease m p (js_int n) own (Some (js_int t)) later) (tab', []) =
      ((?tab, []), snd (runProg faultyStore (quotaCheck m p own later) (?tab, [])))"
    using poolKey_not_own [of m t p t] assms(6-8) own pool
    by (simp add: quietly pass assertReservedAt_def clampReservedAt_def max_def)
  ultimately show ?thesis using st(1) by auto
qed

text \<open>
  The state \<open>record\<close> returns looks at the own counter only: with the pool spent a session is told Allowed where
  \<open>check\<close>, asked next, says Exhausted.
\<close>

lemma record_ignores_pool:
  assumes "meterOk m" "metersFor m p own" "1 \<le> n" "n \<le> 1000000" "isSession p"
    and "sessionPoolLimit m \<le> tableUsed tab (poolKeyAt m now)" "tableUsed tab (meterKey m p now) + n < limit m"
  shows "\<exists>tab' st st'. runProg faultyStore (quotaRecord m p (js_int n) now) (tab, []) = ((tab', []), Inr st) \<and> qDecision st = Allowed \<and>
    runProg faultyStore (quotaCheck m p own now) (tab', []) = ((tab', []), Inr st') \<and> qDecision st' = Exhausted"
  using poolKey_not_own [of m now p now] assms(3,5-7)
  by (auto simp: quotaRecord_def quietly guards_pass [OF assms(1-4)] decisionFor_def)

section \<open>A pool of one\<close>

definition plainSchemas :: quotaSchemas where
  "plainSchemas = \<lparr>policyAllows = policyDocumented, limitAllows = \<lambda>n. js_isInteger n \<and> \<not> js_less n (js_int 0),
     sessionsAllows = \<lambda>v. v = None \<or> js_isInteger (the v) \<and> \<not> js_less (the v) (js_int 0),
     countAllows = \<lambda>n. js_isInteger n \<and> js_le (js_int 1) n \<and> js_le n (js_int 1000000)\<rparr>"

definition demoPolicy :: QuotaPolicy where
  "demoPolicy = \<lparr>policyLimit = js_int 3, policyWindow = None, policyBypass = None, policySessions = Some (js_int 1)\<rparr>"

definition demoPort :: jsval where
  "demoPort = ObjV [(u ''read'', FunV), (u ''increment'', FunV), (u ''reserve'', FunV), (u ''release'', FunV)]"

definition demoMeter :: QuotaMeter where
  "demoMeter = \<lparr>meterSchemas = plainSchemas, meteredResourceAvailable = True, bypassWithOwnKey = True, windowSeconds = 0,
     limit = 3, sessions = Some 1\<rparr>"

definition guest :: QuotaPrincipal where
  "guest = \<lparr>principalKind = SessionPrincipal, principalId = u ''s''\<rparr>"

lemma demo:
  "schemasDocumented plainSchemas" "createQuotaMeter plainSchemas demoPolicy demoPort True = Inr demoMeter"
  "metersFor demoMeter guest False" "\<forall>k. 0 \<le> tableUsed [] k" "isSession guest"
proof -
  have "isStorePort demoPort" by (simp add: isStorePort_def demoPort_def field_def u_def code_def)
  then show "createQuotaMeter plainSchemas demoPolicy demoPort True = Inr demoMeter"
    by (simp add: createQuotaMeter_def assertQuotaConfig_def plainSchemas_def policyDocumented_def demoPolicy_def demoMeter_def)
qed (simp_all add: schemasDocumented_def plainSchemas_def metersFor_def demoMeter_def guest_def isSession_def tableUsed_def)

lemma demo_reserve:
  "\<exists>tab' st. runProg faultyStore (quotaReserve demoMeter guest (js_int 1) False 5) ([], []) = ((tab', []), Inr st) \<and>
    qDecision st = Allowed"
proof -
  have "assertPrincipalAllowed demoMeter guest = Inr ()" "assertCount demoMeter (js_int 1) = Inr 1"
    using guards_pass [OF createQuotaMeter_ok [OF demo(1,2)] demo(3), of 1] by simp_all
  moreover have "limit demoMeter = 3" "sessionPoolLimit demoMeter = 1" "meteredResourceAvailable demoMeter"
    by (simp_all add: demoMeter_def sessionPoolLimit_def)
  ultimately show ?thesis using demo(5) poolKey_not_own [of demoMeter 5 guest 5]
    by (auto simp: quietly tableUsed_def)
qed

theorem quota_reserve_exact_witness:
  "\<exists>tab' st. runProg faultyStore (quotaReserve demoMeter guest (js_int 1) False 5) ([], []) = ((tab', []), Inr st)"
  using quota_reserve_exact [OF demo(1-3), of 1 "[]" 5] demo(4) by auto

theorem quota_refund_restores_witness:
  "\<exists>tab' st tab''. runProg faultyStore (quotaReserve demoMeter guest (js_int 1) False 5) ([], []) = ((tab', []), Inr st) \<and>
    runProg faultyStore (quotaRelease demoMeter guest (js_int 1) False (map_option js_int (qReservedAt st)) 9) (tab', []) =
      ((tab'', []), snd (runProg faultyStore (quotaCheck demoMeter guest False 9) (tab'', []))) \<and> tableUsed tab'' = tableUsed []"
proof -
  obtain tab' st where r: "runProg faultyStore (quotaReserve demoMeter guest (js_int 1) False 5) ([], []) = ((tab', []), Inr st)"
    "qDecision st = Allowed" using demo_reserve by blast
  from quota_refund_restores [OF demo(1-3) _ _ demo(4) _ _ r, of 9] r(1) show ?thesis by auto
qed

text \<open>A program with the store to itself runs to its end in steps.\<close>

lemma alone_step:
  "i < length ts \<Longrightarrow> ts ! i = Running c prog \<Longrightarrow> callStep ops s prog = (t, prog') \<Longrightarrow>
    (quotaStep m ops)\<^sup>*\<^sup>* (t, ts[i := Running c prog']) w \<Longrightarrow> (quotaStep m ops)\<^sup>*\<^sup>* (s, ts) w"
  by (rule converse_rtranclp_into_rtranclp [where r = "quotaStep m ops"]) (auto intro: quotaStep.storeCall)

lemma alone:
  "i < length ts \<Longrightarrow> ts ! i = Running c prog \<Longrightarrow> runProg ops prog s = (s', r) \<Longrightarrow>
    (quotaStep m ops)\<^sup>*\<^sup>* (s, ts) (s', ts[i := Running c (Done r)])"
proof (induction prog arbitrary: s ts)
  case (Done x)
  then show ?case by (metis list_update_id prod.inject runProg.simps(1) rtranclp.rtrancl_refl)
next
  case (ReadQ k f)
  obtain t a where "readOp ops k s = (t, a)" by (cases "readOp ops k s")
  with ReadQ show ?case by (intro alone_step [of i ts c "ReadQ k f" ops s t "f a"]) (use ReadQ.IH [of "f a" "ts[i := Running c (f a)]" t] in auto)
next
  case (IncrementQ k n f)
  obtain t a where "incrementOp ops k n s = (t, a)" by (cases "incrementOp ops k n s")
  with IncrementQ show ?case
    by (intro alone_step [of i ts c "IncrementQ k n f" ops s t "f a"]) (use IncrementQ.IH [of "f a" "ts[i := Running c (f a)]" t] in auto)
next
  case (ReserveQ k n l f)
  obtain t a where "reserveOp ops k n l s = (t, a)" by (cases "reserveOp ops k n l s")
  with ReserveQ show ?case
    by (intro alone_step [of i ts c "ReserveQ k n l f" ops s t "f a"]) (use ReserveQ.IH [of "f a" "ts[i := Running c (f a)]" t] in auto)
next
  case (ReleaseQ k n f)
  obtain t a where "releaseOp ops k n s = (t, a)" by (cases "releaseOp ops k n s")
  with ReleaseQ show ?case
    by (intro alone_step [of i ts c "ReleaseQ k n f" ops s t "f a"]) (use ReleaseQ.IH [of "f a" "ts[i := Running c (f a)]" t] in auto)
qed

theorem quota_never_overspent_witness:
  "\<exists>s t. (quotaStep demoMeter faultyStore)\<^sup>*\<^sup>* (([], []), []) (s, [Holding guest (js_int 1) False t]) \<and>
    unitsHeld demoMeter isSession (windowText 0 t) [Holding guest (js_int 1) False t] \<le> 1"
proof -
  obtain tab st where r: "runProg faultyStore (quotaReserve demoMeter guest (js_int 1) False 5) ([], []) = ((tab, []), Inr st)"
    "qDecision st = Allowed" "qReservedAt st = Some 5"
    using demo_reserve quota_reserve_exact [OF demo(1-3), of 1 "[]" 5] demo(4) by fastforce
  let ?call = "ReserveCall guest (js_int 1) False"
  let ?ts = "[Running ?call (quotaReserve demoMeter guest (js_int 1) False 5)]"
  have "quotaStep demoMeter faultyStore (([], []), []) (([], []), ?ts)"
    using quotaStep.startReserve [of demoMeter faultyStore "([], [])" "[]" guest "js_int 1" False 5] by simp
  moreover have "(quotaStep demoMeter faultyStore)\<^sup>*\<^sup>* (([], []), ?ts) ((tab, []), [Running ?call (Done (Inr st))])"
    using alone [OF _ _ r(1), of 0 ?ts ?call demoMeter] by simp
  moreover have "quotaStep demoMeter faultyStore ((tab, []), [Running ?call (Done (Inr st))]) ((tab, []), [Holding guest (js_int 1) False 5])"
    using quotaStep.settle [of 0 "[Running ?call (Done (Inr st))]" ?call "Inr st" demoMeter faultyStore "(tab, [])"] r by simp
  ultimately have run: "(quotaStep demoMeter faultyStore)\<^sup>*\<^sup>* (([], []), []) ((tab, []), [Holding guest (js_int 1) False 5])"
    by (meson converse_rtranclp_into_rtranclp rtranclp.rtrancl_into_rtrancl)
  have m: "windowSeconds demoMeter = 0" "sessionPoolLimit demoMeter = 1" by (simp_all add: demoMeter_def sessionPoolLimit_def)
  have "unitsHeld demoMeter isSession (windowText 0 5) [Holding guest (js_int 1) False 5] \<le> 1"
    using quota_never_overspent [OF demo(1,2) run demo(4), of guest 5] m by simp
  with run show ?thesis by blast
qed

end
