(* ===== verification/Ical.thy ===== *)
theory Ical
  imports IcalZone IcsCore Address
begin

text \<open>
  Calendar documents (\<open>time/ical.ts\<close>): content lines, the component tree, writing it back, properties and date
  values. The tree types are those of IcalZone; a property object is told from another by \<open>propRef\<close>, which
  \<open>before\<close> refers to. A thrown \<open>TypeError\<close> is \<open>Inl\<close> of its message. \<open>upper\<close> is \<open>toUpperCase\<close>.
  The limits of \<open>parseIcal\<close> are unchecked numbers, so \<open>jsnum\<close>; the messages leave their value out.
\<close>

section \<open>Errors\<close>

datatype IcalErrorCode = TooLarge | TooDeep | Malformed | InvalidValue | ValueTypeMismatch | UnknownTzid

record IcalError =
  icalCode :: IcalErrorCode
  icalMessage :: units
  icalLine :: "nat option"

definition icalFail :: "IcalErrorCode \<Rightarrow> units \<Rightarrow> nat option \<Rightarrow> IcalError + 'a" where
  "icalFail c message line = Inl \<lparr>icalCode = c, icalMessage = message, icalLine = line\<rparr>"

definition DEFAULT_MAX_BYTES :: jsnum where "DEFAULT_MAX_BYTES = js_int (4 * 1024 * 1024)"
definition DEFAULT_MAX_DEPTH :: jsnum where "DEFAULT_MAX_DEPTH = js_int 16"

definition nameUnit :: "nat \<Rightarrow> bool" where
  "nameUnit c \<longleftrightarrow> (65 \<le> c \<and> c \<le> 90) \<or> (97 \<le> c \<and> c \<le> 122) \<or> isDigitU c \<or> c = 45"

definition isName :: "units \<Rightarrow> bool" where "isName s \<longleftrightarrow> s \<noteq> [] \<and> list_all nameUnit s"

definition UTC_ONLY :: "units list" where
  "UTC_ONLY = [u ''COMPLETED'', u ''DTSTAMP'', u ''CREATED'', u ''LAST-MODIFIED'']"

section \<open>Content lines\<close>

text \<open>One parameter value, quoted or not, and what follows it; \<open>None\<close> for a quote that never closes.\<close>

definition valueEnd :: "nat \<Rightarrow> bool" where "valueEnd c \<longleftrightarrow> c \<in> {59, 58, 44, 34}"

definition oneValue :: "units \<Rightarrow> (units \<times> units) option" where
  "oneValue s =
     (if prefix [34] s
      then map_option (\<lambda>k. (icsUnescapeParameter (take k (tl s)), drop (k + 1) (tl s))) (indexU 34 (tl s))
      else Some (icsUnescapeParameter (takeWhile (\<lambda>c. \<not> valueEnd c) s), dropWhile (\<lambda>c. \<not> valueEnd c) s))"

lemma oneValue_length: "oneValue s = Some (v, r) \<Longrightarrow> length r \<le> length s"
  by (auto simp: oneValue_def length_dropWhile_le split: if_splits)

text \<open>The values of one parameter, from behind its \<open>=\<close>, and what follows them.\<close>

function valueLoop :: "units \<Rightarrow> units \<Rightarrow> units list \<Rightarrow> units + (units list \<times> units)" where
  "valueLoop name s vals =
     (case oneValue s of
        None \<Rightarrow> Inl (u ''unterminated quoted parameter in '' @ name)
      | Some (v, r) \<Rightarrow> if prefix [44] r then valueLoop name (tl r) (vals @ [v]) else Inr (vals @ [v], r))"
  by pat_completeness auto
termination
proof (relation "measure (\<lambda>(_, s, _). length s)", goal_cases)
  case (2 name s vals pair v r)
  then have "length r \<le> length s" "r \<noteq> []" using oneValue_length by auto
  then show ?case by (cases r) auto
qed simp

declare valueLoop.simps [simp del]

lemma valueLoop_length: "valueLoop name s vals = Inr (v, r) \<Longrightarrow> length r \<le> length s"
proof (induction name s vals rule: valueLoop.induct)
  case (1 name s vals)
  then obtain w t where w: "oneValue s = Some (w, t)" by (subst (asm) (2) valueLoop.simps) (auto split: option.splits)
  then have "length t \<le> length s" by (rule oneValue_length)
  then show ?case using 1 w
    by (subst (asm) (2) valueLoop.simps) (auto split: if_splits intro: order_trans [of _ "length (tl t)"])
qed

text \<open>The parameters, and what follows the last one.\<close>

function paramLoop :: "units \<Rightarrow> units \<Rightarrow> IcalParameter list \<Rightarrow> units + (IcalParameter list \<times> units)" where
  "paramLoop name s params =
     (if \<not> prefix [59] s then Inr (params, s)
      else
        let pname = takeWhile nameUnit (tl s); r = dropWhile nameUnit (tl s) in
        if pname = [] then Inl (u ''empty parameter name in '' @ name)
        else if prefix [61] r then
          (case valueLoop name (tl r) [] of
             Inl e \<Rightarrow> Inl e
           | Inr (vs, r') \<Rightarrow> paramLoop name r' (params @ [\<lparr>paramName = upperAscii pname, paramValues = vs\<rparr>]))
        else paramLoop name r (params @ [\<lparr>paramName = upperAscii pname, paramValues = []\<rparr>]))"
  by pat_completeness auto
termination
proof (relation "measure (\<lambda>(_, s, _). length s)", goal_cases)
  case (2 name s params pname r pair vs r')
  then have "valueLoop name (tl r) [] = Inr (vs, r')" by simp
  from valueLoop_length [OF this] have "length r' \<le> length (tl r)" .
  moreover have "length r \<le> length (tl s)" using length_dropWhile_le 2(3) by blast
  moreover have "s \<noteq> []" using 2(1) by auto
  ultimately show ?case by (cases s; cases r) auto
next
  case (3 name s params pname r)
  have "length r \<le> length (tl s)" using length_dropWhile_le 3(3) by blast
  moreover have "s \<noteq> []" using 3(1) by auto
  ultimately show ?case by (cases s) auto
qed simp

declare paramLoop.simps [simp del]

text \<open>A content line split into its name, parameters and raw value.\<close>

record contentLine =
  lineName :: units
  lineParams :: "IcalParameter list"
  lineValue :: units

definition parseContentLine :: "units \<Rightarrow> units + contentLine" where
  "parseContentLine s =
     (let name = takeWhile nameUnit s in
      if name = [] then Inl (u ''missing property name'')
      else (case paramLoop name (dropWhile nameUnit s) [] of
        Inl e \<Rightarrow> Inl e
      | Inr (params, r) \<Rightarrow>
          if \<not> prefix [58] r then Inl (u ''expected \":\" after '' @ name)
          else Inr \<lparr>lineName = upperAscii name, lineParams = params, lineValue = tl r\<rparr>))"

section \<open>Parsing a document\<close>

text \<open>\<open>text.split(/\r?\n/)\<close>.\<close>

fun splitLines :: "units \<Rightarrow> units list" where
  "splitLines [] = [[]]"
| "splitLines (x # s) =
     (if x = 10 then [] # splitLines s
      else if x = 13 \<and> prefix [10] s then splitLines s
      else (case splitLines s of [] \<Rightarrow> [[x]] | l # ls \<Rightarrow> (x # l) # ls))"

text \<open>Physical lines with their numbers; blank ones are skipped.\<close>

definition numberedLines :: "units \<Rightarrow> (units \<times> nat) list" where
  "numberedLines s = (let ls = splitLines s in filter (\<lambda>l. fst l \<noteq> []) (zip ls [1..<length ls + 1]))"

definition continues :: "units \<times> nat \<Rightarrow> bool" where
  "continues l \<longleftrightarrow> prefix [32] (fst l) \<or> prefix [9] (fst l)"

text \<open>
  An open component: what was read of it so far. Its finished children without a \<open>compBefore\<close> are the ones
  waiting for its next property.
\<close>

record openComponent =
  openName :: units
  openBegin :: units
  openProperties :: "IcalProperty list"
  openChildren :: "IcalComponent list"

definition closed :: "openComponent \<Rightarrow> units \<Rightarrow> IcalComponent" where
  "closed f ending = Component (openName f) (openProperties f) (openChildren f) (Some (openBegin f, ending)) None"

definition precede :: "nat \<Rightarrow> IcalComponent \<Rightarrow> IcalComponent" where
  "precede r c = (case c of Component n ps cs src before \<Rightarrow>
     Component n ps cs src (if before = None then Some r else before))"

text \<open>The state of the loop: the open components, innermost first, the finished doc, and the properties read.\<close>

record icalState =
  openStack :: "openComponent list"
  docRoot :: "IcalComponent option"
  propCount :: nat

text \<open>A \<open>BEGIN\<close> or \<open>END\<close> line.\<close>

definition blockLine :: "(units \<Rightarrow> units) \<Rightarrow> jsnum \<Rightarrow> contentLine \<Rightarrow> units \<Rightarrow> nat \<Rightarrow> icalState \<Rightarrow> IcalError + icalState" where
  "blockLine upper maxDepth parsed source number st =
     (let name = upper (lineValue parsed) in
      if \<not> isName name \<or> lineParams parsed \<noteq> []
      then icalFail Malformed (u ''invalid '' @ lineName parsed @ u '' line'') (Some number)
      else if lineName parsed = u ''BEGIN'' then
        (if docRoot st \<noteq> None \<and> openStack st = []
         then icalFail Malformed (u ''more than one top-level component'') (Some number)
         else if js_le maxDepth (js_int (int (length (openStack st))))
         then icalFail TooDeep (u ''components nest deeper than maxDepth'') (Some number)
         else Inr (st\<lparr>openStack := \<lparr>openName = name, openBegin = source, openProperties = [], openChildren = []\<rparr> # openStack st\<rparr>))
      else
        (case openStack st of
           [] \<Rightarrow> icalFail Malformed (u ''END:'' @ name @ u '' does not close anything'') (Some number)
         | f # fs \<Rightarrow>
             if openName f \<noteq> name
             then icalFail Malformed (u ''END:'' @ name @ u '' does not close '' @ openName f) (Some number)
             else (case fs of
                 [] \<Rightarrow> Inr (st\<lparr>openStack := [], docRoot := Some (closed f source)\<rparr>)
               | g # gs \<Rightarrow> Inr (st\<lparr>openStack := g\<lparr>openChildren := openChildren g @ [closed f source]\<rparr> # gs\<rparr>))))"

text \<open>A property line.\<close>

definition propertyLine :: "contentLine \<Rightarrow> units \<Rightarrow> nat \<Rightarrow> icalState \<Rightarrow> IcalError + icalState" where
  "propertyLine parsed source number st =
     (case openStack st of
        [] \<Rightarrow> icalFail Malformed (u ''property outside a component'') (Some number)
      | f # fs \<Rightarrow>
          let property = \<lparr>propRef = propCount st, propName = lineName parsed, propParams = lineParams parsed,
                propValue = lineValue parsed, propSource = Some source\<rparr> in
          Inr (st\<lparr>openStack := f\<lparr>openProperties := openProperties f @ [property],
                 openChildren := map (precede (propCount st)) (openChildren f)\<rparr> # fs,
               propCount := Suc (propCount st)\<rparr>))"

definition logicalLine :: "(units \<Rightarrow> units) \<Rightarrow> jsnum \<Rightarrow> (units \<times> nat) \<Rightarrow> (units \<times> nat) list \<Rightarrow> icalState \<Rightarrow> IcalError + icalState" where
  "logicalLine upper maxDepth line conts st =
     (let source = joinUnits CRLF (map fst (line # conts)); unfolded = fst line @ concat (map (\<lambda>l. tl (fst l)) conts) in
      case parseContentLine unfolded of
        Inl message \<Rightarrow> icalFail Malformed message (Some (snd line))
      | Inr parsed \<Rightarrow>
          if lineName parsed = u ''BEGIN'' \<or> lineName parsed = u ''END''
          then blockLine upper maxDepth parsed source (snd line) st
          else propertyLine parsed source (snd line) st)"

function parseLoop :: "(units \<Rightarrow> units) \<Rightarrow> jsnum \<Rightarrow> (units \<times> nat) list \<Rightarrow> icalState \<Rightarrow> IcalError + icalState" where
  "parseLoop upper maxDepth [] st = Inr st"
| "parseLoop upper maxDepth (line # ls) st =
     (if continues line then icalFail Malformed (u ''continuation line without a line to continue'') (Some (snd line))
      else andThen (logicalLine upper maxDepth line (takeWhile continues ls) st)
        (parseLoop upper maxDepth (dropWhile continues ls)))"
  by pat_completeness auto
termination by (relation "measure (\<lambda>(_, _, ls, _). length ls)") (auto simp: length_dropWhile_le less_Suc_eq_le)

definition parseIcal :: "(units \<Rightarrow> units) \<Rightarrow> jsnum option \<Rightarrow> jsnum option \<Rightarrow> units \<Rightarrow> IcalError + IcalComponent" where
  "parseIcal upper maxBytesOption maxDepthOption text0 =
     (let maxBytes = orElse maxBytesOption DEFAULT_MAX_BYTES; maxDepth = orElse maxDepthOption DEFAULT_MAX_DEPTH in
      if js_less maxBytes (js_int (int (length text0) * 3)) \<and> js_less maxBytes (js_int (int (octets text0)))
      then icalFail TooLarge (u ''input is larger than maxBytes octets'') None
      else
        let text1 = (if prefix [0xfeff] text0 then tl text0 else text0) in
        andThen (parseLoop upper maxDepth (numberedLines text1) \<lparr>openStack = [], docRoot = None, propCount = 0\<rparr>) (\<lambda>st.
          case (openStack st, docRoot st) of
            (f # fs, _) \<Rightarrow> icalFail Malformed (openName f @ u '' is not closed'') None
          | ([], None) \<Rightarrow> icalFail Malformed (u ''no component found'') None
          | ([], Some doc) \<Rightarrow> Inr doc))"

section \<open>Writing a document\<close>

text \<open>True when the source still describes the property.\<close>

definition sourceMatches :: "(units \<Rightarrow> units) \<Rightarrow> IcalProperty \<Rightarrow> bool" where
  "sourceMatches upper p =
     (case propSource p of None \<Rightarrow> False
      | Some source \<Rightarrow>
          (case parseContentLine (unfoldLines source) of Inl _ \<Rightarrow> False
           | Inr parsed \<Rightarrow> lineName parsed = upper (propName p) \<and> lineValue parsed = propValue p \<and> lineParams parsed = propParams p))"

definition assertName :: "units \<Rightarrow> string \<Rightarrow> units + unit" where
  "assertName name what = (if isName name then Inr () else Inl (u ''invalid '' @ u what @ u '' name '' @ quoteJson name))"

definition assertNoLineBreak :: "units \<Rightarrow> units \<Rightarrow> units + unit" where
  "assertNoLineBreak v what =
     (if 13 \<in> set v \<or> 10 \<in> set v then Inl (what @ u '' must not contain a line break; escape it first'') else Inr ())"

definition formatParameterValue :: "units \<Rightarrow> units" where
  "formatParameterValue v =
     (let escaped = icsEscapeParameter v in
      if \<exists>c \<in> set escaped. c \<in> {58, 59, 44} then [34] @ escaped @ [34] else escaped)"

definition formatParameter :: "(units \<Rightarrow> units) \<Rightarrow> IcalParameter \<Rightarrow> units + units" where
  "formatParameter upper p =
     andThen (assertName (paramName p) ''parameter'') (\<lambda>_.
       Inr ([59] @ upper (paramName p) @
         (if paramValues p \<noteq> [] then [61] @ joinUnits [44] (map formatParameterValue (paramValues p)) else [])))"

definition formatProperty :: "(units \<Rightarrow> units) \<Rightarrow> IcalProperty \<Rightarrow> units + units" where
  "formatProperty upper p =
     andThen (assertName (propName p) ''property'') (\<lambda>_.
     andThen (assertNoLineBreak (propValue p) (u ''value of '' @ propName p)) (\<lambda>_.
     andThen (mapE (formatParameter upper) (propParams p)) (\<lambda>params.
       Inr (foldLine (upper (propName p) @ concat params @ [58] @ propValue p)))))"

definition propertyLines :: "(units \<Rightarrow> units) \<Rightarrow> IcalProperty \<Rightarrow> units + units" where
  "propertyLines upper p = (if sourceMatches upper p then Inr (the (propSource p)) else formatProperty upper p)"

text \<open>A \<open>BEGIN\<close> or \<open>END\<close> line: the original while it still names the component.\<close>

definition keptLine :: "(units \<Rightarrow> units) \<Rightarrow> units \<Rightarrow> units \<Rightarrow> units \<Rightarrow> units" where
  "keptLine upper line keyword name =
     (if upper (unfoldLines line) = keyword @ [58] @ name then line else keyword @ [58] @ name)"

text \<open>
  The lines of a body: before each property its children that precede it, then the children that precede none.
  Each child comes with the property it precedes and its own lines.
\<close>

definition bodyLines :: "(units \<Rightarrow> units) \<Rightarrow> IcalProperty list \<Rightarrow> (nat option \<times> (units + units list)) list \<Rightarrow> units + units list" where
  "bodyLines upper ps kids =
     (let present = map propRef ps;
          precedes = (\<lambda>p. map snd (filter (\<lambda>k. fst k = Some (propRef p)) kids));
          trailing = map snd (filter (\<lambda>k. fst k = None \<or> the (fst k) \<notin> set present) kids) in
      andThen (mapE (\<lambda>p. andThen (mapE id (precedes p)) (\<lambda>ls. andThen (propertyLines upper p) (\<lambda>l. Inr (concat ls @ [l])))) ps) (\<lambda>groups.
      andThen (mapE id trailing) (\<lambda>ls. Inr (concat groups @ concat ls))))"

fun writeComponent :: "(units \<Rightarrow> units) \<Rightarrow> IcalComponent \<Rightarrow> units + units list" where
  "writeComponent upper (Component name ps cs source before) =
     andThen (assertName name ''component'') (\<lambda>_.
       let n = upper name; (begin0, end0) = orElse source ([], []) in
       andThen (bodyLines upper ps (map (\<lambda>c. (compBefore c, writeComponent upper c)) cs)) (\<lambda>body.
         Inr ([keptLine upper begin0 (u ''BEGIN'') n] @ body @ [keptLine upper end0 (u ''END'') n])))"

definition serializeIcal :: "(units \<Rightarrow> units) \<Rightarrow> IcalComponent \<Rightarrow> units + units" where
  "serializeIcal upper doc = andThen (writeComponent upper doc) (\<lambda>ls. Inr (joinUnits CRLF ls @ CRLF))"

section \<open>Properties\<close>

definition getProperties :: "(units \<Rightarrow> units) \<Rightarrow> IcalComponent \<Rightarrow> units \<Rightarrow> IcalProperty list" where
  "getProperties upper c name = filter (\<lambda>p. upper (propName p) = upper name) (compProperties c)"

definition getProperty :: "(units \<Rightarrow> units) \<Rightarrow> IcalComponent \<Rightarrow> units \<Rightarrow> IcalProperty option" where
  "getProperty upper c name = find (\<lambda>p. upper (propName p) = upper name) (compProperties c)"

definition getParameter :: "(units \<Rightarrow> units) \<Rightarrow> IcalProperty \<Rightarrow> units \<Rightarrow> IcalParameter option" where
  "getParameter upper p name = find (\<lambda>q. upper (paramName q) = upper name) (propParams p)"

definition withProperties :: "IcalComponent \<Rightarrow> IcalProperty list \<Rightarrow> IcalComponent" where
  "withProperties c ps = (case c of Component n _ cs source before \<Rightarrow> Component n ps cs source before)"

text \<open>An assignment to an object shows wherever the object is; a new object is \<open>ref\<close>.\<close>

definition setProperty :: "(units \<Rightarrow> units) \<Rightarrow> nat \<Rightarrow> IcalComponent \<Rightarrow> units \<Rightarrow> units \<Rightarrow> IcalParameter list option \<Rightarrow>
    units + (IcalComponent \<times> IcalProperty)" where
  "setProperty upper ref c name v params =
     andThen (assertName name ''property'') (\<lambda>_.
     andThen (assertNoLineBreak v (u ''value of '' @ name)) (\<lambda>_.
     andThen (mapE (\<lambda>q. assertName (paramName q) ''parameter'') (orElse params [])) (\<lambda>_.
       case getProperty upper c name of
         Some existing \<Rightarrow>
           let p = existing\<lparr>propValue := v, propParams := orElse params (propParams existing)\<rparr> in
           Inr (withProperties c (map (\<lambda>q. if propRef q = propRef existing then p else q) (compProperties c)), p)
       | None \<Rightarrow>
           let p = \<lparr>propRef = ref, propName = upper name, propParams = orElse params [], propValue = v, propSource = None\<rparr> in
           Inr (withProperties c (compProperties c @ [p]), p))))"

definition removeProperty :: "(units \<Rightarrow> units) \<Rightarrow> IcalComponent \<Rightarrow> units \<Rightarrow> IcalComponent \<times> nat" where
  "removeProperty upper c name =
     (let kept = filter (\<lambda>p. upper (propName p) \<noteq> upper name) (compProperties c) in
      (withProperties c kept, length (compProperties c) - length kept))"

definition readText :: "IcalProperty \<Rightarrow> units" where "readText p = icsUnescape (propValue p)"

definition writeText :: "(units \<Rightarrow> units) \<Rightarrow> nat \<Rightarrow> IcalComponent \<Rightarrow> units \<Rightarrow> units \<Rightarrow> units + (IcalComponent \<times> IcalProperty)" where
  "writeText upper ref c name v = setProperty upper ref c name (icsEscape v) None"

text \<open>A raw list value split on commas that no backslash escapes.\<close>

fun splitItems :: "units \<Rightarrow> units \<Rightarrow> units list" where
  "splitItems part [] = [part]"
| "splitItems part [x] = (if x = 44 then [part, []] else [part @ [x]])"
| "splitItems part (x # y # s) =
     (if x = 92 then splitItems (part @ [x, y]) s
      else if x = 44 then part # splitItems [] (y # s)
      else splitItems (part @ [x]) (y # s))"

definition splitList :: "units \<Rightarrow> units list" where "splitList v = splitItems [] v"

definition readList :: "(units \<Rightarrow> units) \<Rightarrow> IcalComponent \<Rightarrow> units \<Rightarrow> units list" where
  "readList upper c name =
     concat (map (\<lambda>p. if propValue p = [] then [] else map icsUnescape (splitList (propValue p))) (getProperties upper c name))"

definition writeList :: "(units \<Rightarrow> units) \<Rightarrow> nat \<Rightarrow> IcalComponent \<Rightarrow> units \<Rightarrow> units list \<Rightarrow> units + IcalComponent" where
  "writeList upper ref c name items =
     (if items = [] then Inr (fst (removeProperty upper c name))
      else
        let v = joinUnits [44] (map icsEscape items) in
        case getProperty upper c name of
          None \<Rightarrow> andThen (setProperty upper ref c name v None) (\<lambda>r. Inr (fst r))
        | Some first \<Rightarrow>
            let c1 = withProperties c (filter (\<lambda>p. propRef p = propRef first \<or> upper (propName p) \<noteq> upper (propName first)) (compProperties c)) in
            andThen (setProperty upper ref c1 name v None) (\<lambda>r. Inr (fst r)))"

section \<open>Dates\<close>

definition validDate :: "string \<Rightarrow> bool" where
  "validDate date \<longleftrightarrow> \<not> strLess date ''0100'' \<and> (case parseIsoDate date of Inl _ \<Rightarrow> False | Inr _ \<Rightarrow> True)"

definition plainText :: "units \<Rightarrow> string" where "plainText s = map char_of s"

definition firstValue :: "(units \<Rightarrow> units) \<Rightarrow> IcalProperty \<Rightarrow> units \<Rightarrow> units option" where
  "firstValue upper p name =
     (case getParameter upper p name of None \<Rightarrow> None
      | Some q \<Rightarrow> (case paramValues q of [] \<Rightarrow> None | v # _ \<Rightarrow> Some v))"

definition readDate :: "(units \<Rightarrow> units) \<Rightarrow> IcalProperty \<Rightarrow> IcalDateValue option" where
  "readDate upper p =
     (let raw = hd (splitList (propValue p));
          timed = (length raw = 15 \<or> length raw = 16 \<and> raw ! 15 = 90) \<and> raw ! 8 = 84 \<and> digitsAt raw [9..<15] in
      if \<not> (digitsAt raw [0..<8] \<and> (length raw = 8 \<or> timed)) then None
      else
        let date = plainText (take 4 raw) @ ''-'' @ plainText (take 2 (drop 4 raw)) @ ''-'' @ plainText (take 2 (drop 6 raw));
            isDate = map_option upper (firstValue upper p (u ''VALUE'')) = Some (u ''DATE'') in
        if \<not> validDate date then None
        else if length raw = 8 then
          (if isDate \<or> getParameter upper p (u ''VALUE'') = None
           then Some \<lparr>valueKind = DateKind, valueDate = date, valueTime = None, valueTzid = None\<rparr> else None)
        else if isDate \<or> numberAt raw 9 2 > 23 \<or> numberAt raw 11 2 > 59 \<or> numberAt raw 13 2 > 60 then None
        else
          let time = plainText (take 2 (drop 9 raw)) @ '':'' @ plainText (take 2 (drop 11 raw)) @ '':'' @ plainText (take 2 (drop 13 raw)) in
          if length raw = 16 then Some \<lparr>valueKind = UtcKind, valueDate = date, valueTime = Some time, valueTzid = None\<rparr>
          else (case firstValue upper p (u ''TZID'') of
              Some tzid \<Rightarrow> if tzid \<noteq> []
                then Some \<lparr>valueKind = ZonedKind, valueDate = date, valueTime = Some time, valueTzid = Some tzid\<rparr>
                else Some \<lparr>valueKind = FloatingKind, valueDate = date, valueTime = Some time, valueTzid = None\<rparr>
            | None \<Rightarrow> Some \<lparr>valueKind = FloatingKind, valueDate = date, valueTime = Some time, valueTzid = None\<rparr>))"

definition PAIRED :: "(units \<times> units list) list" where
  "PAIRED = [(u ''DTSTART'', [u ''DUE'', u ''DTEND'']), (u ''DUE'', [u ''DTSTART'']), (u ''DTEND'', [u ''DTSTART''])]"

text \<open>\<open>/^([01]\d|2[0-3]):([0-5]\d):([0-5]\d|60)$/\<close>.\<close>

definition clockTime :: "string \<Rightarrow> bool" where
  "clockTime s \<longleftrightarrow> length s = 8 \<and> s ! 2 = CHR '':'' \<and> s ! 5 = CHR '':'' \<and>
     list_all (\<lambda>i. isDigit (s ! i)) [0, 1, 3, 4, 6, 7] \<and>
     readNat (take 2 s) \<le> 23 \<and> readNat (take 2 (drop 3 s)) \<le> 59 \<and> readNat (drop 6 s) \<le> 60"

text \<open>The partners of a property whose value type differs, in the order they are looked at.\<close>

definition mismatched :: "(units \<Rightarrow> units) \<Rightarrow> IcalComponent \<Rightarrow> units \<Rightarrow> bool \<Rightarrow> units list" where
  "mismatched upper c name isDate =
     filter (\<lambda>partner. case getProperty upper c partner of None \<Rightarrow> False
        | Some other \<Rightarrow> (case readDate upper other of None \<Rightarrow> False | Some v \<Rightarrow> (valueKind v = DateKind) \<noteq> isDate))
       (orElse (map_of PAIRED name) [])"

definition jsonText :: "string option \<Rightarrow> units" where
  "jsonText v = (case v of None \<Rightarrow> u ''undefined'' | Some s \<Rightarrow> quoteJson (u s))"

definition jsonUnits :: "units option \<Rightarrow> units" where
  "jsonUnits v = (case v of None \<Rightarrow> u ''undefined'' | Some s \<Rightarrow> quoteJson s)"

text \<open>The checks of \<open>writeDate\<close>, in order.\<close>

definition dateRefused :: "(units \<Rightarrow> units) \<Rightarrow> IcalComponent option \<Rightarrow> IcalComponent \<Rightarrow> units \<Rightarrow> IcalDateValue \<Rightarrow> IcalError + unit" where
  "dateRefused upper doc c name val =
     (let existing = getProperty upper c name; isDate = valueKind val = DateKind in
      if (case existing of None \<Rightarrow> False | Some p \<Rightarrow> length (splitList (propValue p)) > 1)
      then icalFail InvalidValue (name @ u '' holds a list; writeDateProperty writes one value'') None
      else if \<not> validDate (valueDate val)
      then icalFail InvalidValue (u ''invalid date '' @ quoteJson (u (valueDate val))) None
      else if \<not> isDate \<and> \<not> clockTime (orElse (valueTime val) [])
      then icalFail InvalidValue (u ''invalid time '' @ jsonText (valueTime val)) None
      else if name \<in> set UTC_ONLY \<and> valueKind val \<noteq> UtcKind
      then icalFail InvalidValue (name @ u '' must be a UTC date-time'') None
      else if name = u ''CREATED'' \<and> existing \<noteq> None
      then icalFail InvalidValue (u ''CREATED is set once and never rewritten'') None
      else (case mismatched upper c name isDate of
          partner # _ \<Rightarrow> icalFail ValueTypeMismatch (name @ u '' and '' @ partner @ u '' must both be dates or both be date-times'') None
        | [] \<Rightarrow>
            if valueKind val = ZonedKind \<and>
              (valueTzid val = None \<or> valueTzid val = Some [] \<or>
               valueTzid val \<noteq> Option.bind existing (\<lambda>p. firstValue upper p (u ''TZID'')) \<and>
               (case doc of None \<Rightarrow> True | Some d \<Rightarrow> findTimezone upper (the (valueTzid val)) d = None))
            then icalFail UnknownTzid (u ''no VTIMEZONE defines '' @ jsonUnits (valueTzid val)) None
            else Inr ()))"

definition dateDigits :: "IcalDateValue \<Rightarrow> units" where
  "dateDigits val =
     u (filter (\<lambda>c. c \<noteq> CHR ''-'') (valueDate val)) @
     (if valueKind val = DateKind then []
      else u (CHR ''T'' # filter (\<lambda>c. c \<noteq> CHR '':'') (the (valueTime val))) @ (if valueKind val = UtcKind then u ''Z'' else []))"

definition dateParams :: "IcalDateValue \<Rightarrow> IcalParameter list \<Rightarrow> IcalParameter list" where
  "dateParams val existing =
     (let keep = filter (\<lambda>q. paramName q \<noteq> u ''VALUE'' \<and> paramName q \<noteq> u ''TZID'') existing in
      case valueKind val of
        DateKind \<Rightarrow> \<lparr>paramName = u ''VALUE'', paramValues = [u ''DATE'']\<rparr> # keep
      | ZonedKind \<Rightarrow> \<lparr>paramName = u ''TZID'', paramValues = [the (valueTzid val)]\<rparr> # keep
      | _ \<Rightarrow> keep)"

text \<open>A refusal is a result, a \<open>TypeError\<close> of \<open>setProperty\<close> a throw.\<close>

definition writeDateProperty :: "(units \<Rightarrow> units) \<Rightarrow> nat \<Rightarrow> IcalComponent option \<Rightarrow> IcalComponent \<Rightarrow> units \<Rightarrow> IcalDateValue \<Rightarrow>
    units + (IcalError + (IcalComponent \<times> IcalProperty))" where
  "writeDateProperty upper ref doc c name0 val =
     (let name = upper name0 in
      case dateRefused upper doc c name val of
        Inl e \<Rightarrow> Inr (Inl e)
      | Inr _ \<Rightarrow>
          andThen (setProperty upper ref c name (dateDigits val)
              (Some (dateParams val (case getProperty upper c name of None \<Rightarrow> [] | Some p \<Rightarrow> propParams p)))) (\<lambda>r. Inr (Inr r)))"

end
