(* ===== verification/IcalProofs.thy ===== *)
theory IcalProofs
  imports Ical
begin

text \<open>
  What \<open>time/ical.ts\<close> promises of a document it has read: written back untouched it has the lines that came in,
  an edit of a property rewrites its own line only, and a date that was written reads back. The invariant of
  the parse loop (\<open>readSoFar\<close>) says what the open components would write.
\<close>

text \<open>What \<open>toUpperCase\<close> documents: it maps each character on its own, ASCII letters to capitals, and leaves no small ASCII letter.\<close>

definition upperOk :: "(units \<Rightarrow> units) \<Rightarrow> bool" where
  "upperOk upper \<longleftrightarrow> (\<forall>s. list_all (\<lambda>c. c < 128) s \<longrightarrow> upper s = upperAscii s) \<and>
     (\<forall>a b. upper (a @ 58 # b) = upper a @ 58 # upper b) \<and>
     (\<forall>s c. c \<in> set (upper s) \<longrightarrow> \<not> (97 \<le> c \<and> c \<le> 122))"

lemma nameUnit_ascii: "nameUnit c \<Longrightarrow> c < 128"
  by (auto simp: nameUnit_def isDigitU_def)

lemma upperAscii_ascii: "list_all (\<lambda>c. c < 128) s \<Longrightarrow> list_all (\<lambda>c. c < 128) (upperAscii s)"
  by (auto simp: upperAscii_def list_all_iff)

lemma upperAscii_idem [simp]: "upperAscii (upperAscii s) = upperAscii s"
  by (auto simp: upperAscii_def)

lemma upper_name:
  assumes "upperOk upper" "list_all nameUnit s"
  shows "upper s = upperAscii s" "upper (upperAscii s) = upperAscii s"
proof -
  have "list_all (\<lambda>c. c < 128) s" using assms(2) nameUnit_ascii by (auto simp: list_all_iff)
  then show "upper s = upperAscii s" "upper (upperAscii s) = upperAscii s"
    using assms(1) upperAscii_ascii by (auto simp: upperOk_def)
qed

lemma upper_upper:
  assumes "upperOk upper" "isName (upper s)"
  shows "upper (upper s) = upper s"
proof -
  have "upper (upper s) = upperAscii (upper s)" using upper_name [OF assms(1)] assms(2) by (simp add: isName_def)
  also have "\<dots> = upper s" unfolding upperAscii_def
    by (rule map_idI) (use assms(1) in \<open>auto simp: upperOk_def\<close>)
  finally show ?thesis .
qed

section \<open>Physical and logical lines\<close>

lemma splitLines_no_lf: "l \<in> set (splitLines s) \<Longrightarrow> 10 \<notin> set l"
  by (induction s arbitrary: l rule: splitLines.induct) (auto split: if_splits list.splits)

lemma numberedLines_no_lf: "l \<in> set (numberedLines s) \<Longrightarrow> 10 \<notin> set (fst l)"
proof -
  assume "l \<in> set (numberedLines s)"
  then have "(fst l, snd l) \<in> set (zip (splitLines s) [1..<length (splitLines s) + 1])"
    unfolding numberedLines_def Let_def by simp
  then have "fst l \<in> set (splitLines s)" by (rule set_zip_leftD)
  then show ?thesis by (rule splitLines_no_lf)
qed

lemma unfold_fold:
  assumes "10 \<notin> set s" "w = 32 \<or> w = 9"
  shows "unfoldLines (s @ CRLF @ w # r) = s @ unfoldLines r"
  using assms
proof (induction s)
  case Nil
  then show ?case by (auto simp: CRLF_def foldBreak_def)
next
  case (Cons x s)
  have "foldBreak (x # s @ CRLF @ w # r) = 0"
    using Cons.prems by (cases s) (auto simp: foldBreak_def CRLF_def)
  then show ?case using Cons by simp
qed

lemma joinUnits_Cons: "joinUnits sep (x # xs) = x @ (if xs = [] then [] else sep @ joinUnits sep xs)"
  by (cases xs) simp_all

lemma unfold_lines:
  assumes "10 \<notin> set (fst l)" "\<forall>c \<in> set cs. 10 \<notin> set (fst c) \<and> continues c"
  shows "unfoldLines (joinUnits CRLF (map fst (l # cs))) = fst l @ concat (map (\<lambda>c. tl (fst c)) cs)"
  using assms
proof (induction cs arbitrary: l)
  case Nil
  then show ?case by (simp add: unfold_last)
next
  case (Cons c cs)
  then obtain w r where c: "fst c = w # r" "w = 32 \<or> w = 9" by (auto simp: continues_def prefix_def)
  have "joinUnits CRLF (map fst (l # c # cs)) = fst l @ CRLF @ w # joinUnits CRLF (map fst ((r, snd c) # cs))"
    using c(1) by (simp add: joinUnits_Cons)
  then have "unfoldLines (joinUnits CRLF (map fst (l # c # cs))) = fst l @ unfoldLines (joinUnits CRLF (map fst ((r, snd c) # cs)))"
    using unfold_fold [OF Cons.prems(1) c(2)] by simp
  then show ?case using Cons.IH [of "(r, snd c)"] Cons.prems c(1) by simp
qed

lemma join_join: "\<forall>g \<in> set gs. g \<noteq> [] \<Longrightarrow> joinUnits sep (map (joinUnits sep) gs) = joinUnits sep (concat gs)"
proof (induction gs)
  case (Cons g gs)
  have "joinUnits sep (a @ b) = joinUnits sep a @ sep @ joinUnits sep b" if "a \<noteq> []" "b \<noteq> []" for a b
    using that by (induction a) (auto simp: joinUnits_Cons)
  moreover have "concat gs \<noteq> [] \<longleftrightarrow> gs \<noteq> []" using Cons.prems by (cases gs) auto
  ultimately show ?case using Cons by (simp add: joinUnits_Cons)
qed simp

section \<open>Content lines\<close>

lemma paramLoop_grows: "paramLoop name s ps = Inr (qs, r) \<Longrightarrow> r = s \<and> qs = ps \<or> length ps < length qs"
proof (induction name s ps rule: paramLoop.induct)
  case (1 name s params)
  then show ?case
    by (subst (asm) (3) paramLoop.simps) (force simp: Let_def split: if_splits sum.splits prod.splits)
qed

lemma parsed_line:
  assumes "parseContentLine s = Inr parsed"
  shows "\<exists>nm. list_all nameUnit nm \<and> lineName parsed = upperAscii nm \<and>
    (lineParams parsed = [] \<longrightarrow> s = nm @ 58 # lineValue parsed)"
proof -
  let ?nm = "takeWhile nameUnit s"
  obtain params r where r: "paramLoop ?nm (dropWhile nameUnit s) [] = Inr (params, r)" "prefix [58] r"
    "parsed = \<lparr>lineName = upperAscii ?nm, lineParams = params, lineValue = tl r\<rparr>"
    using assms by (auto simp: parseContentLine_def Let_def split: if_splits sum.splits)
  have "list_all nameUnit ?nm" by (auto simp: list_all_iff dest: set_takeWhileD)
  moreover have "s = ?nm @ 58 # tl r" if "params = []"
  proof -
    have "dropWhile nameUnit s = r" using paramLoop_grows [OF r(1)] that by auto
    moreover have "r = 58 # tl r" using r(2) by (cases r) auto
    ultimately have "dropWhile nameUnit s = 58 # tl r" by simp
    then show ?thesis using takeWhile_dropWhile_id [of nameUnit s] by metis
  qed
  ultimately show ?thesis using r(3) by auto
qed

section \<open>What the open components write\<close>

definition pureBody :: "IcalProperty list \<Rightarrow> (nat option \<times> units list) list \<Rightarrow> units list" where
  "pureBody ps kids =
     concat (map (\<lambda>p. concat (map snd (filter (\<lambda>k. fst k = Some (propRef p)) kids)) @ [the (propSource p)]) ps) @
     concat (map snd (filter (\<lambda>k. fst k = None \<or> the (fst k) \<notin> propRef ` set ps) kids))"

lemma mapE_id: "mapE id (map Inr xs) = Inr xs" "mapE id (map (Inr \<circ> f) xs) = Inr (map f xs)"
  by (induction xs) simp_all

lemma bodyLines_pure:
  assumes "\<forall>p \<in> set ps. sourceMatches upper p"
  shows "bodyLines upper ps (map (\<lambda>k. (fst k, Inr (snd k))) kids) = Inr (pureBody ps kids)"
proof -
  have f: "map snd (filter P (map (\<lambda>k. (fst k, Inr (snd k))) kids)) = map Inr (map snd (filter (\<lambda>k. P (fst k, Inr (snd k))) kids))"
    for P :: "nat option \<times> (units + units list) \<Rightarrow> bool"
    by (induction kids) auto
  have "mapE (\<lambda>p. andThen (mapE id (map snd (filter (\<lambda>k. fst k = Some (propRef p)) (map (\<lambda>k. (fst k, Inr (snd k))) kids))))
        (\<lambda>ls. andThen (propertyLines upper p) (\<lambda>l. Inr (concat ls @ [l])))) ps =
      Inr (map (\<lambda>p. concat (map snd (filter (\<lambda>k. fst k = Some (propRef p)) kids)) @ [the (propSource p)]) ps)"
    using assms by (intro mapE_Inr) (simp add: f mapE_id propertyLines_def)
  then show ?thesis by (simp add: bodyLines_def Let_def f mapE_id pureBody_def)
qed

lemma pureBody_child: "pureBody ps (kids @ [(None, l)]) = pureBody ps kids @ l"
  by (simp add: pureBody_def)

lemma pureBody_property:
  assumes "r \<notin> propRef ` set ps" "propRef p = r" "\<forall>k \<in> set kids. fst k = None \<or> the (fst k) \<in> propRef ` set ps"
  shows "pureBody (ps @ [p]) (map (\<lambda>k. (if fst k = None then Some r else fst k, snd k)) kids) = pureBody ps kids @ [the (propSource p)]"
proof -
  let ?set = "\<lambda>k. (if fst k = None then Some r else fst k, snd k)"
  have old: "map snd (filter (\<lambda>k. fst k = Some (propRef q)) (map ?set kids)) = map snd (filter (\<lambda>k. fst k = Some (propRef q)) kids)"
    if "q \<in> set ps" for q
    using that assms(1) by (induction kids) (auto simp: image_iff)
  have new: "map snd (filter (\<lambda>k. fst k = Some r) (map ?set kids)) = map snd (filter (\<lambda>k. fst k = None \<or> the (fst k) \<notin> propRef ` set ps) kids)"
    using assms(1,3) by (induction kids) auto
  have none: "filter (\<lambda>k. fst k = None \<or> the (fst k) \<notin> propRef ` set (ps @ [p])) (map ?set kids) = []"
    using assms(2,3) by (auto simp: filter_empty_conv)
  have "pureBody (ps @ [p]) (map ?set kids) =
      concat (map (\<lambda>q. concat (map snd (filter (\<lambda>k. fst k = Some (propRef q)) (map ?set kids))) @ [the (propSource q)]) ps) @
      concat (map snd (filter (\<lambda>k. fst k = Some r) (map ?set kids))) @ [the (propSource p)]"
    unfolding pureBody_def none using assms(2) by simp
  also have "map (\<lambda>q. concat (map snd (filter (\<lambda>k. fst k = Some (propRef q)) (map ?set kids))) @ [the (propSource q)]) ps =
      map (\<lambda>q. concat (map snd (filter (\<lambda>k. fst k = Some (propRef q)) kids)) @ [the (propSource q)]) ps"
    by (intro map_cong refl) (simp only: old)
  finally show ?thesis unfolding new by (simp add: pureBody_def)
qed

definition linesOf :: "(units \<Rightarrow> units) \<Rightarrow> IcalComponent \<Rightarrow> units list" where
  "linesOf upper c = (case writeComponent upper c of Inr ls \<Rightarrow> ls | Inl _ \<Rightarrow> [])"

definition bodySoFar :: "(units \<Rightarrow> units) \<Rightarrow> openComponent \<Rightarrow> units list" where
  "bodySoFar upper f = pureBody (openProperties f) (map (\<lambda>c. (compBefore c, linesOf upper c)) (openChildren f))"

text \<open>An open component, read with \<open>n\<close> properties in the document so far.\<close>

definition frameOk :: "(units \<Rightarrow> units) \<Rightarrow> nat \<Rightarrow> openComponent \<Rightarrow> bool" where
  "frameOk upper n f \<longleftrightarrow>
     isName (openName f) \<and> upper (openName f) = openName f \<and>
     upper (unfoldLines (openBegin f)) = u ''BEGIN'' @ [58] @ openName f \<and>
     (\<forall>p \<in> set (openProperties f). propRef p < n \<and> sourceMatches upper p) \<and>
     (\<forall>c \<in> set (openChildren f). \<exists>ls. writeComponent upper c = Inr ls) \<and>
     (\<forall>c \<in> set (openChildren f). compBefore c = None \<or> the (compBefore c) \<in> propRef ` set (openProperties f))"

fun stackLines :: "(units \<Rightarrow> units) \<Rightarrow> openComponent list \<Rightarrow> units list" where
  "stackLines upper [] = []"
| "stackLines upper (f # fs) = stackLines upper fs @ [openBegin f] @ bodySoFar upper f"

definition readSoFar :: "(units \<Rightarrow> units) \<Rightarrow> icalState \<Rightarrow> units list \<Rightarrow> bool" where
  "readSoFar upper st ls \<longleftrightarrow>
     (\<forall>f \<in> set (openStack st). frameOk upper (propCount st) f) \<and>
     (case docRoot st of None \<Rightarrow> stackLines upper (openStack st) = ls
      | Some doc \<Rightarrow> openStack st = [] \<and> writeComponent upper doc = Inr ls)"

lemma frameOk_mono: "frameOk upper n f \<Longrightarrow> n \<le> m \<Longrightarrow> frameOk upper m f"
  by (auto simp: frameOk_def)

lemma writeComponent_precede [simp]: "writeComponent upper (precede r c) = writeComponent upper c"
  by (cases c) (simp add: precede_def)

lemma linesOf_precede [simp]: "linesOf upper (precede r c) = linesOf upper c"
  by (simp add: linesOf_def)

lemma compBefore_precede: "compBefore (precede r c) = (if compBefore c = None then Some r else compBefore c)"
  by (cases c) (simp add: precede_def)

lemma closed_lines:
  assumes "frameOk upper n f" "upper (unfoldLines ending) = u ''END'' @ [58] @ openName f"
  shows "writeComponent upper (closed f ending) = Inr ([openBegin f] @ bodySoFar upper f @ [ending])"
proof -
  let ?kids = "map (\<lambda>c. (compBefore c, linesOf upper c)) (openChildren f)"
  have same: "map (\<lambda>c. (compBefore c, writeComponent upper c)) (openChildren f) = map (\<lambda>k. (fst k, Inr (snd k))) ?kids"
    using assms(1) by (auto simp: frameOk_def linesOf_def)
  have "\<forall>p \<in> set (openProperties f). sourceMatches upper p" using assms(1) by (simp add: frameOk_def)
  then have "bodyLines upper (openProperties f) (map (\<lambda>c. (compBefore c, writeComponent upper c)) (openChildren f)) =
      Inr (bodySoFar upper f)"
    unfolding same bodySoFar_def by (rule bodyLines_pure)
  then show ?thesis using assms by (simp add: closed_def assertName_def frameOk_def keptLine_def)
qed

lemma block_source:
  assumes "upperOk upper" "parseContentLine (unfoldLines source) = Inr parsed" "lineParams parsed = []"
  shows "upper (unfoldLines source) = lineName parsed @ [58] @ upper (lineValue parsed)"
proof -
  obtain nm where "list_all nameUnit nm" "lineName parsed = upperAscii nm" "unfoldLines source = nm @ 58 # lineValue parsed"
    using parsed_line [OF assms(2)] assms(3) by auto
  then show ?thesis using upper_name(1) [OF assms(1)] assms(1) by (simp add: upperOk_def)
qed

lemma block_keeps:
  assumes "upperOk upper" "parseContentLine (unfoldLines source) = Inr parsed" "lineName parsed = u ''BEGIN'' \<or> lineName parsed = u ''END''"
    and "readSoFar upper st ls" "blockLine upper depth parsed source number st = Inr st'"
  shows "readSoFar upper st' (ls @ [source])"
proof -
  let ?name = "upper (lineValue parsed)"
  have name: "isName ?name" "lineParams parsed = []"
    using assms(5) by (auto simp: blockLine_def Let_def icalFail_def split: if_splits)
  note source = block_source [OF assms(1,2) name(2)] and same = upper_upper [OF assms(1) name(1)]
  show ?thesis
  proof (cases "lineName parsed = u ''BEGIN''")
    case True
    let ?f = "\<lparr>openName = ?name, openBegin = source, openProperties = [], openChildren = []\<rparr>"
    have st': "st' = st\<lparr>openStack := ?f # openStack st\<rparr>" "\<not> (docRoot st \<noteq> None \<and> openStack st = [])"
      using assms(5) True name by (auto simp: blockLine_def Let_def icalFail_def split: if_splits)
    have "docRoot st = None" using st'(2) assms(4) by (auto simp: readSoFar_def split: option.splits)
    moreover have "frameOk upper (propCount st) ?f" using name(1) same source True by (simp add: frameOk_def)
    ultimately show ?thesis using assms(4) st'(1) by (simp add: readSoFar_def bodySoFar_def pureBody_def)
  next
    case False
    then have ending: "lineName parsed = u ''END''" using assms(3) by simp
    obtain f fs where f: "openStack st = f # fs" "openName f = ?name"
      using assms(5) False name by (auto simp: blockLine_def Let_def icalFail_def split: if_splits list.splits)
    have none: "docRoot st = None" using assms(4) f(1) by (auto simp: readSoFar_def split: option.splits)
    have frames: "frameOk upper (propCount st) f" "\<forall>g \<in> set fs. frameOk upper (propCount st) g"
      using assms(4) f(1) by (auto simp: readSoFar_def)
    note wrote = closed_lines [OF frames(1), of source]
    have ls: "ls = stackLines upper fs @ [openBegin f] @ bodySoFar upper f"
      using assms(4) f(1) none by (simp add: readSoFar_def)
    show ?thesis
    proof (cases fs)
      case Nil
      then have "st' = st\<lparr>openStack := [], docRoot := Some (closed f source)\<rparr>"
        using assms(5) False name f by (auto simp: blockLine_def Let_def icalFail_def split: if_splits)
      then show ?thesis using wrote source ending f(2) ls Nil by (simp add: readSoFar_def)
    next
      case (Cons g gs)
      then have st': "st' = st\<lparr>openStack := g\<lparr>openChildren := openChildren g @ [closed f source]\<rparr> # gs\<rparr>"
        using assms(5) False name f by (auto simp: blockLine_def Let_def icalFail_def split: if_splits)
      have "compBefore (closed f source) = None" by (simp add: closed_def)
      then show ?thesis using wrote source ending f(2) ls Cons frames st' none
        by (auto simp: readSoFar_def frameOk_def bodySoFar_def pureBody_child linesOf_def)
    qed
  qed
qed

lemma property_keeps:
  assumes "upperOk upper" "parseContentLine (unfoldLines source) = Inr parsed"
    and "readSoFar upper st ls" "propertyLine parsed source number st = Inr st'"
  shows "readSoFar upper st' (ls @ [source])"
proof -
  obtain f fs where f: "openStack st = f # fs" using assms(4) by (auto simp: propertyLine_def icalFail_def split: list.splits)
  have none: "docRoot st = None" using assms(3) f(1) by (auto simp: readSoFar_def split: option.splits)
  let ?p = "\<lparr>propRef = propCount st, propName = lineName parsed, propParams = lineParams parsed,
    propValue = lineValue parsed, propSource = Some source\<rparr>"
  let ?f = "f\<lparr>openProperties := openProperties f @ [?p], openChildren := map (precede (propCount st)) (openChildren f)\<rparr>"
  have st': "st' = st\<lparr>openStack := ?f # fs, propCount := Suc (propCount st)\<rparr>"
    using assms(4) f by (simp add: propertyLine_def)
  have ok: "frameOk upper (propCount st) f" "\<forall>g \<in> set fs. frameOk upper (propCount st) g"
    using assms(3) f by (auto simp: readSoFar_def)
  obtain nm where "list_all nameUnit nm" "lineName parsed = upperAscii nm" using parsed_line [OF assms(2)] by blast
  then have matches: "sourceMatches upper ?p" using assms(2) upper_name(2) [OF assms(1)] by (simp add: sourceMatches_def)
  let ?kids = "map (\<lambda>c. (compBefore c, linesOf upper c)) (openChildren f)"
  have "pureBody (openProperties f @ [?p]) (map (\<lambda>k. (if fst k = None then Some (propCount st) else fst k, snd k)) ?kids) =
      pureBody (openProperties f) ?kids @ [the (propSource ?p)]"
    using ok(1) by (intro pureBody_property) (auto simp: frameOk_def)
  moreover have "bodySoFar upper ?f =
      pureBody (openProperties f @ [?p]) (map (\<lambda>k. (if fst k = None then Some (propCount st) else fst k, snd k)) ?kids)"
    by (simp add: bodySoFar_def comp_def compBefore_precede cong: if_cong)
  ultimately have body: "bodySoFar upper ?f = bodySoFar upper f @ [source]" by (simp add: bodySoFar_def)
  have "frameOk upper (Suc (propCount st)) ?f"
    using ok(1) matches by (auto simp: frameOk_def compBefore_precede less_Suc_eq)
  moreover have "\<forall>g \<in> set fs. frameOk upper (Suc (propCount st)) g" using ok(2) frameOk_mono [of upper "propCount st"] by simp
  ultimately show ?thesis using assms(3) none f st' body by (simp add: readSoFar_def)
qed

lemma logical_keeps:
  assumes "upperOk upper" "readSoFar upper st ls" "logicalLine upper depth line conts st = Inr st'"
    and "10 \<notin> set (fst line)" "\<forall>c \<in> set conts. 10 \<notin> set (fst c) \<and> continues c"
  shows "readSoFar upper st' (ls @ [joinUnits CRLF (map fst (line # conts))])"
proof -
  let ?source = "joinUnits CRLF (map fst (line # conts))"
  have unfolded: "unfoldLines ?source = fst line @ concat (map (\<lambda>l. tl (fst l)) conts)" by (rule unfold_lines [OF assms(4,5)])
  obtain parsed where parsed: "parseContentLine (unfoldLines ?source) = Inr parsed"
    "(if lineName parsed = u ''BEGIN'' \<or> lineName parsed = u ''END'' then blockLine upper depth parsed ?source (snd line) st
      else propertyLine parsed ?source (snd line) st) = Inr st'"
  proof (cases "parseContentLine (unfoldLines ?source)")
    case (Inl e)
    then show ?thesis using assms(3) unfolding logicalLine_def Let_def unfolded by (simp add: icalFail_def)
  next
    case (Inr parsed)
    then show ?thesis using assms(3) that [of parsed] unfolding logicalLine_def Let_def unfolded by simp
  qed
  show ?thesis
  proof (cases "lineName parsed = u ''BEGIN'' \<or> lineName parsed = u ''END''")
    case True
    then show ?thesis using block_keeps [OF assms(1) parsed(1) True assms(2)] parsed(2) by simp
  next
    case False
    then show ?thesis using property_keeps [OF assms(1) parsed(1) assms(2)] parsed(2) by simp
  qed
qed

lemma parseLoop_keeps:
  assumes "upperOk upper" "parseLoop upper depth ls st = Inr st'" "readSoFar upper st out"
    and "\<forall>l \<in> set ls. 10 \<notin> set (fst l)"
  shows "\<exists>gs. (\<forall>g \<in> set gs. g \<noteq> []) \<and> concat gs = map fst ls \<and> readSoFar upper st' (out @ map (joinUnits CRLF) gs)"
  using assms
proof (induction upper depth ls st arbitrary: out rule: parseLoop.induct)
  case (1 upper depth st)
  then show ?case by (intro exI [of _ "[]"]) simp
next
  case (2 upper depth line ls st)
  obtain st1 where st1: "logicalLine upper depth line (takeWhile continues ls) st = Inr st1"
    "parseLoop upper depth (dropWhile continues ls) st1 = Inr st'" "\<not> continues line"
    using 2(3) by (auto simp: icalFail_def andThen_Inr split: if_splits)
  have conts: "\<forall>c \<in> set (takeWhile continues ls). 10 \<notin> set (fst c) \<and> continues c"
    using 2(5) by (auto dest: set_takeWhileD)
  let ?g = "map fst (line # takeWhile continues ls)"
  have "readSoFar upper st1 (out @ [joinUnits CRLF ?g])"
    using logical_keeps [OF 2(2) 2(4) st1(1) _ conts] 2(5) by simp
  from 2(1) [OF st1(3) 2(2) st1(2) this] obtain gs where gs: "\<forall>g \<in> set gs. g \<noteq> []" "concat gs = map fst (dropWhile continues ls)"
    "readSoFar upper st' ((out @ [joinUnits CRLF ?g]) @ map (joinUnits CRLF) gs)"
    using 2(5) by (auto dest: set_dropWhileD)
  have "map fst (takeWhile continues ls) @ map fst (dropWhile continues ls) = map fst ls"
    by (metis map_append takeWhile_dropWhile_id)
  then show ?case using gs by (intro exI [of _ "?g # gs"]) simp
qed

lemma numberedLines_texts: "map fst (numberedLines s) = filter (\<lambda>l. l \<noteq> []) (splitLines s)"
proof -
  have "map fst (filter (\<lambda>l. fst l \<noteq> []) (zip ls ns)) = filter (\<lambda>l. l \<noteq> []) ls"
    if "length ls = length ns" for ls :: "units list" and ns :: "nat list"
    using that by (induction ls ns rule: list_induct2) auto
  then show ?thesis unfolding numberedLines_def Let_def by (simp del: upt_Suc)
qed

text \<open>
  C38: An untouched document is written back line for line. With a \<open>toUpperCase\<close> as documented (\<open>upperOk\<close>) and
  whatever the limits, take any text \<open>parseIcal\<close> accepts, with its nesting,
  its folding and its properties and components in any order, \<open>serializeIcal\<close> writes the same physical lines in
  the same order; only a byte-order mark and blank lines are gone and every line ends with CRLF.
\<close>
theorem ical_written_back:
  assumes "upperOk upper" "parseIcal upper maxBytes maxDepth s = Inr doc"
  shows "serializeIcal upper doc =
    Inr (joinUnits CRLF (filter (\<lambda>l. l \<noteq> []) (splitLines (if prefix [0xfeff] s then tl s else s))) @ CRLF)"
proof -
  let ?s = "if prefix [0xfeff] s then tl s else s" and ?start = "\<lparr>openStack = [], docRoot = None, propCount = 0\<rparr>"
  let ?depth = "orElse maxDepth DEFAULT_MAX_DEPTH"
  obtain st where st: "parseLoop upper ?depth (numberedLines ?s) ?start = Inr st"
    "(case (openStack st, docRoot st) of
        (f # fs, _) \<Rightarrow> icalFail Malformed (openName f @ u '' is not closed'') None
      | ([], None) \<Rightarrow> icalFail Malformed (u ''no component found'') None
      | ([], Some doc) \<Rightarrow> Inr doc) = Inr doc"
    using assms(2) by (auto simp: parseIcal_def Let_def icalFail_def andThen_Inr split: if_split_asm)
  then have finished: "openStack st = []" "docRoot st = Some doc"
    by (cases "openStack st"; cases "docRoot st"; simp add: icalFail_def)+
  have "readSoFar upper ?start []" by (simp add: readSoFar_def)
  from parseLoop_keeps [OF assms(1) st(1) this] numberedLines_no_lf [of _ ?s] obtain gs where gs:
    "\<forall>g \<in> set gs. g \<noteq> []" "concat gs = map fst (numberedLines ?s)" "readSoFar upper st (map (joinUnits CRLF) gs)"
    by auto
  then show ?thesis using finished join_join [OF gs(1), of CRLF]
    by (simp add: serializeIcal_def readSoFar_def numberedLines_texts)
qed

section \<open>A fresh content line\<close>

definition normalParameter :: "(units \<Rightarrow> units) \<Rightarrow> IcalParameter \<Rightarrow> IcalParameter" where
  "normalParameter upper q = \<lparr>paramName = upper (paramName q), paramValues = map normalText (paramValues q)\<rparr>"

lemma nameUnit_not: "\<not> nameUnit 58" "\<not> nameUnit 59" "\<not> nameUnit 61" "\<not> nameUnit 44" "\<not> nameUnit 34"
  by (simp_all add: nameUnit_def isDigitU_def)

lemma nameUnit_upper: "97 \<le> c \<Longrightarrow> c \<le> 122 \<Longrightarrow> nameUnit (c - 32)"
  by (auto simp: nameUnit_def isDigitU_def)

lemma isName_upper: "upperOk upper \<Longrightarrow> isName s \<Longrightarrow> upper s = upperAscii s \<and> isName (upper s)"
  using upper_name(1) [of upper s] nameUnit_upper by (auto simp: isName_def upperAscii_def list_all_iff)

lemma escaped_parameter:
  "34 \<notin> set (icsEscapeParameter v)" "10 \<notin> set (icsEscapeParameter v)" "13 \<notin> set (icsEscapeParameter v)"
  "icsUnescapeParameter (icsEscapeParameter v) = normalText v"
proof -
  have rep: "x \<in> set (replaceUnit c t s) \<longleftrightarrow> x \<in> set t \<and> c \<in> set s \<or> x \<in> set s \<and> x \<noteq> c" for x c t s
    by (auto simp: replaceUnit_def split: if_splits)
  have e: "icsEscapeParameter v = replaceUnit LF [94, 110] (replaceUnit 34 [94, 39] (replaceUnit 94 [94, 94] (normalText v)))"
    by (simp add: icsEscapeParameter_def normalText_def stripControlCharacters_def)
  show "34 \<notin> set (icsEscapeParameter v)" "10 \<notin> set (icsEscapeParameter v)" "13 \<notin> set (icsEscapeParameter v)"
    unfolding e using no_cr [of v] by (auto simp: rep LF_def)
  show "icsUnescapeParameter (icsEscapeParameter v) = normalText v"
    unfolding e using unescape_parameter [of "normalText v" "[]"] by simp
qed

lemma oneValue_format:
  assumes "r = [] \<or> valueEnd (hd r)" "r = [] \<or> hd r \<noteq> 34"
  shows "oneValue (formatParameterValue v @ r) = Some (normalText v, r)"
proof (cases "\<exists>c \<in> set (icsEscapeParameter v). c \<in> {58, 59, 44}")
  case True
  then have "formatParameterValue v @ r = 34 # icsEscapeParameter v @ 34 # r" by (simp add: formatParameterValue_def Let_def)
  then show ?thesis
    using indexU_append [OF escaped_parameter(1), of v r] by (simp add: oneValue_def escaped_parameter(4))
next
  case False
  then have plain: "formatParameterValue v = icsEscapeParameter v" by (simp add: formatParameterValue_def Let_def)
  have inner: "\<forall>c \<in> set (icsEscapeParameter v). \<not> valueEnd c"
    using False escaped_parameter(1) by (auto simp: valueEnd_def)
  have "takeWhile (\<lambda>c. \<not> valueEnd c) (icsEscapeParameter v @ r) = icsEscapeParameter v"
    "dropWhile (\<lambda>c. \<not> valueEnd c) (icsEscapeParameter v @ r) = r"
    using inner assms(1) by (cases r; simp add: takeWhile_append dropWhile_append)+
  moreover have "\<not> prefix [34] (icsEscapeParameter v @ r)"
    using escaped_parameter(1) [of v] assms(2) by (cases "icsEscapeParameter v"; cases r) auto
  ultimately show ?thesis by (simp add: oneValue_def plain escaped_parameter(4))
qed

lemma valueLoop_format:
  assumes "vs \<noteq> []" "r \<noteq> []" "hd r = 58 \<or> hd r = 59"
  shows "valueLoop name (joinUnits [44] (map formatParameterValue vs) @ r) acc = Inr (acc @ map normalText vs, r)"
  using assms(1)
proof (induction vs arbitrary: acc)
  case (Cons v vs)
  have r: "\<not> prefix [44] r" using assms(2,3) by (cases r) auto
  show ?case
  proof (cases vs)
    case Nil
    have "oneValue (formatParameterValue v @ r) = Some (normalText v, r)"
      using assms(2,3) by (intro oneValue_format) (auto simp: valueEnd_def)
    then show ?thesis using Nil r by (subst valueLoop.simps) simp
  next
    case (Cons w ws)
    let ?rest = "44 # joinUnits [44] (map formatParameterValue vs) @ r"
    have "oneValue (formatParameterValue v @ ?rest) = Some (normalText v, ?rest)"
      by (intro oneValue_format) (auto simp: valueEnd_def)
    then show ?thesis using Cons.IH [of "acc @ [normalText v]"] \<open>vs = w # ws\<close>
      by (subst valueLoop.simps) (simp add: joinUnits_Cons)
  qed
qed simp

lemma nameRun:
  assumes "list_all nameUnit n" "r \<noteq> []" "\<not> nameUnit (hd r)"
  shows "takeWhile nameUnit (n @ r) = n" "dropWhile nameUnit (n @ r) = r"
proof -
  have "takeWhile nameUnit r = []" "dropWhile nameUnit r = r" using assms(2,3) by (cases r; simp)+
  then show "takeWhile nameUnit (n @ r) = n" "dropWhile nameUnit (n @ r) = r"
    using assms(1) by (simp_all add: takeWhile_append dropWhile_append list_all_iff)
qed

lemma paramLoop_format:
  assumes "upperOk upper" "mapE (formatParameter upper) qs = Inr texts"
  shows "paramLoop name (concat texts @ 58 # r) acc = Inr (acc @ map (normalParameter upper) qs, 58 # r)"
  using assms(2)
proof (induction qs arbitrary: texts acc)
  case Nil
  then show ?case by (subst paramLoop.simps) simp
next
  case (Cons q qs)
  obtain t ts where t: "formatParameter upper q = Inr t" "mapE (formatParameter upper) qs = Inr ts" "texts = t # ts"
    using Cons.prems by (auto simp: andThen_Inr)
  note ih = Cons.IH [OF t(2)]
  let ?n = "upper (paramName q)" and ?rest = "concat ts @ 58 # r"
  have n: "isName (paramName q)" and written: "t = [59] @ ?n @
      (if paramValues q \<noteq> [] then [61] @ joinUnits [44] (map formatParameterValue (paramValues q)) else [])"
    using t(1) by (auto simp: formatParameter_def assertName_def split: if_splits)
  have up: "?n = upperAscii (paramName q)" "list_all nameUnit ?n" "?n \<noteq> []"
    using isName_upper [OF assms(1) n] by (auto simp: isName_def)
  have rest: "?rest \<noteq> []" "hd ?rest = 58 \<or> hd ?rest = 59"
  proof -
    have "hd t' = 59" if "formatParameter upper q' = Inr t'" for q' t'
      using that by (auto simp: formatParameter_def andThen_Inr)
    moreover have "t' \<noteq> []" if "formatParameter upper q' = Inr t'" for q' t'
      using that by (auto simp: formatParameter_def andThen_Inr)
    ultimately show "?rest \<noteq> []" "hd ?rest = 58 \<or> hd ?rest = 59"
      using t(2) by (cases qs; force simp: andThen_Inr)+
  qed
  show ?case
  proof (cases "paramValues q = []")
    case True
    have "takeWhile nameUnit (?n @ ?rest) = ?n" "dropWhile nameUnit (?n @ ?rest) = ?rest"
      using up(2) rest nameUnit_not by (intro nameRun; force)+
    moreover have "\<not> prefix [61] ?rest" using rest by (cases ?rest) auto
    moreover have "upperAscii ?n = ?n" using up(1) by simp
    ultimately show ?thesis using True ih written t(3) up(3)
      by (subst paramLoop.simps) (simp add: normalParameter_def Let_def)
  next
    case False
    let ?vals = "joinUnits [44] (map formatParameterValue (paramValues q)) @ ?rest"
    have "takeWhile nameUnit (?n @ 61 # ?vals) = ?n" "dropWhile nameUnit (?n @ 61 # ?vals) = 61 # ?vals"
      using up(2) nameUnit_not by (intro nameRun; simp)+
    moreover have "valueLoop name ?vals [] = Inr ([] @ map normalText (paramValues q), ?rest)"
      by (rule valueLoop_format [OF False rest])
    moreover have "upperAscii ?n = ?n" using up(1) by simp
    ultimately show ?thesis using False ih written t(3) up(3)
      by (subst paramLoop.simps) (simp add: normalParameter_def Let_def)
  qed
qed

lemma line_reads_back:
  assumes "upperOk upper" "isName n" "mapE (formatParameter upper) qs = Inr texts"
  shows "parseContentLine (upper n @ concat texts @ [58] @ v) =
    Inr \<lparr>lineName = upper n, lineParams = map (normalParameter upper) qs, lineValue = v\<rparr>"
proof -
  let ?rest = "concat texts @ 58 # v"
  have up: "upper n = upperAscii n" "list_all nameUnit (upper n)" "upper n \<noteq> []"
    using isName_upper [OF assms(1,2)] by (auto simp: isName_def)
  have "?rest \<noteq> [] \<and> \<not> nameUnit (hd ?rest)"
  proof (cases qs)
    case (Cons q qs')
    then obtain t ts where "texts = t # ts" "formatParameter upper q = Inr t" using assms(3) by (auto simp: andThen_Inr)
    then show ?thesis using nameUnit_not by (auto simp: formatParameter_def andThen_Inr)
  qed (use assms(3) nameUnit_not in simp)
  then have "takeWhile nameUnit (upper n @ ?rest) = upper n" "dropWhile nameUnit (upper n @ ?rest) = ?rest"
    using nameRun [OF up(2)] by auto
  then show ?thesis using paramLoop_format [OF assms(1,3), of "upper n" v "[]"] up(1,3)
    by (simp add: parseContentLine_def)
qed

section \<open>An edit\<close>

lemma mapE_append: "mapE f (xs @ ys) = andThen (mapE f xs) (\<lambda>a. andThen (mapE f ys) (\<lambda>b. Inr (a @ b)))"
  by (induction xs) (auto simp: andThen_def split: sum.split)

lemma mapE_ok: "(\<forall>x \<in> set xs. \<exists>y. f x = Inr y) \<longleftrightarrow> (\<exists>ys. mapE f xs = Inr ys)"
  by (induction xs) (auto simp: andThen_Inr)

text \<open>The parameters of a parsed line have names.\<close>

lemma paramLoop_names:
  "paramLoop name s ps = Inr (qs, r) \<Longrightarrow> \<forall>q \<in> set ps. isName (paramName q) \<Longrightarrow> \<forall>q \<in> set qs. isName (paramName q)"
proof (induction name s ps rule: paramLoop.induct)
  case (1 name s params)
  let ?n = "takeWhile nameUnit (tl s)" and ?r = "dropWhile nameUnit (tl s)"
  have n: "isName (upperAscii ?n)" if "?n \<noteq> []"
    using that nameUnit_upper by (auto simp: isName_def upperAscii_def list_all_iff dest: set_takeWhileD)
  show ?case
  proof (cases "prefix [59] s \<and> ?n \<noteq> []")
    case False
    then show ?thesis using 1(3,4) by (subst (asm) paramLoop.simps) (auto simp: Let_def split: if_splits)
  next
    case True
    show ?thesis
    proof (cases "prefix [61] ?r")
      case False
      then show ?thesis using 1(2) [OF _ refl refl] 1(3,4) True n
        by (subst (asm) (2) paramLoop.simps) (auto simp: Let_def)
    next
      case eq: True
      obtain vs r' where "valueLoop name (tl ?r) [] = Inr (vs, r')"
        using 1(3) True eq by (subst (asm) paramLoop.simps) (auto simp: Let_def split: sum.splits)
      then show ?thesis using 1(1) [OF _ refl refl _ eq _ refl] 1(3,4) True n eq
        by (subst (asm) (2) paramLoop.simps) (auto simp: Let_def)
    qed
  qed
qed

lemma parsed_names:
  assumes "parseContentLine s = Inr parsed"
  shows "\<forall>q \<in> set (lineParams parsed). isName (paramName q)" "isName (lineName parsed)"
proof -
  let ?nm = "takeWhile nameUnit s"
  obtain params r where r: "paramLoop ?nm (dropWhile nameUnit s) [] = Inr (params, r)" "?nm \<noteq> []"
    "parsed = \<lparr>lineName = upperAscii ?nm, lineParams = params, lineValue = tl r\<rparr>"
    using assms by (auto simp: parseContentLine_def Let_def split: if_splits sum.splits)
  show "\<forall>q \<in> set (lineParams parsed). isName (paramName q)" using paramLoop_names [OF r(1)] r(3) by simp
  show "isName (lineName parsed)"
    using r(2,3) nameUnit_upper by (auto simp: isName_def upperAscii_def list_all_iff dest: set_takeWhileD)
qed

lemma name_no_lf: "upperOk upper \<Longrightarrow> isName s \<Longrightarrow> 10 \<notin> set (upper s)"
proof -
  assume "upperOk upper" "isName s"
  then have "list_all nameUnit (upper s)" using isName_upper by (auto simp: isName_def)
  moreover have "\<not> nameUnit 10" by (simp add: nameUnit_def isDigitU_def)
  ultimately show ?thesis by (auto simp: list_all_iff)
qed

lemma map_other: "r \<notin> propRef ` set xs \<Longrightarrow> map (\<lambda>q. if propRef q = r then p else q) xs = xs"
  by (induction xs) auto

lemma formatParameter_ok: "(\<exists>t. formatParameter upper q = Inr t) \<longleftrightarrow> isName (paramName q)"
  by (simp add: formatParameter_def assertName_def)

lemma formatParameter_no_lf:
  assumes "upperOk upper" "formatParameter upper q = Inr t"
  shows "10 \<notin> set t"
proof -
  have "10 \<notin> set (formatParameterValue v)" for v using escaped_parameter(2) by (simp add: formatParameterValue_def Let_def)
  then have "10 \<notin> set (joinUnits [44] (map formatParameterValue vs))" for vs
    by (induction vs) (auto simp: joinUnits_Cons)
  moreover have "10 \<notin> set (upper (paramName q))"
    using name_no_lf [OF assms(1)] assms(2) formatParameter_ok [of upper q] by auto
  ultimately show ?thesis using assms(2) by (auto simp: formatParameter_def andThen_Inr)
qed

lemma formatted_reads_back:
  assumes "upperOk upper" "isName (propName p)" "\<forall>q \<in> set (propParams p). isName (paramName q)"
    and "10 \<notin> set (propValue p)" "13 \<notin> set (propValue p)"
  shows "\<exists>l. formatProperty upper p = Inr l \<and> parseContentLine (unfoldLines l) =
    Inr \<lparr>lineName = upper (propName p), lineParams = map (normalParameter upper) (propParams p), lineValue = propValue p\<rparr>"
proof -
  obtain texts where texts: "mapE (formatParameter upper) (propParams p) = Inr texts"
    using assms(3) mapE_ok [of "propParams p" "formatParameter upper"] formatParameter_ok [of upper] by auto
  let ?line = "upper (propName p) @ concat texts @ [58] @ propValue p"
  have "10 \<notin> set t" if "mapE (formatParameter upper) qs = Inr ts" "t \<in> set ts" for qs ts t
    using that formatParameter_no_lf [OF assms(1)] by (induction qs arbitrary: ts) (auto simp: andThen_Inr)
  then have "10 \<notin> set ?line" using texts assms(4) name_no_lf [OF assms(1,2)] by auto
  then have "unfoldLines (foldLine ?line) = ?line" using folded_line by blast
  moreover have "formatProperty upper p = Inr (foldLine ?line)"
    using assms(2,4,5) texts by (simp add: formatProperty_def assertName_def assertNoLineBreak_def)
  ultimately show ?thesis using line_reads_back [OF assms(1,2) texts, of "propValue p"] by simp
qed

text \<open>A line that was written names its parameters.\<close>

lemma written_params:
  assumes "propertyLines upper p = Inr l"
  shows "\<forall>q \<in> set (propParams p). isName (paramName q)"
proof (cases "sourceMatches upper p")
  case True
  then show ?thesis using parsed_names(1) by (auto simp: sourceMatches_def split: option.splits sum.splits)
next
  case False
  then have "\<exists>ts. mapE (formatParameter upper) (propParams p) = Inr ts"
    using assms by (auto simp: propertyLines_def formatProperty_def andThen_Inr)
  then show ?thesis using mapE_ok [of "propParams p" "formatParameter upper"] formatParameter_ok by blast
qed

text \<open>A written property reads back as it is.\<close>

lemma propertyLines_read_back:
  assumes "upperOk upper" "isName (propName p)" "\<forall>q \<in> set (propParams p). isName (paramName q)"
    and "10 \<notin> set (propValue p)" "13 \<notin> set (propValue p)"
  shows "\<exists>l parsed. propertyLines upper p = Inr l \<and> parseContentLine (unfoldLines l) = Inr parsed \<and>
    lineName parsed = upper (propName p) \<and> lineValue parsed = propValue p \<and>
    lineParams parsed \<in> {propParams p, map (normalParameter upper) (propParams p)}"
proof (cases "sourceMatches upper p")
  case True
  then show ?thesis by (auto simp: propertyLines_def sourceMatches_def split: option.splits sum.splits)
next
  case False
  then show ?thesis using formatted_reads_back [OF assms] by (auto simp: propertyLines_def)
qed

text \<open>Replacing one property of a body, with the same identity, replaces its line.\<close>

lemma bodyLines_replace:
  assumes "bodyLines upper (as @ old # bs) kids = Inr ls" "propRef p = propRef old"
    and "propertyLines upper old = Inr l" "propertyLines upper p = Inr l'"
  shows "\<exists>pre post. ls = pre @ [l] @ post \<and> bodyLines upper (as @ p # bs) kids = Inr (pre @ [l'] @ post)"
proof -
  let ?group = "\<lambda>p. andThen (mapE id (map snd (filter (\<lambda>k. fst k = Some (propRef p)) kids)))
    (\<lambda>ls. andThen (propertyLines upper p) (\<lambda>l. Inr (concat ls @ [l])))"
  let ?trailing = "map snd (filter (\<lambda>k. fst k = None \<or> the (fst k) \<notin> set (map propRef (as @ old # bs))) kids)"
  have unfold: "bodyLines upper (as @ q # bs) kids =
      andThen (mapE ?group as) (\<lambda>a. andThen (?group q) (\<lambda>g. andThen (mapE ?group bs) (\<lambda>b.
        andThen (mapE id ?trailing) (\<lambda>t. Inr (concat a @ g @ concat b @ concat t)))))" if "propRef q = propRef old" for q
    using that by (simp add: bodyLines_def Let_def mapE_append andThen_assoc)
  obtain a g b t where *: "mapE ?group as = Inr a" "mapE id (map snd (filter (\<lambda>k. fst k = Some (propRef old)) kids)) = Inr g"
    "mapE ?group bs = Inr b" "mapE id ?trailing = Inr t" "ls = concat a @ (concat g @ [l]) @ concat b @ concat t"
    using assms(1,3) unfolding unfold [OF refl] by (auto simp: andThen_Inr)
  have "bodyLines upper (as @ p # bs) kids = Inr ((concat a @ concat g) @ [l'] @ (concat b @ concat t))"
    unfolding unfold [OF assms(2)] using * assms(2,4) by simp
  then show ?thesis using *(5) by (intro exI [of _ "concat a @ concat g"] exI [of _ "concat b @ concat t"]) simp
qed

text \<open>
  An edit rewrites its own line and no other. When \<open>setProperty\<close> changes a property of a component that can
  be written, the component is written as before except for that one line, wherever its other properties, nested
  components and their original folding stand, and the new line reads back as the property with its new value.
\<close>
theorem ical_edit_local:
  assumes "upperOk upper" "writeComponent upper c = Inr ls" "distinct (map propRef (compProperties c))"
    and "getProperty upper c name = Some old" "isName (propName old)" "setProperty upper ref c name v params = Inr (c', p)"
  shows "\<exists>pre post l l' parsed. ls = pre @ [l] @ post \<and> propertyLines upper old = Inr l \<and>
    writeComponent upper c' = Inr (pre @ [l'] @ post) \<and> parseContentLine (unfoldLines l') = Inr parsed \<and>
    lineName parsed = upper name \<and> lineValue parsed = v \<and>
    lineParams parsed \<in> {propParams p, map (normalParameter upper) (propParams p)}"
proof -
  obtain n ps cs source before where c: "c = Component n ps cs source before" by (cases c)
  let ?kids = "map (\<lambda>c. (compBefore c, writeComponent upper c)) cs"
  have old: "old \<in> set ps" "upper (propName old) = upper name"
    using assms(4) c by (auto simp: getProperty_def find_Some_iff)
  then obtain as bs where ps: "ps = as @ old # bs" by (meson split_list)
  have p: "p = old\<lparr>propValue := v, propParams := orElse params (propParams old)\<rparr>" "10 \<notin> set v" "13 \<notin> set v"
    "\<forall>q \<in> set (orElse params []). isName (paramName q)"
    "c' = Component n (map (\<lambda>q. if propRef q = propRef old then p else q) ps) cs source before"
    using assms(4,6) c mapE_ok [of "orElse params []" "\<lambda>q. assertName (paramName q) ''parameter''"]
    by (auto simp: setProperty_def andThen_Inr assertNoLineBreak_def assertName_def withProperties_def Let_def split: if_splits)
  have c': "c' = Component n (as @ p # bs) cs source before"
    using p(5) assms(3) c unfolding ps by (auto simp: map_other)
  obtain body where body: "bodyLines upper (as @ old # bs) ?kids = Inr body" "isName n"
    using assms(2) by (auto simp: c ps andThen_Inr assertName_def Let_def split: if_splits prod.splits)
  obtain l where l: "propertyLines upper old = Inr l"
    using body(1) by (auto simp: bodyLines_def Let_def mapE_append andThen_Inr)
  have "\<forall>q \<in> set (propParams p). isName (paramName q)"
    using written_params [OF l] p(1,4) by (cases params) auto
  then obtain l' parsed where l': "propertyLines upper p = Inr l'" "parseContentLine (unfoldLines l') = Inr parsed"
    "lineName parsed = upper name" "lineValue parsed = v" "lineParams parsed \<in> {propParams p, map (normalParameter upper) (propParams p)}"
    using propertyLines_read_back [OF assms(1), of p] p(1-3) assms(5) old(2) by auto
  obtain pre post where pre: "body = pre @ [l] @ post" "bodyLines upper (as @ p # bs) ?kids = Inr (pre @ [l'] @ post)"
    using bodyLines_replace [OF body(1) _ l l'(1)] p(1) by auto
  obtain begin0 end0 where source: "orElse source ([], []) = (begin0, end0)" by (cases "orElse source ([], [])")
  let ?b = "keptLine upper begin0 (u ''BEGIN'') (upper n)" and ?e = "keptLine upper end0 (u ''END'') (upper n)"
  have "ls = [?b] @ body @ [?e]" "writeComponent upper c' = Inr ([?b] @ (pre @ [l'] @ post) @ [?e])"
    using assms(2) body pre(2) c' source by (auto simp: c ps assertName_def Let_def)
  then show ?thesis using pre(1) l l'
    by (intro exI [of _ "?b # pre"] exI [of _ "post @ [?e]"] exI [of _ l] exI [of _ l'] exI [of _ parsed]) simp
qed

section \<open>Dates\<close>

lemma length_Suc_list: "length s = Suc n \<longleftrightarrow> (\<exists>x r. s = x # r \<and> length r = n)"
  by (cases s) auto

lemma validDate_shape:
  assumes "validDate date"
  obtains a b c d e f g h where "date = [a, b, c, d, CHR ''-'', e, f, CHR ''-'', g, h]"
    "list_all isDigit [a, b, c, d, e, f, g, h]"
proof -
  have p: "isoDatePattern date" using assms by (auto simp: validDate_def parseIsoDate_def split: if_splits)
  then have "length date = 10" by (simp add: isoDatePattern_def)
  then obtain a b c d x e f y g h where "date = [a, b, c, d, x, e, f, y, g, h]"
    by (auto simp: length_Suc_list numeral_eq_Suc)
  with p show thesis by (intro that [of a b c d e f g h]) (simp_all add: isoDatePattern_def)
qed

lemma clockTime_shape:
  assumes "clockTime s"
  obtains a b c d e f where "s = [a, b, CHR '':'', c, d, CHR '':'', e, f]" "list_all isDigit [a, b, c, d, e, f]"
    "readNat [a, b] \<le> 23" "readNat [c, d] \<le> 59" "readNat [e, f] \<le> 60"
proof -
  have "length s = 8" using assms by (simp add: clockTime_def)
  then obtain a b x c d y e f where "s = [a, b, x, c, d, y, e, f]" by (auto simp: length_Suc_list numeral_eq_Suc)
  with assms show thesis by (intro that [of a b c d e f]) (simp_all add: clockTime_def)
qed

lemma digit_unit: "isDigit c \<Longrightarrow> isDigitU (code c)" "isDigit c \<Longrightarrow> c \<noteq> CHR ''-'' \<and> c \<noteq> CHR '':''"
  by (auto simp: isDigit_def isDigitU_def code_def)

lemma char_of_code [simp]: "char_of (code c) = c"
  by (simp add: code_def)

lemma readU_two: "readU [code a, code b] = readNat [a, b]"
  using readU_u [of "[a, b]"] by (simp add: u_def)

lemma splitItems_plain: "92 \<notin> set s \<Longrightarrow> 44 \<notin> set s \<Longrightarrow> splitItems part s = [part @ s]"
  by (induction part s rule: splitItems.induct) auto

definition dateValueOk :: "IcalDateValue \<Rightarrow> bool" where
  "dateValueOk v \<longleftrightarrow> (valueKind v = DateKind \<longleftrightarrow> valueTime v = None) \<and> (valueKind v = ZonedKind \<longleftrightarrow> valueTzid v \<noteq> None)"

text \<open>The digits of an accepted value, as \<open>readDate\<close> takes them apart.\<close>

lemma read_digits:
  assumes "validDate (valueDate val)" "valueKind val \<noteq> DateKind \<longrightarrow> clockTime (orElse (valueTime val) [])" "dateValueOk val"
    and "propValue p = dateDigits val"
  shows "readDate upper p =
    (let isDate = map_option upper (firstValue upper p (u ''VALUE'')) = Some (u ''DATE'');
         floating = \<lparr>valueKind = FloatingKind, valueDate = valueDate val, valueTime = valueTime val, valueTzid = None\<rparr> in
     case valueKind val of
       DateKind \<Rightarrow> if isDate \<or> getParameter upper p (u ''VALUE'') = None then Some val else None
     | UtcKind \<Rightarrow> if isDate then None else Some val
     | _ \<Rightarrow> if isDate then None
            else (case firstValue upper p (u ''TZID'') of
                Some tzid \<Rightarrow> if tzid \<noteq> [] then Some (floating\<lparr>valueKind := ZonedKind, valueTzid := Some tzid\<rparr>) else Some floating
              | None \<Rightarrow> Some floating))"
proof -
  obtain a b c d e f g h where date: "valueDate val = [a, b, c, d, CHR ''-'', e, f, CHR ''-'', g, h]"
    "list_all isDigit [a, b, c, d, e, f, g, h]" by (rule validDate_shape [OF assms(1)])
  have digits: "filter (\<lambda>c. c \<noteq> CHR ''-'') (valueDate val) = [a, b, c, d, e, f, g, h]"
    using date digit_unit(2) by auto
  show ?thesis
  proof (cases "valueKind val = DateKind")
    case True
    then have v: "propValue p = map code [a, b, c, d, e, f, g, h]" using assms(4) digits by (simp add: dateDigits_def u_def)
    have "val = \<lparr>valueKind = DateKind, valueDate = valueDate val, valueTime = None, valueTzid = None\<rparr>"
      using assms(3) True by (cases val) (auto simp: dateValueOk_def)
    moreover have "digitsAt (propValue p) [0..<8]" using date(2) digit_unit(1) unfolding v
      by (auto simp: digitsAt_def upt_conv_Cons)
    moreover have "splitList (propValue p) = [propValue p]" unfolding v splitList_def
      using date(2) by (subst splitItems_plain) (auto simp: isDigit_def code_def)
    ultimately show ?thesis using assms(1) True date(1) v
      by (simp add: readDate_def Let_def plainText_def)
  next
    case False
    then obtain t where t: "valueTime val = Some t" "clockTime t" using assms(2,3) by (auto simp: dateValueOk_def)
    obtain i j k l m n where time: "t = [i, j, CHR '':'', k, l, CHR '':'', m, n]" "list_all isDigit [i, j, k, l, m, n]"
      "readNat [i, j] \<le> 23" "readNat [k, l] \<le> 59" "readNat [m, n] \<le> 60" by (rule clockTime_shape [OF t(2)])
    have clock: "filter (\<lambda>c. c \<noteq> CHR '':'') t = [i, j, k, l, m, n]" using time(1,2) digit_unit(2) by auto
    let ?raw = "map code [a, b, c, d, e, f, g, h] @ 84 # map code [i, j, k, l, m, n] @ (if valueKind val = UtcKind then [90] else [])"
    have v: "propValue p = ?raw" using assms(4) digits clock False t(1) by (simp add: dateDigits_def u_def code_def)
    have d8: "digitsAt ?raw [0..<8]" and d15: "digitsAt ?raw [9..<15]" using date(2) time(2) digit_unit(1)
      by (auto simp: digitsAt_def upt_conv_Cons nth_Cons numeral_eq_Suc)
    have one: "splitList ?raw = [?raw]" unfolding splitList_def
      using date(2) time(2) by (subst splitItems_plain) (auto simp: isDigit_def code_def)
    have nums: "numberAt ?raw 9 2 = int (readNat [i, j])" "numberAt ?raw 11 2 = int (readNat [k, l])" "numberAt ?raw 13 2 = int (readNat [m, n])"
      by (simp_all add: numberAt_def readU_two)
    have "val = \<lparr>valueKind = UtcKind, valueDate = valueDate val, valueTime = Some t, valueTzid = None\<rparr>" if "valueKind val = UtcKind"
      using assms(3) that t(1) by (cases val) (auto simp: dateValueOk_def)
    then show ?thesis using assms(1) False date(1) time d8 d15 one nums t(1) unfolding readDate_def v
      by (cases "valueKind val") (simp_all add: Let_def plainText_def split: option.split)
  qed
qed

lemma upper_words:
  assumes "upperOk upper"
  shows "upper (u ''VALUE'') = u ''VALUE''" "upper (u ''TZID'') = u ''TZID''" "upper (u ''DATE'') = u ''DATE''"
proof -
  have "list_all (\<lambda>c. c < 128) (u ''VALUE'')" "list_all (\<lambda>c. c < 128) (u ''TZID'')" "list_all (\<lambda>c. c < 128) (u ''DATE'')"
    "upperAscii (u ''VALUE'') = u ''VALUE''" "upperAscii (u ''TZID'') = u ''TZID''" "upperAscii (u ''DATE'') = u ''DATE''"
    by (simp_all add: u_def code_def upperAscii_def)
  then show "upper (u ''VALUE'') = u ''VALUE''" "upper (u ''TZID'') = u ''TZID''" "upper (u ''DATE'') = u ''DATE''"
    using assms by (auto simp: upperOk_def)
qed

lemma find_mem: "find P xs = Some x \<Longrightarrow> x \<in> set xs"
  by (induction xs) (auto split: if_splits)

lemma firstValue_Cons:
  "propParams p = \<lparr>paramName = n, paramValues = [v]\<rparr> # r \<Longrightarrow> upper n = upper w \<Longrightarrow> firstValue upper p w = Some v"
  by (simp add: firstValue_def getParameter_def)

lemma firstValue_skip:
  "propParams p = q # r \<Longrightarrow> upper (paramName q) \<noteq> upper w \<Longrightarrow> find (\<lambda>q. upper (paramName q) = upper w) r = None \<Longrightarrow>
    firstValue upper p w = None"
  by (simp add: firstValue_def getParameter_def)

text \<open>The parameters \<open>writeDate\<close> leaves.\<close>

lemma date_params:
  assumes "upperOk upper" "\<forall>q \<in> set existing. upper (paramName q) = paramName q" "propParams p = dateParams val existing"
  shows "valueKind val = DateKind \<Longrightarrow> firstValue upper p (u ''VALUE'') = Some (u ''DATE'')"
    and "valueKind val \<noteq> DateKind \<Longrightarrow> firstValue upper p (u ''VALUE'') = None"
    and "valueKind val = ZonedKind \<Longrightarrow> firstValue upper p (u ''TZID'') = Some (the (valueTzid val))"
    and "valueKind val = FloatingKind \<Longrightarrow> firstValue upper p (u ''TZID'') = None"
proof -
  note up = upper_words [OF assms(1)]
  have differ: "u ''TZID'' \<noteq> u ''VALUE''" by (simp add: u_def)
  let ?keep = "filter (\<lambda>q. paramName q \<noteq> u ''VALUE'' \<and> paramName q \<noteq> u ''TZID'') existing"
  have keep: "find (\<lambda>q. upper (paramName q) = upper w) ?keep = None" if "w = u ''VALUE'' \<or> w = u ''TZID''" for w
    using assms(2) that up(1,2) unfolding find_None_iff by auto
  have params: "propParams p = (case valueKind val of
        DateKind \<Rightarrow> \<lparr>paramName = u ''VALUE'', paramValues = [u ''DATE'']\<rparr> # ?keep
      | ZonedKind \<Rightarrow> \<lparr>paramName = u ''TZID'', paramValues = [the (valueTzid val)]\<rparr> # ?keep
      | _ \<Rightarrow> ?keep)"
    unfolding assms(3) dateParams_def Let_def ..
  have none: "firstValue upper p w = None" if "w = u ''VALUE'' \<or> w = u ''TZID''" "propParams p = ?keep" for w
    using keep [OF that(1)] by (simp only: firstValue_def getParameter_def that(2) option.case)
  show "firstValue upper p (u ''VALUE'') = Some (u ''DATE'')" if "valueKind val = DateKind"
    using params that by (intro firstValue_Cons [of _ "u ''VALUE''"]) simp_all
  show "firstValue upper p (u ''TZID'') = Some (the (valueTzid val))" if "valueKind val = ZonedKind"
    using params that by (intro firstValue_Cons [of _ "u ''TZID''"]) simp_all
  show "firstValue upper p (u ''TZID'') = None" if "valueKind val = FloatingKind"
    using params that none by simp
  show "firstValue upper p (u ''VALUE'') = None" if "valueKind val \<noteq> DateKind"
  proof (cases "valueKind val = ZonedKind")
    case True
    then have "propParams p = \<lparr>paramName = u ''TZID'', paramValues = [the (valueTzid val)]\<rparr> # ?keep" using params by simp
    moreover have "upper (paramName \<lparr>paramName = u ''TZID'', paramValues = [the (valueTzid val)]\<rparr>) \<noteq> upper (u ''VALUE'')"
      using differ by (simp only: up IcalParameter.simps not_False_eq_True)
    ultimately show ?thesis using keep [OF disjI1 [OF refl]] by (rule firstValue_skip)
  next
    case False
    then have "propParams p = ?keep" using params that by (cases "valueKind val") simp_all
    then show ?thesis using none by blast
  qed
qed

text \<open>
  What \<open>writeDate\<close> stores \<open>readDate\<close> reads. Whenever \<open>writeDate\<close> does not refuse a value, the property of that
  name reads back as exactly this value: its kind, its date, its time and its zone, whatever the property held
  before and whatever other parameters it keeps.
\<close>
theorem ical_date_roundtrip:
  assumes "upperOk upper" "writeDateProperty upper ref doc c name val = Inr (Inr (c', p))" "dateValueOk val"
    and "distinct (map propRef (compProperties c))"
    and "\<forall>e \<in> set (compProperties c). \<forall>q \<in> set (propParams e). upper (paramName q) = paramName q"
  shows "getProperty upper c' name = Some p \<and> readDate upper p = Some val"
proof -
  let ?name = "upper name" and ?match = "\<lambda>q. upper (propName q) = upper name"
  let ?params = "dateParams val (case getProperty upper c ?name of None \<Rightarrow> [] | Some p \<Rightarrow> propParams p)"
  have ok: "dateRefused upper doc c ?name val = Inr ()"
    and set: "setProperty upper ref c ?name (dateDigits val) (Some ?params) = Inr (c', p)"
    using assms(2) by (auto simp: writeDateProperty_def Let_def andThen_Inr split: sum.splits)
  have "isName ?name" using set by (auto simp: setProperty_def assertName_def split: if_splits)
  then have same: "upper ?name = ?name" by (rule upper_upper [OF assms(1)])
  have p: "propValue p = dateDigits val" "propParams p = ?params"
    using set by (auto simp: setProperty_def andThen_Inr Let_def split: option.splits)
  obtain n ps cs source before where c: "c = Component n ps cs source before" by (cases c)
  have "getProperty upper c' name = Some p"
  proof (cases "find ?match ps")
    case None
    then have "c' = Component n (ps @ [p]) cs source before" "propName p = ?name"
      using set same by (auto simp: c setProperty_def andThen_Inr getProperty_def Let_def withProperties_def)
    moreover have "find ?match (ps @ [p]) = Some p" if "find ?match ps = None" "?match p"
      using that by (induction ps) (auto split: if_splits)
    ultimately show ?thesis using None same by (simp add: getProperty_def)
  next
    case (Some e)
    then have "c' = Component n (map (\<lambda>q. if propRef q = propRef e then p else q) ps) cs source before" "propName p = propName e"
      using set same by (auto simp: c setProperty_def andThen_Inr getProperty_def Let_def withProperties_def)
    moreover have "find ?match (map (\<lambda>q. if propRef q = propRef e then p else q) ps) = Some p"
      if "find ?match ps = Some e" "distinct (map propRef ps)" "propName p = propName e"
      using that
    proof (induction ps)
      case (Cons x ps)
      then have "e \<in> set ps" if "\<not> ?match x" using that by (auto simp: find_Some_iff split: if_splits)
      with Cons show ?case by (auto split: if_splits)
    qed simp
    ultimately show ?thesis using Some assms(4) c by (simp add: getProperty_def)
  qed
  moreover have "readDate upper p = Some val"
  proof -
    have valid: "validDate (valueDate val)" "valueKind val \<noteq> DateKind \<longrightarrow> clockTime (orElse (valueTime val) [])"
      "valueKind val = ZonedKind \<longrightarrow> valueTzid val \<noteq> Some []"
      using ok by (auto simp: dateRefused_def Let_def icalFail_def split: if_splits list.splits)
    have "\<forall>q \<in> set (case getProperty upper c ?name of None \<Rightarrow> [] | Some p \<Rightarrow> propParams p). upper (paramName q) = paramName q"
    proof (cases "getProperty upper c ?name")
      case (Some e)
      then have "e \<in> set (compProperties c)" by (auto simp: getProperty_def dest: find_mem)
      then show ?thesis using Some assms(5) by simp
    qed simp
    note params = date_params [OF assms(1) this p(2)]
    have noValue: "valueKind val \<noteq> DateKind \<Longrightarrow> firstValue upper p (u ''VALUE'') = None" by (rule params(2))
    show ?thesis unfolding read_digits [OF valid(1,2) assms(3) p(1)]
      using params valid(3) assms(3) upper_words(3) [OF assms(1)]
      by (cases val; cases "valueKind val") (auto simp: Let_def dateValueOk_def)
  qed
  ultimately show ?thesis by simp
qed

section \<open>A small document\<close>

lemma upperAscii_ok: "upperOk upperAscii"
  by (auto simp: upperOk_def upperAscii_def split: if_splits)

definition smallText :: units where
  "smallText = [66, 69, 71, 73, 78, 58, 86, 10, 65, 58, 49, 10, 10, 69, 78, 68, 58, 86]"

definition smallDoc :: IcalComponent where
  "smallDoc = Component [86] [\<lparr>propRef = 0, propName = [65], propParams = [], propValue = [49], propSource = Some [65, 58, 49]\<rparr>] []
     (Some ([66, 69, 71, 73, 78, 58, 86], [69, 78, 68, 58, 86])) None"

lemma small_lines:
  "splitLines smallText = [[66, 69, 71, 73, 78, 58, 86], [65, 58, 49], [], [69, 78, 68, 58, 86]]"
  "parseContentLine [66, 69, 71, 73, 78, 58, 86] = Inr \<lparr>lineName = u ''BEGIN'', lineParams = [], lineValue = [86]\<rparr>"
  "parseContentLine [65, 58, 49] = Inr \<lparr>lineName = [65], lineParams = [], lineValue = [49]\<rparr>"
  "parseContentLine [69, 78, 68, 58, 86] = Inr \<lparr>lineName = u ''END'', lineParams = [], lineValue = [86]\<rparr>"
  by (simp_all add: smallText_def parseContentLine_def nameUnit_def isDigitU_def paramLoop.simps upperAscii_def u_def code_def)

lemma small_parse: "parseIcal upperAscii None None smallText = Inr smallDoc"
proof -
  have n: "numberedLines smallText = [([66, 69, 71, 73, 78, 58, 86], 1), ([65, 58, 49], 2), ([69, 78, 68, 58, 86], 4)]"
    by (simp add: numberedLines_def small_lines(1) upt_conv_Cons)
  have "length smallText = 18" by (simp add: smallText_def)
  moreover have "\<not> prefix [0xfeff] smallText" by (simp add: smallText_def)
  ultimately show ?thesis
    by (simp add: parseIcal_def n continues_def logicalLine_def small_lines blockLine_def propertyLine_def DEFAULT_MAX_BYTES_def
        DEFAULT_MAX_DEPTH_def isName_def nameUnit_def upperAscii_def closed_def smallDoc_def Let_def u_def code_def)
qed

theorem ical_written_back_witness:
  "serializeIcal upperAscii smallDoc =
    Inr (joinUnits CRLF [[66, 69, 71, 73, 78, 58, 86], [65, 58, 49], [69, 78, 68, 58, 86]] @ CRLF)"
proof -
  have "\<not> prefix [0xfeff] smallText" by (simp add: smallText_def)
  then show ?thesis using ical_written_back [OF upperAscii_ok small_parse] by (simp add: small_lines(1))
qed

lemma small_unfolded: "unfoldLines [66, 69, 71, 73, 78, 58, 86] = [66, 69, 71, 73, 78, 58, 86]"
    "unfoldLines [65, 58, 49] = [65, 58, 49]" "unfoldLines [69, 78, 68, 58, 86] = [69, 78, 68, 58, 86]"
  by (rule unfold_last, simp)+

lemma small_written: "writeComponent upperAscii smallDoc = Inr [[66, 69, 71, 73, 78, 58, 86], [65, 58, 49], [69, 78, 68, 58, 86]]"
  by (simp add: smallDoc_def assertName_def isName_def nameUnit_def bodyLines_def propertyLines_def sourceMatches_def small_unfolded
      small_lines keptLine_def upperAscii_def u_def code_def Let_def del: unfoldLines.simps)

theorem ical_edit_local_witness:
  "\<exists>c' p. setProperty upperAscii 1 smallDoc [65] [50] None = Inr (c', p) \<and>
    (\<exists>l'. writeComponent upperAscii c' = Inr ([[66, 69, 71, 73, 78, 58, 86]] @ [l'] @ [[69, 78, 68, 58, 86]]))"
proof -
  let ?old = "\<lparr>propRef = 0, propName = [65], propParams = [], propValue = [49], propSource = Some [65, 58, 49]\<rparr>"
  have old: "getProperty upperAscii smallDoc [65] = Some ?old" by (simp add: getProperty_def smallDoc_def)
  have "isName [65]" by (simp add: isName_def nameUnit_def)
  then obtain c' p where set: "setProperty upperAscii 1 smallDoc [65] [50] None = Inr (c', p)"
    by (auto simp: setProperty_def assertName_def assertNoLineBreak_def old Let_def)
  have d: "distinct (map propRef (compProperties smallDoc))" by (simp add: smallDoc_def)
  have "propertyLines upperAscii ?old = Inr [65, 58, 49]"
    by (simp add: propertyLines_def sourceMatches_def foldBreak_def small_lines upperAscii_def)
  then obtain pre post l' where w: "[[66, 69, 71, 73, 78, 58, 86], [65, 58, 49], [69, 78, 68, 58, 86]] = pre @ [[65, 58, 49]] @ post"
    "writeComponent upperAscii c' = Inr (pre @ [l'] @ post)"
    using ical_edit_local [OF upperAscii_ok small_written d old _ set] \<open>isName [65]\<close> by fastforce
  from w(1) have "pre = [[66, 69, 71, 73, 78, 58, 86]]" "post = [[69, 78, 68, 58, 86]]"
    by (auto simp: Cons_eq_append_conv append_eq_Cons_conv)
  with w(2) set show ?thesis by auto
qed

theorem ical_date_roundtrip_witness:
  "\<exists>c' p. writeDateProperty upperAscii 1 None smallDoc (u ''DUE'')
      \<lparr>valueKind = DateKind, valueDate = ''2026-07-01'', valueTime = None, valueTzid = None\<rparr> = Inr (Inr (c', p)) \<and>
    readDate upperAscii p = Some \<lparr>valueKind = DateKind, valueDate = ''2026-07-01'', valueTime = None, valueTzid = None\<rparr>"
proof -
  let ?val = "\<lparr>valueKind = DateKind, valueDate = ''2026-07-01'', valueTime = None, valueTzid = None\<rparr>"
  have "parseIsoDate ''2026-07-01'' = Inr 1782864000000" by code_simp
  moreover have "\<not> strLess ''2026-07-01'' ''0100''" by code_simp
  ultimately have valid: "validDate ''2026-07-01''" by (simp add: validDate_def)
  have up: "upperAscii (u ''DUE'') = u ''DUE''" by (simp add: u_def code_def upperAscii_def)
  have none: "getProperty upperAscii smallDoc n = None" if "upperAscii n \<noteq> [65]" for n
    using that by (simp add: getProperty_def smallDoc_def upperAscii_def)
  have due: "getProperty upperAscii smallDoc (u ''DUE'') = None" "getProperty upperAscii smallDoc (u ''DTSTART'') = None"
    by (rule none, simp add: u_def code_def upperAscii_def)+
  have "mismatched upperAscii smallDoc (u ''DUE'') True = []"
    unfolding mismatched_def using due by (simp add: PAIRED_def u_def code_def)
  then have ok: "dateRefused upperAscii None smallDoc (u ''DUE'') ?val = Inr ()"
    using valid due by (simp add: dateRefused_def Let_def UTC_ONLY_def u_def code_def)
  have "isName (u ''DUE'')" "isName (u ''VALUE'')" by (simp_all add: isName_def nameUnit_def u_def code_def)
  moreover have "10 \<notin> set (dateDigits ?val)" "13 \<notin> set (dateDigits ?val)" by (simp_all add: dateDigits_def u_def code_def)
  ultimately obtain c' p where w: "writeDateProperty upperAscii 1 None smallDoc (u ''DUE'') ?val = Inr (Inr (c', p))"
    using due by (auto simp: writeDateProperty_def ok up setProperty_def assertName_def assertNoLineBreak_def dateParams_def Let_def simp del: u_Cons)
  have "dateValueOk ?val" "distinct (map propRef (compProperties smallDoc))"
    "\<forall>e \<in> set (compProperties smallDoc). \<forall>q \<in> set (propParams e). upperAscii (paramName q) = paramName q"
    by (simp_all add: dateValueOk_def smallDoc_def)
  from ical_date_roundtrip [OF upperAscii_ok w this] w show ?thesis by auto
qed

end
