(* ===== verification/Spec2Isabelle.thy ===== *)
theory Spec2Isabelle
  imports LockoutStore RateLimitStore IpAddress Date Csv Exchange CronRuns IdempotencyRun IcsCore EmailCode Period RruleProofs QuotaRun IcalProofs
begin

text \<open>
  A development of the core logic of the TypeScript library: each theory translates one or two source
  modules into definitions that compute, and proves what they promise. Paths below are under \<open>src/\<close>.

  \<^bold>\<open>Values.\<close> Prelude holds the JavaScript values that cross an interface: numbers with infinities and NaN
  (\<open>jsnum\<close>), errors, insertion-ordered maps (\<open>jsmap\<close>), time stamps with "never" and "already". Strings
  (Latin-1 texts as character lists) and Units (UTF-16 code units as lists of naturals, with the character
  class \<open>\s\<close>, splitting, joining, surrogate pairs) hold the string methods; JsonValue the values
  \<open>JSON.stringify\<close> and \<open>JSON.parse\<close> carry. Once the code has checked a number it is an \<open>int\<close> or an exact
  rational: the components stay inside the safe range, where double arithmetic on them is exact. The one sum of
  unchecked numbers rounds as a double does (Doubles). A throw
  is \<open>Inl\<close> of an error; a method that mutates its object and may throw returns the new state with it.

  \<^bold>\<open>Lockout\<close> (\<open>server/lockout/mod.ts\<close>, \<open>memory-store.ts\<close>). Lockout has the policy, the delay and one
  counter's check (\<open>lockDelayMs\<close>, \<open>beginCheck\<close>); LockoutStore the flow \<open>createLockout\<close> over any store, the
  contract of \<open>LockoutStore.update\<close> as locale \<open>lockout_store\<close>, and \<open>MemoryLockoutStore\<close> with its sweep and
  cap, which interprets it. Shown: a lock lets nobody through before it ends, whatever the other calls;
  the checks of a burst are bounded; the store keeps its cap; sweeping is invisible to a caller.

  \<^bold>\<open>Rate limiter\<close> (\<open>platform/rate-limit/memory.ts\<close>, \<open>kv.ts\<close>). RateLimit has \<open>MemoryRateLimiter\<close> (check,
  refund, sweep, cap); RateLimitStore has \<open>StoreRateLimiter\<close> over the store port and the port over a
  key/value backend (locales \<open>rate_store\<close> and \<open>rate_kv\<close>, the second giving the first, interpreted on the
  Deno adapter). Shown: no window holds more than the limit, \<open>retryAfterMs\<close> is exact, memory is bounded,
  and both limiters refine one log of granted requests, so they decide alike.

  \<^bold>\<open>IP addresses\<close> (\<open>net/ip.ts\<close>, \<open>net/_ipv6.ts\<close>). IpAddress: parsing, RFC 5952 spelling, CIDR ranges on 8-bit
  words. Shown: the canonical spelling reads back; the byte loop with its mask compares exactly the
  leading bits; every range is validated before an answer.

  \<^bold>\<open>Calendar dates\<close> (\<open>time/date.ts\<close>). Calendar is the proleptic Gregorian calendar of ECMAScript dates, Date
  the module on it. Shown: \<open>parseIsoDate\<close> accepts exactly the real dates of years 0 to 9999; month and week
  arithmetic is exact; each file layout reads back.

  \<^bold>\<open>Time zones\<close> (\<open>time/tz.ts\<close>, \<open>formatter-cache.ts\<close>). Tz has the module, with what \<open>Intl\<close> prints as the record
  \<open>Intl\<close>; TzClock states what it documents for a zone at a known offset (\<open>keepsTime\<close>): the local clock, and the
  offset where it is in whole minutes. Shown, for years 100 to 9998 and at most one change of offset in the day
  before and after, from whole minutes to whole minutes: a wall clock resolves to exactly the instants that read
  it, gaps and repeated hours included; readings of an instant lead back to it; days step as in the calendar; the formatter cache never changes an answer.

  \<^bold>\<open>Periods\<close> (\<open>time/period.ts\<close>, the labels of \<open>time/locale.ts\<close>). Period: weeks and months as date ranges. Shown:
  periods tile the calendar and shifts add up.

  \<^bold>\<open>Instants of calendar files\<close> (\<open>time/ical-timezone.ts\<close>, \<open>windows-zones.ts\<close>, \<open>resolveInstant\<close> of
  \<open>time/ical.ts\<close>). IcalZone: the rules of a \<open>VTIMEZONE\<close>. Shown: a wall clock resolves to the first instant at
  which the clock the rules define reads it.

  \<^bold>\<open>Repeat rules\<close> (\<open>time/rrule.ts\<close>). RruleText reads and writes \<open>RRULE\<close> values, RruleDays selects the days of a
  period and walks a series (the loop is a partial function), RruleProofs relates the walk to the set of days the
  rule selects. Shown: a parsed rule reads back from its written form; for a task with a plain
  date (and no \<open>UNTIL\<close> in UTC, no weekday listed twice where that counts) the next occurrence is the first
  selected day after the moment and a range holds exactly its selected days; and an end in the years 10000 to
  19999 empties a range. Starts with a time of day are modelled; the theorems do not cover them.

  \<^bold>\<open>CSV\<close> (\<open>platform/universal/csv.ts\<close>, \<open>csv-read.ts\<close>). Csv: no cell a reader splits out of a written text opens
  a formula, and the bounded scan of a written file reports its rows and columns. \<open>@std/csv\<close> and the text
  decoders are parameters.

  \<^bold>\<open>Money\<close> (\<open>platform/universal/money-core.ts\<close>, \<open>money-currencies.ts\<close>). Money has amounts, typed text, file
  columns, sums and splits; Exchange formatting, conversion and derived rates. \<open>Intl\<close> is a parameter.
  Shown: amounts round-trip, columns are read exactly or refused, splits add up, conversion rounds the
  exact rational once, the search for enough decimal places returns and its rate is accurate.

  \<^bold>\<open>Cron\<close> (\<open>time/cron.ts\<close>). Cron has the parser, the next-run loop (a partial function, since it need not
  return) and the label; CronRuns the minutes a schedule names. Shown: a parsed schedule is well formed and
  its next run is the first named minute after the moment, within 400 years; and two inputs where the loop
  goes wrong (a jump in the years 0 to 99, and the end of the time range).

  \<^bold>\<open>Idempotency\<close> (\<open>server/idempotency/idempotency.ts\<close>, \<open>memory.ts\<close>). Idempotency has keys, fingerprints, the
  in-memory store and the contract \<open>idem_store\<close> it interprets; IdempotencyRun the middleware over any store.
  What other requests do while one sleeps or runs is a parameter. Shown: a command runs once, a claim is
  exclusive while its lease lasts, a failing store never replaces the outcome, and the wait returns for options in
  whole milliseconds. The options are unchecked doubles, added up by \<open>js_add\<close> of theory Doubles (IEEE 754
  binary64, ties to even): with NaN, or a sum that stays where it is, the wait need not end, which is shown too.

  \<^bold>\<open>iCalendar lines\<close> (\<open>time/ics-core.ts\<close>). IcsCore: escaping, folding at 75 octets, unfolding. Shown: values
  read back and cannot end their line; a folded line unfolds to itself within its limits.

  \<^bold>\<open>iCalendar documents\<close> (\<open>time/ical.ts\<close>). Ical: content lines, the component tree, writing it back, edits of
  properties, lists and dates; a property object has a number, so that the order of interleaved components can
  refer to it. IcalProofs keeps, along the parse loop, what the open components would write. Shown: an untouched
  document is written back line for line, an edit rewrites its own line only, a date written reads back.

  \<^bold>\<open>Mail addresses\<close> (\<open>email/address.ts\<close>). Address: reading and writing mailboxes, recipient lists, the bare
  address of a form field. Shown: what is accepted cannot end a header line and reads back from its
  written form; bare addresses are in one normal form.

  \<^bold>\<open>Sign-in store\<close> (\<open>server/auth/memory-store.ts\<close>, \<open>input.ts\<close>, \<open>model.ts\<close>, \<open>store.ts\<close>). AuthStore has
  \<open>MemoryAuthStore\<close>, one definition per method, with the input checks; addresses are normalised by theory
  Address. AuthStoreProofs runs any sequence of calls. Shown: the tables stay consistent and a refused
  call changes nothing, a proven address stays with its owner, guesses are bounded and codes single-use.

  \<^bold>\<open>Email codes\<close> (\<open>server/auth/email-code.ts\<close>). EmailCode has both providers over a record of store operations;
  locale \<open>auth_store\<close> states what they rely on and is interpreted on \<open>MemoryAuthStore\<close>. Hashing, random
  bytes, mail, second factor and sessions are arguments. Shown: a code signs in the owner of the address
  and nobody else and no address changes hands, a refusal changes no account, the right code works once, and a code bound to a user
  proves the address for that user only.

  \<^bold>\<open>Quotas\<close> (\<open>server/quota.ts\<close>). Quota has the five methods of the meter as programs of store calls; QuotaRun
  runs any number of them at once, one store call a step, over a store that may reject any call (locale
  \<open>quota_store\<close>, interpreted on the statements the module documents). Shown: no interleaving hands out more
  than the budgets; a reservation takes all its units or none; a refund undoes its reservation.

  \<^bold>\<open>Loops.\<close> Structural loops are \<open>fun\<close>; index loops carry a measure; \<open>cronLoop\<close>, \<open>placesLoop\<close>,
  \<open>walkLoop\<close> and \<open>awaitClaim\<close>, which could run on, are \<open>partial_function (option)\<close> and are proved to return where they do.
  No fuel is used.

  \<^bold>\<open>Not modelled.\<close> Adapters whose logic is the service they call (Postgres, Redis, SQLite, S3, SMTP, fetch,
  browser storage, WebSocket), so the Postgres stores are represented by the contracts only; code whose
  core is a library call (cryptography, \<open>Intl\<close>, images, WebAuthn, markdown); types, re-exports and tests.
  Pure modules still to come: calendar tasks (\<open>time/ics.ts\<close>, \<open>ical-tasks-*.ts\<close>), the other sign-in flows over the store (\<open>server/auth/password.ts\<close>, \<open>oauth.ts\<close>),
  the outbox processor, and the realtime client's state machines.
\<close>

end
